(* ===== verification/Snet_Prelude.thy ===== *)
theory Snet_Prelude
  imports Main "HOL-Library.Word" "HOL-Library.Multiset"
begin

text \<open>
  Shared vocabulary of the snet development: the machine integers of the C++ sources
  (\<open>uint8_t\<close> \dots \<open>uint64_t\<close>), byte strings (\<open>char\<close> is one byte, as in C),
  in-place writes into a byte array (\<open>memcpy\<close>), and the generic facts on lists and words
  that several components use. The collections \<open>snet_defs\<close> (definitions the component
  proofs unfold) and \<open>snet_frame\<close> (fields an operation leaves alone) are filled by the
  component theories.
\<close>

unbundle bit_operations_syntax

named_theorems snet_defs "definitions unfolded by the component proofs"
named_theorems snet_frame "fields that an operation leaves unchanged"

type_synonym u8 = "8 word"
type_synonym u16 = "16 word"
type_synonym u32 = "32 word"
type_synonym u64 = "64 word"
type_synonym bytes = string

section \<open>Byte arrays\<close>

text \<open>\<open>memcpy(&buf[pos], src, length src)\<close>: an in-place write, for a target that holds it.\<close>

definition mem_write :: "'a list \<Rightarrow> nat \<Rightarrow> 'a list \<Rightarrow> 'a list" where
  "mem_write buf pos src = take pos buf @ src @ drop (pos + length src) buf"

text \<open>The \<open>len\<close> bytes that start at \<open>pos\<close>.\<close>

definition slice :: "'a list \<Rightarrow> nat \<Rightarrow> nat \<Rightarrow> 'a list" where
  "slice xs pos len = take len (drop pos xs)"

lemma length_mem_write [simp]:
  "pos + length src \<le> length buf \<Longrightarrow> length (mem_write buf pos src) = length buf"
  by (simp add: mem_write_def)

lemma nth_mem_write:
  assumes "pos + length src \<le> length buf" and "i < length buf"
  shows "mem_write buf pos src ! i =
    (if i < pos then buf ! i else if i < pos + length src then src ! (i - pos) else buf ! i)"
  using assms by (auto simp: mem_write_def nth_append min_def)

lemma slice_mem_write [simp]:
  "pos + length src \<le> length buf \<Longrightarrow> slice (mem_write buf pos src) pos (length src) = src"
  by (simp add: slice_def mem_write_def)

lemma mem_write_mem_write [simp]:
  "length ys = length xs \<Longrightarrow> pos + length xs \<le> length buf \<Longrightarrow>
   mem_write (mem_write buf pos xs) pos ys = mem_write buf pos ys"
  by (simp add: mem_write_def)

lemma length_slice [simp]: "length (slice xs pos len) = min len (length xs - pos)"
  by (simp add: slice_def)

lemma nth_slice: "i < len \<Longrightarrow> pos + i < length xs \<Longrightarrow> slice xs pos len ! i = xs ! (pos + i)"
  by (simp add: slice_def)

lemma slice_0 [simp]: "slice xs pos 0 = []"
  by (simp add: slice_def)

lemma slice_append_slice:
  "slice xs pos (m + n) = slice xs pos m @ slice xs (pos + m) n"
  by (simp add: slice_def take_add add.commute)

lemma mod_wrap:
  fixes r i N :: nat
  assumes "r < N" and "i < N" and "\<not> r + i < N"
  shows "(r + i) mod N = r + i - N" and "(r + i) mod N < r"
proof -
  show "(r + i) mod N = r + i - N" using assms by (simp add: le_mod_geq)
  with assms show "(r + i) mod N < r" by linarith
qed

section \<open>Words\<close>

text \<open>Masking with \<open>2 ^ k - 1\<close> is the remainder modulo \<open>2 ^ k\<close>.\<close>

lemma unat_u32_less [simp]: "unat (x :: u32) < 4294967296"
  using unsigned_less [of x, where 'a = nat] by simp

lemma unat_and_mask_pow2:
  fixes x b :: u32
  assumes "unat b = 2 ^ k"
  shows "unat (x AND (b - 1)) = unat x mod 2 ^ k"
proof -
  have "2 ^ k < (2::nat) ^ 32"
    using unat_u32_less [of b] assms by simp
  then have k: "k < 32"
    by (rule power_less_imp_less_exp [rotated]) simp
  have "b = of_nat (unat b)"
    by simp
  then have "b = 2 ^ k"
    using assms by simp
  then have "x AND (b - 1) = take_bit k x"
    by (simp only: take_bit_eq_mask mask_eq_decr_exp)
  moreover have "unat (take_bit k x) = take_bit k (unat x)"
    by (rule unsigned_take_bit_eq)
  ultimately show ?thesis
    by (simp only: take_bit_eq_mod)
qed

lemma word_top_bit:
  fixes m :: "'a::len word"
  assumes "m \<noteq> 0"
  obtains t where "t < LENGTH('a)" "bit m t" "\<And>l. bit m l \<Longrightarrow> l \<le> t" "2 ^ t \<le> unat m" "unat m < 2 ^ Suc t"
proof -
  let ?B = "{l. bit m l}"
  have fin: "finite ?B"
    by (rule finite_subset [of _ "{..<LENGTH('a)}"]) (auto dest: bit_imp_le_length)
  have ne: "?B \<noteq> {}" using assms by (auto simp: bit_eq_iff)
  define t where "t = Max ?B"
  have t: "bit m t" "\<And>l. bit m l \<Longrightarrow> l \<le> t"
    using Max_in [OF fin ne] Max_ge [OF fin] by (auto simp: t_def)
  have t32: "t < LENGTH('a)" using t(1) by (rule bit_imp_le_length)
  have "take_bit (Suc t) m = m"
    by (rule bit_eqI) (auto simp: bit_take_bit_iff less_Suc_eq_le dest: t(2))
  then have "take_bit (Suc t) (unat m) = unat m"
    by (metis unsigned_take_bit_eq)
  then have up: "unat m < 2 ^ Suc t"
    by (metis take_bit_nat_less_exp)
  have low: "2 ^ t \<le> unat m"
  proof (rule ccontr)
    assume "\<not> 2 ^ t \<le> unat m"
    then have "take_bit t (unat m) = unat m" by (simp add: take_bit_nat_eq_self)
    then have "\<not> bit (unat m) t" by (metis bit_take_bit_iff less_irrefl)
    then show False using t(1) by (simp add: bit_unsigned_iff)
  qed
  show ?thesis using that [OF t32 t low up] .
qed

text \<open>\<open>x & (x - 1)\<close> is zero only for powers of two (and zero).\<close>

lemma and_pred_eq_0:
  fixes x :: "'a::len word"
  assumes "x AND (x - 1) = 0" and "x \<noteq> 0"
  shows "\<exists>t. unat x = 2 ^ t"
proof -
  obtain t where t: "bit x t" "2 ^ t \<le> unat x" "unat x < 2 ^ Suc t"
    using word_top_bit [OF assms(2)] by blast
  have pred: "unat (x - 1) = unat x - 1"
    using assms(2) by (simp add: unat_minus_one)
  have "\<not> bit (x - 1) t"
    using assms(1) t(1) by (metis bit_0_eq bit_and_iff bot_apply bot_bool_def)
  then have "\<not> 2 ^ t \<le> unat x - 1"
  proof (rule contrapos_nn)
    assume "2 ^ t \<le> unat x - 1"
    then have "(unat x - 1) div 2 ^ t = 1"
      using t(3) by (intro div_nat_eqI) auto
    then have "bit (unat (x - 1)) t"
      by (simp add: bit_iff_odd pred)
    then show "bit (x - 1) t"
      by (simp add: bit_unsigned_iff)
  qed
  with t(2) show ?thesis
    by (intro exI [of _ t]) linarith
qed

section \<open>Decimal numbers\<close>

text \<open>\<open>std::to_string\<close>.\<close>

fun nat_string :: "nat \<Rightarrow> bytes" where
  "nat_string n = (if n < 10 then [char_of (48 + n)] else nat_string (n div 10) @ [char_of (48 + n mod 10)])"

declare nat_string.simps [simp del]

text \<open>The number a decimal string denotes.\<close>

definition digits_from :: "nat \<Rightarrow> bytes \<Rightarrow> nat" where
  "digits_from n s = foldl (\<lambda>n c. n * 10 + (of_char c - 48)) n s"

definition string_value :: "bytes \<Rightarrow> nat" where
  "string_value s = digits_from 0 s"

lemma digits_from_simps [simp]:
  "digits_from n [] = n" "digits_from n (c # s) = digits_from (n * 10 + (of_char c - 48)) s"
  "digits_from n (s @ t) = digits_from (digits_from n s) t"
  by (simp_all add: digits_from_def)

definition decimal :: "bytes \<Rightarrow> bool" where
  "decimal s \<longleftrightarrow> list_all (\<lambda>c. 48 \<le> (of_char c :: nat) \<and> (of_char c :: nat) \<le> 57) s"

lemma digit_char: "m < 10 \<Longrightarrow> of_char (char_of (48 + m) :: char) = 48 + (m :: nat)"
  by simp

lemma nat_string_value: "string_value (nat_string n) = n"
proof (induction n rule: nat_string.induct)
  case (1 n)
  show ?case
  proof (cases "n < 10")
    case True
    with digit_char [of n] show ?thesis by (subst nat_string.simps) (simp add: string_value_def)
  next
    case False
    with 1 digit_char [of "n mod 10"] show ?thesis by (subst nat_string.simps) (simp add: string_value_def)
  qed
qed

lemma nat_string_digits: "decimal (nat_string n)"
proof (induction n rule: nat_string.induct)
  case (1 n)
  show ?case
  proof (cases "n < 10")
    case True
    with digit_char [of n] show ?thesis by (subst nat_string.simps) (simp add: decimal_def)
  next
    case False
    with 1 digit_char [of "n mod 10"] show ?thesis by (subst nat_string.simps) (simp add: decimal_def)
  qed
qed

lemma nat_string_not_Nil [simp]: "nat_string n \<noteq> []"
  by (subst nat_string.simps) simp

lemma digits_from_mono: "n \<le> digits_from n s"
proof (induction s arbitrary: n)
  case (Cons c s)
  have "n \<le> n * 10 + (of_char c - 48)" by simp
  also have "\<dots> \<le> digits_from (n * 10 + (of_char c - 48)) s" by (rule Cons)
  finally show ?case by simp
qed simp

text \<open>A decimal string without leading zeros is the one that \<open>std::to_string\<close> gives.\<close>

lemma nat_string_string_value:
  assumes "decimal s" "s \<noteq> []" "hd s \<noteq> CHR ''0'' \<or> s = ''0''"
  shows "nat_string (string_value s) = s"
  using assms
proof (induction s rule: rev_induct)
  case (snoc c s)
  define d where "d = of_char c - (48 :: nat)"
  from snoc.prems(1) have d: "d < 10" and c: "c = char_of (48 + d)" by (auto simp: d_def decimal_def)
  show ?case
  proof (cases "s = []")
    case True
    with d c show ?thesis by (subst nat_string.simps) (simp add: string_value_def flip: d_def)
  next
    case False
    with snoc.prems have h: "hd s \<noteq> CHR ''0''" "decimal s" by (auto simp: decimal_def)
    then have IH: "nat_string (string_value s) = s" using snoc.IH False by blast
    have "string_value s > 0"
    proof (cases s)
      case (Cons e t)
      have "char_of (48 :: nat) = CHR ''0''" by code_simp
      with h Cons have "(of_char e :: nat) \<noteq> 48" "48 \<le> (of_char e :: nat)"
        by (auto simp: decimal_def dest!: arg_cong [where f = "char_of :: nat \<Rightarrow> char"])
      then have "0 < of_char e - (48 :: nat)" by linarith
      with digits_from_mono [of "of_char e - 48" t] Cons show ?thesis by (simp add: string_value_def)
    qed (use False in simp)
    moreover have "string_value (s @ [c]) = string_value s * 10 + d" by (simp add: string_value_def d_def)
    ultimately show ?thesis using IH d c by (subst nat_string.simps) simp
  qed
qed simp

text \<open>Only the notation of zero starts with a zero.\<close>

lemma nat_string_hd: "10 \<le> n \<Longrightarrow> hd (nat_string n) \<noteq> CHR ''0''"
proof (induction n rule: nat_string.induct)
  case (1 n)
  have nz: "(char_of (48 + m) :: char) \<noteq> CHR ''0''" if "0 < m" "m < 10" for m :: nat
  proof
    assume "(char_of (48 + m) :: char) = CHR ''0''"
    then have "(of_char (char_of (48 + m) :: char) :: nat) = of_char CHR ''0''" by (rule arg_cong)
    with digit_char [OF that(2)] that show False by simp
  qed
  from 1 have "hd (nat_string n) = hd (nat_string (n div 10))" by (subst nat_string.simps) simp
  also have "\<dots> \<noteq> CHR ''0''"
  proof (cases "n div 10 < 10")
    case True
    with 1(2) nz [of "n div 10"] show ?thesis by (subst nat_string.simps) simp
  qed (use 1 in simp)
  finally show ?case .
qed

lemma digits_from_bound: "decimal s \<Longrightarrow> digits_from n s < (n + 1) * 10 ^ length s"
proof (induction s arbitrary: n)
  case (Cons c s)
  then have "digits_from (n * 10 + (of_char c - 48)) s < (n * 10 + (of_char c - 48) + 1) * 10 ^ length s"
    by (simp add: decimal_def)
  also have "\<dots> \<le> (n * 10 + 10) * 10 ^ length s" using Cons.prems by (intro mult_right_mono) (auto simp: decimal_def)
  finally show ?case by (simp add: algebra_simps)
qed simp

end
