(* ===== verification/Loop_Buffer.thy ===== *)
theory Loop_Buffer
  imports Snet_Prelude
begin

text \<open>
  \<open>include/utils/loop_buffer.h\<close>: the lock-free single-producer ring \<open>LoopBuffer\<close>. The two
  counters run freely over \<open>uint32_t\<close> and wrap; positions are the counters masked with
  \<open>BufferSize - 1\<close>. First the code, then its contract as the locale \<open>byte_fifo\<close> (a
  bounded byte queue), then the refinement of the ring to that contract.

  The template parameter \<open>kMaxSize\<close> enters through \<open>BufferSize\<close>; the operations take
  the resulting size \<open>BS\<close>. A \<open>DataHandler\<close> or \<open>Encrypter\<close> gets a writable segment, so
  it is a function from its own state and the segment to both; \<open>None\<close> is the null
  \<open>std::function\<close>, whose call throws. The mutex and the barriers do not appear: every
  operation is one atomic step here.
\<close>

section \<open>The code\<close>

record loop_buffer =
  lb_head :: u32
  lb_buffer :: bytes
  lb_tail :: u32

datatype lb_error = Bad_function_call

type_synonym 'h segment_handler = "'h \<Rightarrow> bytes \<Rightarrow> 'h \<times> bytes"

definition get_power_of_two :: "u32 \<Rightarrow> u32" where
  "get_power_of_two n =
     (let n = n - 1;
          n = n OR drop_bit 1 n;
          n = n OR drop_bit 2 n;
          n = n OR drop_bit 4 n;
          n = n OR drop_bit 8 n;
          n = n OR drop_bit 16 n
      in n + 1)"

definition BufferSize :: "u64 \<Rightarrow> u32" where
  "BufferSize kMaxSize =
     (if kMaxSize AND (kMaxSize - 1) \<noteq> 0 then get_power_of_two (ucast kMaxSize)
      else ucast kMaxSize)"

definition lb_init :: "u32 \<Rightarrow> bytes \<Rightarrow> loop_buffer" where
  "lb_init BS mem = \<lparr>lb_head = 0, lb_buffer = take (unat BS) mem, lb_tail = 0\<rparr>"

definition lb_push :: "u32 \<Rightarrow> loop_buffer \<Rightarrow> bytes \<Rightarrow> u32 \<Rightarrow> u32 \<times> loop_buffer" where
  "lb_push BS b data dataLen =
     (let bufLen = BS - (lb_tail b - lb_head b)
      in if bufLen < dataLen then (0, b)
         else
           let writePos = lb_tail b AND (BS - 1);
               tailSize = BS - writePos;
               buf = lb_buffer b;
               buf' = (if dataLen > tailSize
                       then mem_write
                              (mem_write buf (unat writePos) (take (unat tailSize) data))
                              0 (slice data (unat tailSize) (unat (dataLen - tailSize)))
                       else mem_write buf (unat writePos) (take (unat dataLen) data))
           in (dataLen, b\<lparr>lb_buffer := buf', lb_tail := lb_tail b + dataLen\<rparr>))"

text \<open>An in-place rewrite of the segment \<open>&buffer[pos]\<close> of \<open>len\<close> bytes by a handler.\<close>

definition lb_apply :: "'h segment_handler \<Rightarrow> 'h \<Rightarrow> bytes \<Rightarrow> nat \<Rightarrow> nat \<Rightarrow> 'h \<times> bytes" where
  "lb_apply f h buf pos len =
     (let (h', seg) = f h (slice buf pos len) in (h', mem_write buf pos seg))"

definition lb_push_encrypted ::
    "u32 \<Rightarrow> loop_buffer \<Rightarrow> bytes \<Rightarrow> u32 \<Rightarrow> 'h segment_handler \<Rightarrow> 'h \<Rightarrow> u32 \<times> loop_buffer \<times> 'h" where
  "lb_push_encrypted BS b data dataLen encrypter h =
     (let bufLen = BS - (lb_tail b - lb_head b)
      in if bufLen < dataLen then (0, b, h)
         else
           let writePos = lb_tail b AND (BS - 1);
               tailSize = BS - writePos;
               buf = lb_buffer b;
               (h', buf') =
                 (if dataLen > tailSize
                  then
                    let buf1 = mem_write buf (unat writePos) (take (unat tailSize) data);
                        (h1, buf2) = lb_apply encrypter h buf1 (unat writePos) (unat tailSize);
                        leftSize = dataLen - tailSize;
                        buf3 = mem_write buf2 0 (slice data (unat tailSize) (unat leftSize))
                    in lb_apply encrypter h1 buf3 0 (unat leftSize)
                  else
                    let buf1 = mem_write buf (unat writePos) (take (unat dataLen) data)
                    in lb_apply encrypter h buf1 (unat writePos) (unat dataLen))
           in (dataLen, b\<lparr>lb_buffer := buf', lb_tail := lb_tail b + dataLen\<rparr>, h'))"

definition lb_push_string :: "u32 \<Rightarrow> loop_buffer \<Rightarrow> bytes \<Rightarrow> u32 \<times> loop_buffer" where
  "lb_push_string BS b data = lb_push BS b data (of_nat (length data))"

fun lb_mpush :: "u32 \<Rightarrow> loop_buffer \<Rightarrow> bytes list \<Rightarrow> u32 \<times> loop_buffer" where
  "lb_mpush BS b [] = (0, b)"
| "lb_mpush BS b (data # rest) =
     (let (ret, b') = lb_push_string BS b data
      in if ret > 0 then (let (r, b'') = lb_mpush BS b' rest in (ret + r, b'')) else (0, b'))"

definition lb_pop ::
    "u32 \<Rightarrow> loop_buffer \<Rightarrow> 'h segment_handler option \<Rightarrow> 'h \<Rightarrow> lb_error + (u32 \<times> loop_buffer \<times> 'h)" where
  "lb_pop BS b handler h =
     (let dataLen = lb_tail b - lb_head b
      in if dataLen = 0 then Inr (0, b, h)
         else
           let readPos = lb_head b AND (BS - 1);
               len = min dataLen (BS - readPos)
           in case handler of
                None \<Rightarrow> Inl Bad_function_call
              | Some f \<Rightarrow>
                  let (h', buf') = lb_apply f h (lb_buffer b) (unat readPos) (unat len)
                  in Inr (len, b\<lparr>lb_buffer := buf', lb_head := lb_head b + len\<rparr>, h'))"

definition lb_read ::
    "u32 \<Rightarrow> loop_buffer \<Rightarrow> 'h segment_handler option \<Rightarrow> 'h \<Rightarrow> u32 \<Rightarrow> lb_error + (u32 \<times> loop_buffer \<times> 'h)" where
  "lb_read BS b handler h limit =
     (let dataLen = lb_tail b - lb_head b
      in if dataLen = 0 then Inr (0, b, h)
         else
           let readPos = lb_head b AND (BS - 1);
               len = min dataLen (BS - readPos);
               len = (if limit > 0 then min len limit else len)
           in case handler of
                None \<Rightarrow> Inl Bad_function_call
              | Some f \<Rightarrow>
                  let (h', buf') = lb_apply f h (lb_buffer b) (unat readPos) (unat len)
                  in Inr (len, b\<lparr>lb_buffer := buf'\<rparr>, h'))"

text \<open>The overload that returns a pointer: \<open>None\<close> is \<open>nullptr\<close>; it ignores its limit.\<close>

definition lb_read_ptr :: "u32 \<Rightarrow> loop_buffer \<Rightarrow> nat option \<times> u32" where
  "lb_read_ptr BS b =
     (let dataLen = lb_tail b - lb_head b
      in if dataLen = 0 then (None, 0)
         else
           let readPos = lb_head b AND (BS - 1)
           in (Some (unat readPos), min dataLen (BS - readPos)))"

definition lb_commit :: "loop_buffer \<Rightarrow> u32 \<Rightarrow> u32 \<times> loop_buffer" where
  "lb_commit b len = (len, b\<lparr>lb_head := lb_head b + len\<rparr>)"

definition lb_empty :: "loop_buffer \<Rightarrow> bool" where
  "lb_empty b = (lb_head b = lb_tail b)"

definition lb_size :: "loop_buffer \<Rightarrow> u32" where
  "lb_size b = lb_tail b - lb_head b"

definition lb_clear :: "loop_buffer \<Rightarrow> loop_buffer" where
  "lb_clear b = b\<lparr>lb_head := 0, lb_tail := 0\<rparr>"

definition lb_peek :: "u32 \<Rightarrow> loop_buffer \<Rightarrow> u32" where
  "lb_peek BS b = BS - (lb_tail b - lb_head b)"

section \<open>Positions in the ring\<close>

definition lb_wf :: "u32 \<Rightarrow> loop_buffer \<Rightarrow> bool" where
  "lb_wf BS b \<longleftrightarrow>
     (\<exists>k. unat BS = 2 ^ k) \<and> length (lb_buffer b) = unat BS \<and>
     lb_tail b - lb_head b \<le> BS"

definition lb_contents :: "u32 \<Rightarrow> loop_buffer \<Rightarrow> bytes" where
  "lb_contents BS b =
     map (\<lambda>i. lb_buffer b ! ((unat (lb_head b) + i) mod unat BS))
         [0 ..< unat (lb_tail b - lb_head b)]"

text \<open>The two-part write of \<open>push\<close>, as one ring write.\<close>

definition ring_write :: "'a list \<Rightarrow> nat \<Rightarrow> 'a list \<Rightarrow> 'a list" where
  "ring_write buf w xs =
     (if length xs > length buf - w
      then mem_write (mem_write buf w (take (length buf - w) xs)) 0 (drop (length buf - w) xs)
      else mem_write buf w xs)"

lemma length_ring_write [simp]:
  "w < length buf \<Longrightarrow> length xs \<le> length buf \<Longrightarrow> length (ring_write buf w xs) = length buf"
  by (auto simp: ring_write_def)

lemma nth_ring_write:
  assumes w: "w < length buf" and xs: "length xs \<le> length buf" and i: "i < length buf"
  shows "ring_write buf w xs ! ((w + i) mod length buf) =
    (if i < length xs then xs ! i else buf ! ((w + i) mod length buf))"
proof (cases "w + i < length buf")
  case True
  with assms show ?thesis
    by (auto simp: ring_write_def nth_mem_write)
next
  case False
  with assms have "(w + i) mod length buf = w + i - length buf"
    by (simp add: mod_if)
  with False assms show ?thesis
    by (auto simp: ring_write_def nth_mem_write add.commute)
qed

lemma mod_pow2_u32:
  assumes "unat (BS :: u32) = 2 ^ k"
  shows "(n mod 4294967296) mod unat BS = n mod unat BS"
proof -
  have "(2::nat) ^ k < 2 ^ 32"
    using unat_u32_less [of BS] assms by simp
  then have "k \<le> 32"
    by (meson less_imp_le power_less_imp_less_exp one_less_numeral_iff semiring_norm(76))
  then have "(2::nat) ^ k dvd 2 ^ 32"
    by (rule le_imp_power_dvd)
  then have "unat BS dvd 4294967296"
    using assms by simp
  then show ?thesis
    by (rule mod_mod_cancel)
qed

lemma lb_tail_pos:
  fixes h t BS :: u32
  assumes "unat BS = 2 ^ k"
  shows "(unat h + unat (t - h)) mod unat BS = unat t mod unat BS"
proof -
  have "unat t = unat (h + (t - h))"
    by simp
  also have "\<dots> = (unat h + unat (t - h)) mod 4294967296"
    by (simp only: unat_word_ariths) simp
  finally show ?thesis
    using mod_pow2_u32 [OF assms] by metis
qed

lemma length_lb_contents [simp]: "length (lb_contents BS b) = unat (lb_tail b - lb_head b)"
  by (simp add: lb_contents_def)

lemma lb_contents_Nil: "lb_contents BS b = [] \<longleftrightarrow> lb_tail b - lb_head b = 0"
  by (simp add: lb_contents_def unat_eq_zero)

lemma nth_lb_contents:
  "i < unat (lb_tail b - lb_head b) \<Longrightarrow>
   lb_contents BS b ! i = lb_buffer b ! ((unat (lb_head b) + i) mod unat BS)"
  by (simp add: lb_contents_def)

text \<open>Reading the fields of a well-formed ring as numbers.\<close>

lemma lb_wfD:
  assumes "lb_wf BS b"
  shows "\<exists>k. unat BS = 2 ^ k" and "0 < unat BS" and "length (lb_buffer b) = unat BS"
    and "length (lb_contents BS b) \<le> unat BS"
    and "unat (x AND (BS - 1)) = unat x mod unat BS"
    and "unat (BS - (lb_tail b - lb_head b)) = unat BS - length (lb_contents BS b)"
    and "unat (BS - (x AND (BS - 1))) = unat BS - unat x mod unat BS"
proof -
  from assms obtain k where k: "unat BS = 2 ^ k" and le: "lb_tail b - lb_head b \<le> BS"
    by (auto simp: lb_wf_def)
  show "\<exists>k. unat BS = 2 ^ k" "0 < unat BS" using k by auto
  show "length (lb_buffer b) = unat BS" using assms by (simp add: lb_wf_def)
  show "length (lb_contents BS b) \<le> unat BS" using le by (simp add: word_le_nat_alt)
  show *: "unat (x AND (BS - 1)) = unat x mod unat BS" for x
    using unat_and_mask_pow2 [OF k] k by simp
  show "unat (BS - (lb_tail b - lb_head b)) = unat BS - length (lb_contents BS b)"
    using le by (simp add: unat_sub)
  have "x AND (BS - 1) \<le> BS"
    using k by (simp add: word_le_nat_alt * less_imp_le)
  then show "unat (BS - (x AND (BS - 1))) = unat BS - unat x mod unat BS"
    by (simp add: unat_sub *)
qed

lemma lb_wfI:
  assumes "lb_wf BS b" and "length (lb_buffer b') = length (lb_buffer b)"
    and "unat (lb_tail b' - lb_head b') \<le> unat BS"
  shows "lb_wf BS b'"
  using assms by (auto simp: lb_wf_def word_le_nat_alt)

lemma lb_grow_size:
  assumes wf: "lb_wf BS b" and fits: "n + length (lb_contents BS b) \<le> unat BS"
  shows "unat (lb_tail b + of_nat n - lb_head b) = length (lb_contents BS b) + n"
proof -
  have lt: "n < 4294967296"
    using fits unat_u32_less [of BS] by linarith
  have "unat (lb_tail b + of_nat n - lb_head b) = unat (lb_tail b - lb_head b + of_nat n)"
    by (simp add: algebra_simps)
  also have "\<dots> = (unat (lb_tail b - lb_head b) + n) mod 4294967296"
    using lt by (simp add: unat_word_ariths unat_of_nat take_bit_eq_mod mod_add_right_eq)
  also have "\<dots> = unat (lb_tail b - lb_head b) + n"
    by (rule mod_less, use fits unat_u32_less [of BS] in \<open>unfold length_lb_contents, linarith\<close>)
  finally show ?thesis by simp
qed

lemma lb_contents_ring_write:
  assumes wf: "lb_wf BS b" and fits: "length xs + length (lb_contents BS b) \<le> unat BS"
  defines "b' \<equiv> b\<lparr>lb_buffer := ring_write (lb_buffer b) (unat (lb_tail b) mod unat BS) xs,
                   lb_tail := lb_tail b + of_nat (length xs)\<rparr>"
  shows "lb_contents BS b' = lb_contents BS b @ xs" and "lb_wf BS b'"
proof -
  note wfD = lb_wfD [OF wf]
  obtain k where k: "unat BS = 2 ^ k" using wfD(1) by blast
  let ?N = "unat BS" and ?s = "length (lb_contents BS b)" and ?w = "unat (lb_tail b) mod unat BS"
  let ?h = "unat (lb_head b)"
  have w: "?w < length (lb_buffer b)" using wfD by simp
  have xs: "length xs \<le> length (lb_buffer b)" using fits wfD by simp
  have size': "unat (lb_tail b' - lb_head b') = ?s + length xs"
    using lb_grow_size [OF wf fits] by (simp add: b'_def)
  have pos: "(?h + (?s + j)) mod ?N = (?w + j) mod ?N" for j
    using lb_tail_pos [OF k, of "lb_head b" "lb_tail b"]
    by (simp add: mod_simps add.assoc [symmetric]) (metis mod_add_left_eq)
  have old: "(?h + i) mod ?N = (?w + (?N - ?s + i)) mod ?N" if "i < ?s" for i
  proof -
    have "(?w + (?N - ?s + i)) mod ?N = (?h + (?s + (?N - ?s + i))) mod ?N"
      by (simp only: pos)
    also have "\<dots> = (?h + i + ?N) mod ?N"
      using wfD(4) by (simp add: add.assoc add.commute add.left_commute)
    finally show ?thesis by simp
  qed
  show "lb_contents BS b' = lb_contents BS b @ xs"
  proof (rule nth_equalityI)
    show "length (lb_contents BS b') = length (lb_contents BS b @ xs)"
      using size' by simp
  next
    fix i assume "i < length (lb_contents BS b')"
    then have i: "i < ?s + length xs" using size' by simp
    have b': "lb_contents BS b' ! i = ring_write (lb_buffer b) ?w xs ! ((?h + i) mod ?N)"
      using i size' by (simp add: nth_lb_contents b'_def)
    show "lb_contents BS b' ! i = (lb_contents BS b @ xs) ! i"
    proof (cases "i < ?s")
      case True
      with fits have "\<not> ?N - ?s + i < length xs" "?N - ?s + i < ?N" using wfD(4) by auto
      then show ?thesis
        using True nth_ring_write [OF w xs, of "?N - ?s + i"] wfD(3)
        by (simp only: b' nth_append) (simp add: nth_lb_contents old)
    next
      case False
      define j where "j = i - ?s"
      with False i have j: "i = ?s + j" "j < length xs" by auto
      have "lb_contents BS b' ! i = ring_write (lb_buffer b) ?w xs ! ((?w + j) mod ?N)"
        by (subst b', subst j(1), subst pos, rule refl)
      also have "\<dots> = xs ! j"
        using nth_ring_write [OF w xs, of j] wfD(3) xs j by simp
      finally show ?thesis
        using j by (simp add: nth_append)
    qed
  qed
  show "lb_wf BS b'"
    by (rule lb_wfI [OF wf]) (use size' fits w xs in \<open>auto simp: b'_def\<close>)
qed

section \<open>What each operation does to the contents\<close>

lemma lb_push_eq:
  assumes wf: "lb_wf BS b" and len: "unat dataLen \<le> length data"
  shows "lb_push BS b data dataLen =
    (if unat dataLen + length (lb_contents BS b) \<le> unat BS
     then (dataLen,
           b\<lparr>lb_buffer := ring_write (lb_buffer b) (unat (lb_tail b) mod unat BS)
                            (take (unat dataLen) data),
             lb_tail := lb_tail b + dataLen\<rparr>)
     else (0, b))"
proof -
  note wfD = lb_wfD [OF wf]
  let ?w = "unat (lb_tail b) mod unat BS"
  have "unat (dataLen - (BS - (lb_tail b AND (BS - 1)))) = unat dataLen - (unat BS - ?w)"
    if "BS - (lb_tail b AND (BS - 1)) < dataLen"
    using that wfD(7) by (simp add: unat_sub less_imp_le)
  then show ?thesis
    using len wfD(3,4)
    by (auto simp: lb_push_def Let_def word_less_nat_alt wfD(5,6,7) ring_write_def slice_def
        min_def drop_take)
qed

lemma lb_push_contents:
  assumes wf: "lb_wf BS b" and len: "unat dataLen \<le> length data"
  shows "case lb_push BS b data dataLen of (r, b') \<Rightarrow>
    lb_wf BS b' \<and>
    (if unat dataLen + length (lb_contents BS b) \<le> unat BS
     then r = dataLen \<and> lb_contents BS b' = lb_contents BS b @ take (unat dataLen) data
     else r = 0 \<and> b' = b)"
proof (cases "unat dataLen + length (lb_contents BS b) \<le> unat BS")
  case True
  with len have "length (take (unat dataLen) data) + length (lb_contents BS b) \<le> unat BS"
    by (simp add: min.absorb2)
  from lb_contents_ring_write [OF wf this] True len show ?thesis
    by (simp add: lb_push_eq [OF wf len] min.absorb2)
next
  case False
  then show ?thesis
    using wf by (simp add: lb_push_eq [OF wf len])
qed

text \<open>Dropping \<open>n\<close> bytes at the front.\<close>

lemma lb_drop_contents:
  assumes wf: "lb_wf BS b" and n: "unat n \<le> length (lb_contents BS b)"
    and buf: "lb_buffer b' = lb_buffer b" "lb_tail b' = lb_tail b" "lb_head b' = lb_head b + n"
  shows "lb_contents BS b' = drop (unat n) (lb_contents BS b)" and "lb_wf BS b'"
proof -
  obtain k where k: "unat BS = 2 ^ k" using lb_wfD(1) [OF wf] by blast
  have "lb_tail b' - lb_head b' = (lb_tail b - lb_head b) - n"
    using buf by simp
  then have size': "unat (lb_tail b' - lb_head b') = unat (lb_tail b - lb_head b) - unat n"
    using n by (simp add: unat_sub word_le_nat_alt)
  have pos: "(unat (lb_head b + n) + i) mod unat BS = (unat (lb_head b) + (unat n + i)) mod unat BS"
    for i
    using mod_pow2_u32 [OF k]
    by (simp add: unat_word_ariths) (metis add.assoc mod_add_left_eq)
  show "lb_contents BS b' = drop (unat n) (lb_contents BS b)"
    by (rule nth_equalityI) (use size' buf n in \<open>auto simp: nth_lb_contents pos\<close>)
  show "lb_wf BS b'"
    by (rule lb_wfI [OF wf]) (use size' buf n lb_wfD(4) [OF wf] in auto)
qed

text \<open>The contiguous segment a reader gets is a prefix of the contents.\<close>

definition lb_contig :: "u32 \<Rightarrow> loop_buffer \<Rightarrow> u32" where
  "lb_contig BS b = min (lb_tail b - lb_head b) (BS - (lb_head b AND (BS - 1)))"

lemma lb_contig_bounds:
  assumes wf: "lb_wf BS b"
  shows "unat (lb_contig BS b) \<le> length (lb_contents BS b)"
    and "unat (lb_head b) mod unat BS + unat (lb_contig BS b) \<le> unat BS"
    and "lb_contents BS b \<noteq> [] \<Longrightarrow> 0 < unat (lb_contig BS b)"
proof -
  note wfD = lb_wfD [OF wf]
  have m: "unat (lb_contig BS b) =
      min (length (lb_contents BS b)) (unat BS - unat (lb_head b) mod unat BS)"
    using wfD(7) [of "lb_head b"] by (simp add: lb_contig_def min_def word_le_nat_alt)
  have lt: "unat (lb_head b) mod unat BS < unat BS" using wfD(2) by simp
  show "unat (lb_contig BS b) \<le> length (lb_contents BS b)" by (simp add: m)
  show "unat (lb_head b) mod unat BS + unat (lb_contig BS b) \<le> unat BS"
    unfolding m using lt by linarith
  show "lb_contents BS b \<noteq> [] \<Longrightarrow> 0 < unat (lb_contig BS b)"
    unfolding m length_greater_0_conv [symmetric] using lt by linarith
qed

lemma lb_segment:
  assumes wf: "lb_wf BS b" and len: "len \<le> unat (lb_contig BS b)"
  shows "slice (lb_buffer b) (unat (lb_head b) mod unat BS) len = take len (lb_contents BS b)"
proof (rule nth_equalityI)
  note wfD = lb_wfD [OF wf] and c = lb_contig_bounds [OF wf]
  show "length (slice (lb_buffer b) (unat (lb_head b) mod unat BS) len) =
        length (take len (lb_contents BS b))"
  proof -
    from len c(1,2) have "len \<le> unat BS - unat (lb_head b) mod unat BS"
      and "len \<le> length (lb_contents BS b)" by linarith+
    then show ?thesis using wfD(3) by (simp add: min.absorb1)
  qed
  fix i assume "i < length (slice (lb_buffer b) (unat (lb_head b) mod unat BS) len)"
  then have i: "i < len" by simp
  have r: "unat (lb_head b) mod unat BS + i < unat BS"
    using i len c(2) by linarith
  then have "(unat (lb_head b) + i) mod unat BS = unat (lb_head b) mod unat BS + i"
    by (metis mod_add_left_eq mod_less)
  then show "slice (lb_buffer b) (unat (lb_head b) mod unat BS) len ! i =
        take len (lb_contents BS b) ! i"
    using i len c(1) r wfD(3) by (simp add: nth_slice nth_lb_contents)
qed

text \<open>A length-preserving handler is run in place on the front segment.\<close>

definition seg_len_ok :: "'h segment_handler \<Rightarrow> bool" where
  "seg_len_ok f \<longleftrightarrow> (\<forall>h seg. length (snd (f h seg)) = length seg)"

lemma seg_len_okD: "seg_len_ok f \<Longrightarrow> f h seg = (h', seg') \<Longrightarrow> length seg' = length seg"
  by (metis seg_len_ok_def snd_conv)

lemma lb_contents_rewrite:
  assumes wf: "lb_wf BS b" and len: "length seg \<le> unat (lb_contig BS b)"
  defines "b' \<equiv> b\<lparr>lb_buffer := mem_write (lb_buffer b) (unat (lb_head b) mod unat BS) seg\<rparr>"
  shows "lb_contents BS b' = seg @ drop (length seg) (lb_contents BS b)" and "lb_wf BS b'"
proof -
  note wfD = lb_wfD [OF wf] and c = lb_contig_bounds [OF wf]
  let ?r = "unat (lb_head b) mod unat BS"
  have lt: "?r + length seg \<le> length (lb_buffer b)"
    using c(2) len wfD(3) by linarith
  have nth: "lb_contents BS b' ! i = (seg @ drop (length seg) (lb_contents BS b)) ! i"
    if i: "i < length (lb_contents BS b)" for i
  proof -
    let ?p = "(unat (lb_head b) + i) mod unat BS"
    have p: "?p < length (lb_buffer b)" using wfD(2,3) by simp
    have eq: "?p = (?r + i) mod unat BS" by (simp add: mod_simps)
    have "?p = ?r + i" if "?r + i < unat BS"
      using that by (subst eq, intro mod_less)
    moreover have "?p < ?r" if "\<not> ?r + i < unat BS"
    proof -
      have "?r < unat BS" "i < unat BS" using wfD(2) i wfD(4) by auto
      from mod_wrap(2) [OF this that] show ?thesis by (simp only: eq)
    qed
    ultimately have "mem_write (lb_buffer b) ?r seg ! ?p =
        (if i < length seg then seg ! i else lb_buffer b ! ?p)"
      using nth_mem_write [OF lt p] lt wfD(3) by (cases "?r + i < unat BS") simp_all
    then show ?thesis
      using i len c(1) by (simp add: b'_def nth_lb_contents nth_append)
  qed
  show "lb_contents BS b' = seg @ drop (length seg) (lb_contents BS b)"
    by (rule nth_equalityI) (use nth len c(1) in \<open>auto simp: b'_def\<close>)
  show "lb_wf BS b'"
    by (rule lb_wfI [OF wf]) (use lt wfD(4) in \<open>auto simp: b'_def\<close>)
qed

lemma lb_read_contents:
  assumes wf: "lb_wf BS b" and f: "seg_len_ok f" and ne: "lb_contents BS b \<noteq> []"
  obtains n h' seg b' where
    "lb_read BS b (Some f) h limit = Inr (n, b', h')"
    "unat n = (if limit > 0 then min (unat (lb_contig BS b)) (unat limit) else unat (lb_contig BS b))"
    "f h (take (unat n) (lb_contents BS b)) = (h', seg)"
    "lb_contents BS b' = seg @ drop (unat n) (lb_contents BS b)" "lb_wf BS b'"
    "lb_head b' = lb_head b" "lb_tail b' = lb_tail b"
proof -
  note wfD = lb_wfD [OF wf] and c = lb_contig_bounds [OF wf]
  define n where "n = (if limit > 0 then min (lb_contig BS b) limit else lb_contig BS b)"
  have n: "unat n = (if limit > 0 then min (unat (lb_contig BS b)) (unat limit)
                     else unat (lb_contig BS b))"
    by (simp add: n_def min_def word_le_nat_alt)
  then have le: "unat n \<le> unat (lb_contig BS b)" by simp
  obtain h' seg where fs: "f h (take (unat n) (lb_contents BS b)) = (h', seg)"
    by (cases "f h (take (unat n) (lb_contents BS b))")
  have "length seg = unat n"
    using seg_len_okD [OF f fs] le c(1) by (simp add: min.absorb2)
  with le have sl: "length seg \<le> unat (lb_contig BS b)" and [simp]: "length seg = unat n" by auto
  have "lb_tail b - lb_head b \<noteq> 0"
    using ne by (simp only: lb_contents_Nil) blast
  then have "lb_read BS b (Some f) h limit =
      Inr (n, b\<lparr>lb_buffer := mem_write (lb_buffer b) (unat (lb_head b) mod unat BS) seg\<rparr>, h')"
    using lb_segment [OF wf le] fs
    by (simp add: lb_read_def lb_apply_def Let_def wfD(5) n_def lb_contig_def split: if_splits)
  from that [OF this n fs] lb_contents_rewrite [OF wf sl] show ?thesis by simp
qed

text \<open>\<open>pop\<close> is \<open>read\<close> without a limit followed by \<open>commit\<close> of what was read.\<close>

lemma lb_pop_read_commit:
  "lb_pop BS b handler h =
     (case lb_read BS b handler h 0 of
        Inl e \<Rightarrow> Inl e
      | Inr (n, b', h') \<Rightarrow> Inr (n, snd (lb_commit b' n), h'))"
  by (auto simp: lb_pop_def lb_read_def lb_commit_def lb_apply_def Let_def
      split: option.split prod.split)

lemma lb_pop_contents:
  assumes wf: "lb_wf BS b" and f: "seg_len_ok f" and ne: "lb_contents BS b \<noteq> []"
  obtains n h' seg b' where
    "lb_pop BS b (Some f) h = Inr (n, b', h')" "0 < n"
    "f h (take (unat n) (lb_contents BS b)) = (h', seg)"
    "unat n \<le> length (lb_contents BS b)"
    "lb_contents BS b' = drop (unat n) (lb_contents BS b)" "lb_wf BS b'"
proof -
  obtain n h' seg b1 where
    r: "lb_read BS b (Some f) h 0 = Inr (n, b1, h')" "unat n = unat (lb_contig BS b)"
       "f h (take (unat n) (lb_contents BS b)) = (h', seg)"
       "lb_contents BS b1 = seg @ drop (unat n) (lb_contents BS b)" "lb_wf BS b1"
    by (rule lb_read_contents [OF wf f ne, where h = h and limit = 0]) (simp only: less_irrefl if_False)
  note c = lb_contig_bounds [OF wf]
  have n: "unat n \<le> length (lb_contents BS b)" using r(2) c(1) by simp
  have seg: "length seg = unat n" using seg_len_okD [OF f r(3)] n by (simp add: min.absorb2)
  define b' where "b' = b1\<lparr>lb_head := lb_head b1 + n\<rparr>"
  have n1: "unat n \<le> length (lb_contents BS b1)" using r(4) seg by simp
  note d = lb_drop_contents [OF r(5) n1, of b']
  have "lb_contents BS b' = drop (unat n) (lb_contents BS b)" "lb_wf BS b'"
    using d seg r(4) by (simp_all add: b'_def)
  moreover have "lb_pop BS b (Some f) h = Inr (n, b', h')"
    using r(1) by (simp add: lb_pop_read_commit lb_commit_def b'_def)
  moreover have "0 < n" using c(3) [OF ne] r(2) by (simp add: word_less_nat_alt)
  ultimately show ?thesis using that r(3) n by blast
qed

text \<open>
  An encrypter that works byte by byte on a key stream (as RC4, which the code pairs with
  this buffer, does) does not see where the ring wraps.
\<close>

definition stream_handler :: "'h segment_handler \<Rightarrow> bool" where
  "stream_handler f \<longleftrightarrow> seg_len_ok f \<and>
     (\<forall>h xs ys. f h (xs @ ys) =
        (let (h1, xs') = f h xs; (h2, ys') = f h1 ys in (h2, xs' @ ys')))"

lemma lb_apply_mem_write:
  assumes "seg_len_ok f" "pos + length xs \<le> length buf" "f h xs = (h', ys)"
  shows "lb_apply f h (mem_write buf pos xs) pos (length xs) = (h', mem_write buf pos ys)"
  using assms seg_len_okD [OF assms(1,3)] by (simp add: lb_apply_def)

lemma ring_write_stream:
  assumes f: "stream_handler f" and w: "w < length buf" and xs: "length xs \<le> length buf"
    and fx: "f h xs = (h', ys)"
  shows "(if length xs > length buf - w
          then let (h1, buf2) = lb_apply f h (mem_write buf w (take (length buf - w) xs)) w
                                  (length buf - w)
               in lb_apply f h1 (mem_write buf2 0 (drop (length buf - w) xs)) 0
                    (length xs - (length buf - w))
          else lb_apply f h (mem_write buf w xs) w (length xs)) = (h', ring_write buf w ys)"
proof (cases "length xs > length buf - w")
  case False
  have ok: "seg_len_ok f" using f by (simp add: stream_handler_def)
  with False w xs show ?thesis
    using lb_apply_mem_write [OF ok _ fx, of w buf] seg_len_okD [OF ok fx]
    by (simp add: ring_write_def)
next
  case True
  define n where "n = length buf - w"
  have n: "n \<le> length xs" "n \<le> length buf" "w + n = length buf" using True w by (auto simp: n_def)
  obtain h1 x1 where f1: "f h (take n xs) = (h1, x1)" by fastforce
  obtain h2 x2 where f2: "f h1 (drop n xs) = (h2, x2)" by fastforce
  have ok: "seg_len_ok f" using f by (simp add: stream_handler_def)
  have "f h (take n xs @ drop n xs) = (h2, x1 @ x2)"
    using f f1 f2 by (simp only: stream_handler_def Let_def prod.case)
  then have e: "h' = h2" "ys = x1 @ x2" using fx by auto
  have l1: "length x1 = n" and l2: "length x2 = length xs - n"
    using seg_len_okD [OF ok f1] seg_len_okD [OF ok f2] n by (simp_all add: min.absorb2)
  have a1: "lb_apply f h (mem_write buf w (take n xs)) w n = (h1, mem_write buf w x1)"
    using lb_apply_mem_write [OF ok _ f1, of w buf] n by (simp add: min.absorb2)
  have a2: "lb_apply f h1 (mem_write (mem_write buf w x1) 0 (drop n xs)) 0 (length xs - n)
      = (h2, mem_write (mem_write buf w x1) 0 x2)"
    using lb_apply_mem_write [OF ok _ f2, of 0 "mem_write buf w x1"] n l1 xs by simp
  show ?thesis
    using True l1 l2 n unfolding n_def [symmetric]
    by (simp add: a1 a2 e ring_write_def n_def [symmetric])
qed

lemma lb_push_encrypted_eq:
  assumes wf: "lb_wf BS b" and len: "unat dataLen \<le> length data" and f: "stream_handler f"
    and fits: "unat dataLen + length (lb_contents BS b) \<le> unat BS"
    and fx: "f h (take (unat dataLen) data) = (h', ys)"
  shows "lb_push_encrypted BS b data dataLen f h =
    (dataLen, b\<lparr>lb_buffer := ring_write (lb_buffer b) (unat (lb_tail b) mod unat BS) ys,
                lb_tail := lb_tail b + dataLen\<rparr>, h')"
proof -
  note wfD = lb_wfD [OF wf]
  let ?w = "unat (lb_tail b) mod unat BS" and ?xs = "take (unat dataLen) data"
  have w: "?w < length (lb_buffer b)" and xs: "length ?xs \<le> length (lb_buffer b)"
    using wfD(2,3) fits by auto
  have lx: "length ?xs = unat dataLen" using len by (simp add: min.absorb2)
  have left: "unat (dataLen - (BS - (lb_tail b AND (BS - 1)))) = unat dataLen - (unat BS - ?w)"
    if "BS - (lb_tail b AND (BS - 1)) < dataLen"
    using that wfD(7) by (simp add: unat_sub less_imp_le)
  have nofull: "\<not> BS - (lb_tail b - lb_head b) < dataLen"
    using fits wfD(6) by (simp add: word_less_nat_alt)
  show ?thesis
  proof (cases "unat BS - ?w < unat dataLen")
    case True
    then have t: "BS - (lb_tail b AND (BS - 1)) < dataLen"
      by (simp add: word_less_nat_alt wfD(7))
    have "take (unat BS - ?w) ?xs = take (unat BS - ?w) data"
      and "drop (unat BS - ?w) ?xs = slice data (unat BS - ?w) (unat dataLen - (unat BS - ?w))"
      using True by (simp_all add: min.absorb1 slice_def drop_take)
    with ring_write_stream [OF f w xs fx] True show ?thesis
      using nofull t unfolding lb_push_encrypted_def Let_def lx wfD(3)
      by (simp add: left [OF t] wfD(5,7) split: prod.splits)
  next
    case False
    then have "\<not> BS - (lb_tail b AND (BS - 1)) < dataLen"
      by (simp add: word_less_nat_alt wfD(7))
    with ring_write_stream [OF f w xs fx] False nofull show ?thesis
      unfolding lb_push_encrypted_def Let_def lx wfD(3)
      by (simp add: wfD(5))
  qed
qed

section \<open>The size of the ring\<close>

text \<open>\<open>n |= n >> k\<close> doubles the reach of the downward smear.\<close>

lemma smear_step:
  fixes x y :: u32
  assumes "\<And>i. bit y i \<longleftrightarrow> (\<exists>j<k. bit x (i + j))"
  shows "bit (y OR drop_bit k y) i \<longleftrightarrow> (\<exists>j<2 * k. bit x (i + j))"
proof
  assume "bit (y OR drop_bit k y) i"
  then consider j where "j < k" "bit x (i + j)" | j where "j < k" "bit x (k + i + j)"
    by (auto simp: bit_or_iff bit_drop_bit_eq assms)
  then show "\<exists>j<2 * k. bit x (i + j)"
  proof cases
    case (1 j) then show ?thesis by (intro exI [of _ j]) simp
  next
    case (2 j) then show ?thesis by (intro exI [of _ "k + j"]) (simp add: ac_simps)
  qed
next
  assume "\<exists>j<2 * k. bit x (i + j)"
  then obtain j where j: "j < 2 * k" "bit x (i + j)" by blast
  show "bit (y OR drop_bit k y) i"
  proof (cases "j < k")
    case True
    with j show ?thesis by (auto simp: bit_or_iff assms)
  next
    case False
    with j have "j - k < k" "bit x (k + i + (j - k))" by (auto simp: ac_simps)
    then show ?thesis by (auto simp: bit_or_iff bit_drop_bit_eq assms)
  qed
qed

definition smear :: "u32 \<Rightarrow> u32" where
  "smear n =
     (let n = n OR drop_bit 1 n; n = n OR drop_bit 2 n; n = n OR drop_bit 4 n;
          n = n OR drop_bit 8 n in n OR drop_bit 16 n)"

lemma get_power_of_two_smear: "get_power_of_two n = smear (n - 1) + 1"
  by (simp add: get_power_of_two_def smear_def Let_def)

lemma bit_smear: "bit (smear n) i \<longleftrightarrow> (\<exists>l\<ge>i. bit n l)"
proof -
  have s0: "bit n i \<longleftrightarrow> (\<exists>j<1. bit n (i + j))" for i by simp
  note s1 = smear_step [OF s0]
  note s2 = smear_step [OF s1, simplified]
  note s3 = smear_step [OF s2, simplified]
  note s4 = smear_step [OF s3, simplified]
  note s5 = smear_step [OF s4, simplified]
  have "bit (smear n) i \<longleftrightarrow> (\<exists>j<32. bit n (i + j))"
    using s5 by (simp add: smear_def Let_def)
  also have "\<dots> \<longleftrightarrow> (\<exists>l\<ge>i. bit n l)"
  proof
    assume "\<exists>l\<ge>i. bit n l"
    then obtain l where l: "i \<le> l" "bit n l" by blast
    then have "l < 32" using bit_imp_le_length [of n l] by simp
    with l show "\<exists>j<32. bit n (i + j)" by (intro exI [of _ "l - i"]) auto
  qed (auto intro: le_add1)
  finally show ?thesis .
qed

lemma get_power_of_two_least:
  assumes "0 < unat n" and "unat n \<le> 2 ^ 31"
  shows "\<exists>k. unat (get_power_of_two n) = 2 ^ k \<and> unat n \<le> 2 ^ k \<and> 2 ^ k < 2 * unat n"
proof (cases "n = 1")
  case True
  then show ?thesis
    by (intro exI [of _ 0]) (simp add: get_power_of_two_def)
next
  case False
  define m where "m = n - 1"
  have m: "unat m = unat n - 1" "m \<noteq> 0"
    using assms False by (auto simp: m_def unat_sub word_le_nat_alt)
  from m(2) obtain t where t: "t < LENGTH(32)" "bit m t" "\<And>l. bit m l \<Longrightarrow> l \<le> t"
      "2 ^ t \<le> unat m" "unat m < 2 ^ Suc t"
    by (rule word_top_bit) blast
  have "t < 31"
  proof -
    have "(2::nat) ^ t < 2 ^ 31" using t(4) m(1) assms by linarith
    then show ?thesis by (rule power_less_imp_less_exp [rotated]) simp
  qed
  have "(\<exists>l\<ge>i. bit m l) \<longleftrightarrow> i \<le> t" for i
    using t(2,3) by (meson order.trans)
  then have "smear m = mask (Suc t)"
    by (intro bit_eqI) (simp add: bit_smear bit_mask_iff less_Suc_eq_le)
  then have "get_power_of_two n = 2 ^ Suc t"
    by (simp add: get_power_of_two_smear m_def [symmetric] mask_eq_decr_exp)
  moreover have "unat (2 ^ Suc t :: u32) = 2 ^ Suc t"
    using \<open>t < 31\<close> unat_of_nat [of "2 ^ Suc t", where 'a = 32]
      power_strict_increasing [of "Suc t" 32 "2 :: nat"]
    by (simp add: take_bit_eq_mod)
  ultimately show ?thesis
    using t(4,5) m(1) assms by (intro exI [of _ "Suc t"]) auto
qed

lemma BufferSize_pow2:
  assumes "0 < unat kMaxSize" and "unat kMaxSize \<le> 2 ^ 31"
  shows "\<exists>k. unat (BufferSize kMaxSize) = 2 ^ k \<and> unat kMaxSize \<le> 2 ^ k \<and> 2 ^ k < 2 * unat kMaxSize"
proof -
  have cast: "unat (ucast kMaxSize :: u32) = unat kMaxSize"
    using assms(2) by (simp add: unsigned_ucast_eq take_bit_nat_eq_self)
  show ?thesis
  proof (cases "kMaxSize AND (kMaxSize - 1) = 0")
    case False
    with get_power_of_two_least [of "ucast kMaxSize"] cast assms show ?thesis
      by (simp add: BufferSize_def)
  next
    case True
    moreover have "kMaxSize \<noteq> 0" using assms(1) by auto
    ultimately obtain k where "unat kMaxSize = 2 ^ k" using and_pred_eq_0 by blast
    with True assms cast show ?thesis
      by (intro exI [of _ k]) (simp add: BufferSize_def)
  qed
qed

section \<open>The contract: a bounded byte queue\<close>

text \<open>
  What a user of the ring relies on. \<open>put\<close> takes a whole byte string or nothing and returns
  how many bytes it took; \<open>get\<close> hands out some prefix. \<open>lim\<close> is the longest string whose
  length the interface can express.
\<close>

locale byte_fifo =
  fixes invar :: "'q \<Rightarrow> bool"
    and cont :: "'q \<Rightarrow> bytes"
    and cap :: nat
    and lim :: nat
    and put :: "'q \<Rightarrow> bytes \<Rightarrow> nat \<times> 'q"
    and get :: "'q \<Rightarrow> bytes \<times> 'q"
  assumes cap: "invar q \<Longrightarrow> length (cont q) \<le> cap"
    and put_fits: "invar q \<Longrightarrow> length d \<le> lim \<Longrightarrow> length (cont q) + length d \<le> cap \<Longrightarrow>
      put q d = (r, q') \<Longrightarrow> r = length d \<and> cont q' = cont q @ d"
    and put_full: "invar q \<Longrightarrow> length d \<le> lim \<Longrightarrow> cap < length (cont q) + length d \<Longrightarrow>
      put q d = (0, q)"
    and put_invar: "invar q \<Longrightarrow> length d \<le> lim \<Longrightarrow> put q d = (r, q') \<Longrightarrow> invar q'"
    and get_prefix: "invar q \<Longrightarrow> get q = (out, q') \<Longrightarrow> cont q = out @ cont q'"
    and get_progress: "invar q \<Longrightarrow> cont q \<noteq> [] \<Longrightarrow> get q = (out, q') \<Longrightarrow> out \<noteq> []"
    and get_invar: "invar q \<Longrightarrow> get q = (out, q') \<Longrightarrow> invar q'"

datatype fifo_op = Put bytes | Get

fun fifo_run ::
    "('q \<Rightarrow> bytes \<Rightarrow> nat \<times> 'q) \<Rightarrow> ('q \<Rightarrow> bytes \<times> 'q) \<Rightarrow> 'q \<Rightarrow> fifo_op list \<Rightarrow> bytes \<times> bytes \<times> 'q" where
  "fifo_run put get q [] = ([], [], q)"
| "fifo_run put get q (Put d # ops) =
     (let (r, q1) = put q d; (ins, outs, q2) = fifo_run put get q1 ops in (take r d @ ins, outs, q2))"
| "fifo_run put get q (Get # ops) =
     (let (out, q1) = get q; (ins, outs, q2) = fifo_run put get q1 ops in (ins, out @ outs, q2))"

definition puts_ok :: "nat \<Rightarrow> fifo_op list \<Rightarrow> bool" where
  "puts_ok lim ops \<longleftrightarrow> list_all (\<lambda>op. case op of Put d \<Rightarrow> length d \<le> lim | Get \<Rightarrow> True) ops"

context byte_fifo
begin

lemma put_cases:
  assumes "invar q" and "length d \<le> lim" and "put q d = (r, q')"
  shows "cont q' = cont q @ take r d" and "r = 0 \<or> r = length d"
  using assms put_fits [OF assms(1,2) _ assms(3)] put_full [OF assms(1,2)]
  by (cases "length (cont q) + length d \<le> cap"; force)+

lemma run_order:
  assumes "invar q" and "puts_ok lim ops" and "fifo_run put get q ops = (ins, outs, q')"
  shows "cont q @ ins = outs @ cont q' \<and> invar q'"
  using assms
proof (induction ops arbitrary: q ins outs)
  case Nil
  then show ?case by simp
next
  case (Cons op ops)
  show ?case
  proof (cases op)
    case (Put d)
    obtain r q1 where p: "put q d = (r, q1)" by fastforce
    obtain ins1 where r: "fifo_run put get q1 ops = (ins1, outs, q')" "ins = take r d @ ins1"
      using Cons.prems(3) Put p by (auto split: prod.splits)
    have d: "length d \<le> lim" "puts_ok lim ops" using Cons.prems(2) Put by (auto simp: puts_ok_def)
    have "invar q1" using put_invar [OF Cons.prems(1) d(1) p] .
    from Cons.IH [OF this d(2) r(1)] put_cases(1) [OF Cons.prems(1) d(1) p] r(2)
    show ?thesis by simp
  next
    case Get
    obtain out q1 where g: "get q = (out, q1)" by fastforce
    obtain outs1 where r: "fifo_run put get q1 ops = (ins, outs1, q')" "outs = out @ outs1"
      using Cons.prems(3) Get g by (auto split: prod.splits)
    have "puts_ok lim ops" using Cons.prems(2) Get by (auto simp: puts_ok_def)
    from Cons.IH [OF get_invar [OF Cons.prems(1) g] this r(1)] get_prefix [OF Cons.prems(1) g] r(2)
    show ?thesis by simp
  qed
qed

lemma drain:
  assumes "invar q" and "length (cont q) \<le> n"
  shows "\<exists>q'. fifo_run put get q (replicate n Get) = ([], cont q, q') \<and> cont q' = []"
  using assms
proof (induction n arbitrary: q)
  case 0
  then show ?case by simp
next
  case (Suc n)
  obtain out q1 where g: "get q = (out, q1)" by fastforce
  note gi = get_invar [OF Suc.prems(1) g] and gp = get_prefix [OF Suc.prems(1) g]
  have "length (cont q1) \<le> n"
    using Suc.prems(2) gp get_progress [OF Suc.prems(1) _ g] by (cases "cont q = []"; cases out) auto
  from Suc.IH [OF gi this] g gp show ?case by auto
qed

end

section \<open>The ring implements the contract\<close>

text \<open>The ring as a queue: \<open>push(const std::string&)\<close>, and \<open>pop\<close> with a handler that copies.\<close>

definition lb_put :: "u32 \<Rightarrow> loop_buffer \<Rightarrow> bytes \<Rightarrow> nat \<times> loop_buffer" where
  "lb_put BS b d = (let (r, b') = lb_push_string BS b d in (unat r, b'))"

definition lb_get :: "u32 \<Rightarrow> loop_buffer \<Rightarrow> bytes \<times> loop_buffer" where
  "lb_get BS b = (case lb_pop BS b (Some (\<lambda>h seg. (h @ seg, seg))) [] of
     Inl e \<Rightarrow> ([], b) | Inr (n, b', out) \<Rightarrow> (out, b'))"

lemma lb_put_contents:
  assumes wf: "lb_wf BS b" and d: "length d \<le> 4294967295"
  shows "lb_put BS b d =
      (if length (lb_contents BS b) + length d \<le> unat BS
       then (length d, snd (lb_put BS b d)) else (0, b))"
    and "lb_wf BS (snd (lb_put BS b d))"
    and "length (lb_contents BS b) + length d \<le> unat BS \<Longrightarrow>
      lb_contents BS (snd (lb_put BS b d)) = lb_contents BS b @ d"
proof -
  have u: "unat (of_nat (length d) :: u32) = length d"
    using d by (simp add: unat_of_nat take_bit_nat_eq_self)
  note lb_push_contents [OF wf, of "of_nat (length d)" d, unfolded u]
  then have *: "case lb_push_string BS b d of (r, b') \<Rightarrow>
     lb_wf BS b' \<and>
     (if length (lb_contents BS b) + length d \<le> unat BS
      then r = of_nat (length d) \<and> lb_contents BS b' = lb_contents BS b @ d
      else r = 0 \<and> b' = b)"
    by (cases "lb_push BS b d (of_nat (length d))")
       (simp add: lb_push_string_def add.commute split: if_splits)
  from * u show "lb_put BS b d =
      (if length (lb_contents BS b) + length d \<le> unat BS
       then (length d, snd (lb_put BS b d)) else (0, b))"
    by (auto simp: lb_put_def split: prod.splits if_splits)
  from * show "lb_wf BS (snd (lb_put BS b d))"
    by (auto simp: lb_put_def split: prod.splits)
  from * show "lb_contents BS (snd (lb_put BS b d)) = lb_contents BS b @ d"
    if "length (lb_contents BS b) + length d \<le> unat BS"
    using that by (auto simp: lb_put_def split: prod.splits)
qed

lemma lb_get_contents:
  assumes wf: "lb_wf BS b" and g: "lb_get BS b = (out, b')"
  shows "lb_contents BS b = out @ lb_contents BS b'" and "lb_wf BS b'"
    and "lb_contents BS b \<noteq> [] \<Longrightarrow> out \<noteq> []"
proof -
  let ?f = "\<lambda>h seg :: bytes. (h @ seg, seg)"
  have ok: "seg_len_ok ?f" by (simp add: seg_len_ok_def)
  have "lb_contents BS b = out @ lb_contents BS b' \<and> lb_wf BS b' \<and>
      (lb_contents BS b \<noteq> [] \<longrightarrow> out \<noteq> [])"
  proof (cases "lb_contents BS b = []")
    case True
    then have "lb_get BS b = ([], b)" by (simp add: lb_get_def lb_pop_def lb_contents_Nil)
    with g wf True show ?thesis by simp
  next
    case False
    show ?thesis
    proof (rule lb_pop_contents [OF wf ok False, of "[]"])
      fix n h' seg b1
      assume p: "lb_pop BS b (Some ?f) [] = Inr (n, b1, h')" "0 < n"
        "([] @ take (unat n) (lb_contents BS b), take (unat n) (lb_contents BS b)) = (h', seg)"
        "lb_contents BS b1 = drop (unat n) (lb_contents BS b)" "lb_wf BS b1"
      have "lb_get BS b = (h', b1)"
        using p(1) by (simp only: lb_get_def sum.case prod.case)
      then have o: "out = take (unat n) (lb_contents BS b)" "b' = b1"
        using g p(3) by auto
      have "unat n \<noteq> 0" using p(2) by (simp add: word_less_nat_alt)
      with False have "out \<noteq> []" unfolding o by (simp only: take_eq_Nil) blast
      moreover have "lb_contents BS b = out @ lb_contents BS b'"
        unfolding o p(4) by (rule append_take_drop_id [symmetric])
      ultimately show ?thesis using p(5) o(2) by blast
    qed
  qed
  then show "lb_contents BS b = out @ lb_contents BS b'" and "lb_wf BS b'"
    and "lb_contents BS b \<noteq> [] \<Longrightarrow> out \<noteq> []" by blast+
qed

interpretation ring: byte_fifo "lb_wf BS" "lb_contents BS" "unat BS" 4294967295 "lb_put BS" "lb_get BS"
  for BS :: u32
proof unfold_locales
  fix q q' :: loop_buffer and d out :: bytes and r :: nat
  assume wf: "lb_wf BS q"
  show "length (lb_contents BS q) \<le> unat BS" by (rule lb_wfD(4) [OF wf])
  note pc = lb_put_contents [OF wf, of d]
  show "r = length d \<and> lb_contents BS q' = lb_contents BS q @ d"
    if "length d \<le> 4294967295" "length (lb_contents BS q) + length d \<le> unat BS"
      "lb_put BS q d = (r, q')"
    using that pc(1,3) by simp
  show "lb_put BS q d = (0, q)"
    if "length d \<le> 4294967295" "unat BS < length (lb_contents BS q) + length d"
    using that pc(1) by simp
  show "lb_wf BS q'" if "length d \<le> 4294967295" "lb_put BS q d = (r, q')"
    using that pc(2) by simp
  show "lb_contents BS q = out @ lb_contents BS q'" if "lb_get BS q = (out, q')"
    by (rule lb_get_contents(1) [OF wf that])
  show "out \<noteq> []" if "lb_contents BS q \<noteq> []" "lb_get BS q = (out, q')"
    by (rule lb_get_contents(3) [OF wf that(2,1)])
  show "lb_wf BS q'" if "lb_get BS q = (out, q')"
    by (rule lb_get_contents(2) [OF wf that])
qed

section \<open>Properties\<close>



text \<open>
  \<open>push\<close> stores all of its \<open>dataLen\<close> bytes behind the contents and returns \<open>dataLen\<close> when
  they fit into the free space, and otherwise changes nothing and returns 0; both cases keep the
  ring well-formed.
\<close>

theorem loop_buffer_push:
  assumes "lb_wf BS b" and "unat dataLen \<le> length data"
  shows "case lb_push BS b data dataLen of (r, b') \<Rightarrow>
    lb_wf BS b' \<and>
    (if unat dataLen + length (lb_contents BS b) \<le> unat BS
     then r = dataLen \<and> lb_contents BS b' = lb_contents BS b @ take (unat dataLen) data
     else r = 0 \<and> b' = b)"
  by (rule lb_push_contents [OF assms])

theorem loop_buffer_push_witness:
  "let b = \<lparr>lb_head = 4294967294, lb_buffer = ''wxyz'', lb_tail = 4294967295\<rparr>
   in lb_wf 4 b \<and> fst (lb_push 4 b ''abcde'' 3) = 3 \<and>
      lb_contents 4 (snd (lb_push 4 b ''abcde'' 3)) = ''yabc'' \<and> lb_push 4 b ''abcde'' 4 = (0, b)"
proof -
  let ?b = "\<lparr>lb_head = 4294967294, lb_buffer = ''wxyz'', lb_tail = 4294967295\<rparr>"
  have wf: "lb_wf 4 ?b" by (auto simp: lb_wf_def intro: exI [of _ 2])
  have c: "lb_contents 4 ?b = ''y''" by (simp add: lb_contents_def upt_rec)
  have "fst (lb_push 4 ?b ''abcde'' 3) = 3 \<and> lb_contents 4 (snd (lb_push 4 ?b ''abcde'' 3)) = ''yabc''"
    using loop_buffer_push [OF wf, of 3 "''abcde''", unfolded c] by (simp add: case_prod_beta)
  moreover have "lb_push 4 ?b ''abcde'' 4 = (0, ?b)"
    using loop_buffer_push [OF wf, of 4 "''abcde''", unfolded c]
    by (simp add: case_prod_beta prod_eq_iff)
  ultimately show ?thesis using wf by (simp only: Let_def simp_thms)
qed

text \<open>
  For every \<open>kMaxSize\<close> from 1 to \<open>2 ^ 31\<close>, \<open>BufferSize\<close> is the least power of two that holds
  it, and a fresh buffer of that size is a well-formed empty ring.
\<close>

theorem loop_buffer_size:
  assumes "0 < unat kMaxSize" and "unat kMaxSize \<le> 2 ^ 31"
    and "unat (BufferSize kMaxSize) \<le> length mem"
  shows "(\<exists>k. unat (BufferSize kMaxSize) = 2 ^ k \<and> unat kMaxSize \<le> 2 ^ k \<and> 2 ^ k < 2 * unat kMaxSize)
    \<and> lb_wf (BufferSize kMaxSize) (lb_init (BufferSize kMaxSize) mem)
    \<and> lb_contents (BufferSize kMaxSize) (lb_init (BufferSize kMaxSize) mem) = []"
  using BufferSize_pow2 [OF assms(1,2)] assms(3)
  by (auto simp: lb_wf_def lb_init_def lb_contents_Nil)

theorem loop_buffer_size_witness:
  "unat (BufferSize 5) = 8 \<and> lb_wf (BufferSize 5) (lb_init (BufferSize 5) ''abcdefgh'')"
proof -
  have "BufferSize 5 = 8" by code_simp
  with loop_buffer_size [of 5 "''abcdefgh''"] show ?thesis by simp
qed

text \<open>
  With an encrypter that is a stream cipher, \<open>push\<close> with encryption appends the encryption of
  the whole message, also when the message is split at the end of the array and encrypted in two
  calls, and leaves the cipher in the state after the whole message.
\<close>

theorem loop_buffer_push_encrypted:
  assumes "lb_wf BS b" and "unat dataLen \<le> length data" and "stream_handler f"
    and "unat dataLen + length (lb_contents BS b) \<le> unat BS"
    and "f h (take (unat dataLen) data) = (h', ys)"
  shows "\<exists>b'. lb_push_encrypted BS b data dataLen f h = (dataLen, b', h') \<and>
    lb_wf BS b' \<and> lb_contents BS b' = lb_contents BS b @ ys"
proof -
  have "length ys = unat dataLen"
    using assms(2,3,5) seg_len_okD [of f h "take (unat dataLen) data" h' ys]
    by (simp add: stream_handler_def min.absorb2)
  with lb_contents_ring_write [OF assms(1), of ys] assms(4) lb_push_encrypted_eq [OF assms]
  show ?thesis by simp
qed

theorem loop_buffer_push_encrypted_witness:
  "let b = \<lparr>lb_head = 4294967294, lb_buffer = ''wxyz'', lb_tail = 4294967295\<rparr>;
       f = (\<lambda>n seg. (n + length seg, map (\<lambda>c. if c = CHR ''a'' then CHR ''A'' else c) seg));
       (r, b', h) = lb_push_encrypted 4 b ''aba'' 3 f (0 :: nat)
   in r = 3 \<and> h = 3 \<and> lb_contents 4 b' = ''yAbA''"
proof -
  let ?b = "\<lparr>lb_head = 4294967294, lb_buffer = ''wxyz'', lb_tail = 4294967295\<rparr>"
  let ?f = "\<lambda>n seg. (n + length seg, map (\<lambda>c. if c = CHR ''a'' then CHR ''A'' else c) seg)"
  have wf: "lb_wf 4 ?b" by (auto simp: lb_wf_def intro: exI [of _ 2])
  have st: "stream_handler ?f" by (simp add: stream_handler_def seg_len_ok_def)
  have c: "lb_contents 4 ?b = ''y''" by (simp add: lb_contents_def upt_rec)
  have "\<exists>b'. lb_push_encrypted 4 ?b ''aba'' 3 ?f 0 = (3, b', 3) \<and> lb_wf 4 b' \<and>
      lb_contents 4 b' = ''y'' @ ''AbA''"
    by (rule loop_buffer_push_encrypted [OF wf _ st, unfolded c]) simp_all
  then show ?thesis by (auto simp only: Let_def prod.case append.simps)
qed

end
