(* ===== verification/Tcp_Connection.thy ===== *)
theory Tcp_Connection
  imports Snet_Prelude
begin

text \<open>
  \<open>TcpConnection\<close> (src/include/tcp/tcp\_connection.h): one socket with its send string, its receive
  buffer and its status, driven by the events of an \<open>EpollWorker\<close>. The kernel (\<open>send\<close>, \<open>recv\<close>,
  \<open>socket\<close>, \<open>connect\<close>) and the virtual methods of the derived class are parameters; the calls on the
  worker are recorded. Printing and the locking of the send string are not modelled: the operations
  are taken as atomic, as they are for a connection that is used from its worker's thread.
\<close>

section \<open>Data\<close>

datatype ConnStatus = CONN_IDLE | CONN_OPEN | CONN_CLOSING | CONN_CLOSED

definition status_num :: "ConnStatus \<Rightarrow> nat" where
  "status_num s = (case s of CONN_IDLE \<Rightarrow> 0 | CONN_OPEN \<Rightarrow> 1 | CONN_CLOSING \<Rightarrow> 2 | CONN_CLOSED \<Rightarrow> 3)"

text \<open>The code compares statuses by their numbers.\<close>

instantiation ConnStatus :: linorder
begin

definition less_eq_ConnStatus :: "ConnStatus \<Rightarrow> ConnStatus \<Rightarrow> bool" where
  "less_eq_ConnStatus a b \<longleftrightarrow> status_num a \<le> status_num b"

definition less_ConnStatus :: "ConnStatus \<Rightarrow> ConnStatus \<Rightarrow> bool" where
  "less_ConnStatus a b \<longleftrightarrow> status_num a < status_num b"

instance
proof
  fix a b c :: ConnStatus
  show "(a < b) = (a \<le> b \<and> \<not> b \<le> a)" "a \<le> a" "a \<le> b \<Longrightarrow> b \<le> c \<Longrightarrow> a \<le> c" "a \<le> b \<or> b \<le> a"
    by (auto simp: less_eq_ConnStatus_def less_ConnStatus_def)
  show "a \<le> b \<Longrightarrow> b \<le> a \<Longrightarrow> a = b"
    by (cases a; cases b) (simp_all add: less_eq_ConnStatus_def status_num_def)
qed

end

text \<open>The events of \<open>NetEvent\<close> (src/include/tcp/snet\_handler.h).\<close>

datatype NetEvent = EVT_THREAD_INIT | EVT_THREAD_EXIT | EVT_LISTEN_START | EVT_LISTEN_FAIL | EVT_LISTEN_STOP
  | EVT_CREATE | EVT_RELEASE | EVT_CONNECT | EVT_CONNECT_FAIL | EVT_RECV | EVT_SEND | EVT_DISCONNECT
  | EVT_RECYLE_TIMER | EVT_USER1 | EVT_USER2 | EVT_END | EVT_ACTIVE_OPEN | EVT_ACTIVE_CLOSE

definition kReadBufferSize :: nat where
  "kReadBufferSize = 1024 * 1024 * 8"

definition EPOLLIN :: u32 where "EPOLLIN = 0x001"
definition EPOLLOUT :: u32 where "EPOLLOUT = 0x004"
definition EPOLLERR :: u32 where "EPOLLERR = 0x008"
definition EPOLLET :: u32 where "EPOLLET = 0x80000000"

lemmas epoll_defs = EPOLLIN_def EPOLLOUT_def EPOLLERR_def EPOLLET_def

definition has_event :: "u32 \<Rightarrow> u32 \<Rightarrow> bool" where
  "has_event evts e \<longleftrightarrow> evts AND e = e"

text \<open>The calls a connection makes on its worker, its factory and its descriptor.\<close>

datatype worker_call =
    Mod_event int u32
  | Del_event int
  | Add_event int u32
  | Close_fd int
  | Remove_connection u64
  | Start_timer u32 bool

text \<open>
  The members of the class. \<open>read_buffer_pos\<close> is never negative; \<open>world\<close> is the state of the kernel and
  \<open>app\<close> the members of the derived class. The last five fields are not part of the program: the bytes
  appended to the send string and those the kernel took, the bytes received and the packages handed to
  \<open>handle_data\<close>, and the events handed to \<open>handle_event\<close>.
\<close>

record ('u, 'w) tcp_connection =
  read_buffer :: bytes
  read_buffer_pos :: nat
  remote_port :: u16
  remote_host :: bytes
  conn_status :: ConnStatus
  tcp_worker :: bool
  conn_sd :: int
  need_reconnect :: bool
  send_buffer :: bytes
  epoll_events :: u32
  is_passive :: bool
  conn_id :: u64
  factory :: bool
  calls :: "worker_call list"
  world :: 'w
  app :: 'u
  accepted :: bytes
  sent :: bytes
  received :: bytes
  delivered :: "bytes list"
  events :: "NetEvent list"

datatype send_result = Send_ok nat | Send_again | Send_error
datatype recv_result = Recv_data bytes | Recv_eof | Recv_again | Recv_error
datatype connect_result = Bad_address | Connect_failed | Connected

record 'w kernel =
  sys_send :: "int \<Rightarrow> bytes \<Rightarrow> 'w \<Rightarrow> send_result \<times> 'w"
  sys_recv :: "int \<Rightarrow> nat \<Rightarrow> 'w \<Rightarrow> recv_result \<times> 'w"
  sys_socket :: "'w \<Rightarrow> int \<times> 'w"
  sys_connect :: "int \<Rightarrow> bytes \<Rightarrow> u16 \<Rightarrow> 'w \<Rightarrow> connect_result \<times> 'w"

text \<open>The virtual methods. A handler gets the bytes its pointer and length denote.\<close>

record ('u, 'w) conn_handlers =
  handle_package :: "bytes \<Rightarrow> ('u, 'w) tcp_connection \<Rightarrow> int \<times> ('u, 'w) tcp_connection"
  handle_data :: "bytes \<Rightarrow> ('u, 'w) tcp_connection \<Rightarrow> int \<times> ('u, 'w) tcp_connection"
  handle_event :: "NetEvent \<Rightarrow> ('u, 'w) tcp_connection \<Rightarrow> bool \<times> ('u, 'w) tcp_connection"

text \<open>The methods \<open>TcpConnection\<close> itself defines.\<close>

definition TcpConnection_handlers :: "('u, 'w) conn_handlers" where
  "TcpConnection_handlers =
     \<lparr>handle_package = (\<lambda>data c. (int (length data), c)), handle_data = (\<lambda>data c. (int (length data), c)),
      handle_event = (\<lambda>evt c. (True, c))\<rparr>"

section \<open>Sending\<close>

definition worker_call :: "worker_call \<Rightarrow> ('u, 'w) tcp_connection \<Rightarrow> ('u, 'w) tcp_connection" where
  "worker_call wc c = c\<lparr>calls := calls c @ [wc]\<rparr>"

definition mod_event :: "('u, 'w) tcp_connection \<Rightarrow> ('u, 'w) tcp_connection" where
  "mod_event c = worker_call (Mod_event (conn_sd c) (epoll_events c)) c"

definition notify_send :: "('u, 'w) tcp_connection \<Rightarrow> ('u, 'w) tcp_connection" where
  "notify_send c = (if tcp_worker c then mod_event (c\<lparr>epoll_events := epoll_events c OR EPOLLOUT\<rparr>) else c)"

definition is_open :: "('u, 'w) tcp_connection \<Rightarrow> bool" where
  "is_open c \<longleftrightarrow> (if 0 < conn_sd c then conn_status c = CONN_OPEN else False)"

definition is_connected :: "('u, 'w) tcp_connection \<Rightarrow> bool" where
  "is_connected c \<longleftrightarrow> (if 0 < conn_sd c then conn_status c = CONN_OPEN else False)"

definition conn_close :: "('u, 'w) tcp_connection \<Rightarrow> ('u, 'w) tcp_connection" where
  "conn_close c =
     (if conn_status c < CONN_CLOSING
      then notify_send (c\<lparr>conn_status := CONN_CLOSING\<rparr>) else c)"

text \<open>The types of data \<open>msend\<close> takes: a plain object (its bytes), a view, a string, a C string or \<open>nullptr\<close>.\<close>

datatype send_arg = Arg_pod bytes | Arg_view bytes | Arg_string bytes | Arg_cstr "bytes option"

definition append_data :: "bytes \<Rightarrow> ('u, 'w) tcp_connection \<Rightarrow> u32 \<times> ('u, 'w) tcp_connection" where
  "append_data d c =
     (let c = c\<lparr>send_buffer := send_buffer c @ d, accepted := accepted c @ d\<rparr>
      in (of_nat (length (send_buffer c)), c))"

definition write_data :: "send_arg \<Rightarrow> ('u, 'w) tcp_connection \<Rightarrow> u32 \<times> ('u, 'w) tcp_connection" where
  "write_data a c =
     (case a of
        Arg_pod d \<Rightarrow> append_data d c
      | Arg_view d \<Rightarrow> append_data d c
      | Arg_string d \<Rightarrow> append_data d c
      | Arg_cstr (Some d) \<Rightarrow> append_data (takeWhile (\<lambda>x. x \<noteq> CHR 0x00) d) c
      | Arg_cstr None \<Rightarrow> (0, c))"

fun mpush :: "send_arg list \<Rightarrow> ('u, 'w) tcp_connection \<Rightarrow> u32 \<times> ('u, 'w) tcp_connection" where
  "mpush [] c = (0, c)"
| "mpush (a # rest) c =
     (let (len, c) = write_data a c
      in if 0 < len then let (n, c) = mpush rest c in (len + n, c) else (0, c))"

function do_send :: "'w kernel \<Rightarrow> ('u, 'w) tcp_connection \<Rightarrow> ('u, 'w) tcp_connection" where
  "do_send k c =
     (if send_buffer c = []
      then mod_event (c\<lparr>epoll_events := epoll_events c AND NOT EPOLLOUT\<rparr>)
      else case sys_send k (conn_sd c) (send_buffer c) (world c) of
          (Send_again, w) \<Rightarrow> mod_event (c\<lparr>world := w, epoll_events := epoll_events c OR EPOLLOUT\<rparr>)
        | (Send_error, w) \<Rightarrow> conn_close (c\<lparr>world := w\<rparr>)
        | (Send_ok rc, w) \<Rightarrow>
            let c' = c\<lparr>world := w, sent := sent c @ take rc (send_buffer c)\<rparr>
            in if 0 < rc \<and> rc < length (send_buffer c)
               then do_send k (c'\<lparr>send_buffer := drop rc (send_buffer c)\<rparr>)
               else c'\<lparr>send_buffer := []\<rparr>)"
  by pat_completeness auto
termination
  by (relation "measure (\<lambda>(k, c). length (send_buffer c))") auto

declare do_send.simps [simp del]

definition msend :: "'w kernel \<Rightarrow> send_arg list \<Rightarrow> ('u, 'w) tcp_connection \<Rightarrow> int \<times> ('u, 'w) tcp_connection" where
  "msend k args c =
     (if is_open c
      then let isWriting = (send_buffer c \<noteq> []);
               (n, c) = mpush args c
           in (sint n, if \<not> isWriting then do_send k c else c)
      else (-1, c))"

definition send :: "'w kernel \<Rightarrow> bytes \<Rightarrow> ('u, 'w) tcp_connection \<Rightarrow> int \<times> ('u, 'w) tcp_connection" where
  "send k data c = msend k [Arg_string data] c"

definition send_raw :: "'w kernel \<Rightarrow> bytes \<Rightarrow> u32 \<Rightarrow> ('u, 'w) tcp_connection \<Rightarrow> int \<times> ('u, 'w) tcp_connection" where
  "send_raw k data dataLen c = msend k [Arg_view (take (unat dataLen) data)] c"

section \<open>Receiving\<close>

text \<open>
  The loop over the packages of the buffer. \<open>handle_package\<close> is given \<open>read_buffer_pos\<close> bytes from
  \<open>readPos\<close> on, as in the code. The result is \<open>False\<close> when the loop returns from within, on a package
  that cannot fit the buffer. \<open>None\<close> is a loop that does not end.
\<close>

partial_function (option) process_loop ::
    "('u, 'w) conn_handlers \<Rightarrow> nat \<Rightarrow> nat \<Rightarrow> ('u, 'w) tcp_connection \<Rightarrow> (bool \<times> nat \<times> ('u, 'w) tcp_connection) option" where
  "process_loop h bufsize readPos c =
     (if readPos < read_buffer_pos c
      then let (pkgLen, c) = handle_package h (slice (read_buffer c) readPos (read_buffer_pos c)) c
           in if pkgLen \<le> 0 \<or> int (read_buffer_pos c) - int readPos < pkgLen
              then if int bufsize < pkgLen then Some (False, readPos, conn_close c) else Some (True, readPos, c)
              else let d = slice (read_buffer c) readPos (nat pkgLen);
                       (_, c) = handle_data h d (c\<lparr>delivered := delivered c @ [d]\<rparr>)
                   in process_loop h bufsize (readPos + nat pkgLen) c
      else Some (True, readPos, c))"

definition process_data ::
    "('u, 'w) conn_handlers \<Rightarrow> nat \<Rightarrow> nat \<Rightarrow> ('u, 'w) tcp_connection \<Rightarrow> (bool \<times> ('u, 'w) tcp_connection) option" where
  "process_data h bufsize nread c =
     Option.bind (process_loop h bufsize 0 (c\<lparr>read_buffer_pos := read_buffer_pos c + nread\<rparr>))
       (\<lambda>(ok, readPos, c).
          if \<not> ok then Some (False, c)
          else
            let rest = read_buffer_pos c - readPos;
                c = (if readPos < read_buffer_pos c
                     then c\<lparr>read_buffer := mem_write (read_buffer c) 0 (slice (read_buffer c) readPos rest)\<rparr> else c);
                c = c\<lparr>read_buffer_pos := rest\<rparr>
            in Some (0 < read_buffer_pos c, c))"

text \<open>The first half of \<open>do_read\<close>: \<open>Inl\<close> is its early return, \<open>Inr\<close> the number of bytes read.\<close>

definition recv_step ::
    "'w kernel \<Rightarrow> nat \<Rightarrow> ('u, 'w) tcp_connection \<Rightarrow>
     int \<times> ('u, 'w) tcp_connection + nat \<times> ('u, 'w) tcp_connection" where
  "recv_step k bufsize c =
     (if 0 < bufsize - read_buffer_pos c
      then case sys_recv k (conn_sd c) (bufsize - read_buffer_pos c) (world c) of
          (Recv_again, w) \<Rightarrow> Inl (0, c\<lparr>world := w\<rparr>)
        | (Recv_error, w) \<Rightarrow> Inl (-1, conn_close (c\<lparr>world := w\<rparr>))
        | (Recv_eof, w) \<Rightarrow> Inl (-1, conn_close (c\<lparr>world := w\<rparr>))
        | (Recv_data d, w) \<Rightarrow>
            Inr (length d, c\<lparr>world := w, read_buffer := mem_write (read_buffer c) (read_buffer_pos c) d,
                             received := received c @ d\<rparr>)
      else Inr (0, c))"

partial_function (option) do_read ::
    "'w kernel \<Rightarrow> ('u, 'w) conn_handlers \<Rightarrow> nat \<Rightarrow> ('u, 'w) tcp_connection \<Rightarrow> (int \<times> ('u, 'w) tcp_connection) option" where
  "do_read k h bufsize c =
     (case recv_step k bufsize c of
        Inl r \<Rightarrow> Some r
      | Inr (len, c) \<Rightarrow>
          Option.bind (process_data h bufsize len c) (\<lambda>(hasMore, c).
            if hasMore then Option.bind (do_read k h bufsize c) (\<lambda>(_, c). Some (int len, c))
            else Some (int len, c)))"

section \<open>Life cycle\<close>

definition fire_event :: "('u, 'w) conn_handlers \<Rightarrow> NetEvent \<Rightarrow> ('u, 'w) tcp_connection \<Rightarrow> ('u, 'w) tcp_connection" where
  "fire_event h evt c = snd (handle_event h evt (c\<lparr>events := events c @ [evt]\<rparr>))"

definition conn_init ::
    "int \<Rightarrow> bytes \<Rightarrow> u16 \<Rightarrow> bool \<Rightarrow> ('u, 'w) tcp_connection \<Rightarrow> ('u, 'w) tcp_connection" where
  "conn_init fd host port passive c =
     (let c = c\<lparr>remote_host := host, remote_port := port, is_passive := passive,
               epoll_events := EPOLLET OR EPOLLIN OR EPOLLERR\<rparr>
      in if 0 < fd then c\<lparr>conn_sd := fd\<rparr> else c)"

definition on_ready :: "('u, 'w) conn_handlers \<Rightarrow> ('u, 'w) tcp_connection \<Rightarrow> ('u, 'w) tcp_connection" where
  "on_ready h c = (if conn_status c = CONN_IDLE then fire_event h EVT_CONNECT (c\<lparr>conn_status := CONN_OPEN\<rparr>) else c)"

definition do_close :: "('u, 'w) conn_handlers \<Rightarrow> ('u, 'w) tcp_connection \<Rightarrow> ('u, 'w) tcp_connection" where
  "do_close h c =
     (if conn_status c = CONN_CLOSING
      then
        let c = c\<lparr>conn_status := CONN_CLOSED\<rparr>;
            c = (if tcp_worker c then worker_call (Del_event (conn_sd c)) c else c);
            c = fire_event h EVT_DISCONNECT c
        in if need_reconnect c then c\<lparr>conn_status := CONN_IDLE\<rparr>
           else
             let c = (if 0 < conn_sd c then (worker_call (Close_fd (conn_sd c)) c)\<lparr>conn_sd := -1\<rparr> else c)
             in if factory c then worker_call (Remove_connection (conn_id c)) c else c
      else c)"

definition do_connect :: "'w kernel \<Rightarrow> ('u, 'w) tcp_connection \<Rightarrow> int \<times> ('u, 'w) tcp_connection" where
  "do_connect k c =
     (let (fd, w) = sys_socket k (world c);
          (r, w) = sys_connect k fd (remote_host c) (remote_port c) w;
          c = c\<lparr>conn_sd := fd, world := w\<rparr>
      in case r of
           Bad_address \<Rightarrow> (-1, c)
         | Connect_failed \<Rightarrow> (-1, worker_call (Close_fd fd) c)
         | Connected \<Rightarrow>
             let c = c\<lparr>epoll_events := epoll_events c OR EPOLLOUT\<rparr>
             in (fd, worker_call (Add_event fd (epoll_events c)) c))"

definition enable_reconnect :: "u32 \<Rightarrow> ('u, 'w) tcp_connection \<Rightarrow> ('u, 'w) tcp_connection" where
  "enable_reconnect t_interval c = worker_call (Start_timer t_interval True) (c\<lparr>need_reconnect := True\<rparr>)"

text \<open>The handler of the timer that \<open>enable_reconnect\<close> starts.\<close>

definition reconnect_timer :: "'w kernel \<Rightarrow> ('u, 'w) tcp_connection \<Rightarrow> bool \<times> ('u, 'w) tcp_connection" where
  "reconnect_timer k c = (True, if \<not> is_open c then snd (do_connect k c) else c)"

text \<open>The part of \<open>process_event\<close> after the reading.\<close>

definition finish_event ::
    "'w kernel \<Rightarrow> ('u, 'w) conn_handlers \<Rightarrow> u32 \<Rightarrow> ('u, 'w) tcp_connection \<Rightarrow> ('u, 'w) tcp_connection" where
  "finish_event k h evts c =
     (let c = (if has_event evts EPOLLOUT then do_send k c else c);
          c = (if has_event evts EPOLLERR then conn_close c else c)
      in if conn_status c = CONN_CLOSING then do_close h c else c)"

definition process_event ::
    "'w kernel \<Rightarrow> ('u, 'w) conn_handlers \<Rightarrow> nat \<Rightarrow> u32 \<Rightarrow> ('u, 'w) tcp_connection \<Rightarrow> ('u, 'w) tcp_connection option" where
  "process_event k h bufsize evts c =
     (let c = (if conn_status c = CONN_IDLE then on_ready h c else c)
      in map_option (finish_event k h evts)
           (if has_event evts EPOLLIN then map_option snd (do_read k h bufsize c) else Some c))"

declare process_loop.simps [code] do_read.simps [code]

section \<open>What clients of a connection can do\<close>

text \<open>The documented behaviour of \<open>send\<close> and \<open>recv\<close> on a stream socket.\<close>

definition kernel_ok :: "'w kernel \<Rightarrow> bool" where
  "kernel_ok k \<longleftrightarrow>
     (\<forall>fd d w n w'. d \<noteq> [] \<longrightarrow> sys_send k fd d w = (Send_ok n, w') \<longrightarrow> 0 < n \<and> n \<le> length d) \<and>
     (\<forall>fd m w d w'. sys_recv k fd m w = (Recv_data d, w') \<longrightarrow> d \<noteq> [] \<and> length d \<le> m)"

lemma kernel_okD:
  assumes "kernel_ok k"
  shows "d \<noteq> [] \<Longrightarrow> sys_send k fd d w = (Send_ok n, w') \<Longrightarrow> 0 < n \<and> n \<le> length d"
    and "sys_recv k fd m w = (Recv_data d, w') \<Longrightarrow> d \<noteq> [] \<and> length d \<le> m"
  using assms unfolding kernel_ok_def by blast+

text \<open>A method of the derived class uses its own members, sends and closes.\<close>

inductive conn_client :: "'w kernel \<Rightarrow> ('u, 'w) tcp_connection \<Rightarrow> ('u, 'w) tcp_connection \<Rightarrow> bool"
  for k :: "'w kernel" and c :: "('u, 'w) tcp_connection" where
  client_refl: "conn_client k c c"
| client_app: "conn_client k c c1 \<Longrightarrow> conn_client k c (c1\<lparr>app := u\<rparr>)"
| client_send: "conn_client k c c1 \<Longrightarrow> msend k args c1 = (n, c2) \<Longrightarrow> conn_client k c c2"
| client_close: "conn_client k c c1 \<Longrightarrow> conn_client k c (conn_close c1)"

definition tx_inv :: "('u, 'w) tcp_connection \<Rightarrow> bool" where
  "tx_inv c \<longleftrightarrow> accepted c = sent c @ send_buffer c"

definition fd_closes :: "worker_call list \<Rightarrow> worker_call list" where
  "fd_closes cs = filter (\<lambda>x. case x of Close_fd _ \<Rightarrow> True | _ \<Rightarrow> False) cs"

lemma fd_closes_simps [simp]: "fd_closes [] = []" "fd_closes (xs @ ys) = fd_closes xs @ fd_closes ys"
  "fd_closes (x # xs) = (case x of Close_fd _ \<Rightarrow> x # fd_closes xs | _ \<Rightarrow> fd_closes xs)"
  by (simp_all add: fd_closes_def split: worker_call.split)

definition closing :: "('u, 'w) tcp_connection \<Rightarrow> bool" where
  "closing c \<longleftrightarrow> conn_status c = CONN_CLOSING \<or> conn_status c = CONN_CLOSED"

lemma closing_num: "(conn_status c < CONN_CLOSING) = (\<not> closing c)"
  by (cases "conn_status c") (simp_all add: less_ConnStatus_def status_num_def closing_def)

text \<open>The calls that are added only change the events to wait for.\<close>

definition mods :: "('u, 'w) tcp_connection \<Rightarrow> ('u, 'w) tcp_connection \<Rightarrow> bool" where
  "mods c c' \<longleftrightarrow> (\<exists>es. calls c' = calls c @ map (Mod_event (conn_sd c)) es)"

lemma mods_same [simp]: "calls c' = calls c \<Longrightarrow> mods c c'"
  unfolding mods_def by (rule exI [of _ "[]"]) simp

lemma mods_one [simp]: "mods c (c1\<lparr>calls := calls c @ [Mod_event (conn_sd c) e]\<rparr>)"
  unfolding mods_def by (rule exI [of _ "[e]"]) simp

lemma mods_trans: "mods c c1 \<Longrightarrow> mods c1 c2 \<Longrightarrow> conn_sd c1 = conn_sd c \<Longrightarrow> mods c c2"
  unfolding mods_def by (metis append.assoc map_append)

text \<open>What such a method leaves alone: the receiving side, the descriptor and the events; and the status only moves to closing.\<close>

definition base_frame :: "('u, 'w) tcp_connection \<Rightarrow> ('u, 'w) tcp_connection \<Rightarrow> bool" where
  "base_frame c c' \<longleftrightarrow>
     (read_buffer c', read_buffer_pos c', received c', delivered c', events c', need_reconnect c', factory c',
        tcp_worker c', conn_id c', conn_sd c', fd_closes (calls c')) =
     (read_buffer c, read_buffer_pos c, received c, delivered c, events c, need_reconnect c, factory c,
        tcp_worker c, conn_id c, conn_sd c, fd_closes (calls c)) \<and>
     (conn_status c' = conn_status c \<or> \<not> closing c \<and> conn_status c' = CONN_CLOSING) \<and>
     (tx_inv c \<longrightarrow> tx_inv c') \<and> mods c c'"

lemma base_frame_refl: "base_frame c c"
  by (simp add: base_frame_def)

lemma base_frame_trans: "base_frame c c1 \<Longrightarrow> base_frame c1 c2 \<Longrightarrow> base_frame c c2"
  by (auto simp: base_frame_def closing_def elim: mods_trans)

lemma base_frame_closing: "base_frame c c' \<Longrightarrow> closing c \<Longrightarrow> closing c'"
  by (auto simp: base_frame_def closing_def)

lemma base_frame_mod_event: "base_frame c (mod_event (c\<lparr>epoll_events := e\<rparr>))"
  by (simp add: base_frame_def mod_event_def worker_call_def tx_inv_def)

lemma base_frame_close: "base_frame c (conn_close c)" "closing (conn_close c)"
proof -
  have "closing (conn_close c) \<and> base_frame c (conn_close c)"
    by (auto simp: base_frame_def conn_close_def closing_num notify_send_def mod_event_def worker_call_def tx_inv_def
        closing_def)
  then show "base_frame c (conn_close c)" "closing (conn_close c)" by auto
qed

lemma base_frame_world: "base_frame c (c\<lparr>world := w\<rparr>)"
  by (simp add: base_frame_def tx_inv_def)

lemma write_data_frame: "write_data a c = (n, c') \<Longrightarrow> base_frame c c'"
  by (auto simp: write_data_def append_data_def Let_def base_frame_def tx_inv_def split: send_arg.splits option.splits)

lemma mpush_frame: "mpush args c = (n, c') \<Longrightarrow> base_frame c c'"
proof (induction args arbitrary: c n c')
  case Nil
  then show ?case by (simp add: base_frame_refl)
next
  case (Cons a args)
  obtain m c1 where a: "write_data a c = (m, c1)" by fastforce
  obtain n2 c2 where r: "mpush args c1 = (n2, c2)" by fastforce
  from Cons.prems a r have "c' = c1 \<or> c' = c2" by (auto split: if_splits)
  with base_frame_trans [OF write_data_frame [OF a] Cons.IH [OF r]] write_data_frame [OF a] show ?case by auto
qed

lemma mpush_keeps:
  "mpush args c = (n, c') \<Longrightarrow> epoll_events c' = epoll_events c \<and> calls c' = calls c \<and> conn_status c' = conn_status c"
proof (induction args arbitrary: c n c')
  case (Cons a args)
  obtain m c1 where a: "write_data a c = (m, c1)" by fastforce
  then have "epoll_events c1 = epoll_events c \<and> calls c1 = calls c \<and> conn_status c1 = conn_status c"
    by (auto simp: write_data_def append_data_def Let_def split: send_arg.splits option.splits)
  with Cons a show ?case by (auto split: if_splits prod.splits)
qed simp

lemma do_send_base_frame:
  assumes "kernel_ok k"
  shows "base_frame c (do_send k c)"
  using assms
proof (induction k c rule: do_send.induct)
  case (1 k c)
  show ?case
  proof (cases "send_buffer c = []")
    case True
    then show ?thesis by (subst do_send.simps) (simp add: base_frame_mod_event)
  next
    case ne: False
    obtain r w where s: "sys_send k (conn_sd c) (send_buffer c) (world c) = (r, w)" by fastforce
    show ?thesis
    proof (cases r)
      case Send_again
      have "base_frame c (mod_event ((c\<lparr>world := w\<rparr>)\<lparr>epoll_events := epoll_events c OR EPOLLOUT\<rparr>))"
        by (rule base_frame_trans [OF base_frame_world base_frame_mod_event])
      with ne s Send_again show ?thesis by (subst do_send.simps) simp
    next
      case Send_error
      have "base_frame c (conn_close (c\<lparr>world := w\<rparr>))"
        by (rule base_frame_trans [OF base_frame_world base_frame_close(1)])
      with ne s Send_error show ?thesis by (subst do_send.simps) simp
    next
      case (Send_ok n)
      let ?c = "c\<lparr>world := w, sent := sent c @ take n (send_buffer c)\<rparr>"
      show ?thesis
      proof (cases "0 < n \<and> n < length (send_buffer c)")
        case True
        let ?d = "?c\<lparr>send_buffer := drop n (send_buffer c)\<rparr>"
        have "base_frame c ?d" by (simp add: base_frame_def tx_inv_def)
        moreover have "base_frame ?d (do_send k ?d)" using "1.IH" [OF ne s [symmetric] Send_ok refl True "1.prems"] by simp
        moreover have "do_send k c = do_send k ?d" using ne s Send_ok True by (subst do_send.simps) simp
        ultimately show ?thesis by (metis base_frame_trans)
      next
        case False
        then have "do_send k c = ?c\<lparr>send_buffer := []\<rparr>"
          using ne s Send_ok by (subst do_send.simps) (auto simp: Let_def)
        moreover have "length (send_buffer c) \<le> n"
          using False kernel_okD(1) [OF "1.prems" ne s [unfolded Send_ok]] by simp
        ultimately show ?thesis by (simp add: base_frame_def tx_inv_def)
      qed
    qed
  qed
qed

text \<open>
  Data that waits in the send string of a connection that is not closing is announced to the worker:
  the latest events it was told to wait for include \<open>EPOLLOUT\<close>.
\<close>

fun last_mod :: "worker_call list \<Rightarrow> u32 option" where
  "last_mod [] = None"
| "last_mod (Mod_event sd e # cs) = (case last_mod cs of None \<Rightarrow> Some e | Some e' \<Rightarrow> Some e')"
| "last_mod (_ # cs) = last_mod cs"

lemma last_mod_snoc [simp]: "last_mod (cs @ [Mod_event sd e]) = Some e"
  by (induction cs rule: last_mod.induct) (simp_all split: option.split)

definition armed :: "('u, 'w) tcp_connection \<Rightarrow> bool" where
  "armed c \<longleftrightarrow> closing c \<or> send_buffer c = [] \<or>
     has_event (epoll_events c) EPOLLOUT \<and> last_mod (calls c) = Some (epoll_events c)"

lemma has_event_or [simp]: "has_event (e OR EPOLLOUT) EPOLLOUT"
  by (simp add: has_event_def bit.conj_disj_distrib2)

lemma do_send_armed: "armed (do_send k c)"
proof (induction k c rule: do_send.induct)
  case (1 k c)
  show ?case
  proof (cases "send_buffer c = []")
    case True
    then show ?thesis by (subst do_send.simps) (simp add: armed_def mod_event_def worker_call_def)
  next
    case ne: False
    obtain r w where s: "sys_send k (conn_sd c) (send_buffer c) (world c) = (r, w)" by fastforce
    show ?thesis
    proof (cases r)
      case Send_again
      with ne s show ?thesis by (subst do_send.simps) (simp add: armed_def mod_event_def worker_call_def)
    next
      case Send_error
      with ne s show ?thesis by (subst do_send.simps) (simp add: armed_def base_frame_close)
    next
      case (Send_ok n)
      with ne s "1.IH" [OF ne s [symmetric] Send_ok refl] show ?thesis
        by (subst do_send.simps) (auto simp: Let_def armed_def)
    qed
  qed
qed

definition conn_frame :: "('u, 'w) tcp_connection \<Rightarrow> ('u, 'w) tcp_connection \<Rightarrow> bool" where
  "conn_frame c c' \<longleftrightarrow> base_frame c c' \<and> (armed c \<longrightarrow> armed c')"

lemmas conn_frame_defs = conn_frame_def base_frame_def

lemma conn_frame_refl: "conn_frame c c"
  by (simp add: conn_frame_def base_frame_refl)

lemma conn_frame_trans: "conn_frame c c1 \<Longrightarrow> conn_frame c1 c2 \<Longrightarrow> conn_frame c c2"
  unfolding conn_frame_def using base_frame_trans by blast

lemma conn_frame_closing: "conn_frame c c' \<Longrightarrow> closing c \<Longrightarrow> closing c'"
  unfolding conn_frame_def using base_frame_closing by blast

lemma conn_frame_close: "conn_frame c (conn_close c)" "closing (conn_close c)"
  by (simp_all add: conn_frame_def base_frame_close armed_def)

lemma do_send_frame: "kernel_ok k \<Longrightarrow> conn_frame c (do_send k c)"
  by (simp add: conn_frame_def do_send_base_frame do_send_armed)

lemma conn_frame_app: "conn_frame c (c\<lparr>app := u\<rparr>)"
  by (simp add: conn_frame_defs tx_inv_def armed_def closing_def)

lemma msend_frame:
  assumes "kernel_ok k" and m: "msend k args c = (n, c')"
  shows "conn_frame c c'"
proof (cases "is_open c")
  case True
  obtain l c1 where p: "mpush args c = (l, c1)" by fastforce
  from m True p consider "c' = c1" "send_buffer c \<noteq> []" | "c' = do_send k c1"
    by (auto simp: msend_def Let_def split: if_splits)
  then show ?thesis
  proof cases
    case 1
    with mpush_frame [OF p] mpush_keeps [OF p] show ?thesis by (auto simp: conn_frame_def armed_def closing_def)
  next
    case 2
    with base_frame_trans [OF mpush_frame [OF p] do_send_base_frame [OF assms(1)]] do_send_armed show ?thesis
      by (auto simp: conn_frame_def)
  qed
next
  case False
  with m show ?thesis by (simp add: msend_def conn_frame_refl)
qed

lemma conn_client_frame:
  assumes "conn_client k c c'" and "kernel_ok k"
  shows "conn_frame c c'"
  using assms
proof (induction rule: conn_client.induct)
  case client_refl
  show ?case by (rule conn_frame_refl)
next
  case (client_app c1 u)
  from conn_frame_trans [OF client_app.IH [OF client_app.prems] conn_frame_app] show ?case .
next
  case (client_send c1 args n c2)
  from conn_frame_trans [OF client_send.IH [OF client_send.prems] msend_frame [OF client_send.prems client_send.hyps(2)]]
  show ?case .
next
  case (client_close c1)
  from conn_frame_trans [OF client_close.IH [OF client_close.prems] conn_frame_close(1)] show ?case .
qed

section \<open>The contract of the derived class\<close>

locale conn_methods =
  fixes k :: "'w kernel" and h :: "('u, 'w) conn_handlers"
  assumes package_client: "handle_package h d c = (n, c') \<Longrightarrow> conn_client k c c'"
    and data_client: "handle_data h d c = (n, c') \<Longrightarrow> conn_client k c c'"
    and event_client: "handle_event h evt c = (b, c') \<Longrightarrow> conn_client k c c'"

definition rx_loop_inv :: "bool \<Rightarrow> nat \<Rightarrow> nat \<Rightarrow> ('u, 'w) tcp_connection \<Rightarrow> bool" where
  "rx_loop_inv e bufsize readPos c \<longleftrightarrow>
     readPos \<le> read_buffer_pos c \<and> read_buffer_pos c \<le> bufsize \<and> bufsize \<le> length (read_buffer c) \<and>
     (e \<longrightarrow> received c = concat (delivered c) @ slice (read_buffer c) readPos (read_buffer_pos c - readPos))"

definition rx_inv :: "bool \<Rightarrow> nat \<Rightarrow> ('u, 'w) tcp_connection \<Rightarrow> bool" where
  "rx_inv e bufsize c \<longleftrightarrow> rx_loop_inv e bufsize 0 c"

lemma rx_inv_weaken: "rx_loop_inv e bufsize readPos c \<Longrightarrow> rx_inv False bufsize c"
  by (simp add: rx_inv_def rx_loop_inv_def)

lemma rx_loop_inv_frame: "conn_frame c c' \<Longrightarrow> rx_loop_inv e bufsize readPos c' = rx_loop_inv e bufsize readPos c"
  by (simp add: conn_frame_defs rx_loop_inv_def)

lemma rx_loop_inv_deliver:
  assumes "rx_loop_inv e bufsize readPos c" and "n \<le> read_buffer_pos c - readPos"
  shows "rx_loop_inv e bufsize (readPos + n) (c\<lparr>delivered := delivered c @ [slice (read_buffer c) readPos n]\<rparr>)"
proof -
  define m where "m = read_buffer_pos c - (readPos + n)"
  have "read_buffer_pos c - readPos = n + m" "read_buffer_pos c - (readPos + n) = m"
    using assms(2) by (simp_all add: m_def)
  moreover have "readPos + n \<le> read_buffer_pos c" using assms by (auto simp: rx_loop_inv_def)
  ultimately show ?thesis
    using assms slice_append_slice [of "read_buffer c" readPos n m] by (simp add: rx_loop_inv_def)
qed

text \<open>The fields that the loop over the packages leaves alone, besides the status and the sending side.\<close>

definition loop_frame :: "('u, 'w) tcp_connection \<Rightarrow> ('u, 'w) tcp_connection \<Rightarrow> bool" where
  "loop_frame c c' \<longleftrightarrow>
     (events c', need_reconnect c', factory c', tcp_worker c', conn_id c', conn_sd c', fd_closes (calls c')) =
     (events c, need_reconnect c, factory c, tcp_worker c, conn_id c, conn_sd c, fd_closes (calls c)) \<and>
     (conn_status c' = conn_status c \<or> \<not> closing c \<and> conn_status c' = CONN_CLOSING) \<and>
     (tx_inv c \<longrightarrow> tx_inv c') \<and> (armed c \<longrightarrow> armed c') \<and> mods c c'"

lemma conn_frame_loop_frame: "conn_frame c c' \<Longrightarrow> loop_frame c c'"
  by (simp add: conn_frame_defs loop_frame_def)

lemma loop_frame_refl: "loop_frame c c"
  by (simp add: loop_frame_def)

lemma loop_frame_trans:
  fixes c :: "('u, 'w) tcp_connection"
  assumes "loop_frame c c1" "loop_frame c1 c2"
  shows "loop_frame c c2"
proof -
  have st: "conn_status y = conn_status x \<or> \<not> closing x \<and> conn_status y = CONN_CLOSING" if "loop_frame x y" for x y :: "('u, 'w) tcp_connection"
    using that unfolding loop_frame_def by blast
  have "mods c c2" by (rule mods_trans [of c c1]) (use assms in \<open>simp_all add: loop_frame_def\<close>)
  moreover have "conn_status c2 = conn_status c \<or> \<not> closing c \<and> conn_status c2 = CONN_CLOSING"
    using st [OF assms(1)] st [OF assms(2)] by (auto simp: closing_def)
  ultimately show ?thesis using assms by (simp add: loop_frame_def del: mods_same)
qed

lemma loop_frame_rx [simp]:
  "loop_frame c (c\<lparr>delivered := d\<rparr>)" "loop_frame c (c\<lparr>read_buffer_pos := n\<rparr>)"
  "loop_frame c (c\<lparr>read_buffer := b\<rparr>)" "loop_frame c (c\<lparr>world := w, read_buffer := b, received := r\<rparr>)"
  by (simp_all add: loop_frame_def tx_inv_def armed_def closing_def)

lemma loop_frame_closing: "loop_frame c c' \<Longrightarrow> closing c \<Longrightarrow> closing c'"
  by (auto simp: loop_frame_def closing_def)

context conn_methods
begin

text \<open>One package.\<close>

lemma process_package:
  assumes ko: "kernel_ok k" and rx: "rx_loop_inv e bufsize readPos c" and lt: "readPos < read_buffer_pos c"
    and p: "handle_package h v c = (n, c1)" and n: "0 < n" "n \<le> int (read_buffer_pos c1) - int readPos"
    and d: "handle_data h (slice (read_buffer c1) readPos (nat n))
      (c1\<lparr>delivered := delivered c1 @ [slice (read_buffer c1) readPos (nat n)]\<rparr>) = (m, c2)"
  shows "rx_loop_inv e bufsize (readPos + nat n) c2" "read_buffer_pos c2 = read_buffer_pos c"
    "loop_frame c c2" "conn_frame c c1"
proof -
  let ?c = "c1\<lparr>delivered := delivered c1 @ [slice (read_buffer c1) readPos (nat n)]\<rparr>"
  show f1: "conn_frame c c1" by (rule conn_client_frame [OF package_client [OF p] ko])
  have f2: "conn_frame ?c c2" by (rule conn_client_frame [OF data_client [OF d] ko])
  have "nat n \<le> read_buffer_pos c1 - readPos" using n by linarith
  from rx_loop_inv_deliver [OF _ this] rx_loop_inv_frame [OF f1] rx rx_loop_inv_frame [OF f2]
  show "rx_loop_inv e bufsize (readPos + nat n) c2" by blast
  show "read_buffer_pos c2 = read_buffer_pos c" using f1 f2 by (simp add: conn_frame_defs)
  show "loop_frame c c2"
    by (rule loop_frame_trans [OF conn_frame_loop_frame [OF f1] loop_frame_trans [OF loop_frame_rx(1) conn_frame_loop_frame [OF f2]]])
qed

lemma process_loop_correct:
  assumes ko: "kernel_ok k" and rx: "rx_loop_inv e bufsize readPos c"
  shows "\<exists>ok r c'. process_loop h bufsize readPos c = Some (ok, r, c') \<and> loop_frame c c' \<and>
    read_buffer_pos c' = read_buffer_pos c \<and> (if ok then rx_loop_inv e bufsize r c' else closing c' \<and> rx_inv False bufsize c')"
  using rx
proof (induction "read_buffer_pos c - readPos" arbitrary: readPos c rule: less_induct)
  case less
  show ?case
  proof (cases "readPos < read_buffer_pos c")
    case False
    then have "process_loop h bufsize readPos c = Some (True, readPos, c)" by (subst process_loop.simps) simp
    with less.prems loop_frame_refl show ?thesis by fastforce
  next
    case True
    let ?v = "slice (read_buffer c) readPos (read_buffer_pos c)"
    obtain n c1 where p: "handle_package h ?v c = (n, c1)" by fastforce
    have f1: "conn_frame c c1" by (rule conn_client_frame [OF package_client [OF p] ko])
    show ?thesis
    proof (cases "n \<le> 0 \<or> int (read_buffer_pos c1) - int readPos < n")
      case stop: True
      have "loop_frame c (conn_close c1)" "closing (conn_close c1)" "read_buffer_pos (conn_close c1) = read_buffer_pos c"
        using loop_frame_trans [OF conn_frame_loop_frame [OF f1] conn_frame_loop_frame [OF conn_frame_close(1)]]
          conn_frame_close [of c1] f1 by (auto simp: conn_frame_defs)
      moreover have "rx_loop_inv e bufsize readPos c1" "loop_frame c c1" "read_buffer_pos c1 = read_buffer_pos c"
        using rx_loop_inv_frame [OF f1] less.prems conn_frame_loop_frame [OF f1] f1 by (auto simp: conn_frame_defs)
      moreover have "rx_inv False bufsize (conn_close c1)"
        using rx_inv_weaken rx_loop_inv_frame [OF conn_frame_close(1)] rx_loop_inv_frame [OF f1] less.prems by metis
      ultimately show ?thesis using True p stop by (subst process_loop.simps) (auto simp: Let_def)
    next
      case go: False
      obtain m c2 where d: "handle_data h (slice (read_buffer c1) readPos (nat n))
          (c1\<lparr>delivered := delivered c1 @ [slice (read_buffer c1) readPos (nat n)]\<rparr>) = (m, c2)" by fastforce
      from go have n: "0 < n" "n \<le> int (read_buffer_pos c1) - int readPos" by auto
      note pk = process_package [OF ko less.prems True p n d]
      have "read_buffer_pos c2 - (readPos + nat n) < read_buffer_pos c - readPos" using pk(2) True n(1) by simp
      from less.hyps [OF this pk(1)] obtain ok r c' where
        r: "process_loop h bufsize (readPos + nat n) c2 = Some (ok, r, c')" "loop_frame c2 c'"
          "read_buffer_pos c' = read_buffer_pos c2" "if ok then rx_loop_inv e bufsize r c' else closing c' \<and> rx_inv False bufsize c'" by blast
      have "process_loop h bufsize readPos c = Some (ok, r, c')"
        using True p go d r(1) by (subst process_loop.simps) (simp add: Let_def)
      with r loop_frame_trans [OF pk(3) r(2)] pk(2) show ?thesis by auto
    qed
  qed
qed

lemma process_data_correct:
  assumes ko: "kernel_ok k" and rx: "rx_inv e bufsize (c\<lparr>read_buffer_pos := read_buffer_pos c + nread\<rparr>)"
  shows "\<exists>more c'. process_data h bufsize nread c = Some (more, c') \<and> loop_frame c c' \<and>
    rx_inv False bufsize c' \<and>
    (closing c' \<and> \<not> more \<or> rx_inv e bufsize c' \<and> more = (0 < read_buffer_pos c'))"
proof -
  let ?c = "c\<lparr>read_buffer_pos := read_buffer_pos c + nread\<rparr>"
  from process_loop_correct [OF ko rx [unfolded rx_inv_def]] obtain ok r c1 where
    l: "process_loop h bufsize 0 ?c = Some (ok, r, c1)" "loop_frame ?c c1" "if ok then rx_loop_inv e bufsize r c1 else closing c1 \<and> rx_inv False bufsize c1"
    by blast
  have f: "loop_frame c c1" by (rule loop_frame_trans [OF loop_frame_rx(2) l(2)])
  show ?thesis
  proof (cases ok)
    case False
    with l(1) have "process_data h bufsize nread c = Some (False, c1)" by (simp add: process_data_def)
    with False l(3) f show ?thesis by auto
  next
    case True
    with l(3) have i: "rx_loop_inv e bufsize r c1" by simp
    let ?rest = "read_buffer_pos c1 - r"
    let ?c2 = "if r < read_buffer_pos c1
      then c1\<lparr>read_buffer := mem_write (read_buffer c1) 0 (slice (read_buffer c1) r ?rest)\<rparr> else c1"
    have len: "length (slice (read_buffer c1) r ?rest) = ?rest" using i by (auto simp: rx_loop_inv_def)
    have "rx_loop_inv e bufsize 0 (?c2\<lparr>read_buffer_pos := ?rest\<rparr>)"
      using i len slice_mem_write [of 0 "slice (read_buffer c1) r ?rest" "read_buffer c1"]
      by (auto simp: rx_loop_inv_def)
    moreover from this have "rx_inv False bufsize (?c2\<lparr>read_buffer_pos := ?rest\<rparr>)" by (rule rx_inv_weaken)
    moreover have "loop_frame c (?c2\<lparr>read_buffer_pos := ?rest\<rparr>)"
      by (rule loop_frame_trans [OF f]) (simp add: loop_frame_def tx_inv_def armed_def closing_def)
    ultimately show ?thesis using l(1) True by (simp add: process_data_def Let_def rx_inv_def)
  qed
qed

lemma recv_step_correct:
  assumes ko: "kernel_ok k" and rx: "rx_inv e bufsize c"
  shows "case recv_step k bufsize c of
      Inl (n, c') \<Rightarrow> loop_frame c c' \<and> rx_inv e bufsize c'
    | Inr (n, c') \<Rightarrow> loop_frame c c' \<and> rx_inv e bufsize (c'\<lparr>read_buffer_pos := read_buffer_pos c' + n\<rparr>)"
proof (cases "0 < bufsize - read_buffer_pos c")
  case False
  with rx show ?thesis by (simp add: recv_step_def loop_frame_refl)
next
  case True
  obtain r w where r: "sys_recv k (conn_sd c) (bufsize - read_buffer_pos c) (world c) = (r, w)" by fastforce
  have w: "loop_frame c (c\<lparr>world := w\<rparr>)" "rx_inv e bufsize (c\<lparr>world := w\<rparr>)"
    using rx by (simp_all add: loop_frame_def tx_inv_def armed_def closing_def rx_inv_def rx_loop_inv_def)
  have cl: "loop_frame c (conn_close (c\<lparr>world := w\<rparr>))" "rx_inv e bufsize (conn_close (c\<lparr>world := w\<rparr>))"
    using loop_frame_trans [OF w(1) conn_frame_loop_frame [OF conn_frame_close(1)]]
      rx_loop_inv_frame [OF conn_frame_close(1)] w(2) by (auto simp: rx_inv_def)
  show ?thesis
  proof (cases r)
    case (Recv_data d)
    from kernel_okD(2) [OF ko r [unfolded Recv_data]] have len: "length d \<le> bufsize - read_buffer_pos c" by simp
    let ?b = "mem_write (read_buffer c) (read_buffer_pos c) d"
    have fits: "read_buffer_pos c + length d \<le> length (read_buffer c)"
      using len True rx unfolding rx_inv_def rx_loop_inv_def by linarith
    then have "slice ?b 0 (read_buffer_pos c + length d) = slice (read_buffer c) 0 (read_buffer_pos c) @ d"
      by (simp add: slice_def mem_write_def)
    moreover have "read_buffer_pos c + length d \<le> bufsize" using len True by linarith
    ultimately have "rx_inv e bufsize (c\<lparr>world := w, read_buffer := ?b, received := received c @ d,
        read_buffer_pos := read_buffer_pos c + length d\<rparr>)"
      using fits rx by (simp add: rx_inv_def rx_loop_inv_def)
    with True r Recv_data show ?thesis by (simp add: recv_step_def)
  qed (use True r w cl in \<open>simp_all add: recv_step_def\<close>)
qed

lemma do_read_correct:
  assumes ko: "kernel_ok k" and rx: "rx_inv e bufsize c" and ret: "do_read k h bufsize c = Some (n, c')"
  shows "loop_frame c c' \<and> rx_inv False bufsize c' \<and> (closing c' \<or> rx_inv e bufsize c')"
proof -
  let ?Q = "\<lambda>k' h' b c (n, c'). k' = k \<longrightarrow> h' = h \<longrightarrow> rx_inv e b c \<longrightarrow> loop_frame c c' \<and> rx_inv False b c' \<and> (closing c' \<or> rx_inv e b c')"
  have "?Q k h bufsize c (n, c')"
  proof (rule do_read.raw_induct [where P = ?Q, OF _ ret])
    fix f k' h' b and c :: "('u, 'w) tcp_connection" and r :: "int \<times> ('u, 'w) tcp_connection"
    assume IH: "\<And>k' h' b c r. f k' h' b c = Some r \<Longrightarrow> ?Q k' h' b c r"
      and eq: "(case recv_step k' b c of Inl r \<Rightarrow> Some r
        | Inr (len, c) \<Rightarrow> Option.bind (process_data h' b len c) (\<lambda>(hasMore, c).
            if hasMore then Option.bind (f k' h' b c) (\<lambda>(_, c). Some (int len, c)) else Some (int len, c))) = Some r"
    obtain n c' where r: "r = (n, c')" by fastforce
    show "?Q k' h' b c r"
      unfolding r prod.case
    proof (intro impI)
      assume kh: "k' = k" "h' = h" and rx: "rx_inv e b c"
      note rs = recv_step_correct [OF ko rx]
      show "loop_frame c c' \<and> rx_inv False b c' \<and> (closing c' \<or> rx_inv e b c')"
      proof (cases "recv_step k b c")
        case (Inl q)
        with eq kh r rs rx_inv_weaken show ?thesis by (auto simp: rx_inv_def)
      next
        case (Inr q)
        obtain len c1 where q: "q = (len, c1)" by fastforce
        from rs Inr q have c1: "loop_frame c c1" "rx_inv e b (c1\<lparr>read_buffer_pos := read_buffer_pos c1 + len\<rparr>)" by auto
        from process_data_correct [OF ko c1(2)] obtain more c2 where
          p: "process_data h b len c1 = Some (more, c2)" "loop_frame c1 c2"
            "rx_inv False b c2" "closing c2 \<and> \<not> more \<or> rx_inv e b c2 \<and> more = (0 < read_buffer_pos c2)" by blast
        note f2 = loop_frame_trans [OF c1(1) p(2)]
        show ?thesis
        proof (cases more)
          case False
          with eq kh r Inr q p f2 show ?thesis by auto
        next
          case True
          with eq kh r Inr q p(1) obtain n2 where "f k h b c2 = Some (n2, c')"
            by (auto simp: bind_eq_Some_conv)
          from IH [OF this] True p(4) loop_frame_trans [OF f2] show ?thesis by auto
        qed
      qed
    qed
  qed
  with rx show ?thesis by simp
qed

lemma fire_event_frame:
  assumes "kernel_ok k"
  shows "conn_frame (c\<lparr>events := events c @ [evt]\<rparr>) (fire_event h evt c)"
  unfolding fire_event_def using conn_client_frame [OF event_client assms] by (metis prod.collapse)

end

section \<open>Life of a connection\<close>

text \<open>
  A connection on the descriptor \<open>sd\<close> that does not reconnect: the events its class has seen, and what
  has happened to the descriptor, in each status.
\<close>

definition life_inv :: "int \<Rightarrow> ('u, 'w) tcp_connection \<Rightarrow> bool" where
  "life_inv sd c \<longleftrightarrow>
     (case conn_status c of
        CONN_IDLE \<Rightarrow> events c = [] \<and> conn_sd c = sd \<and> fd_closes (calls c) = []
      | CONN_OPEN \<Rightarrow> events c = [EVT_CONNECT] \<and> conn_sd c = sd \<and> fd_closes (calls c) = []
      | CONN_CLOSING \<Rightarrow> events c \<in> {[], [EVT_CONNECT]} \<and> conn_sd c = sd \<and> fd_closes (calls c) = []
      | CONN_CLOSED \<Rightarrow> events c \<in> {[EVT_DISCONNECT], [EVT_CONNECT, EVT_DISCONNECT]} \<and> conn_sd c = -1 \<and>
          fd_closes (calls c) = [Close_fd sd])"

definition conn_inv :: "nat \<Rightarrow> int \<Rightarrow> ('u, 'w) tcp_connection \<Rightarrow> bool" where
  "conn_inv bufsize sd c \<longleftrightarrow>
     0 < sd \<and> \<not> need_reconnect c \<and> tx_inv c \<and> armed c \<and> rx_inv (\<not> closing c) bufsize c \<and> life_inv sd c"

lemma conn_inv_loop_frame:
  assumes "loop_frame c c'" and "conn_inv bufsize sd c" and "rx_inv (\<not> closing c') bufsize c'"
  shows "conn_inv bufsize sd c'"
  using assms
  by (auto simp: loop_frame_def conn_inv_def life_inv_def closing_def split: ConnStatus.splits)

lemma conn_inv_frame:
  assumes "conn_frame c c'" and "conn_inv bufsize sd c"
  shows "conn_inv bufsize sd c'"
proof (rule conn_inv_loop_frame [OF conn_frame_loop_frame [OF assms(1)] assms(2)])
  have "rx_inv (\<not> closing c) bufsize c'"
    using assms(2) rx_loop_inv_frame [OF assms(1)] by (simp add: conn_inv_def rx_inv_def)
  then show "rx_inv (\<not> closing c') bufsize c'"
    using conn_frame_closing [OF assms(1)] by (auto simp: rx_inv_def rx_loop_inv_def)
qed

context conn_methods
begin

lemma on_ready_inv:
  assumes ko: "kernel_ok k" and inv: "conn_inv bufsize sd c"
  shows "conn_inv bufsize sd (on_ready h c)"
proof (cases "conn_status c = CONN_IDLE")
  case True
  let ?c = "c\<lparr>conn_status := CONN_OPEN\<rparr>"
  have "conn_inv bufsize sd (?c\<lparr>events := events ?c @ [EVT_CONNECT]\<rparr>)"
    using inv True by (simp add: conn_inv_def life_inv_def closing_def tx_inv_def armed_def rx_inv_def rx_loop_inv_def)
  from conn_inv_frame [OF fire_event_frame [OF ko] this] True show ?thesis by (simp add: on_ready_def)
qed (use inv in \<open>simp add: on_ready_def\<close>)

lemma do_close_inv:
  assumes ko: "kernel_ok k" and inv: "conn_inv bufsize sd c"
  shows "conn_inv bufsize sd (do_close h c) \<and> conn_status (do_close h c) \<noteq> CONN_CLOSING"
proof (cases "conn_status c = CONN_CLOSING")
  case True
  define c2 where "c2 = (if tcp_worker c then worker_call (Del_event (conn_sd c)) (c\<lparr>conn_status := CONN_CLOSED\<rparr>)
    else c\<lparr>conn_status := CONN_CLOSED\<rparr>)"
  define c3 where "c3 = fire_event h EVT_DISCONNECT c2"
  have f: "conn_frame (c2\<lparr>events := events c2 @ [EVT_DISCONNECT]\<rparr>) c3"
    unfolding c3_def by (rule fire_event_frame [OF ko])
  have c2: "conn_status c2 = CONN_CLOSED" "conn_sd c2 = sd" "\<not> need_reconnect c2" "tx_inv c2"
    "fd_closes (calls c2) = []" "events c2 \<in> {[], [EVT_CONNECT]}" "rx_inv False bufsize c2"
    using inv True
    by (auto simp: c2_def conn_inv_def life_inv_def closing_def worker_call_def tx_inv_def armed_def rx_inv_def rx_loop_inv_def)
  from c2 f have c3: "conn_status c3 = CONN_CLOSED" "conn_sd c3 = sd" "\<not> need_reconnect c3" "tx_inv c3"
    "fd_closes (calls c3) = []" "events c3 \<in> {[EVT_DISCONNECT], [EVT_CONNECT, EVT_DISCONNECT]}" "rx_inv False bufsize c3"
    by (auto simp: conn_frame_defs closing_def tx_inv_def armed_def rx_inv_def rx_loop_inv_def)
  have "do_close h c = (let c4 = (worker_call (Close_fd sd) c3)\<lparr>conn_sd := -1\<rparr>
      in if factory c4 then worker_call (Remove_connection (conn_id c4)) c4 else c4)"
    using True c3(2,3) inv by (simp add: do_close_def Let_def c2_def c3_def conn_inv_def worker_call_def cong: if_cong)
  with c3 inv show ?thesis
    by (simp add: Let_def conn_inv_def life_inv_def closing_def rx_inv_def rx_loop_inv_def worker_call_def tx_inv_def armed_def)
qed (use inv in \<open>simp add: do_close_def\<close>)

lemma finish_event_inv:
  assumes ko: "kernel_ok k" and inv: "conn_inv bufsize sd c"
  shows "conn_inv bufsize sd (finish_event k h evts c) \<and> conn_status (finish_event k h evts c) \<noteq> CONN_CLOSING"
proof -
  define c1 where "c1 = (if has_event evts EPOLLOUT then do_send k c else c)"
  define c2 where "c2 = (if has_event evts EPOLLERR then conn_close c1 else c1)"
  have "conn_inv bufsize sd c1" using inv conn_inv_frame [OF do_send_frame [OF ko] inv] by (simp add: c1_def)
  then have "conn_inv bufsize sd c2" using conn_inv_frame [OF conn_frame_close(1) [of c1]] by (simp add: c2_def)
  with do_close_inv [OF ko this] show ?thesis
    unfolding finish_event_def Let_def c1_def [symmetric] c2_def [symmetric] by auto
qed

lemma process_event_inv:
  assumes ko: "kernel_ok k" and inv: "conn_inv bufsize sd c" and p: "process_event k h bufsize evts c = Some c'"
  shows "conn_inv bufsize sd c' \<and> conn_status c' \<noteq> CONN_CLOSING"
proof -
  define c0 where "c0 = (if conn_status c = CONN_IDLE then on_ready h c else c)"
  have c0: "conn_inv bufsize sd c0" using on_ready_inv [OF ko inv] inv by (simp add: c0_def)
  from p obtain c1 where c1: "(if has_event evts EPOLLIN then map_option snd (do_read k h bufsize c0) else Some c0) = Some c1"
    and c': "c' = finish_event k h evts c1"
    unfolding process_event_def Let_def c0_def [symmetric] map_option_eq_Some by blast
  have "conn_inv bufsize sd c1"
  proof (cases "has_event evts EPOLLIN")
    case True
    with c1 obtain n where r: "do_read k h bufsize c0 = Some (n, c1)" by auto
    have rx: "rx_inv (\<not> closing c0) bufsize c0" using c0 by (simp add: conn_inv_def)
    note d = do_read_correct [OF ko rx r]
    have "rx_inv (\<not> closing c1) bufsize c1"
      using d loop_frame_closing [of c0 c1] by (cases "closing c0"; cases "closing c1") auto
    with d c0 show ?thesis using conn_inv_loop_frame by blast
  qed (use c0 c1 in simp)
  from finish_event_inv [OF ko this] c' show ?thesis by simp
qed

end

text \<open>The steps of a connection: an event from the worker, and the calls of its owner.\<close>

inductive conn_step ::
    "'w kernel \<Rightarrow> ('u, 'w) conn_handlers \<Rightarrow> nat \<Rightarrow> ('u, 'w) tcp_connection \<Rightarrow> ('u, 'w) tcp_connection \<Rightarrow> bool"
  for k :: "'w kernel" and h :: "('u, 'w) conn_handlers" and bufsize :: nat where
  step_event: "process_event k h bufsize evts c = Some c' \<Longrightarrow> conn_step k h bufsize c c'"
| step_client: "conn_client k c c' \<Longrightarrow> conn_step k h bufsize c c'"

inductive_cases conn_stepE: "conn_step k h bufsize c c'"

inductive conn_steps ::
    "'w kernel \<Rightarrow> ('u, 'w) conn_handlers \<Rightarrow> nat \<Rightarrow> ('u, 'w) tcp_connection \<Rightarrow> ('u, 'w) tcp_connection \<Rightarrow> bool"
  for k :: "'w kernel" and h :: "('u, 'w) conn_handlers" and bufsize :: nat where
  steps_refl: "conn_steps k h bufsize c c"
| steps_step: "conn_steps k h bufsize c c1 \<Longrightarrow> conn_step k h bufsize c1 c2 \<Longrightarrow> conn_steps k h bufsize c c2"

text \<open>An accepted connection, as \<open>TcpListener\<close> sets it up: \<open>mem\<close> is the uninitialised receive buffer.\<close>

definition new_connection ::
    "bytes \<Rightarrow> u64 \<Rightarrow> int \<Rightarrow> bytes \<Rightarrow> u16 \<Rightarrow> 'u \<Rightarrow> 'w \<Rightarrow> ('u, 'w) tcp_connection" where
  "new_connection mem cid fd host port u w =
     conn_init fd host port True
       \<lparr>read_buffer = mem, read_buffer_pos = 0, remote_port = 0, remote_host = [], conn_status = CONN_IDLE,
        tcp_worker = True, conn_sd = -1, need_reconnect = False, send_buffer = [], epoll_events = 0,
        is_passive = True, conn_id = cid, factory = True, calls = [], world = w, app = u,
        accepted = [], sent = [], received = [], delivered = [], events = []\<rparr>"

lemma new_connection_inv:
  assumes "bufsize \<le> length mem" and "0 < fd"
  shows "conn_inv bufsize fd (new_connection mem cid fd host port u w)"
  using assms
  by (simp add: new_connection_def conn_init_def Let_def conn_inv_def life_inv_def closing_def tx_inv_def
      armed_def rx_inv_def rx_loop_inv_def)

context conn_methods
begin

lemma conn_steps_inv:
  assumes "conn_steps k h bufsize c c'" and "kernel_ok k" and "conn_inv bufsize sd c"
  shows "conn_inv bufsize sd c'"
  using assms
proof (induction rule: conn_steps.induct)
  case (steps_step c c1 c2)
  from steps_step.hyps(2) show ?case
    by (rule conn_stepE) (use process_event_inv conn_inv_frame conn_client_frame steps_step in blast)+
qed

lemma conn_life:
  assumes "kernel_ok k" and "bufsize \<le> length mem" and "0 < fd"
    and "conn_steps k h bufsize (new_connection mem cid fd host port u w) c"
  shows "accepted c = sent c @ send_buffer c"
    and "\<not> closing c \<Longrightarrow> received c = concat (delivered c) @ take (read_buffer_pos c) (read_buffer c)"
    and "life_inv fd c" and "armed c"
  using conn_steps_inv [OF assms(4,1) new_connection_inv [OF assms(2,3)]]
  by (auto simp: conn_inv_def tx_inv_def rx_inv_def rx_loop_inv_def slice_def)

end

text \<open>The methods of \<open>TcpConnection\<close> itself keep the contract.\<close>

interpretation base: conn_methods k TcpConnection_handlers for k :: "'w kernel"
  by unfold_locales (auto simp: TcpConnection_handlers_def intro: conn_client.client_refl)

section \<open>Properties\<close>

text \<open>The contract as a predicate on a class's methods.\<close>

definition methods_ok :: "'w kernel \<Rightarrow> ('u, 'w) conn_handlers \<Rightarrow> bool" where
  "methods_ok k h \<longleftrightarrow>
     (\<forall>d c. conn_client k c (snd (handle_package h d c)) \<and> conn_client k c (snd (handle_data h d c))) \<and>
     (\<forall>evt c. conn_client k c (snd (handle_event h evt c)))"

lemma methods_ok_conn_methods: "methods_ok k h \<Longrightarrow> conn_methods k h"
  by unfold_locales (metis methods_ok_def snd_conv)+

text \<open>
  A concrete kernel: \<open>send\<close> takes two bytes at a time, \<open>recv\<close> delivers the pieces of its state one by one,
  as far as they fit, and then reports that there is nothing.
\<close>

definition script_kernel :: "bytes list kernel" where
  "script_kernel =
     \<lparr>sys_send = (\<lambda>fd d w. (Send_ok (min 2 (length d)), w)),
      sys_recv = (\<lambda>fd m w. case w of
          p # ps \<Rightarrow> if p = [] then (Recv_again, ps) else if m = 0 then (Recv_again, w) else (Recv_data (take m p), drop m p # ps)
        | [] \<Rightarrow> (Recv_again, w)),
      sys_socket = (\<lambda>w. (3, w)), sys_connect = (\<lambda>fd host port w. (Connected, w))\<rparr>"

lemma script_kernel_ok: "kernel_ok script_kernel"
  by (auto simp: kernel_ok_def script_kernel_def split: list.splits if_splits)

lemma base_methods_ok: "methods_ok k TcpConnection_handlers"
  by (simp add: methods_ok_def TcpConnection_handlers_def conn_client.client_refl)

abbreviation sample_connection :: "(unit, bytes list) tcp_connection" where
  "sample_connection \<equiv> new_connection ''--------'' 1025 7 ''h'' 80 () [''abc'']"

lemma sample_run:
  "\<exists>c. process_event script_kernel TcpConnection_handlers 8 5 sample_connection = Some c \<and>
     received c = ''abc'' \<and> conn_status c = CONN_OPEN"
proof -
  have "map_option (\<lambda>c. (received c, conn_status c))
      (process_event script_kernel TcpConnection_handlers 8 5 sample_connection) = Some (''abc'', CONN_OPEN)"
    by code_simp
  then show ?thesis unfolding map_option_eq_Some by blast
qed

lemma sample_steps:
  "process_event script_kernel TcpConnection_handlers 8 5 sample_connection = Some c \<Longrightarrow>
   conn_steps script_kernel TcpConnection_handlers 8 sample_connection c"
  by (rule conn_steps.steps_step [OF conn_steps.steps_refl conn_step.step_event])

text \<open>
  (C3) Over the whole life of an accepted connection, for any events, kernel results and calls of its
  owner and of its own methods: the bytes the kernel has taken, followed by those that wait in the
  send string, are exactly the bytes that were accepted for sending, in order; and while the
  connection is not closing, the packages handed to \<open>handle_data\<close>, followed by what is in the receive
  buffer, are exactly the bytes received.
\<close>

theorem connection_streams:
  assumes "methods_ok k h" "kernel_ok k" "bufsize \<le> length mem" "0 < fd"
    and "conn_steps k h bufsize (new_connection mem cid fd host port u w) c"
  shows "accepted c = sent c @ send_buffer c \<and>
    (conn_status c = CONN_IDLE \<or> conn_status c = CONN_OPEN \<longrightarrow>
       received c = concat (delivered c) @ take (read_buffer_pos c) (read_buffer c))"
  using conn_methods.conn_life(1,2) [OF methods_ok_conn_methods [OF assms(1)] assms(2-5)]
  by (auto simp: closing_def)

theorem connection_streams_witness:
  "\<exists>c. process_event script_kernel TcpConnection_handlers 8 5 sample_connection = Some c \<and>
     accepted c = sent c @ send_buffer c \<and> ''abc'' = concat (delivered c) @ take (read_buffer_pos c) (read_buffer c)"
proof -
  obtain c where c: "process_event script_kernel TcpConnection_handlers 8 5 sample_connection = Some c"
    "received c = ''abc''" "conn_status c = CONN_OPEN" using sample_run by blast
  have "8 \<le> length ''--------''" "0 < (7 :: int)" by simp_all
  from connection_streams [OF base_methods_ok script_kernel_ok this sample_steps [OF c(1)]] c show ?thesis by auto
qed

text \<open>
  (C7) The life cycle of an accepted connection: the class sees \<open>EVT_CONNECT\<close> at most once and
  \<open>EVT_DISCONNECT\<close> at most once, in this order; while the status is open it has seen exactly the first;
  once it is closed it has seen the second, and its descriptor has been closed exactly once.
\<close>

theorem connection_life_cycle:
  assumes "methods_ok k h" "kernel_ok k" "bufsize \<le> length mem" "0 < fd"
    and "conn_steps k h bufsize (new_connection mem cid fd host port u w) c"
  shows "events c \<in> {[], [EVT_CONNECT], [EVT_DISCONNECT], [EVT_CONNECT, EVT_DISCONNECT]} \<and>
    (conn_status c = CONN_OPEN \<longrightarrow> events c = [EVT_CONNECT] \<and> conn_sd c = fd) \<and>
    (EVT_DISCONNECT \<in> set (events c) \<longleftrightarrow> conn_status c = CONN_CLOSED) \<and>
    fd_closes (calls c) = (if conn_status c = CONN_CLOSED then [Close_fd fd] else [])"
  using conn_methods.conn_life(3) [OF methods_ok_conn_methods [OF assms(1)] assms(2-5)]
  by (auto simp: life_inv_def split: ConnStatus.splits)

theorem connection_life_cycle_witness:
  "\<exists>c. process_event script_kernel TcpConnection_handlers 8 5 sample_connection = Some c \<and>
     events c = [EVT_CONNECT] \<and> conn_sd c = 7 \<and> fd_closes (calls c) = []"
proof -
  obtain c where c: "process_event script_kernel TcpConnection_handlers 8 5 sample_connection = Some c"
    "received c = ''abc''" "conn_status c = CONN_OPEN" using sample_run by blast
  have "8 \<le> length ''--------''" "0 < (7 :: int)" by simp_all
  from connection_life_cycle [OF base_methods_ok script_kernel_ok this sample_steps [OF c(1)]] c show ?thesis by auto
qed

text \<open>
  (C14) No data is stranded: while an accepted connection is not closing and bytes wait in its send
  string, the latest events its worker was told to wait for include \<open>EPOLLOUT\<close>, so that the next time
  the socket can take data, \<open>process_event\<close> sends them.
\<close>

theorem connection_pending_armed:
  assumes "methods_ok k h" "kernel_ok k" "bufsize \<le> length mem" "0 < fd"
    and "conn_steps k h bufsize (new_connection mem cid fd host port u w) c"
    and "conn_status c = CONN_OPEN" "send_buffer c \<noteq> []"
  shows "\<exists>evts. last_mod (calls c) = Some evts \<and> has_event evts EPOLLOUT"
  using conn_methods.conn_life(4) [OF methods_ok_conn_methods [OF assms(1)] assms(2-5)] assms(6,7)
  by (auto simp: armed_def closing_def)

text \<open>A kernel whose send buffer is full.\<close>

definition full_kernel :: "bytes list kernel" where
  "full_kernel = script_kernel\<lparr>sys_send := (\<lambda>fd d w. (Send_again, w))\<rparr>"

lemma full_kernel_ok: "kernel_ok full_kernel"
  using script_kernel_ok by (simp add: kernel_ok_def full_kernel_def)

definition pending_connection :: "(unit, bytes list) tcp_connection" where
  "pending_connection = snd (send full_kernel ''xy'' (on_ready TcpConnection_handlers sample_connection))"

lemma pending_connection_fields:
  "conn_status pending_connection = CONN_OPEN" "send_buffer pending_connection = ''xy''"
  "tcp_worker pending_connection" "conn_sd pending_connection = 7" "\<not> need_reconnect pending_connection"
  by code_simp+

lemma pending_connection_steps:
  "conn_steps full_kernel TcpConnection_handlers 8 sample_connection pending_connection"
proof -
  have "process_event full_kernel TcpConnection_handlers 8 0 sample_connection =
      Some (on_ready TcpConnection_handlers sample_connection)"
    by (simp add: process_event_def finish_event_def has_event_def epoll_defs on_ready_def fire_event_def
        new_connection_def conn_init_def TcpConnection_handlers_def)
  note ev = conn_steps.steps_step [OF conn_steps.steps_refl conn_step.step_event [OF this]]
  have "conn_client full_kernel (on_ready TcpConnection_handlers sample_connection) pending_connection"
    unfolding pending_connection_def send_def
    by (rule conn_client.client_send [OF conn_client.client_refl]) (rule surjective_pairing)
  from conn_steps.steps_step [OF ev conn_step.step_client [OF this]] show ?thesis .
qed

theorem connection_pending_armed_witness:
  "\<exists>evts. last_mod (calls pending_connection) = Some evts \<and> has_event evts EPOLLOUT"
  by (rule connection_pending_armed [OF base_methods_ok full_kernel_ok _ _ pending_connection_steps])
    (simp_all add: pending_connection_fields)

text \<open>
  (C22) The loop over the packages of the receive buffer ends, whatever the class's methods do and
  however often they send or close, and either the whole received data are accounted for or the
  connection is being closed.
\<close>

theorem process_data_returns:
  assumes "methods_ok k h" "kernel_ok k" "read_buffer_pos c + nread \<le> bufsize" "bufsize \<le> length (read_buffer c)"
    and "received c = concat (delivered c) @ take (read_buffer_pos c + nread) (read_buffer c)"
  shows "\<exists>more c'. process_data h bufsize nread c = Some (more, c') \<and>
    (conn_status c' = CONN_CLOSING \<or> conn_status c' = CONN_CLOSED \<or>
     received c' = concat (delivered c') @ take (read_buffer_pos c') (read_buffer c') \<and>
     (more \<longleftrightarrow> 0 < read_buffer_pos c') \<and> read_buffer_pos c' \<le> bufsize)"
proof -
  have "rx_inv True bufsize (c\<lparr>read_buffer_pos := read_buffer_pos c + nread\<rparr>)"
    using assms(3-5) by (simp add: rx_inv_def rx_loop_inv_def slice_def)
  from conn_methods.process_data_correct [OF methods_ok_conn_methods [OF assms(1)] assms(2) this]
  show ?thesis by (auto simp: rx_inv_def rx_loop_inv_def slice_def closing_def)
qed

theorem process_data_returns_witness:
  "\<exists>more c'. process_data TcpConnection_handlers 8 3
      (sample_connection\<lparr>read_buffer := ''abc-----'', received := ''abc''\<rparr>) = Some (more, c')"
  using process_data_returns [OF base_methods_ok script_kernel_ok,
      of "sample_connection\<lparr>read_buffer := ''abc-----'', received := ''abc''\<rparr>" 3 8]
  by (auto simp: new_connection_def conn_init_def Let_def)

definition read_stuck :: "('u, 'w) conn_handlers \<Rightarrow> nat \<Rightarrow> ('u, 'w) tcp_connection \<Rightarrow> bool" where
  "read_stuck h bufsize c \<longleftrightarrow> 0 < bufsize \<and> read_buffer_pos c = bufsize \<and> bufsize \<le> length (read_buffer c) \<and>
     handle_package h (take bufsize (read_buffer c)) c = (0, c)"

lemma process_data_stuck:
  assumes "read_stuck h bufsize c"
  shows "process_data h bufsize 0 c = Some (True, c)"
proof -
  have l: "process_loop h bufsize 0 c = Some (True, 0, c)"
    using assms by (subst process_loop.simps) (simp add: read_stuck_def slice_def)
  have pos: "read_buffer_pos c = bufsize" "0 < bufsize" using assms by (simp_all add: read_stuck_def)
  have c0: "c\<lparr>read_buffer_pos := bufsize\<rparr> = c" unfolding pos(1) [symmetric] by simp
  have "c\<lparr>read_buffer := mem_write (read_buffer c) 0 (slice (read_buffer c) 0 bufsize), read_buffer_pos := bufsize\<rparr> = c"
    using assms by (simp add: read_stuck_def mem_write_def min_def slice_def)
  then show ?thesis
    unfolding process_data_def add_0_right pos(1) c0 l by (simp add: Let_def pos)
qed

text \<open>
  (C35) A receive buffer that is full and does not hold a complete package makes \<open>do_read\<close> call itself
  without end: it reads nothing, since there is no room, and finds the same data again. The limit on
  the length of a package is checked only for a length \<open>handle_package\<close> reports.
\<close>

theorem do_read_full_buffer:
  fixes k :: "'w kernel" and h :: "('u, 'w) conn_handlers"
  assumes "0 < bufsize" "read_buffer_pos c = bufsize" "bufsize \<le> length (read_buffer c)"
    and "handle_package h (take bufsize (read_buffer c)) c = (0, c)"
  shows "do_read k h bufsize c = None"
proof (rule ccontr)
  assume "do_read k h bufsize c \<noteq> None"
  then obtain r where ret: "do_read k h bufsize c = Some r" by blast
  have "\<not> read_stuck h bufsize c"
  proof (rule do_read.raw_induct [where P = "\<lambda>k h b c r. \<not> read_stuck h b c", OF _ ret])
    fix f and k :: "'w kernel" and h b and c :: "('u, 'w) tcp_connection" and r
    assume IH: "\<And>k h b c r. f k h b c = Some r \<Longrightarrow> \<not> read_stuck h b c"
      and eq: "(case recv_step k b c of Inl r \<Rightarrow> Some r
        | Inr (len, c) \<Rightarrow> Option.bind (process_data h b len c) (\<lambda>(hasMore, c).
            if hasMore then Option.bind (f k h b c) (\<lambda>(_, c). Some (int len, c)) else Some (int len, c))) = Some r"
    show "\<not> read_stuck h b c"
    proof
      assume st: "read_stuck h b c"
      then have "recv_step k b c = Inr (0, c)" by (simp add: recv_step_def read_stuck_def)
      with eq process_data_stuck [OF st] obtain r' where "f k h b c = Some r'" by (auto simp: bind_eq_Some_conv)
      from IH [OF this] st show False by blast
    qed
  qed
  with assms show False by (simp add: read_stuck_def)
qed

text \<open>A class that waits for a line end, and a full buffer without one.\<close>

definition wait_handlers :: "(unit, bytes list) conn_handlers" where
  "wait_handlers = TcpConnection_handlers\<lparr>handle_package := (\<lambda>d c. (0, c))\<rparr>"

theorem do_read_full_buffer_witness:
  "do_read script_kernel wait_handlers 8 (sample_connection\<lparr>read_buffer_pos := 8\<rparr>) = None"
  by (rule do_read_full_buffer) (simp_all add: wait_handlers_def new_connection_def conn_init_def Let_def)

text \<open>
  What \<open>msend\<close> returns is not the number of bytes it accepted: every part adds the size of the
  whole send string after it. And an empty first part on an empty send string makes it drop all the
  following parts and return 0.
\<close>

theorem mpush_result:
  assumes "length (send_buffer c @ a @ b) < 2 ^ 32"
  shows "mpush [Arg_string a, Arg_string b] c =
     (if send_buffer c @ a = [] then (0, c)
      else (of_nat (length (send_buffer c @ a)) + of_nat (length (send_buffer c @ a @ b)),
            c\<lparr>send_buffer := send_buffer c @ a @ b, accepted := accepted c @ a @ b\<rparr>))"
proof -
  let ?n = "of_nat (length (send_buffer c @ a)) :: u32"
  have "length (send_buffer c @ a) < 2 ^ 32" using assms by simp
  then have un: "unat ?n = length (send_buffer c @ a)"
    by (simp add: unat_of_nat take_bit_nat_eq_self del: length_append of_nat_add)
  have pos: "0 < ?n \<longleftrightarrow> send_buffer c @ a \<noteq> []"
    using un by (metis length_greater_0_conv unat_gt_0 word_gt_0)
  have pos2: "0 < (of_nat (length (send_buffer c @ a @ b)) :: u32)" if "send_buffer c @ a \<noteq> []"
  proof -
    have "unat (of_nat (length (send_buffer c @ a @ b)) :: u32) = length (send_buffer c @ a @ b)"
      using assms by (simp add: unat_of_nat take_bit_nat_eq_self del: length_append of_nat_add)
    with that show ?thesis by (metis append_is_Nil_conv length_greater_0_conv unat_gt_0 word_gt_0 append_assoc)
  qed
  show ?thesis
  proof (cases "send_buffer c @ a = []")
    case True
    then show ?thesis by (simp add: write_data_def append_data_def)
  next
    case False
    with pos pos2 show ?thesis
      by (simp add: write_data_def append_data_def Let_def del: length_append of_nat_add append_is_Nil_conv)
  qed
qed

theorem mpush_result_witness:
  "fst (mpush [Arg_string ''ab'', Arg_string ''c''] sample_connection) = 5"
  using mpush_result [of sample_connection "''ab''" "''c''"] by (simp add: new_connection_def conn_init_def Let_def)

text \<open>
  A class that takes an \<open>a\<close> as a package of its own and anything else as a package of all it is shown;
  it remembers what it was shown last.
\<close>

definition rest_handlers :: "(bytes, bytes list) conn_handlers" where
  "rest_handlers = TcpConnection_handlers
     \<lparr>handle_package := (\<lambda>d c. (if hd d = CHR ''a'' then 1 else int (length d), c\<lparr>app := d\<rparr>))\<rparr>"

text \<open>
  \<open>handle_package\<close> is told that \<open>read_buffer_pos\<close> bytes are available, also when a package before it
  has been consumed: after the two bytes \<open>ab\<close> have arrived in a buffer of dashes and the package \<open>a\<close> has
  been delivered, it is shown \<open>b-\<close>, of which the dash was never received, and the package \<open>b\<close> is not
  delivered.
\<close>

theorem package_view_overrun:
  "map_option (\<lambda>(more, c). (more, delivered c, app c, read_buffer_pos c))
     (process_data rest_handlers 8 2
        ((new_connection ''--------'' 1025 7 ''h'' 80 [] [])\<lparr>read_buffer := ''ab------'', received := ''ab''\<rparr>)) =
   Some (True, [''a''], ''b-'', 1)"
  by code_simp

text \<open>
  With automatic reconnection, \<open>do_close\<close> reports the disconnection and makes the connection idle,
  but it neither closes the descriptor nor clears the receive buffer or the send string, and the next
  \<open>do_connect\<close> overwrites the descriptor: the old one is never closed, and what was left of the old
  stream precedes the new one, in both directions.
\<close>

theorem reconnect_keeps_old_stream:
  assumes "methods_ok k h" "kernel_ok k" "conn_status c = CONN_CLOSING" "need_reconnect c"
  shows "conn_status (do_close h c) = CONN_IDLE \<and> conn_sd (do_close h c) = conn_sd c \<and>
    fd_closes (calls (do_close h c)) = fd_closes (calls c) \<and>
    read_buffer_pos (do_close h c) = read_buffer_pos c \<and> read_buffer (do_close h c) = read_buffer c \<and>
    (fst (sys_connect k (fst (sys_socket k (world (do_close h c)))) (remote_host (do_close h c))
        (remote_port (do_close h c)) (snd (sys_socket k (world (do_close h c))))) = Connected \<longrightarrow>
     (let c' = snd (do_connect k (do_close h c)) in
        conn_sd c' = fst (sys_socket k (world (do_close h c))) \<and>
        fd_closes (calls c') = fd_closes (calls c) \<and> read_buffer_pos c' = read_buffer_pos c))"
proof -
  define c2 where "c2 = (if tcp_worker c then worker_call (Del_event (conn_sd c)) (c\<lparr>conn_status := CONN_CLOSED\<rparr>)
    else c\<lparr>conn_status := CONN_CLOSED\<rparr>)"
  define c3 where "c3 = fire_event h EVT_DISCONNECT c2"
  have f: "conn_frame (c2\<lparr>events := events c2 @ [EVT_DISCONNECT]\<rparr>) c3"
    unfolding c3_def by (rule conn_methods.fire_event_frame [OF methods_ok_conn_methods [OF assms(1)] assms(2)])
  have c3: "need_reconnect c3" "conn_sd c3 = conn_sd c" "fd_closes (calls c3) = fd_closes (calls c)"
    "read_buffer_pos c3 = read_buffer_pos c" "read_buffer c3 = read_buffer c"
    using f assms(4) by (auto simp: conn_frame_defs c2_def worker_call_def)
  have "do_close h c = c3\<lparr>conn_status := CONN_IDLE\<rparr>"
    using assms(3) c3(1) by (simp add: do_close_def Let_def c2_def c3_def cong: if_cong)
  with c3 show ?thesis by (auto simp: do_connect_def Let_def worker_call_def split: prod.splits)
qed

theorem reconnect_keeps_old_stream_witness:
  "conn_status (do_close TcpConnection_handlers
      (sample_connection\<lparr>conn_status := CONN_CLOSING, need_reconnect := True, read_buffer_pos := 3\<rparr>)) = CONN_IDLE \<and>
   read_buffer_pos (do_close TcpConnection_handlers
      (sample_connection\<lparr>conn_status := CONN_CLOSING, need_reconnect := True, read_buffer_pos := 3\<rparr>)) = 3"
  using reconnect_keeps_old_stream [OF base_methods_ok script_kernel_ok,
      of "sample_connection\<lparr>conn_status := CONN_CLOSING, need_reconnect := True, read_buffer_pos := 3\<rparr>"]
  by simp

lemma closing_client:
  assumes "conn_client k c c'" and "closing c"
  shows "send_buffer c' = send_buffer c \<and> accepted c' = accepted c \<and> sent c' = sent c \<and> closing c'"
  using assms
proof (induction rule: conn_client.induct)
  case (client_app c1 u)
  then show ?case by (simp add: closing_def)
next
  case (client_send c1 args n c2)
  then have "\<not> is_open c1" by (auto simp: closing_def is_open_def)
  with client_send show ?case by (simp add: msend_def)
next
  case (client_close c1)
  then show ?case by (simp add: conn_close_def closing_num)
qed simp

text \<open>
  \<open>close\<close> gives up the data that are still waiting: if the socket cannot take them at the event
  that \<open>close\<close> asks for, the connection is closed with its send string as it was.
\<close>

theorem close_discards_pending:
  assumes "methods_ok k h" "kernel_ok k" "conn_status c = CONN_CLOSING" "\<not> need_reconnect c" "0 < conn_sd c"
    and "sys_send k (conn_sd c) (send_buffer c) (world c) = (Send_again, w)" "send_buffer c \<noteq> []"
  shows "\<exists>c'. process_event k h bufsize EPOLLOUT c = Some c' \<and> conn_status c' = CONN_CLOSED \<and>
    conn_sd c' = -1 \<and> Close_fd (conn_sd c) \<in> set (calls c') \<and> (accepted c = sent c @ send_buffer c \<longrightarrow> accepted c' \<noteq> sent c')"
proof -
  define c1 where "c1 = mod_event (c\<lparr>world := w, epoll_events := epoll_events c OR EPOLLOUT\<rparr>)"
  have s: "do_send k c = c1" using assms(6,7) by (subst do_send.simps) (simp add: c1_def)
  define c2 where "c2 = (if tcp_worker c1 then worker_call (Del_event (conn_sd c1)) (c1\<lparr>conn_status := CONN_CLOSED\<rparr>)
    else c1\<lparr>conn_status := CONN_CLOSED\<rparr>)"
  define c3 where "c3 = fire_event h EVT_DISCONNECT c2"
  have c1: "conn_status c1 = CONN_CLOSING" "conn_sd c1 = conn_sd c" "\<not> need_reconnect c1"
    using assms(3,4) by (simp_all add: c1_def mod_event_def worker_call_def)
  have cl: "conn_client k (c2\<lparr>events := events c2 @ [EVT_DISCONNECT]\<rparr>) c3"
    using assms(1) by (simp add: methods_ok_def c3_def fire_event_def)
  have "conn_status c2 = CONN_CLOSED" by (simp add: c2_def worker_call_def)
  with closing_client [OF cl] conn_client_frame [OF cl assms(2)] assms(4)
  have c3: "conn_status c3 = CONN_CLOSED" "conn_sd c3 = conn_sd c" "\<not> need_reconnect c3"
    "send_buffer c3 = send_buffer c" "accepted c3 = accepted c" "sent c3 = sent c"
    by (auto simp: conn_frame_defs closing_def c2_def c1_def mod_event_def worker_call_def)
  have "do_close h c1 = (let c4 = (worker_call (Close_fd (conn_sd c)) c3)\<lparr>conn_sd := -1\<rparr>
      in if factory c4 then worker_call (Remove_connection (conn_id c4)) c4 else c4)"
    using c1 c3(2,3) assms(5) by (simp add: do_close_def Let_def c2_def c3_def worker_call_def cong: if_cong)
  moreover have "process_event k h bufsize EPOLLOUT c = Some (do_close h c1)"
    using assms(3) c1(1) s
    by (simp add: process_event_def finish_event_def has_event_def epoll_defs)
  ultimately show ?thesis using c3 assms(7) by (simp add: Let_def worker_call_def)
qed

theorem close_discards_pending_witness:
  "\<exists>c'. process_event full_kernel TcpConnection_handlers 8 EPOLLOUT (conn_close pending_connection) = Some c' \<and>
     conn_status c' = CONN_CLOSED \<and> accepted c' \<noteq> sent c'"
proof -
  have c: "conn_status (conn_close pending_connection) = CONN_CLOSING" "\<not> need_reconnect (conn_close pending_connection)"
    "0 < conn_sd (conn_close pending_connection)" "send_buffer (conn_close pending_connection) \<noteq> []"
    "accepted (conn_close pending_connection) = sent (conn_close pending_connection) @ send_buffer (conn_close pending_connection)"
    by code_simp+
  have s: "sys_send full_kernel fd d w = (Send_again, w)" for fd d w by (simp add: full_kernel_def)
  from close_discards_pending [OF base_methods_ok full_kernel_ok c(1-3) s c(4), of 8] c(5) show ?thesis by blast
qed

end
