(* ===== verification/Tcp_Calls.thy ===== *)
theory Tcp_Calls
  imports Tcp_Connection
begin

text \<open>
  What one method of a connection asks of its worker (src/include/tcp/tcp\_connection.h): the calls it records are
  changes of the events to wait for, and when the connection closes, the removal of its descriptor, the
  closing of it and the task that removes the connection from its factory, in this order.
\<close>

text \<open>The connection stays, closes to wait for a new connect, or ends.\<close>

definition kept :: "('u, 'w) tcp_connection \<Rightarrow> ('u, 'w) tcp_connection \<Rightarrow> bool" where
  "kept c c' \<longleftrightarrow> conn_sd c' = conn_sd c \<and> mods c c' \<and> (conn_status c' = CONN_CLOSED \<longleftrightarrow> conn_status c = CONN_CLOSED)"

definition ended_calls :: "('u, 'w) tcp_connection \<Rightarrow> worker_call list" where
  "ended_calls c = Del_event (conn_sd c) #
     (if need_reconnect c then []
      else (if 0 < conn_sd c then [Close_fd (conn_sd c)] else []) @ [Remove_connection (conn_id c)])"

definition ended :: "('u, 'w) tcp_connection \<Rightarrow> ('u, 'w) tcp_connection \<Rightarrow> bool" where
  "ended c c' \<longleftrightarrow> conn_status c \<noteq> CONN_CLOSED \<and>
     conn_status c' = (if need_reconnect c then CONN_IDLE else CONN_CLOSED) \<and>
     conn_sd c' = (if 0 < conn_sd c \<and> \<not> need_reconnect c then -1 else conn_sd c) \<and>
     (\<exists>es. calls c' = calls c @ map (Mod_event (conn_sd c)) es @ ended_calls c)"

definition same_owner :: "('u, 'w) tcp_connection \<Rightarrow> ('u, 'w) tcp_connection \<Rightarrow> bool" where
  "same_owner c c' \<longleftrightarrow> conn_id c' = conn_id c \<and> need_reconnect c' = need_reconnect c \<and>
     tcp_worker c' = tcp_worker c \<and> factory c' = factory c"

lemma same_owner_refl: "same_owner c c" and same_owner_trans: "same_owner c c1 \<Longrightarrow> same_owner c1 c2 \<Longrightarrow> same_owner c c2"
  by (simp_all add: same_owner_def)

lemma loop_frame_kept:
  assumes "loop_frame c c'"
  shows "kept c c' \<and> same_owner c c'"
proof -
  have "conn_status c' = conn_status c \<or> \<not> closing c \<and> conn_status c' = CONN_CLOSING"
    using assms unfolding loop_frame_def by blast
  moreover have "conn_sd c' = conn_sd c" "mods c c'" "same_owner c c'"
    using assms by (simp_all add: loop_frame_def same_owner_def del: mods_same)
  ultimately show ?thesis by (auto simp: kept_def closing_def simp del: mods_same)
qed

lemma kept_refl: "kept c c"
  by (simp add: kept_def)

lemma kept_trans: "kept c c1 \<Longrightarrow> kept c1 c2 \<Longrightarrow> kept c c2"
  using mods_trans unfolding kept_def by metis

lemma kept_ended:
  assumes "kept c c1" "ended c1 c2" "same_owner c c1"
  shows "ended c c2"
proof -
  from assms(1) obtain es where es: "calls c1 = calls c @ map (Mod_event (conn_sd c)) es" "conn_sd c1 = conn_sd c"
    by (auto simp: kept_def mods_def)
  from assms(2) obtain fs where "calls c2 = calls c1 @ map (Mod_event (conn_sd c1)) fs @ ended_calls c1" by (auto simp: ended_def)
  moreover have "ended_calls c1 = ended_calls c" using assms(3) es(2) by (simp add: ended_calls_def same_owner_def)
  ultimately have "calls c2 = calls c @ map (Mod_event (conn_sd c)) (es @ fs) @ ended_calls c" using es by simp
  then have "\<exists>es. calls c2 = calls c @ map (Mod_event (conn_sd c)) es @ ended_calls c"
    by (intro exI [of _ "es @ fs"]) simp
  moreover have "conn_status c1 \<noteq> CONN_CLOSED" "conn_status c2 = (if need_reconnect c then CONN_IDLE else CONN_CLOSED)"
    "conn_sd c2 = (if 0 < conn_sd c \<and> \<not> need_reconnect c then -1 else conn_sd c)"
    using assms(2,3) es(2) by (simp_all add: ended_def same_owner_def)
  ultimately show ?thesis using assms(1) by (simp add: ended_def kept_def)
qed

lemma client_closed:
  "conn_client k c c' \<Longrightarrow> conn_status c = CONN_CLOSED \<Longrightarrow> calls c' = calls c \<and> conn_status c' = CONN_CLOSED"
proof (induction rule: conn_client.induct)
  case (client_send c1 args n c2)
  then show ?case by (auto simp: msend_def is_open_def split: if_splits)
next
  case (client_close c1)
  then show ?case by (auto simp: conn_close_def less_ConnStatus_def status_num_def)
qed simp_all

text \<open>
  What was accepted is sent or waits; what was received is delivered or in the receive buffer, as long as
  the connection is not closing and was never set to reconnect.
\<close>

definition streams_ok :: "nat \<Rightarrow> ('u, 'w) tcp_connection \<Rightarrow> bool" where
  "streams_ok n c \<longleftrightarrow> tx_inv c \<and> rx_inv (\<not> closing c \<and> \<not> need_reconnect c) n c"

lemma rx_inv_mono: "rx_inv e n c \<Longrightarrow> (e' \<Longrightarrow> e) \<Longrightarrow> rx_inv e' n c"
  by (auto simp: rx_inv_def rx_loop_inv_def)

lemma streams_ok_loop_frame:
  "streams_ok n c \<Longrightarrow> loop_frame c c' \<Longrightarrow> rx_inv False n c' \<Longrightarrow>
   closing c' \<or> rx_inv (\<not> closing c \<and> \<not> need_reconnect c) n c' \<Longrightarrow> streams_ok n c'"
  using loop_frame_closing [of c c'] rx_inv_mono [of _ n c']
  by (auto simp: streams_ok_def loop_frame_def)

lemma streams_ok_frame:
  assumes "streams_ok n c" "conn_frame c c'"
  shows "streams_ok n c'"
proof (rule streams_ok_loop_frame [OF assms(1) conn_frame_loop_frame [OF assms(2)]])
  show "closing c' \<or> rx_inv (\<not> closing c \<and> \<not> need_reconnect c) n c'"
    using assms(1) rx_loop_inv_frame [OF assms(2)] by (simp add: streams_ok_def rx_inv_def)
  show "rx_inv False n c'"
    using assms(1) rx_loop_inv_frame [OF assms(2)] by (auto simp: streams_ok_def rx_inv_def rx_loop_inv_def)
qed

lemmas streams_simps = streams_ok_def rx_inv_def rx_loop_inv_def tx_inv_def closing_def

context conn_methods
begin

lemma do_close_ended:
  assumes ko: "kernel_ok k" and c: "conn_status c = CONN_CLOSING" "tcp_worker c" "factory c"
  shows "ended c (do_close h c) \<and> same_owner c (do_close h c) \<and>
    (streams_ok n c \<longrightarrow> streams_ok n (do_close h c))"
proof -
  define c1 where "c1 = worker_call (Del_event (conn_sd c)) (c\<lparr>conn_status := CONN_CLOSED\<rparr>)"
  define c2 where "c2 = fire_event h EVT_DISCONNECT c1"
  have f: "conn_frame (c1\<lparr>events := events c1 @ [EVT_DISCONNECT]\<rparr>) c2"
    unfolding c2_def by (rule fire_event_frame [OF ko])
  have "conn_client k (c1\<lparr>events := events c1 @ [EVT_DISCONNECT]\<rparr>) c2"
    unfolding c2_def fire_event_def using event_client by (metis prod.collapse)
  then have cl: "calls c2 = calls c1 \<and> conn_status c2 = CONN_CLOSED"
    using client_closed [of k "c1\<lparr>events := events c1 @ [EVT_DISCONNECT]\<rparr>" c2] by (simp add: c1_def worker_call_def)
  have same: "same_owner c c2" "conn_sd c2 = conn_sd c" "read_buffer c2 = read_buffer c" "read_buffer_pos c2 = read_buffer_pos c"
    using f by (simp_all add: conn_frame_defs c1_def worker_call_def same_owner_def)
  have tx: "tx_inv c \<Longrightarrow> tx_inv c2" using f by (simp add: conn_frame_defs c1_def worker_call_def tx_inv_def)
  have d: "do_close h c =
      (if need_reconnect c2 then c2\<lparr>conn_status := CONN_IDLE\<rparr>
       else let c = (if 0 < conn_sd c2 then (worker_call (Close_fd (conn_sd c2)) c2)\<lparr>conn_sd := -1\<rparr> else c2)
            in worker_call (Remove_connection (conn_id c)) c)"
    using c same(1) by (simp add: do_close_def c1_def c2_def same_owner_def Let_def worker_call_def)
  have cc: "calls c2 = calls c @ [Del_event (conn_sd c)]" using cl by (simp add: c1_def worker_call_def)
  have "\<exists>es. calls (do_close h c) = calls c @ map (Mod_event (conn_sd c)) es @ ended_calls c"
    by (rule exI [of _ "[]"]) (use same cc in \<open>simp add: d ended_calls_def same_owner_def worker_call_def Let_def\<close>)
  then show ?thesis
    using same cl c tx by (auto simp: ended_def d same_owner_def worker_call_def Let_def streams_simps)
qed

lemma finish_event_effect:
  assumes ko: "kernel_ok k" and c: "tcp_worker c" "factory c" "streams_ok n c"
  shows "(kept c (finish_event k h evts c) \<or> ended c (finish_event k h evts c)) \<and>
    same_owner c (finish_event k h evts c) \<and> streams_ok n (finish_event k h evts c)"
proof -
  define c1 where "c1 = (if has_event evts EPOLLOUT then do_send k c else c)"
  define c2 where "c2 = (if has_event evts EPOLLERR then conn_close c1 else c1)"
  have f1: "conn_frame c c1" by (simp add: c1_def do_send_frame [OF ko] conn_frame_refl)
  have f2: "conn_frame c c2"
    using conn_frame_trans [OF f1 conn_frame_close(1)] f1 by (simp add: c2_def)
  have k2: "kept c c2" "same_owner c c2" using loop_frame_kept [OF conn_frame_loop_frame [OF f2]] by simp_all
  have r2: "streams_ok n c2" by (rule streams_ok_frame [OF c(3) f2])
  have e: "finish_event k h evts c = (if conn_status c2 = CONN_CLOSING then do_close h c2 else c2)"
    by (simp add: finish_event_def c1_def c2_def Let_def)
  show ?thesis
  proof (cases "conn_status c2 = CONN_CLOSING")
    case True
    have "tcp_worker c2" "factory c2" using k2 c by (simp_all add: same_owner_def)
    from do_close_ended [OF ko True this, of n] k2 r2 show ?thesis
      using kept_ended [OF k2(1) _ k2(2)] same_owner_trans [OF k2(2)] True e by auto
  qed (use k2 r2 e in simp)
qed

lemma process_event_effect:
  assumes ko: "kernel_ok k" and c: "tcp_worker c" "factory c" "streams_ok n c"
    and p: "Tcp_Connection.process_event k h n evts c = Some c'"
  shows "(kept c c' \<or> ended c c') \<and> same_owner c c' \<and> streams_ok n c'"
proof -
  define c0 where "c0 = (if conn_status c = CONN_IDLE then on_ready h c else c)"
  have c0: "kept c c0 \<and> same_owner c c0 \<and> streams_ok n c0"
  proof (cases "conn_status c = CONN_IDLE")
    case True
    let ?c = "c\<lparr>conn_status := CONN_OPEN\<rparr>"
    have f: "conn_frame (?c\<lparr>events := events ?c @ [EVT_CONNECT]\<rparr>) c0"
      unfolding c0_def on_ready_def using fire_event_frame [OF ko, of ?c EVT_CONNECT] True by simp
    have m: "kept c (?c\<lparr>events := events ?c @ [EVT_CONNECT]\<rparr>) \<and> same_owner c (?c\<lparr>events := events ?c @ [EVT_CONNECT]\<rparr>)"
      using True by (simp add: kept_def same_owner_def)
    have "streams_ok n (?c\<lparr>events := events ?c @ [EVT_CONNECT]\<rparr>)" using c(3) True by (simp add: streams_simps)
    then have "streams_ok n c0" by (rule streams_ok_frame [OF _ f])
    with m loop_frame_kept [OF conn_frame_loop_frame [OF f]] kept_trans same_owner_trans show ?thesis by blast
  qed (simp add: c0_def kept_refl same_owner_refl c)
  from p obtain c1 where c1: "(if has_event evts EPOLLIN then map_option snd (do_read k h n c0) else Some c0) = Some c1"
    and c': "c' = finish_event k h evts c1"
    unfolding Tcp_Connection.process_event_def Let_def c0_def [symmetric] map_option_eq_Some by blast
  have "kept c0 c1 \<and> same_owner c0 c1 \<and> streams_ok n c1"
  proof (cases "has_event evts EPOLLIN")
    case True
    with c1 obtain m where "do_read k h n c0 = Some (m, c1)" by auto
    moreover have "rx_inv (\<not> closing c0 \<and> \<not> need_reconnect c0) n c0" using c0 by (simp add: streams_ok_def)
    ultimately have r: "loop_frame c0 c1 \<and> rx_inv False n c1 \<and> (closing c1 \<or> rx_inv (\<not> closing c0 \<and> \<not> need_reconnect c0) n c1)"
      using do_read_correct [OF ko] by blast
    with streams_ok_loop_frame [of n c0 c1] c0 loop_frame_kept show ?thesis by blast
  qed (use c1 c0 in \<open>simp add: kept_refl same_owner_refl\<close>)
  moreover from this c0 c have "tcp_worker c1" "factory c1" by (simp_all add: same_owner_def)
  ultimately have "kept c c1" "same_owner c c1" "(kept c1 c' \<or> ended c1 c') \<and> same_owner c1 c' \<and> streams_ok n c'"
    using finish_event_effect [OF ko, of c1 n evts] c0 c' kept_trans same_owner_trans by blast+
  then show ?thesis using kept_trans kept_ended same_owner_trans by blast
qed

lemma client_effect:
  assumes "kernel_ok k" "conn_client k c c'" "streams_ok n c"
  shows "kept c c' \<and> same_owner c c' \<and> streams_ok n c'"
  using conn_client_frame [OF assms(2,1)] loop_frame_kept conn_frame_loop_frame streams_ok_frame assms(3) by blast

end

end
