(* ===== verification/Min_Heap.thy ===== *)
theory Min_Heap
  imports Snet_Prelude
begin

text \<open>
  \<open>include/utils/min_heap.h\<close>: \<open>MinHeap\<close>, a \<open>std::vector\<close> kept as a binary heap with
  \<open>std::push_heap\<close> and \<open>std::pop_heap\<close>. The two standard algorithms are modelled as
  libstdc++ runs them (sift the new value up from its hole; move the hole down to a leaf and sift
  the last value up from there), over the comparator \<open>cmp\<close>, where \<open>cmp a b\<close> says that
  \<open>b\<close> goes nearer to the top. The contract the timers rely on is the locale \<open>prio_queue\<close>.
\<close>

section \<open>The standard heap algorithms\<close>

definition par :: "nat \<Rightarrow> nat" where
  "par i = (i - 1) div 2"

lemma par_less: "0 < i \<Longrightarrow> par i < i"
  by (simp add: par_def)

lemma par_child [simp]: "par (Suc (2 * h)) = h" "par (Suc (Suc (2 * h))) = h"
  by (simp_all add: par_def)

lemma par_eq_iff: "0 < i \<Longrightarrow> par i = h \<longleftrightarrow> i = Suc (2 * h) \<or> i = Suc (Suc (2 * h))"
  by (auto simp: par_def)

function sift_up :: "('a \<Rightarrow> 'a \<Rightarrow> bool) \<Rightarrow> 'a list \<Rightarrow> nat \<Rightarrow> 'a \<Rightarrow> 'a list" where
  "sift_up cmp xs hole v =
     (if 0 < hole \<and> cmp (xs ! (par hole)) v
      then sift_up cmp (xs[hole := xs ! (par hole)]) (par hole) v
      else xs[hole := v])"
  by pat_completeness auto
termination
  by (relation "measure (\<lambda>(cmp, xs, hole, v). hole)") (auto simp: par_less)

function hole_down :: "('a \<Rightarrow> 'a \<Rightarrow> bool) \<Rightarrow> 'a list \<Rightarrow> nat \<Rightarrow> nat \<Rightarrow> 'a list \<times> nat" where
  "hole_down cmp xs hole len =
     (if hole < (len - 1) div 2
      then let second = 2 * (hole + 1);
               second = (if cmp (xs ! second) (xs ! (second - 1)) then second - 1 else second)
           in hole_down cmp (xs[hole := xs ! second]) second len
      else if even len \<and> hole = (len - 2) div 2 \<and> 0 < len
      then (xs[hole := xs ! (2 * hole + 1)], 2 * hole + 1)
      else (xs, hole))"
  by pat_completeness auto
termination
  by (relation "measure (\<lambda>(cmp, xs, hole, len). len - hole)") (auto simp: Let_def)

declare sift_up.simps [simp del] hole_down.simps [simp del]

definition push_heap :: "('a \<Rightarrow> 'a \<Rightarrow> bool) \<Rightarrow> 'a list \<Rightarrow> 'a list" where
  "push_heap cmp xs = sift_up cmp xs (length xs - 1) (last xs)"

definition pop_heap :: "('a \<Rightarrow> 'a \<Rightarrow> bool) \<Rightarrow> 'a list \<Rightarrow> 'a list" where
  "pop_heap cmp xs =
     (if 1 < length xs
      then let len = length xs - 1;
               v = xs ! len;
               xs = xs[len := xs ! 0];
               (ys, hole) = hole_down cmp (take len xs) 0 len
           in sift_up cmp ys hole v @ [xs ! len]
      else xs)"

section \<open>MinHeap\<close>

text \<open>The heap is its \<open>heap_data\<close> vector.\<close>

definition heap_insert :: "('a \<Rightarrow> 'a \<Rightarrow> bool) \<Rightarrow> 'a list \<Rightarrow> 'a \<Rightarrow> 'a list" where
  "heap_insert cmp heap_data item =
     (let heap_data = heap_data @ [item]
      in if 1 < length heap_data then push_heap cmp heap_data else heap_data)"

text \<open>
  \<open>pop\<close> keeps a reference to \<open>heap_data[0]\<close> across the removal and copies it into its
  result afterwards: the first element of the vector that is left, or a dangling read when
  nothing is left.
\<close>

datatype 'a pop_result = Pop_none | Pop_value 'a | Pop_dangling

definition heap_pop :: "('a \<Rightarrow> 'a \<Rightarrow> bool) \<Rightarrow> 'a list \<Rightarrow> 'a pop_result \<times> 'a list" where
  "heap_pop cmp heap_data =
     (if heap_data \<noteq> []
      then let heap_data = butlast (pop_heap cmp heap_data)
           in (case heap_data of [] \<Rightarrow> Pop_dangling | t # _ \<Rightarrow> Pop_value t, heap_data)
      else (Pop_none, heap_data))"

definition heap_top :: "'a list \<Rightarrow> 'a option" where
  "heap_top heap_data = (case heap_data of [] \<Rightarrow> None | t # _ \<Rightarrow> Some t)"

definition heap_size :: "'a list \<Rightarrow> nat" where
  "heap_size heap_data = length heap_data"

definition heap_empty :: "'a list \<Rightarrow> bool" where
  "heap_empty heap_data = (heap_data = [])"

definition heap_dump :: "(nat \<Rightarrow> 'a \<Rightarrow> 's \<Rightarrow> 's) \<Rightarrow> 'a list \<Rightarrow> 's \<Rightarrow> 's" where
  "heap_dump output heap_data s =
     fold (\<lambda>(i, item). output i item) (enumerate 0 heap_data) s"

section \<open>Heap order\<close>

definition is_heap :: "('a \<Rightarrow> 'a \<Rightarrow> bool) \<Rightarrow> 'a list \<Rightarrow> bool" where
  "is_heap cmp xs \<longleftrightarrow> (\<forall>i. 0 < i \<longrightarrow> i < length xs \<longrightarrow> \<not> cmp (xs ! par i) (xs ! i))"

text \<open>The strict weak order the standard asks of a comparator.\<close>

definition weak_order :: "('a \<Rightarrow> 'a \<Rightarrow> bool) \<Rightarrow> bool" where
  "weak_order cmp \<longleftrightarrow>
     (\<forall>a b. cmp a b \<longrightarrow> \<not> cmp b a) \<and>
     (\<forall>a b c. \<not> cmp a b \<longrightarrow> \<not> cmp b c \<longrightarrow> \<not> cmp a c)"

text \<open>A heap with a hole: every edge that does not touch the hole is in order, and the
  children of the hole are below the hole's parent.\<close>

definition hole_heap :: "('a \<Rightarrow> 'a \<Rightarrow> bool) \<Rightarrow> 'a list \<Rightarrow> nat \<Rightarrow> bool" where
  "hole_heap cmp xs hole \<longleftrightarrow> hole < length xs \<and>
     (\<forall>i. 0 < i \<longrightarrow> i < length xs \<longrightarrow> i \<noteq> hole \<longrightarrow> par i \<noteq> hole \<longrightarrow> \<not> cmp (xs ! par i) (xs ! i)) \<and>
     (\<forall>i. 0 < i \<longrightarrow> i < length xs \<longrightarrow> par i = hole \<longrightarrow> 0 < hole \<longrightarrow> \<not> cmp (xs ! par hole) (xs ! i))"

lemma hole_heapD:
  assumes "hole_heap cmp xs hole" and "0 < i" and "i < length xs"
  shows "i \<noteq> hole \<Longrightarrow> par i \<noteq> hole \<Longrightarrow> \<not> cmp (xs ! par i) (xs ! i)"
    and "par i = hole \<Longrightarrow> 0 < hole \<Longrightarrow> \<not> cmp (xs ! par hole) (xs ! i)"
  using assms by (auto simp: hole_heap_def)

lemma weak_orderD:
  assumes "weak_order cmp"
  shows "cmp a b \<Longrightarrow> \<not> cmp b a" and "\<not> cmp a b \<Longrightarrow> \<not> cmp b c \<Longrightarrow> \<not> cmp a c"
  using assms unfolding weak_order_def by blast+

lemma mset_exchange:
  fixes A M X P V H :: "'a multiset"
  assumes "A + P = M + V" and "M + H = X + P"
  shows "A + H = X + V"
proof -
  have "A + H + P = (A + P) + H" by (simp only: ac_simps)
  also have "\<dots> = (M + H) + V" by (simp only: assms(1)) (simp only: ac_simps)
  also have "\<dots> = X + V + P" by (simp only: assms(2)) (simp only: ac_simps)
  finally show ?thesis by simp
qed

lemma sift_up_mset:
  "hole < length xs \<Longrightarrow> mset (sift_up cmp xs hole v) + {# xs ! hole #} = mset xs + {# v #}"
proof (induction cmp xs hole v rule: sift_up.induct)
  case (1 cmp xs hole v)
  show ?case
  proof (cases "0 < hole \<and> cmp (xs ! par hole) v")
    case True
    let ?ys = "xs[hole := xs ! par hole]"
    have p: "par hole < hole" using True par_less by blast
    then have "mset (sift_up cmp ?ys (par hole) v) + {# xs ! par hole #} = mset ?ys + {# v #}"
      using "1.IH" [OF True] "1.prems" by simp
    moreover have "mset ?ys + {# xs ! hole #} = mset xs + {# xs ! par hole #}"
      using "1.prems" by (simp add: mset_update)
    ultimately have "mset (sift_up cmp ?ys (par hole) v) + {# xs ! hole #} = mset xs + {# v #}"
      by (rule mset_exchange)
    then show ?thesis using True by (subst sift_up.simps) simp
  next
    case False
    then have "sift_up cmp xs hole v = xs[hole := v]" by (subst sift_up.simps) auto
    with "1.prems" show ?thesis by (simp add: mset_update)
  qed
qed

lemma length_sift_up [simp]: "length (sift_up cmp xs hole v) = length xs"
proof (induction cmp xs hole v rule: sift_up.induct)
  case (1 cmp xs hole v)
  then show ?case by (subst sift_up.simps) simp
qed

lemma sift_up_heap:
  assumes "weak_order cmp" and "hole_heap cmp xs hole"
    and "\<And>i. 0 < i \<Longrightarrow> i < length xs \<Longrightarrow> par i = hole \<Longrightarrow> \<not> cmp v (xs ! i)"
  shows "is_heap cmp (sift_up cmp xs hole v)"
  using assms
proof (induction cmp xs hole v rule: sift_up.induct)
  case (1 cmp xs hole v)
  note wo = weak_orderD [OF "1.prems"(1)] and hh = hole_heapD [OF "1.prems"(2)]
  have h: "hole < length xs" using "1.prems"(2) by (simp add: hole_heap_def)
  show ?case
  proof (cases "0 < hole \<and> cmp (xs ! par hole) v")
    case True
    let ?q = "par hole" and ?ys = "xs[hole := xs ! par hole]"
    have q: "?q < hole" using True par_less by blast
    then have ysq: "?ys ! ?q = xs ! ?q" by simp
    have nv: "\<not> cmp v (xs ! ?q)" using True wo(1) by blast
    have up: "\<not> cmp (xs ! par ?q) (xs ! ?q)" if "0 < ?q"
      by (rule hh(1)) (use that q h par_less [OF that] in linarith)+
    have "hole_heap cmp ?ys ?q"
      unfolding hole_heap_def
    proof (intro conjI allI impI)
      show "?q < length ?ys" using q h by simp
    next
      fix i assume i: "0 < i" "i < length ?ys" "i \<noteq> ?q" "par i \<noteq> ?q"
      then have "i \<noteq> hole" "par i < i" by (auto simp: par_less)
      with i show "\<not> cmp (?ys ! par i) (?ys ! i)"
        using hh(1) [of i] hh(2) [of i] True h by (cases "par i = hole") auto
    next
      fix i assume i: "0 < i" "i < length ?ys" "par i = ?q" "0 < ?q"
      then have "\<not> cmp (xs ! par ?q) (?ys ! i)"
        using up hh(1) [of i] wo(2) [of "xs ! par ?q" "xs ! ?q" "xs ! i"] q
        by (cases "i = hole") auto
      moreover have "par ?q < hole" using q par_less [OF i(4)] by linarith
      then have "?ys ! par ?q = xs ! par ?q" by simp
      ultimately show "\<not> cmp (?ys ! par ?q) (?ys ! i)" by simp
    qed
    moreover have "\<not> cmp v (?ys ! i)" if "0 < i" "i < length ?ys" "par i = ?q" for i
      using that nv hh(1) [of i] wo(2) [of v "xs ! ?q" "xs ! i"] q h
      by (cases "i = hole") auto
    ultimately have "is_heap cmp (sift_up cmp ?ys ?q v)"
      using "1.IH" [OF True "1.prems"(1)] by blast
    then show ?thesis using True by (subst sift_up.simps) simp
  next
    case False
    have "\<not> cmp (xs[hole := v] ! par i) (xs[hole := v] ! i)"
      if i: "0 < i" "i < length xs" for i
    proof -
      consider "i = hole" | "par i = hole" "i \<noteq> hole" | "i \<noteq> hole" "par i \<noteq> hole" by blast
      then show ?thesis
      proof cases
        case 1 then show ?thesis using i False h par_less [OF i(1)] by auto
      next
        case 2 then show ?thesis using i "1.prems"(3) [of i] h by simp
      next
        case 3 then show ?thesis using i hh(1) [of i] by simp
      qed
    qed
    then have "is_heap cmp (xs[hole := v])" by (simp add: is_heap_def)
    then show ?thesis using False by (subst sift_up.simps) auto
  qed
qed

section \<open>Pushing and popping keep the heap\<close>

lemma length_hole_down: "length (fst (hole_down cmp xs hole len)) = length xs"
proof (induction cmp xs hole len rule: hole_down.induct)
  case (1 cmp xs hole len)
  then show ?case by (subst hole_down.simps) (auto simp: Let_def)
qed

text \<open>One move of the hole from a parent to its preferred child \<open>s\<close>.\<close>

lemma hole_move:
  assumes hh: "hole_heap cmp xs hole" and s: "s < length xs" "0 < s" "par s = hole"
    and best: "\<And>i. 0 < i \<Longrightarrow> i < length xs \<Longrightarrow> par i = hole \<Longrightarrow> \<not> cmp (xs ! s) (xs ! i)"
  shows "hole_heap cmp (xs[hole := xs ! s]) s"
    and "mset (xs[hole := xs ! s]) + {# xs ! hole #} = mset xs + {# xs[hole := xs ! s] ! s #}"
proof -
  let ?ys = "xs[hole := xs ! s]"
  have hl: "hole < length xs" using hh by (simp add: hole_heap_def)
  have hs: "hole < s" using par_less [OF s(2)] s(3) by simp
  show "hole_heap cmp ?ys s"
    unfolding hole_heap_def
  proof (intro conjI allI impI)
    show "s < length ?ys" using s by simp
  next
    fix i assume i: "0 < i" "i < length ?ys" "i \<noteq> s" "par i \<noteq> s"
    have pi: "par i < i" using i(1) by (rule par_less)
    show "\<not> cmp (?ys ! par i) (?ys ! i)"
    proof (cases "i = hole")
      case True
      then have "\<not> cmp (xs ! par hole) (xs ! s)" using hole_heapD(2) [OF hh s(2,1)] s i(1) by simp
      then show ?thesis using True pi hl by simp
    next
      case False
      show ?thesis
      proof (cases "par i = hole")
        case True
        then show ?thesis using best [of i] i False hl by simp
      next
        case neq: False
        then show ?thesis using hole_heapD(1) [OF hh, of i] i False by simp
      qed
    qed
  next
    fix i assume i: "0 < i" "i < length ?ys" "par i = s" "0 < s"
    have si: "s < i" using par_less [OF i(1)] i(3) by simp
    have "\<not> cmp (xs ! par i) (xs ! i)"
      by (rule hole_heapD(1) [OF hh]) (use i si hs in auto)
    then show "\<not> cmp (?ys ! par s) (?ys ! i)" using s(3) i(3) hl hs si by simp
  qed
  show "mset ?ys + {# xs ! hole #} = mset xs + {# ?ys ! s #}"
    using hl hs by (simp add: mset_update)
qed

lemma hole_down_two:
  assumes "hole < (len - 1) div 2" and "s0 = 2 * (hole + 1)"
    and "s = (if cmp (xs ! s0) (xs ! (s0 - 1)) then s0 - 1 else s0)"
  shows "hole_down cmp xs hole len = hole_down cmp (xs[hole := xs ! s]) s len"
  by (subst hole_down.simps, simp only: if_P [OF assms(1)] Let_def assms(2,3))

lemma hole_down_one:
  assumes "\<not> hole < (len - 1) div 2" and "even len \<and> hole = (len - 2) div 2 \<and> 0 < len"
  shows "hole_down cmp xs hole len = (xs[hole := xs ! Suc (2 * hole)], Suc (2 * hole))"
  by (subst hole_down.simps, simp only: if_not_P [OF assms(1)] if_P [OF assms(2)]) simp

lemma hole_down_leaf:
  assumes "\<not> hole < (len - 1) div 2" and "\<not> (even len \<and> hole = (len - 2) div 2 \<and> 0 < len)"
  shows "hole_down cmp xs hole len = (xs, hole)"
  by (subst hole_down.simps, simp only: if_not_P [OF assms(1)] if_not_P [OF assms(2)])

lemma leaf_bound:
  fixes hole len :: nat
  assumes a: "\<not> hole < (len - 1) div 2" and b: "\<not> (even len \<and> hole = (len - 2) div 2 \<and> 0 < len)"
  shows "len \<le> Suc (2 * hole)"
proof (cases "even len")
  case True
  then obtain k where k: "len = 2 * k" by (elim evenE)
  have "(2 * k - 1) div 2 = k - 1" by (cases k) auto
  with a k have "k - 1 \<le> hole" by simp
  moreover have "k = 0 \<or> hole \<noteq> k - 1" using b True k by auto
  ultimately show ?thesis using k by linarith
next
  case False
  then obtain k where "len = 2 * k + 1" by (elim oddE)
  with a show ?thesis by simp
qed

text \<open>
  Moving the hole down: it ends at a leaf, the heap around it stays in order, and the
  elements other than the one in the hole stay.
\<close>

lemma hole_down_correct:
  assumes "weak_order cmp" and "hole_heap cmp xs hole" and "len = length xs"
    and "hole_down cmp xs hole len = (ys, h)"
  shows "hole_heap cmp ys h \<and> len \<le> Suc (2 * h) \<and> mset ys + {# xs ! hole #} = mset xs + {# ys ! h #}"
  using assms
proof (induction cmp xs hole len arbitrary: ys h rule: hole_down.induct)
  case (1 cmp xs hole len)
  note wo = weak_orderD [OF "1.prems"(1)] and move = hole_move [OF "1.prems"(2)]
  have hl: "hole < length xs" using "1.prems"(2) by (simp add: hole_heap_def)
  have len: "len = length xs" by (rule "1.prems"(3))
  consider (two) "hole < (len - 1) div 2"
    | (one) "\<not> hole < (len - 1) div 2" "even len \<and> hole = (len - 2) div 2 \<and> 0 < len"
    | (leaf) "\<not> hole < (len - 1) div 2" "\<not> (even len \<and> hole = (len - 2) div 2 \<and> 0 < len)" by blast
  then show ?case
  proof cases
    case two
    define s0 where "s0 = 2 * (hole + 1)"
    define s where "s = (if cmp (xs ! s0) (xs ! (s0 - 1)) then s0 - 1 else s0)"
    have s0: "s0 < length xs" using two len by (simp add: s0_def)
    have s: "s < length xs" "0 < s" "par s = hole" using s0 by (simp_all add: s_def s0_def)
    have irr: "\<not> cmp a a" for a using wo(1) by blast
    have best: "\<not> cmp (xs ! s) (xs ! i)" if "0 < i" "i < length xs" "par i = hole" for i
    proof -
      have "i = s0 - 1 \<or> i = s0" using that by (simp add: par_eq_iff s0_def)
      then show ?thesis
        by (cases "cmp (xs ! s0) (xs ! (s0 - 1))") (auto simp: s_def irr dest: wo(1))
    qed
    note mv = move [OF s best]
    have "hole_down cmp (xs[hole := xs ! s]) s len = (ys, h)"
      using hole_down_two [of hole len s0 s cmp xs, OF two s0_def s_def] "1.prems"(4) by (rule trans [OF sym])
    moreover have "len = length (xs[hole := xs ! s])" using len by simp
    ultimately have ih: "hole_heap cmp ys h" "len \<le> Suc (2 * h)"
        "mset ys + {# xs[hole := xs ! s] ! s #} = mset (xs[hole := xs ! s]) + {# ys ! h #}"
      using "1.IH" [OF two s0_def s_def "1.prems"(1) mv(1)] by blast+
    from mset_exchange [OF ih(3) mv(2)] ih(1,2) show ?thesis by blast
  next
    case one
    let ?s = "Suc (2 * hole)"
    have ls: "length xs = Suc ?s" using one len by presburger
    have best: "\<not> cmp (xs ! ?s) (xs ! i)" if "0 < i" "i < length xs" "par i = hole" for i
    proof -
      have "i = ?s" using that ls by (simp add: par_eq_iff)
      then show ?thesis using wo(1) by blast
    qed
    have e: "ys = xs[hole := xs ! ?s]" "h = ?s"
      using "1.prems"(4) hole_down_one [OF one, of cmp xs] by auto
    have "?s < length xs" "0 < ?s" "par ?s = hole" using ls by auto
    note mv = move [OF this best]
    have "len \<le> Suc (2 * ?s)" using ls len by simp
    with mv show ?thesis unfolding e by blast
  next
    case leaf
    have "ys = xs" "h = hole" using "1.prems"(4) hole_down_leaf [OF leaf, of cmp xs] by auto
    moreover have "len \<le> Suc (2 * hole)" by (rule leaf_bound [OF leaf])
    ultimately show ?thesis using "1.prems"(2) by simp
  qed
qed

lemma push_heap_correct:
  assumes wo: "weak_order cmp" and heap: "is_heap cmp xs"
  shows "is_heap cmp (push_heap cmp (xs @ [x]))"
    and "mset (push_heap cmp (xs @ [x])) = add_mset x (mset xs)"
proof -
  have "hole_heap cmp (xs @ [x]) (length xs)"
    unfolding hole_heap_def
  proof (intro conjI allI impI)
    show "length xs < length (xs @ [x])" by simp
  next
    fix i assume i: "0 < i" "i < length (xs @ [x])" "i \<noteq> length xs"
    then have "i < length xs" "par i < length xs" using par_less [OF i(1)] by auto
    then show "\<not> cmp ((xs @ [x]) ! par i) ((xs @ [x]) ! i)"
      using heap i(1) by (simp add: is_heap_def nth_append)
  next
    fix i assume "0 < i" "i < length (xs @ [x])" "par i = length xs"
    then have False using par_less [of i] by simp
    then show "\<not> cmp ((xs @ [x]) ! par (length xs)) ((xs @ [x]) ! i)" ..
  qed
  moreover have "\<not> cmp x ((xs @ [x]) ! i)"
    if "0 < i" "i < length (xs @ [x])" "par i = length xs" for i
    using that par_less [of i] by simp
  ultimately show "is_heap cmp (push_heap cmp (xs @ [x]))"
    unfolding push_heap_def by (intro sift_up_heap [OF wo]) simp_all
  show "mset (push_heap cmp (xs @ [x])) = add_mset x (mset xs)"
    using sift_up_mset [of "length xs" "xs @ [x]" cmp x] by (simp add: push_heap_def)
qed

lemma pop_heap_correct:
  assumes wo: "weak_order cmp" and heap: "is_heap cmp xs" and ne: "xs \<noteq> []"
  shows "is_heap cmp (butlast (pop_heap cmp xs))"
    and "mset (butlast (pop_heap cmp xs)) = mset xs - {# xs ! 0 #}"
proof -
  have "is_heap cmp (butlast (pop_heap cmp xs)) \<and>
      mset (butlast (pop_heap cmp xs)) = mset xs - {# xs ! 0 #}"
  proof (cases "1 < length xs")
    case False
    with ne obtain x where "xs = [x]" by (cases xs) auto
    then show ?thesis by (simp add: pop_heap_def is_heap_def)
  next
    case True
    define len where "len = length xs - 1"
    define v where "v = xs ! len"
    define zs where "zs = take len xs"
    have xs: "xs = zs @ [v]" and lz: "length zs = len" and l0: "0 < len"
      using True by (auto simp: zs_def v_def len_def take_Suc_conv_app_nth [symmetric])
    obtain ys h where hd: "hole_down cmp zs 0 len = (ys, h)" by fastforce
    have "hole_heap cmp zs 0"
      unfolding hole_heap_def
    proof (intro conjI allI impI)
      show "0 < length zs" using lz l0 by simp
    next
      fix i assume i: "0 < i" "i < length zs"
      then have "par i < length zs" using par_less [of i] by simp
      moreover have "\<not> cmp (xs ! par i) (xs ! i)" using heap i by (simp add: is_heap_def xs)
      ultimately show "\<not> cmp (zs ! par i) (zs ! i)" using i by (simp add: xs nth_append)
    qed simp
    from hole_down_correct [OF wo this lz [symmetric] hd]
    have d: "hole_heap cmp ys h" "len \<le> Suc (2 * h)" "mset ys + {# zs ! 0 #} = mset zs + {# ys ! h #}"
      by auto
    have ly: "length ys = len" using length_hole_down [of cmp zs 0 len] hd lz by simp
    have h: "h < len" using d(1) ly by (simp add: hole_heap_def)
    have pop: "butlast (pop_heap cmp xs) = sift_up cmp ys h v"
    proof -
      have "length xs - Suc 0 = len" by (simp add: len_def)
      then show ?thesis
        using True hd by (simp add: pop_heap_def Let_def v_def [symmetric] zs_def [symmetric])
    qed
    have "is_heap cmp (sift_up cmp ys h v)"
      by (rule sift_up_heap [OF wo d(1)]) (use d(2) ly in \<open>auto simp: par_eq_iff\<close>)
    moreover have "mset (sift_up cmp ys h v) + {# zs ! 0 #} = mset zs + {# v #}"
    proof (rule mset_exchange)
      show "mset (sift_up cmp ys h v) + {# ys ! h #} = mset ys + {# v #}"
        using sift_up_mset [of h ys cmp v] h ly by simp
      show "mset ys + {# zs ! 0 #} = mset zs + {# ys ! h #}" by (rule d(3))
    qed
    then have "mset (sift_up cmp ys h v) = mset xs - {# xs ! 0 #}"
    proof -
      have "mset xs = mset zs + {# v #}" "xs ! 0 = zs ! 0" using l0 lz by (simp_all add: xs nth_append)
      then have "mset xs = mset (sift_up cmp ys h v) + {# xs ! 0 #}"
        using \<open>mset (sift_up cmp ys h v) + {# zs ! 0 #} = mset zs + {# v #}\<close> by simp
      then show ?thesis by simp
    qed
    ultimately show ?thesis by (simp add: pop)
  qed
  then show "is_heap cmp (butlast (pop_heap cmp xs))"
    and "mset (butlast (pop_heap cmp xs)) = mset xs - {# xs ! 0 #}" by auto
qed

lemma is_heap_top:
  assumes wo: "weak_order cmp" and heap: "is_heap cmp xs" and i: "i < length xs"
  shows "\<not> cmp (xs ! 0) (xs ! i)"
  using i
proof (induction i rule: less_induct)
  case (less i)
  show ?case
  proof (cases "i = 0")
    case True
    then show ?thesis using weak_orderD(1) [OF wo] by blast
  next
    case False
    then have "par i < i" using par_less by blast
    with less have "\<not> cmp (xs ! 0) (xs ! par i)" by simp
    moreover have "\<not> cmp (xs ! par i) (xs ! i)"
      using heap False less.prems by (simp add: is_heap_def)
    ultimately show ?thesis by (rule weak_orderD(2) [OF wo])
  qed
qed

section \<open>The contract of the queue\<close>

text \<open>What \<open>HeapTimer\<close> needs: \<open>top\<close> shows an element that nothing beats, \<open>pop\<close>
  removes exactly that element.\<close>

locale prio_queue =
  fixes before :: "'a \<Rightarrow> 'a \<Rightarrow> bool"
    and invar :: "'q \<Rightarrow> bool"
    and elems :: "'q \<Rightarrow> 'a multiset"
    and ins :: "'q \<Rightarrow> 'a \<Rightarrow> 'q"
    and top_of :: "'q \<Rightarrow> 'a option"
    and del_top :: "'q \<Rightarrow> 'q"
  assumes ins_elems: "invar q \<Longrightarrow> elems (ins q x) = add_mset x (elems q)"
    and ins_invar: "invar q \<Longrightarrow> invar (ins q x)"
    and top_None: "invar q \<Longrightarrow> top_of q = None \<longleftrightarrow> elems q = {#}"
    and top_Some: "invar q \<Longrightarrow> top_of q = Some x \<Longrightarrow> x \<in># elems q \<and> (\<forall>y \<in># elems q. \<not> before y x)"
    and del_elems: "invar q \<Longrightarrow> top_of q = Some x \<Longrightarrow> elems (del_top q) = elems q - {# x #}"
    and del_invar: "invar q \<Longrightarrow> invar (del_top q)"

text \<open>Emptying the queue.\<close>

fun drain_queue :: "('q \<Rightarrow> 'a option) \<Rightarrow> ('q \<Rightarrow> 'q) \<Rightarrow> nat \<Rightarrow> 'q \<Rightarrow> 'a list" where
  "drain_queue top_of del_top 0 q = []"
| "drain_queue top_of del_top (Suc n) q =
     (case top_of q of None \<Rightarrow> [] | Some x \<Rightarrow> x # drain_queue top_of del_top n (del_top q))"

context prio_queue
begin

lemma drain_correct:
  assumes "invar q" and "size (elems q) \<le> n"
  shows "mset (drain_queue top_of del_top n q) = elems q \<and>
    sorted_wrt (\<lambda>x y. \<not> before y x) (drain_queue top_of del_top n q)"
  using assms
proof (induction n arbitrary: q)
  case 0
  then show ?case by simp
next
  case (Suc n)
  show ?case
  proof (cases "top_of q")
    case None
    then show ?thesis using top_None [OF Suc.prems(1)] by simp
  next
    case (Some x)
    note t = top_Some [OF Suc.prems(1) Some] and d = del_elems [OF Suc.prems(1) Some]
    have eq: "elems q = add_mset x (elems (del_top q))" using t d by simp
    then have "size (elems (del_top q)) \<le> n" using Suc.prems(2) by simp
    note ih = Suc.IH [OF del_invar [OF Suc.prems(1)] this]
    then have "set (drain_queue top_of del_top n (del_top q)) = set_mset (elems (del_top q))"
      by (metis set_mset_mset)
    with ih eq t Some show ?thesis by simp
  qed
qed

end

lemma heap_insert_correct:
  assumes "weak_order cmp" and "is_heap cmp xs"
  shows "is_heap cmp (heap_insert cmp xs x)" and "mset (heap_insert cmp xs x) = add_mset x (mset xs)"
  using push_heap_correct [OF assms, of x] by (cases xs; simp add: heap_insert_def is_heap_def)+

lemma heap_pop_correct:
  assumes "weak_order cmp" and "is_heap cmp xs"
  shows "is_heap cmp (snd (heap_pop cmp xs))"
    and "heap_top xs = Some x \<Longrightarrow> mset (snd (heap_pop cmp xs)) = mset xs - {# x #}"
  using pop_heap_correct [OF assms] assms(2)
  by (cases xs; simp add: heap_pop_def Let_def heap_top_def)+

lemma heap_top_best:
  assumes "weak_order cmp" and "is_heap cmp xs" and "heap_top xs = Some x"
  shows "x \<in> set xs" and "y \<in> set xs \<Longrightarrow> \<not> cmp x y"
proof -
  obtain zs where xs: "xs = x # zs" using assms(3) by (auto simp: heap_top_def split: list.splits)
  then show "x \<in> set xs" by simp
  assume "y \<in> set xs"
  then obtain i where "i < length xs" "y = xs ! i" by (auto simp: in_set_conv_nth)
  then show "\<not> cmp x y" using is_heap_top [OF assms(1,2)] xs by (metis nth_Cons_0)
qed

interpretation mh: prio_queue "\<lambda>x y. cmp y x" "\<lambda>xs. weak_order cmp \<and> is_heap cmp xs" mset
    "heap_insert cmp" heap_top "\<lambda>xs. snd (heap_pop cmp xs)"
  for cmp :: "'a \<Rightarrow> 'a \<Rightarrow> bool"
proof unfold_locales
  fix q :: "'a list" and x :: 'a
  assume wf: "weak_order cmp \<and> is_heap cmp q"
  then have w: "weak_order cmp" "is_heap cmp q" by auto
  show "mset (heap_insert cmp q x) = add_mset x (mset q)" by (rule heap_insert_correct(2) [OF w])
  show "weak_order cmp \<and> is_heap cmp (heap_insert cmp q x)"
    using heap_insert_correct(1) [OF w] w by blast
  show "heap_top q = None \<longleftrightarrow> mset q = {#}" by (simp add: heap_top_def split: list.split)
  show "x \<in># mset q \<and> (\<forall>y\<in>#mset q. \<not> cmp x y)" if "heap_top q = Some x"
    using heap_top_best [OF w that] by simp
  show "mset (snd (heap_pop cmp q)) = mset q - {# x #}" if "heap_top q = Some x"
    by (rule heap_pop_correct(2) [OF w that])
  show "weak_order cmp \<and> is_heap cmp (snd (heap_pop cmp q))"
    using heap_pop_correct(1) [OF w] w by blast
qed

section \<open>Properties\<close>

text \<open>
  (C16) \<open>insert\<close> and \<open>pop\<close> keep the heap order over any strict weak order; \<open>insert\<close> adds exactly
  its item, and \<open>pop\<close> removes exactly the element \<open>top\<close> shows, before which no other element goes.
\<close>

theorem min_heap_ops:
  assumes "weak_order cmp" and "is_heap cmp xs"
  shows "is_heap cmp (heap_insert cmp xs x) \<and> mset (heap_insert cmp xs x) = add_mset x (mset xs) \<and>
    is_heap cmp (snd (heap_pop cmp xs)) \<and>
    (case heap_top xs of
       None \<Rightarrow> xs = [] \<and> heap_pop cmp xs = (Pop_none, [])
     | Some t \<Rightarrow> t \<in> set xs \<and> (\<forall>y \<in> set xs. \<not> cmp t y) \<and>
         mset (snd (heap_pop cmp xs)) = mset xs - {# t #})"
proof (cases "heap_top xs")
  case None
  then have "xs = []" by (simp add: heap_top_def split: list.splits)
  with None heap_insert_correct [OF assms] heap_pop_correct(1) [OF assms] show ?thesis
    by (simp add: heap_pop_def)
next
  case (Some t)
  with heap_insert_correct [OF assms] heap_pop_correct [OF assms] heap_top_best [OF assms Some]
  show ?thesis by simp
qed

theorem min_heap_ops_witness:
  "let xs = [1, 4, 2 :: int]; gt = (\<lambda>a b. b < a)
   in is_heap gt (heap_insert gt xs 0) \<and> mset (snd (heap_pop gt xs)) = mset xs - {# 1 #}"
proof -
  let ?gt = "\<lambda>a b :: int. b < a"
  have wo: "weak_order ?gt" by (auto simp: weak_order_def)
  have "is_heap ?gt [1, 4, 2]" by (auto simp: is_heap_def par_def less_Suc_eq)
  from min_heap_ops [OF wo this, of 0] show ?thesis by (simp add: heap_top_def)
qed

text \<open>
  Repeated \<open>top\<close>/\<open>pop\<close> until the heap is empty delivers all its elements in the order of the
  comparator: the heap sorts.
\<close>

theorem min_heap_drain_sorted:
  assumes "weak_order cmp" and "is_heap cmp xs"
  shows "mset (drain_queue heap_top (\<lambda>h. snd (heap_pop cmp h)) (length xs) xs) = mset xs \<and>
    sorted_wrt (\<lambda>x y. \<not> cmp x y) (drain_queue heap_top (\<lambda>h. snd (heap_pop cmp h)) (length xs) xs)"
  using mh.drain_correct [of cmp xs "length xs"] assms by simp

theorem min_heap_drain_sorted_witness:
  "let gt = (\<lambda>a b :: int. b < a) in
   sorted_wrt (\<lambda>x y. \<not> gt x y)
     (drain_queue heap_top (\<lambda>h. snd (heap_pop gt h)) (length [1, 4, 2 :: int]) [1, 4, 2 :: int])"
proof -
  let ?gt = "\<lambda>a b :: int. b < a"
  have wo: "weak_order ?gt" by (auto simp: weak_order_def)
  have "is_heap ?gt [1, 4, 2]" by (auto simp: is_heap_def par_def less_Suc_eq)
  from min_heap_drain_sorted [OF wo this] show ?thesis by (simp only: Let_def)
qed

text \<open>
  The value \<open>pop\<close> returns is never the removed element but the one that is on top after the
  removal (and a dangling read when the removed element was the last one), because the code
  copies through a reference into the vector after it has changed the vector.
\<close>

theorem min_heap_pop_returns_next:
  "fst (heap_pop cmp xs) =
     (if xs = [] then Pop_none
      else case heap_top (snd (heap_pop cmp xs)) of None \<Rightarrow> Pop_dangling | Some t \<Rightarrow> Pop_value t)"
  by (simp add: heap_pop_def heap_top_def Let_def split: list.split)

end
