(* ===== verification/Heap_Timer.thy ===== *)
theory Heap_Timer
  imports Min_Heap
begin

text \<open>
  \<open>HeapTimer\<close> (src/include/utils/heap\_timer.h): timers kept in a \<open>MinHeap\<close> of shared pointers to
  nodes, ordered by expiry, beside a map from timer ids to nodes. Nodes are shared and mutated in
  place, so they live in an explicit store and the heap and the map hold addresses; a node's
  \<open>stopped\<close> flag is seen by whoever holds its address. The clock and the handlers are the
  environment. A handler is called without a lock and may call the timer's public operations. The
  mutexes are not modelled: the operations are taken as atomic.
\<close>

section \<open>Data\<close>

text \<open>\<open>interval\<close> is an \<open>int32_t\<close>, read with \<open>sint\<close>; \<open>expire_time\<close> counts ticks of the time scale.\<close>

record 'h timer_node =
  timer_id :: u64
  handler :: 'h
  interval :: u32
  loop :: bool
  stopped :: bool
  expire_time :: int

text \<open>
  \<open>timer_mem\<close> is the store of the nodes allocated so far. \<open>fired\<close> is not part of the program: it
  records the nodes whose handler was called, latest first.
\<close>

record 'h heap_timer =
  timer_mem :: "'h timer_node list"
  heap_tree :: "nat list"
  timer_nodes :: "u32 \<rightharpoonup> nat"
  timer_index :: u64
  fired :: "nat list"

text \<open>The environment: \<open>get_now\<close>, and the call of a handler, which may use the timer.\<close>

record ('h, 'w) timer_env =
  get_now :: "'w \<Rightarrow> int \<times> 'w"
  call_handler :: "'h \<Rightarrow> 'w \<Rightarrow> 'h heap_timer \<Rightarrow> bool \<times> 'w \<times> 'h heap_timer"

definition base_timer_index :: u64 where
  "base_timer_index = 1024"

definition HeapTimer :: "'h heap_timer" where
  "HeapTimer = \<lparr>timer_mem = [], heap_tree = [], timer_nodes = Map.empty,
     timer_index = base_timer_index, fired = []\<rparr>"

section \<open>Operations\<close>

text \<open>The constructor of \<open>TimerNode\<close>, at the time \<open>now\<close>.\<close>

definition TimerNode :: "int \<Rightarrow> u32 \<Rightarrow> 'h \<Rightarrow> bool \<Rightarrow> 'h timer_node" where
  "TimerNode now t h l =
     \<lparr>timer_id = 0, handler = h, interval = t, loop = l, stopped = False, expire_time = now + sint t\<rparr>"

definition CompareTimerNode :: "'h timer_node list \<Rightarrow> nat \<Rightarrow> nat \<Rightarrow> bool" where
  "CompareTimerNode mem node other \<longleftrightarrow> expire_time (mem ! other) < expire_time (mem ! node)"

definition heap_tree_insert :: "nat \<Rightarrow> 'h heap_timer \<Rightarrow> 'h heap_timer" where
  "heap_tree_insert node t =
     t\<lparr>heap_tree := heap_insert (CompareTimerNode (timer_mem t)) (heap_tree t) node\<rparr>"

definition set_stopped :: "nat \<Rightarrow> 'h heap_timer \<Rightarrow> 'h heap_timer" where
  "set_stopped node t = t\<lparr>timer_mem := (timer_mem t)[node := (timer_mem t ! node)\<lparr>stopped := True\<rparr>]\<rparr>"

definition add_timer :: "'h timer_node \<Rightarrow> 'h heap_timer \<Rightarrow> u32 \<times> 'h heap_timer" where
  "add_timer n t =
     (let a = length (timer_mem t);
          i = timer_index t;
          t = heap_tree_insert a
                (t\<lparr>timer_mem := timer_mem t @ [n\<lparr>timer_id := i\<rparr>], timer_index := i + 1\<rparr>)
      in (ucast i, t\<lparr>timer_nodes := (timer_nodes t)(ucast i \<mapsto> a)\<rparr>))"

definition start_timer_at :: "int \<Rightarrow> 'h \<Rightarrow> u32 \<Rightarrow> bool \<Rightarrow> 'h heap_timer \<Rightarrow> u32 \<times> 'h heap_timer" where
  "start_timer_at now h t_interval l t = add_timer (TimerNode now t_interval h l) t"

definition start_timer ::
    "('h, 'w) timer_env \<Rightarrow> 'h \<Rightarrow> u32 \<Rightarrow> bool \<Rightarrow> 'w \<Rightarrow> 'h heap_timer \<Rightarrow> u32 \<times> 'w \<times> 'h heap_timer" where
  "start_timer env h t_interval l w t =
     (let (now, w) = get_now env w; (i, t) = start_timer_at now h t_interval l t in (i, w, t))"

definition stop_timer :: "u32 \<Rightarrow> 'h heap_timer \<Rightarrow> bool \<times> 'h heap_timer" where
  "stop_timer timerId t =
     (case timer_nodes t timerId of
        Some node \<Rightarrow>
          (True, (set_stopped node t)\<lparr>timer_nodes := (timer_nodes t)(timerId := None)\<rparr>)
      | None \<Rightarrow> (False, t))"

text \<open>The new node keeps the default \<open>timer_id\<close> 0.\<close>

definition restart_timer_at :: "int \<Rightarrow> u32 \<Rightarrow> u32 \<Rightarrow> 'h heap_timer \<Rightarrow> bool \<times> 'h heap_timer" where
  "restart_timer_at now timerId t_interval t =
     (case timer_nodes t timerId of
        Some node \<Rightarrow>
          let old = timer_mem t ! node;
              t = set_stopped node t;
              n = TimerNode now (if 0 < t_interval then t_interval else interval old) (handler old) (loop old);
              a = length (timer_mem t);
              t = t\<lparr>timer_mem := timer_mem t @ [n], timer_nodes := (timer_nodes t)(timerId := None)\<rparr>;
              t = heap_tree_insert a t
          in (True, t\<lparr>timer_nodes := (timer_nodes t)(ucast (timer_id n) \<mapsto> a)\<rparr>)
      | None \<Rightarrow> (False, t))"

definition restart_timer ::
    "('h, 'w) timer_env \<Rightarrow> u32 \<Rightarrow> u32 \<Rightarrow> 'w \<Rightarrow> 'h heap_timer \<Rightarrow> bool \<times> 'w \<times> 'h heap_timer" where
  "restart_timer env timerId t_interval w t =
     (if timer_nodes t timerId = None then (False, w, t)
      else let (now, w) = get_now env w; (b, t) = restart_timer_at now timerId t_interval t in (b, w, t))"

text \<open>\<open>node->expire_time = get_now() + interval\<close>, and back into the heap.\<close>

definition rearm :: "int \<Rightarrow> nat \<Rightarrow> 'h heap_timer \<Rightarrow> 'h heap_timer" where
  "rearm now node t =
     (let n = timer_mem t ! node
      in heap_tree_insert node
           (t\<lparr>timer_mem := (timer_mem t)[node := n\<lparr>expire_time := now + sint (interval n)\<rparr>]\<rparr>))"

definition handle_timeout :: "('h, 'w) timer_env \<Rightarrow> nat \<Rightarrow> 'w \<Rightarrow> 'h heap_timer \<Rightarrow> 'w \<times> 'h heap_timer" where
  "handle_timeout env node w t =
     (let (rst, w, t) = call_handler env (handler (timer_mem t ! node)) w (t\<lparr>fired := node # fired t\<rparr>);
          n = timer_mem t ! node
      in if rst
         then if loop n \<and> \<not> stopped n
              then let (now, w) = get_now env w in (w, rearm now node t)
              else (w, t)
         else (w, (set_stopped node t)\<lparr>timer_nodes := (timer_nodes t)(ucast (timer_id n) := None)\<rparr>))"

text \<open>The body of the loop of \<open>timer_loop\<close>, for the node on top of the heap.\<close>

definition pop_top :: "'h heap_timer \<Rightarrow> 'h heap_timer" where
  "pop_top t = t\<lparr>heap_tree := snd (heap_pop (CompareTimerNode (timer_mem t)) (heap_tree t))\<rparr>"

definition timer_pass :: "('h, 'w) timer_env \<Rightarrow> nat \<Rightarrow> 'w \<Rightarrow> 'h heap_timer \<Rightarrow> 'w \<times> 'h heap_timer" where
  "timer_pass env node w t =
     (let t = pop_top t
      in if \<not> stopped (timer_mem t ! node) then handle_timeout env node w t else (w, t))"

partial_function (option) timer_while ::
    "('h, 'w) timer_env \<Rightarrow> int \<Rightarrow> 'w \<Rightarrow> 'h heap_timer \<Rightarrow> (int \<times> 'w \<times> 'h heap_timer) option" where
  "timer_while env cur w t =
     (case heap_top (heap_tree t) of
        None \<Rightarrow> Some (cur, w, t)
      | Some node \<Rightarrow>
          if expire_time (timer_mem t ! node) \<le> cur
          then let (w, t) = timer_pass env node w t; (cur, w) = get_now env w in timer_while env cur w t
          else Some (cur, w, t))"

text \<open>\<open>None\<close> is a call that does not return.\<close>

partial_function (option) timer_loop ::
    "('h, 'w) timer_env \<Rightarrow> 'w \<Rightarrow> 'h heap_timer \<Rightarrow> (int \<times> 'w \<times> 'h heap_timer) option" where
  "timer_loop env w t =
     (let (cur, w) = get_now env w
      in Option.bind (timer_while env cur w t) (\<lambda>(cur, w, t).
           case heap_top (heap_tree t) of
             None \<Rightarrow> Some (1, w, t)
           | Some node \<Rightarrow>
               if cur < expire_time (timer_mem t ! node)
               then Some (expire_time (timer_mem t ! node) - cur, w, t)
               else Option.bind (timer_loop env w t) (\<lambda>(_, w, t). Some (1, w, t))))"

declare timer_while.simps [code] timer_loop.simps [code]

section \<open>Invariant\<close>

lemma CompareTimerNode_weak_order [simp]: "weak_order (CompareTimerNode mem)"
  by (auto simp: weak_order_def CompareTimerNode_def)

lemma is_heap_cong:
  assumes "is_heap cmp xs" and "\<And>a b. a \<in> set xs \<Longrightarrow> b \<in> set xs \<Longrightarrow> cmp' a b = cmp a b"
  shows "is_heap cmp' xs"
  unfolding is_heap_def
proof (intro allI impI)
  fix i assume i: "0 < i" "i < length xs"
  moreover from i have "par i < length xs" using par_less [of i] by simp
  ultimately show "\<not> cmp' (xs ! par i) (xs ! i)"
    using assms by (simp add: is_heap_def)
qed

text \<open>
  Every address is allocated, the heap is in order and holds no node twice, and a node that is
  found under an id has that id and is not stopped.
\<close>

definition timer_inv :: "'h heap_timer \<Rightarrow> bool" where
  "timer_inv t \<longleftrightarrow>
     is_heap (CompareTimerNode (timer_mem t)) (heap_tree t) \<and> distinct (heap_tree t) \<and>
     set (heap_tree t) \<subseteq> {..<length (timer_mem t)} \<and>
     (\<forall>k a. timer_nodes t k = Some a \<longrightarrow>
        a < length (timer_mem t) \<and> \<not> stopped (timer_mem t ! a) \<and> ucast (timer_id (timer_mem t ! a)) = k)"

lemma timer_invD:
  assumes "timer_inv t"
  shows "is_heap (CompareTimerNode (timer_mem t)) (heap_tree t)" "distinct (heap_tree t)"
    "a \<in> set (heap_tree t) \<Longrightarrow> a < length (timer_mem t)"
    "timer_nodes t k = Some a \<Longrightarrow> a < length (timer_mem t)"
    "timer_nodes t k = Some a \<Longrightarrow> \<not> stopped (timer_mem t ! a)"
    "timer_nodes t k = Some a \<Longrightarrow> ucast (timer_id (timer_mem t ! a)) = k"
  using assms by (auto simp: timer_inv_def)

lemma heap_tree_insert_fields [simp]:
  "timer_mem (heap_tree_insert a t) = timer_mem t" "timer_nodes (heap_tree_insert a t) = timer_nodes t"
  "timer_index (heap_tree_insert a t) = timer_index t" "fired (heap_tree_insert a t) = fired t"
  by (simp_all add: heap_tree_insert_def)

lemma heap_tree_insert_heap:
  assumes "is_heap (CompareTimerNode (timer_mem t)) (heap_tree t)"
  shows "is_heap (CompareTimerNode (timer_mem t)) (heap_tree (heap_tree_insert a t))"
    and "mset (heap_tree (heap_tree_insert a t)) = add_mset a (mset (heap_tree t))"
  using mh.ins_invar [of "CompareTimerNode (timer_mem t)"] mh.ins_elems [of "CompareTimerNode (timer_mem t)"] assms
  by (simp_all add: heap_tree_insert_def)

lemma set_stopped_fields [simp]:
  "heap_tree (set_stopped a t) = heap_tree t" "timer_nodes (set_stopped a t) = timer_nodes t"
  "timer_index (set_stopped a t) = timer_index t" "fired (set_stopped a t) = fired t"
  "length (timer_mem (set_stopped a t)) = length (timer_mem t)"
  by (simp_all add: set_stopped_def)

lemma set_stopped_nth:
  "b < length (timer_mem t) \<Longrightarrow>
   timer_mem (set_stopped a t) ! b = (if b = a then (timer_mem t ! b)\<lparr>stopped := True\<rparr> else timer_mem t ! b)"
  by (simp add: set_stopped_def)

lemma set_stopped_other [simp]: "b \<noteq> a \<Longrightarrow> timer_mem (set_stopped a t) ! b = timer_mem t ! b"
  by (simp add: set_stopped_def)

text \<open>What an operation of the timer does to the nodes it finds, and to the heap.\<close>

definition node_frame :: "'h timer_node \<Rightarrow> 'h timer_node \<Rightarrow> bool" where
  "node_frame n n' \<longleftrightarrow> n' = n \<or> n' = n\<lparr>stopped := True\<rparr>"

lemma node_frame_fields:
  "node_frame n n' \<Longrightarrow> timer_id n' = timer_id n \<and> handler n' = handler n \<and> interval n' = interval n \<and>
     loop n' = loop n \<and> expire_time n' = expire_time n \<and> (stopped n \<longrightarrow> stopped n')"
  by (auto simp: node_frame_def)

text \<open>
  \<open>P\<close> bounds the nodes that are added: it holds for the time of their creation and their interval.
\<close>

definition timer_frame :: "(int \<Rightarrow> int \<Rightarrow> bool) \<Rightarrow> 'h heap_timer \<Rightarrow> 'h heap_timer \<Rightarrow> bool" where
  "timer_frame P t t' \<longleftrightarrow>
     length (timer_mem t) \<le> length (timer_mem t') \<and> fired t' = fired t \<and>
     (\<forall>a < length (timer_mem t). node_frame (timer_mem t ! a) (timer_mem t' ! a)) \<and>
     (\<forall>a. length (timer_mem t) \<le> a \<longrightarrow> a < length (timer_mem t') \<longrightarrow>
        (\<exists>now. P now (sint (interval (timer_mem t' ! a))) \<and>
               expire_time (timer_mem t' ! a) = now + sint (interval (timer_mem t' ! a)))) \<and>
     (\<exists>new. mset (heap_tree t') = mset (heap_tree t) + new \<and> (\<forall>a \<in># new. length (timer_mem t) \<le> a))"

text \<open>The operations a client of the timer, and so a handler, can call.\<close>

inductive timer_client :: "(int \<Rightarrow> int \<Rightarrow> bool) \<Rightarrow> 'h heap_timer \<Rightarrow> 'h heap_timer \<Rightarrow> bool"
  for P :: "int \<Rightarrow> int \<Rightarrow> bool" and t :: "'h heap_timer" where
  client_refl: "timer_client P t t"
| client_start: "timer_client P t t1 \<Longrightarrow> P now (sint i) \<Longrightarrow> start_timer_at now h i l t1 = (k, t2) \<Longrightarrow>
    timer_client P t t2"
| client_stop: "timer_client P t t1 \<Longrightarrow> stop_timer k t1 = (b, t2) \<Longrightarrow> timer_client P t t2"
| client_restart: "timer_client P t t1 \<Longrightarrow>
    (\<And>a. timer_nodes t1 k = Some a \<Longrightarrow> P now (sint (if 0 < i then i else interval (timer_mem t1 ! a)))) \<Longrightarrow>
    restart_timer_at now k i t1 = (b, t2) \<Longrightarrow> timer_client P t t2"

definition handlers_ok :: "(int \<Rightarrow> int \<Rightarrow> bool) \<Rightarrow> ('h, 'w) timer_env \<Rightarrow> bool" where
  "handlers_ok P env \<longleftrightarrow> (\<forall>h w t rst w' t'. call_handler env h w t = (rst, w', t') \<longrightarrow> timer_client P t t')"

text \<open>A new node at the end of the store.\<close>

lemma timer_inv_alloc:
  assumes inv: "timer_inv t" and n: "\<not> stopped n"
    and t': "timer_mem t' = timer_mem t @ [n]" "heap_tree t' = heap_tree (heap_tree_insert (length (timer_mem t))
       (t\<lparr>timer_mem := timer_mem t @ [n]\<rparr>))"
      "timer_nodes t' = (timer_nodes t)(ucast (timer_id n) \<mapsto> length (timer_mem t))"
  shows "timer_inv t'" and "mset (heap_tree t') = add_mset (length (timer_mem t)) (mset (heap_tree t))"
proof -
  let ?a = "length (timer_mem t)" and ?t = "t\<lparr>timer_mem := timer_mem t @ [n]\<rparr>"
  have "is_heap (CompareTimerNode (timer_mem ?t)) (heap_tree ?t)"
    using timer_invD(3) [OF inv]
    by (auto intro!: is_heap_cong [OF timer_invD(1) [OF inv]] simp: CompareTimerNode_def nth_append)
  from heap_tree_insert_heap [OF this, of ?a]
  have h: "is_heap (CompareTimerNode (timer_mem t')) (heap_tree t')"
    and m: "mset (heap_tree t') = add_mset ?a (mset (heap_tree t))"
    by (simp_all add: t')
  show "mset (heap_tree t') = add_mset ?a (mset (heap_tree t))" by (rule m)
  have nin: "?a \<notin> set (heap_tree t)" using timer_invD(3) [OF inv] by blast
  have s: "set (heap_tree t') = insert ?a (set (heap_tree t))" using m by (metis set_mset_mset set_mset_add_mset_insert)
  have "distinct (heap_tree t')"
    using m nin timer_invD(2) [OF inv] by (metis distinct.simps(2) mset.simps(2) mset_eq_imp_distinct_iff)
  with h s timer_invD [OF inv] n show "timer_inv t'"
    unfolding timer_inv_def t'(1,3) by (auto simp: nth_append less_Suc_eq split: if_splits)
qed

lemma timer_inv_stop:
  assumes inv: "timer_inv t" and a: "a < length (timer_mem t)"
    and m: "m = (timer_nodes t)(ucast (timer_id (timer_mem t ! a)) := None)"
  shows "timer_inv ((set_stopped a t)\<lparr>timer_nodes := m\<rparr>)"
proof -
  have "is_heap (CompareTimerNode (timer_mem (set_stopped a t))) (heap_tree t)"
    using timer_invD(3) [OF inv]
    by (intro is_heap_cong [OF timer_invD(1) [OF inv]]) (simp add: CompareTimerNode_def set_stopped_nth)
  with timer_invD [OF inv] a show ?thesis
    unfolding timer_inv_def m by (auto simp: set_stopped_nth)
qed

lemma timer_frame_refl: "timer_frame P t t"
  by (auto simp: timer_frame_def node_frame_def)

lemma timer_frameD:
  assumes "timer_frame P t t'"
  shows "length (timer_mem t) \<le> length (timer_mem t')" "fired t' = fired t"
    "a < length (timer_mem t) \<Longrightarrow> node_frame (timer_mem t ! a) (timer_mem t' ! a)"
    "length (timer_mem t) \<le> a \<Longrightarrow> a < length (timer_mem t') \<Longrightarrow>
       \<exists>now. P now (sint (interval (timer_mem t' ! a))) \<and>
         expire_time (timer_mem t' ! a) = now + sint (interval (timer_mem t' ! a))"
    "\<exists>new. mset (heap_tree t') = mset (heap_tree t) + new \<and> (\<forall>a \<in># new. length (timer_mem t) \<le> a)"
  using assms unfolding timer_frame_def by blast+

lemma timer_frameI:
  assumes "length (timer_mem t) \<le> length (timer_mem t')" "fired t' = fired t"
    "\<And>a. a < length (timer_mem t) \<Longrightarrow> node_frame (timer_mem t ! a) (timer_mem t' ! a)"
    "\<And>a. length (timer_mem t) \<le> a \<Longrightarrow> a < length (timer_mem t') \<Longrightarrow>
       \<exists>now. P now (sint (interval (timer_mem t' ! a))) \<and>
         expire_time (timer_mem t' ! a) = now + sint (interval (timer_mem t' ! a))"
    "mset (heap_tree t') = mset (heap_tree t) + new" "\<And>a. a \<in># new \<Longrightarrow> length (timer_mem t) \<le> a"
  shows "timer_frame P t t'"
  using assms unfolding timer_frame_def by blast

lemma timer_frame_trans:
  assumes 1: "timer_frame P t t1" and 2: "timer_frame P t1 t2"
  shows "timer_frame P t t2"
proof -
  note d = timer_frameD [OF 1] and e = timer_frameD [OF 2]
  have nf: "node_frame n n1 \<Longrightarrow> node_frame n1 n2 \<Longrightarrow> node_frame n n2" for n n1 n2 :: "'a timer_node"
    unfolding node_frame_def by fastforce
  obtain x where x: "mset (heap_tree t1) = mset (heap_tree t) + x" "\<forall>a \<in># x. length (timer_mem t) \<le> a"
    using d(5) by blast
  obtain y where y: "mset (heap_tree t2) = mset (heap_tree t1) + y" "\<forall>a \<in># y. length (timer_mem t1) \<le> a"
    using e(5) by blast
  show ?thesis
  proof (rule timer_frameI [where new = "x + y"])
    show "length (timer_mem t) \<le> length (timer_mem t2)" using d(1) e(1) by linarith
    show "fired t2 = fired t" using d(2) e(2) by simp
    show "mset (heap_tree t2) = mset (heap_tree t) + (x + y)" using x y by (simp add: ac_simps)
    show "length (timer_mem t) \<le> a" if "a \<in># x + y" for a
      using that x(2) y(2) d(1) by (auto dest: bspec)
    show "node_frame (timer_mem t ! a) (timer_mem t2 ! a)" if a: "a < length (timer_mem t)" for a
      using nf [OF d(3) [OF a] e(3)] a d(1) by linarith
    fix a assume a: "length (timer_mem t) \<le> a" "a < length (timer_mem t2)"
    show "\<exists>now. P now (sint (interval (timer_mem t2 ! a))) \<and>
        expire_time (timer_mem t2 ! a) = now + sint (interval (timer_mem t2 ! a))"
    proof (cases "a < length (timer_mem t1)")
      case True
      from node_frame_fields [OF e(3) [OF True]] d(4) [OF a(1) True] show ?thesis by simp
    next
      case False
      with e(4) [of a] a(2) show ?thesis by simp
    qed
  qed
qed

lemma timer_frame_alloc:
  assumes "timer_mem t' = timer_mem t @ [n]" "fired t' = fired t"
    and m: "mset (heap_tree t') = add_mset (length (timer_mem t)) (mset (heap_tree t))"
    and n: "P now (sint (interval n))" "expire_time n = now + sint (interval n)"
  shows "timer_frame P t t'"
proof -
  have "mset (heap_tree t') = mset (heap_tree t) + {# length (timer_mem t) #}" using m by simp
  moreover have "\<forall>a \<in># {# length (timer_mem t) #}. length (timer_mem t) \<le> a" by simp
  ultimately have new: "\<exists>new. mset (heap_tree t') = mset (heap_tree t) + new \<and>
      (\<forall>a \<in># new. length (timer_mem t) \<le> a)" by blast
  have "timer_mem t' ! a = n" if "length (timer_mem t) \<le> a" "a < length (timer_mem t')" for a
    using that assms(1) by (simp add: nth_append)
  with n have "\<forall>a. length (timer_mem t) \<le> a \<longrightarrow> a < length (timer_mem t') \<longrightarrow>
      (\<exists>now. P now (sint (interval (timer_mem t' ! a))) \<and>
         expire_time (timer_mem t' ! a) = now + sint (interval (timer_mem t' ! a)))" by metis
  with new assms(1,2) show ?thesis
    unfolding timer_frame_def by (simp add: nth_append node_frame_def)
qed

lemma start_timer_at_ok:
  assumes inv: "timer_inv t" and s: "start_timer_at now h i l t = (k, t')"
  shows "timer_inv t'" and "P now (sint i) \<Longrightarrow> timer_frame P t t'"
    and "k = ucast (timer_index t)" and "timer_nodes t' = (timer_nodes t)(k \<mapsto> length (timer_mem t))"
    and "timer_mem t' = timer_mem t @ [(TimerNode now i h l)\<lparr>timer_id := timer_index t\<rparr>]"
    and "mset (heap_tree t') = add_mset (length (timer_mem t)) (mset (heap_tree t))" and "fired t' = fired t"
proof -
  let ?n = "(TimerNode now i h l)\<lparr>timer_id := timer_index t\<rparr>"
  have mem: "timer_mem t' = timer_mem t @ [?n]" and fired: "fired t' = fired t"
    and k: "k = ucast (timer_index t)" and nodes: "timer_nodes t' = (timer_nodes t)(k \<mapsto> length (timer_mem t))"
    using s by (auto simp: start_timer_at_def add_timer_def Let_def)
  show "timer_mem t' = timer_mem t @ [?n]" "fired t' = fired t" "k = ucast (timer_index t)"
    "timer_nodes t' = (timer_nodes t)(k \<mapsto> length (timer_mem t))"
    using mem fired k nodes by simp_all
  have heap: "heap_tree t' = heap_tree (heap_tree_insert (length (timer_mem t)) (t\<lparr>timer_mem := timer_mem t @ [?n]\<rparr>))"
    using s by (auto simp: start_timer_at_def add_timer_def Let_def heap_tree_insert_def)
  have ns: "\<not> stopped ?n" and id: "ucast (timer_id ?n) = k" using k by (simp_all add: TimerNode_def)
  note a = timer_inv_alloc [OF inv ns mem heap, unfolded id, OF nodes]
  show "timer_inv t'" by (rule a(1))
  show m: "mset (heap_tree t') = add_mset (length (timer_mem t)) (mset (heap_tree t))" by (rule a(2))
  show "timer_frame P t t'" if "P now (sint i)"
    by (rule timer_frame_alloc [OF mem fired m, where now = now]) (use that in \<open>simp_all add: TimerNode_def\<close>)
qed

lemma stop_timer_ok:
  assumes inv: "timer_inv t" and s: "stop_timer k t = (b, t')"
  shows "timer_inv t'" and "timer_frame P t t'"
proof -
  show "timer_inv t'"
  proof (cases "timer_nodes t k")
    case (Some a)
    with timer_inv_stop [OF inv timer_invD(4) [OF inv Some]] timer_invD(6) [OF inv Some] s show ?thesis
      by (auto simp: stop_timer_def)
  qed (use s inv in \<open>simp add: stop_timer_def\<close>)
  show "timer_frame P t t'"
    using s by (auto simp: stop_timer_def timer_frame_def node_frame_def set_stopped_nth split: option.splits)
qed

text \<open>A restart is a stop followed by the creation of a node with id 0.\<close>

lemma restart_timer_at_ok:
  assumes inv: "timer_inv t" and s: "restart_timer_at now k i t = (b, t')"
  shows "timer_inv t'"
    and "(\<And>a. timer_nodes t k = Some a \<Longrightarrow> P now (sint (if 0 < i then i else interval (timer_mem t ! a)))) \<Longrightarrow>
      timer_frame P t t'"
    and "timer_nodes t k \<noteq> None \<Longrightarrow> length (timer_mem t) \<in> set (heap_tree t')"
proof -
  have "timer_inv t' \<and> (timer_nodes t k \<noteq> None \<longrightarrow> length (timer_mem t) \<in> set (heap_tree t')) \<and> ((\<forall>a. timer_nodes t k = Some a \<longrightarrow>
      P now (sint (if 0 < i then i else interval (timer_mem t ! a)))) \<longrightarrow> timer_frame P t t')"
  proof (cases "timer_nodes t k")
    case None
    with s inv show ?thesis by (simp add: restart_timer_at_def timer_frame_refl)
  next
    case (Some a)
    obtain t1 where t1: "stop_timer k t = (True, t1)" using Some by (simp add: stop_timer_def)
    let ?old = "timer_mem t ! a"
    let ?n = "TimerNode now (if 0 < i then i else interval ?old) (handler ?old) (loop ?old)"
    have l: "length (timer_mem t1) = length (timer_mem t)" using t1 Some by (auto simp: stop_timer_def)
    have mem: "timer_mem t' = timer_mem t1 @ [?n]" and fired: "fired t' = fired t1"
      and nodes: "timer_nodes t' = (timer_nodes t1)(ucast (timer_id ?n) \<mapsto> length (timer_mem t1))"
      and heap: "heap_tree t' = heap_tree (heap_tree_insert (length (timer_mem t1)) (t1\<lparr>timer_mem := timer_mem t1 @ [?n]\<rparr>))"
      using s t1 Some
      by (auto simp: restart_timer_at_def stop_timer_def Let_def TimerNode_def heap_tree_insert_def)
    have ns: "\<not> stopped ?n" by (simp add: TimerNode_def)
    note al = timer_inv_alloc [OF stop_timer_ok(1) [OF inv t1] ns mem heap nodes]
    have "timer_frame P t1 t'" if "P now (sint (interval ?n))"
      by (rule timer_frame_alloc [OF mem fired al(2), where now = now]) (use that in \<open>simp_all add: TimerNode_def\<close>)
    then have "timer_frame P t t'" if "P now (sint (if 0 < i then i else interval ?old))"
      using that timer_frame_trans [OF stop_timer_ok(2) [OF inv t1]] by (simp add: TimerNode_def)
    moreover have "length (timer_mem t) \<in> set (heap_tree t')"
      using al(2) l by (metis set_mset_mset union_single_eq_member)
    ultimately show ?thesis using al(1) Some by blast
  qed
  then show "timer_inv t'"
    and "(\<And>a. timer_nodes t k = Some a \<Longrightarrow> P now (sint (if 0 < i then i else interval (timer_mem t ! a)))) \<Longrightarrow>
      timer_frame P t t'"
    and "timer_nodes t k \<noteq> None \<Longrightarrow> length (timer_mem t) \<in> set (heap_tree t')" by blast+
qed

lemma timer_client_ok:
  assumes "timer_client P t t'" and "timer_inv t"
  shows "timer_inv t' \<and> timer_frame P t t'"
  using assms
proof (induction rule: timer_client.induct)
  case client_refl
  then show ?case by (simp add: timer_frame_refl)
next
  case (client_start t1 now i h l k t2)
  then have t1: "timer_inv t1" "timer_frame P t t1" by auto
  note ok = start_timer_at_ok(1,2) [OF t1(1) client_start.hyps(3)]
  from ok(1) timer_frame_trans [OF t1(2) ok(2) [of P]] client_start.hyps(2) show ?case by blast
next
  case (client_stop t1 k b t2)
  then have t1: "timer_inv t1" "timer_frame P t t1" by auto
  note ok = stop_timer_ok [OF t1(1) client_stop.hyps(2)]
  from ok(1) timer_frame_trans [OF t1(2) ok(2)] show ?case by blast
next
  case (client_restart t1 k now i b t2)
  then have t1: "timer_inv t1" "timer_frame P t t1" by auto
  note ok = restart_timer_at_ok [OF t1(1) client_restart.hyps(3)]
  from ok(1) timer_frame_trans [OF t1(2) ok(2) [of P]] client_restart.hyps(2) show ?case by blast
qed

section \<open>The loop\<close>

lemma timer_inv_fired [simp]: "timer_inv (t\<lparr>fired := f\<rparr>) = timer_inv t"
  by (simp add: timer_inv_def)

lemma pop_top_fields [simp]:
  "timer_mem (pop_top t) = timer_mem t" "timer_nodes (pop_top t) = timer_nodes t" "fired (pop_top t) = fired t"
  by (simp_all add: pop_top_def)

lemma heap_top_min:
  assumes "timer_inv t" and "heap_top (heap_tree t) = Some node"
  shows "node \<in> set (heap_tree t)"
    and "a \<in> set (heap_tree t) \<Longrightarrow> expire_time (timer_mem t ! node) \<le> expire_time (timer_mem t ! a)"
  using mh.top_Some [OF _ assms(2), of "CompareTimerNode (timer_mem t)"] timer_invD(1) [OF assms(1)]
  by (auto simp: CompareTimerNode_def)

lemma pop_top_ok:
  assumes inv: "timer_inv t" and top: "heap_top (heap_tree t) = Some node"
  shows "timer_inv (pop_top t)" and "mset (heap_tree t) = add_mset node (mset (heap_tree (pop_top t)))"
    and "node \<notin> set (heap_tree (pop_top t))"
proof -
  let ?c = "CompareTimerNode (timer_mem t)"
  have h: "weak_order ?c \<and> is_heap ?c (heap_tree t)" using timer_invD(1) [OF inv] by simp
  have "mset (heap_tree (pop_top t)) = mset (heap_tree t) - {# node #}"
    using mh.del_elems [OF h top] by (simp add: pop_top_def)
  with heap_top_min(1) [OF inv top] show m: "mset (heap_tree t) = add_mset node (mset (heap_tree (pop_top t)))"
    by simp
  then have d: "distinct (node # heap_tree (pop_top t))"
    using timer_invD(2) [OF inv] mset_eq_imp_distinct_iff [of "heap_tree t" "node # heap_tree (pop_top t)"] by simp
  then show "node \<notin> set (heap_tree (pop_top t))" by simp
  have "set (heap_tree (pop_top t)) \<subseteq> set (heap_tree t)" using m by (metis set_mset_mset set_mset_add_mset_insert subset_insertI)
  moreover have "is_heap ?c (heap_tree (pop_top t))" using mh.del_invar [OF h] by (simp add: pop_top_def)
  ultimately show "timer_inv (pop_top t)" using inv d unfolding timer_inv_def by auto
qed

lemma rearm_ok:
  assumes inv: "timer_inv t" and node: "node < length (timer_mem t)" "node \<notin> set (heap_tree t)"
  shows "timer_inv (rearm now node t)"
    and "mset (heap_tree (rearm now node t)) = add_mset node (mset (heap_tree t))"
    and "timer_mem (rearm now node t) =
      (timer_mem t)[node := (timer_mem t ! node)\<lparr>expire_time := now + sint (interval (timer_mem t ! node))\<rparr>]"
    and "fired (rearm now node t) = fired t" "timer_nodes (rearm now node t) = timer_nodes t"
proof -
  let ?n = "(timer_mem t ! node)\<lparr>expire_time := now + sint (interval (timer_mem t ! node))\<rparr>"
  let ?t = "t\<lparr>timer_mem := (timer_mem t)[node := ?n]\<rparr>"
  have r: "rearm now node t = heap_tree_insert node ?t" by (simp add: rearm_def Let_def)
  show mem: "timer_mem (rearm now node t) = (timer_mem t)[node := ?n]"
    and "fired (rearm now node t) = fired t" and nodes: "timer_nodes (rearm now node t) = timer_nodes t"
    by (simp_all add: r)
  have "is_heap (CompareTimerNode ((timer_mem t)[node := ?n])) (heap_tree t)"
  proof (rule is_heap_cong [OF timer_invD(1) [OF inv]])
    fix a b assume "a \<in> set (heap_tree t)" "b \<in> set (heap_tree t)"
    with node(2) have "a \<noteq> node" "b \<noteq> node" by auto
    then show "CompareTimerNode ((timer_mem t)[node := ?n]) a b = CompareTimerNode (timer_mem t) a b"
      by (simp add: CompareTimerNode_def)
  qed
  then have "is_heap (CompareTimerNode (timer_mem ?t)) (heap_tree ?t)" by simp
  note h = heap_tree_insert_heap [OF this, of node, folded r]
  show m: "mset (heap_tree (rearm now node t)) = add_mset node (mset (heap_tree t))" using h(2) by simp
  have s: "set (heap_tree (rearm now node t)) = insert node (set (heap_tree t))"
    using m by (metis set_mset_mset set_mset_add_mset_insert)
  have "distinct (heap_tree (rearm now node t))"
    using m node(2) timer_invD(2) [OF inv] by (metis distinct.simps(2) mset.simps(2) mset_eq_imp_distinct_iff)
  moreover have "is_heap (CompareTimerNode (timer_mem (rearm now node t))) (heap_tree (rearm now node t))"
    using h(1) by (simp add: mem)
  ultimately show "timer_inv (rearm now node t)"
    using timer_invD(3-6) [OF inv] node(1) s unfolding timer_inv_def mem nodes
    by (auto simp: nth_list_update)
qed

text \<open>What one pass of the loop does: either the node was stopped and is dropped, or its handler is called.\<close>

lemma timer_pass_cases:
  assumes inv: "timer_inv t" and hs: "handlers_ok P env" and top: "heap_top (heap_tree t) = Some node"
    and p: "timer_pass env node w t = (w', t')"
  obtains (dropped) "stopped (timer_mem t ! node)" "t' = pop_top t" "w' = w"
  | (called) rst w1 t1 where "\<not> stopped (timer_mem t ! node)"
      "call_handler env (handler (timer_mem t ! node)) w ((pop_top t)\<lparr>fired := node # fired t\<rparr>) = (rst, w1, t1)"
      "timer_inv t1" "timer_frame P ((pop_top t)\<lparr>fired := node # fired t\<rparr>) t1"
      "node < length (timer_mem t1)" "node \<notin> set (heap_tree t1)"
      "(w', t') = (if rst \<and> loop (timer_mem t1 ! node) \<and> \<not> stopped (timer_mem t1 ! node)
          then (snd (get_now env w1), rearm (fst (get_now env w1)) node t1)
          else if rst then (w1, t1)
          else (w1, (set_stopped node t1)\<lparr>timer_nodes := (timer_nodes t1)(ucast (timer_id (timer_mem t1 ! node)) := None)\<rparr>))"
proof (cases "stopped (timer_mem t ! node)")
  case True
  with p show ?thesis by (intro dropped) (simp_all add: timer_pass_def Let_def)
next
  case False
  let ?t0 = "(pop_top t)\<lparr>fired := node # fired t\<rparr>"
  obtain rst w1 t1 where c: "call_handler env (handler (timer_mem t ! node)) w ?t0 = (rst, w1, t1)"
    using prod_cases3 by blast
  have "timer_inv ?t0" using pop_top_ok(1) [OF inv top] by simp
  moreover have "timer_client P ?t0 t1" using hs c unfolding handlers_ok_def by blast
  ultimately have t1: "timer_inv t1" "timer_frame P ?t0 t1" using timer_client_ok by blast+
  note d = timer_frameD [OF t1(2)]
  have n: "node < length (timer_mem t)" using timer_invD(3) [OF inv heap_top_min(1) [OF inv top]] .
  then have n1: "node < length (timer_mem t1)" using d(1) by simp
  have nin: "node \<notin> set (heap_tree t1)"
  proof -
    obtain new where new: "mset (heap_tree t1) = mset (heap_tree ?t0) + new" "\<forall>a \<in># new. length (timer_mem ?t0) \<le> a"
      using d(5) by blast
    then have "node \<notin># new" using n by auto
    with new(1) pop_top_ok(3) [OF inv top] show ?thesis
      by (metis heap_timer.select_convs(2) heap_timer.surjective heap_timer.update_convs(5) in_multiset_in_set union_iff)
  qed
  show ?thesis
    by (rule called [OF False c t1 n1 nin])
      (use p False c in \<open>auto simp: timer_pass_def handle_timeout_def Let_def split: prod.splits if_splits\<close>)
qed

text \<open>
  What a stretch of the loop does in which the clock never goes beyond \<open>T\<close> and which calls the
  handlers of the nodes \<open>fs\<close>: stopped nodes stay stopped and are not called, a node that expires
  after \<open>T\<close> is left alone, and a node leaves the heap only by being called or stopped.
\<close>

definition run_trace :: "int \<Rightarrow> 'h heap_timer \<Rightarrow> nat list \<Rightarrow> 'h heap_timer \<Rightarrow> bool" where
  "run_trace T t fs t' \<longleftrightarrow>
     timer_inv t' \<and> length (timer_mem t) \<le> length (timer_mem t') \<and> fired t' = fs @ fired t \<and>
     (\<forall>a < length (timer_mem t). stopped (timer_mem t ! a) \<longrightarrow> stopped (timer_mem t' ! a) \<and> a \<notin> set fs) \<and>
     (\<forall>a \<in> set (heap_tree t). T < expire_time (timer_mem t ! a) \<longrightarrow> a \<notin> set fs \<and> a \<in> set (heap_tree t') \<and>
        expire_time (timer_mem t' ! a) = expire_time (timer_mem t ! a)) \<and>
     (\<forall>a \<in> set (heap_tree t). a \<in> set fs \<or> stopped (timer_mem t' ! a) \<or>
        a \<in> set (heap_tree t') \<and> expire_time (timer_mem t' ! a) = expire_time (timer_mem t ! a))"

lemma run_traceD:
  assumes "run_trace T t fs t'"
  shows "timer_inv t'" "length (timer_mem t) \<le> length (timer_mem t')" "fired t' = fs @ fired t"
    "a < length (timer_mem t) \<Longrightarrow> stopped (timer_mem t ! a) \<Longrightarrow> stopped (timer_mem t' ! a)"
    "a < length (timer_mem t) \<Longrightarrow> stopped (timer_mem t ! a) \<Longrightarrow> a \<notin> set fs"
    "a \<in> set (heap_tree t) \<Longrightarrow> T < expire_time (timer_mem t ! a) \<Longrightarrow> a \<notin> set fs \<and> a \<in> set (heap_tree t') \<and>
       expire_time (timer_mem t' ! a) = expire_time (timer_mem t ! a)"
    "a \<in> set (heap_tree t) \<Longrightarrow> a \<in> set fs \<or> stopped (timer_mem t' ! a) \<or>
        a \<in> set (heap_tree t') \<and> expire_time (timer_mem t' ! a) = expire_time (timer_mem t ! a)"
  using assms unfolding run_trace_def by blast+

lemma run_trace_refl: "timer_inv t \<Longrightarrow> run_trace T t [] t"
  by (simp add: run_trace_def)

lemma run_trace_trans:
  assumes 1: "run_trace T t fs t1" and 2: "run_trace T t1 gs t2" and inv: "timer_inv t"
  shows "run_trace T t (gs @ fs) t2"
proof -
  note d = run_traceD [OF 1] and e = run_traceD [OF 2]
  have l: "a < length (timer_mem t) \<Longrightarrow> a < length (timer_mem t1)" for a using d(2) by simp
  have s: "a < length (timer_mem t) \<Longrightarrow> stopped (timer_mem t ! a) \<Longrightarrow> stopped (timer_mem t2 ! a) \<and> a \<notin> set (gs @ fs)" for a
    using d(4,5) e(4,5) l by auto
  have far: "a \<notin> set (gs @ fs) \<and> a \<in> set (heap_tree t2) \<and>
      expire_time (timer_mem t2 ! a) = expire_time (timer_mem t ! a)"
    if a: "a \<in> set (heap_tree t)" "T < expire_time (timer_mem t ! a)" for a
    using d(6) [OF a] e(6) [of a] a(2) by simp
  have kept: "a \<in> set (gs @ fs) \<or> stopped (timer_mem t2 ! a) \<or>
      a \<in> set (heap_tree t2) \<and> expire_time (timer_mem t2 ! a) = expire_time (timer_mem t ! a)"
    if a: "a \<in> set (heap_tree t)" for a
    using d(7) [OF a] e(7) [of a] e(4) [OF l [OF timer_invD(3) [OF inv a]]] by auto
  show ?thesis
    unfolding run_trace_def using e(1) d(2,3) e(2,3) s far kept by auto
qed

lemma run_trace_mono: "run_trace T t fs t' \<Longrightarrow> T \<le> T' \<Longrightarrow> run_trace T' t fs t'"
  unfolding run_trace_def by fastforce

lemma timer_pass_trace:
  assumes inv: "timer_inv t" and hs: "handlers_ok P env" and top: "heap_top (heap_tree t) = Some node"
    and p: "timer_pass env node w t = (w', t')" and due: "expire_time (timer_mem t ! node) \<le> T"
  shows "\<exists>fs. run_trace T t fs t'"
  using inv hs top p
proof (cases rule: timer_pass_cases)
  case dropped
  have "set (heap_tree t) = insert node (set (heap_tree (pop_top t)))"
    using pop_top_ok(2) [OF inv top] by (metis set_mset_mset set_mset_add_mset_insert)
  with pop_top_ok(1) [OF inv top] dropped due have "run_trace T t [] t'"
    unfolding run_trace_def by auto
  then show ?thesis by blast
next
  case (called rst w1 t1)
  let ?t0 = "(pop_top t)\<lparr>fired := node # fired t\<rparr>"
  note d = timer_frameD [OF called(4)]
  have h: "set (heap_tree t) = insert node (set (heap_tree (pop_top t)))"
    using pop_top_ok(2) [OF inv top] by (metis set_mset_mset set_mset_add_mset_insert)
  have h1: "a \<in> set (heap_tree t1)" if "a \<in> set (heap_tree (pop_top t))" for a
  proof -
    from d(5) obtain new where "mset (heap_tree t1) = mset (heap_tree ?t0) + new" by blast
    with that show ?thesis by (metis heap_timer.select_convs(2) heap_timer.surjective heap_timer.update_convs(5)
        in_multiset_in_set union_iff)
  qed
  have nf: "a < length (timer_mem t) \<Longrightarrow> node_frame (timer_mem t ! a) (timer_mem t1 ! a)" for a
    using d(3) [of a] by simp
  note st = node_frame_fields [OF nf]
  have t1: "timer_inv t1" "length (timer_mem t) \<le> length (timer_mem t1)" "fired t1 = node # fired t"
    using called(3) d(1,2) by simp_all
  have lt: "a \<in> set (heap_tree t) \<Longrightarrow> a < length (timer_mem t)" for a using timer_invD(3) [OF inv] .
  have keep: "run_trace T t [node] t1"
    unfolding run_trace_def using t1 st h h1 lt called(1) due by (auto split: if_splits)
  show ?thesis
  proof (cases "rst \<and> loop (timer_mem t1 ! node) \<and> \<not> stopped (timer_mem t1 ! node)")
    case True
    note r = rearm_ok [OF called(3,5,6), of "fst (get_now env w1)"]
    have "set (heap_tree t') = insert node (set (heap_tree t1))"
      using r(2) called(7) True by (metis Pair_inject set_mset_mset set_mset_add_mset_insert)
    with keep r(1,3,4) called(7) True due have "run_trace T t [node] t'"
      unfolding run_trace_def by (auto simp: nth_list_update)
    then show ?thesis by blast
  next
    case False
    show ?thesis
    proof (cases rst)
      case True
      with False keep called(7) show ?thesis by auto
    next
      case F: False
      let ?t = "(set_stopped node t1)\<lparr>timer_nodes := (timer_nodes t1)(ucast (timer_id (timer_mem t1 ! node)) := None)\<rparr>"
      have "timer_inv ?t" by (rule timer_inv_stop [OF called(3,5)]) simp
      moreover have "t' = ?t" using called(7) F by simp
      ultimately have "run_trace T t [node] t'"
        using keep called(5) timer_invD(3) [OF called(3)] unfolding run_trace_def by (auto simp: set_stopped_nth)
      then show ?thesis by blast
    qed
  qed
qed


lemma timer_while_trace:
  fixes env :: "('h, 'w) timer_env"
  assumes "timer_while env cur w t = Some (cur', w', t')" and "timer_inv t" and "handlers_ok P env"
  shows "timer_inv t' \<and> (cur' = cur \<or> (\<exists>w. cur' = fst (get_now env w))) \<and>
    (\<forall>a \<in> set (heap_tree t'). cur' < expire_time (timer_mem t' ! a)) \<and>
    (\<forall>T. cur \<le> T \<longrightarrow> (\<forall>w. fst (get_now env w) \<le> T) \<longrightarrow> (\<exists>fs. run_trace T t fs t')) \<and> (\<exists>T fs. run_trace T t fs t')"
proof -
  let ?Q = "\<lambda>env cur w t (cur', w', t'). timer_inv t \<longrightarrow> handlers_ok P env \<longrightarrow>
    timer_inv t' \<and> (cur' = cur \<or> (\<exists>w. cur' = fst (get_now env w))) \<and>
    (\<forall>a \<in> set (heap_tree t'). cur' < expire_time (timer_mem t' ! a)) \<and>
    (\<forall>T. cur \<le> T \<longrightarrow> (\<forall>w. fst (get_now env w) \<le> T) \<longrightarrow> (\<exists>fs. run_trace T t fs t')) \<and> (\<exists>T fs. run_trace T t fs t')"
  have "?Q env cur w t (cur', w', t')"
  proof (rule timer_while.raw_induct [where P = ?Q, OF _ assms(1)])
    fix f and env :: "('h, 'w) timer_env" and cur w t and r :: "int \<times> 'w \<times> 'h heap_timer"
    assume IH: "\<And>env cur w t r. f env cur w t = Some r \<Longrightarrow> ?Q env cur w t r"
      and eq: "(case heap_top (heap_tree t) of None \<Rightarrow> Some (cur, w, t)
        | Some node \<Rightarrow> if expire_time (timer_mem t ! node) \<le> cur
            then let (w, t) = timer_pass env node w t; (cur, w) = get_now env w in f env cur w t
            else Some (cur, w, t)) = Some r"
    obtain cur' w' t' where r: "r = (cur', w', t')" by (rule prod_cases3)
    show "?Q env cur w t r"
      unfolding r prod.case
    proof (intro impI)
      assume inv: "timer_inv t" and hs: "handlers_ok P env"
      show "timer_inv t' \<and> (cur' = cur \<or> (\<exists>w. cur' = fst (get_now env w))) \<and>
        (\<forall>a \<in> set (heap_tree t'). cur' < expire_time (timer_mem t' ! a)) \<and>
        (\<forall>T. cur \<le> T \<longrightarrow> (\<forall>w. fst (get_now env w) \<le> T) \<longrightarrow> (\<exists>fs. run_trace T t fs t')) \<and> (\<exists>T fs. run_trace T t fs t')"
      proof (cases "heap_top (heap_tree t)")
        case None
        then have "heap_tree t = []" by (simp add: heap_top_def split: list.splits)
        with None eq r run_trace_refl [OF inv] inv show ?thesis by auto
      next
        case (Some node)
        show ?thesis
        proof (cases "expire_time (timer_mem t ! node) \<le> cur")
          case False
          then have "\<forall>a \<in> set (heap_tree t). cur < expire_time (timer_mem t ! a)"
            using heap_top_min(2) [OF inv Some] by fastforce
          with False Some eq r run_trace_refl [OF inv] inv show ?thesis by auto
        next
          case True
          obtain w1 t1 where p: "timer_pass env node w t = (w1, t1)" by fastforce
          obtain cur2 w2 where g: "get_now env w1 = (cur2, w2)" by fastforce
          note pass = timer_pass_trace [OF inv hs Some p]
          from pass [OF True] have inv1: "timer_inv t1" using run_traceD(1) by blast
          from eq r Some True p g have "f env cur2 w2 t1 = Some (cur', w', t')" by simp
          from IH [OF this] inv1 hs have e: "timer_inv t'" "cur' = cur2 \<or> (\<exists>w. cur' = fst (get_now env w))"
              "\<forall>a \<in> set (heap_tree t'). cur' < expire_time (timer_mem t' ! a)"
            and tr: "\<And>T. cur2 \<le> T \<Longrightarrow> (\<forall>w. fst (get_now env w) \<le> T) \<Longrightarrow> (\<exists>fs. run_trace T t1 fs t')"
            and ex: "\<exists>T fs. run_trace T t1 fs t'" by auto
          from e(2) g have "\<exists>w. cur' = fst (get_now env w)" by (metis fst_conv)
          moreover have "\<exists>fs. run_trace T t fs t'" if T: "cur \<le> T" "\<forall>w. fst (get_now env w) \<le> T" for T
          proof -
            from pass [of T] True T(1) obtain fs where fs: "run_trace T t fs t1" by auto
            from T(2) g have "cur2 \<le> T" by (metis fst_conv)
            with tr T(2) obtain gs where "run_trace T t1 gs t'" by blast
            from run_trace_trans [OF fs this inv] show ?thesis by blast
          qed
          moreover have "\<exists>T fs. run_trace T t fs t'"
          proof -
            from ex obtain T gs where "run_trace T t1 gs t'" by blast
            then have gs: "run_trace (max cur T) t1 gs t'" by (rule run_trace_mono) simp
            have "expire_time (timer_mem t ! node) \<le> max cur T" using True by simp
            from pass [OF this] obtain fs where "run_trace (max cur T) t fs t1" by blast
            from run_trace_trans [OF this gs inv] show ?thesis by blast
          qed
          ultimately show ?thesis using e by blast
        qed
      qed
    qed
  qed
  with assms(2,3) show ?thesis by simp
qed

text \<open>
  The result of \<open>timer_loop\<close> is read off the loop: the call of \<open>timer_loop\<close> at its end is never
  reached, because the loop ends with a node that is not yet due or with an empty heap.
\<close>

lemma timer_loop_eq:
  assumes "timer_inv t" and "handlers_ok P env" and g: "get_now env w = (cur, w0)"
  shows "timer_loop env w t =
    map_option (\<lambda>(cur, w, t). (case heap_top (heap_tree t) of None \<Rightarrow> 1
      | Some node \<Rightarrow> expire_time (timer_mem t ! node) - cur, w, t)) (timer_while env cur w0 t)"
proof (cases "timer_while env cur w0 t")
  case None
  with g show ?thesis by (subst timer_loop.simps) simp
next
  case (Some r)
  obtain cur' w' t' where r: "r = (cur', w', t')" by (rule prod_cases3)
  from timer_while_trace [OF Some [unfolded r] assms(1,2)]
  have "timer_inv t'" "\<forall>a \<in> set (heap_tree t'). cur' < expire_time (timer_mem t' ! a)" by auto
  moreover from this(1) have "node \<in> set (heap_tree t')" if "heap_top (heap_tree t') = Some node" for node
    using heap_top_min(1) that by blast
  ultimately show ?thesis
    using Some r g by (subst timer_loop.simps) (simp split: option.split)
qed

lemma timer_loop_while:
  assumes "timer_loop env w t = Some (d, w', t')" and "timer_inv t" and "handlers_ok P env"
  obtains cur0 w0 cur where "get_now env w = (cur0, w0)" "timer_while env cur0 w0 t = Some (cur, w', t')"
    "d = (case heap_top (heap_tree t') of None \<Rightarrow> 1 | Some node \<Rightarrow> expire_time (timer_mem t' ! node) - cur)"
proof -
  obtain cur0 w0 where g: "get_now env w = (cur0, w0)" by fastforce
  let ?f = "\<lambda>(cur, w, t). (case heap_top (heap_tree t) of None \<Rightarrow> 1
      | Some node \<Rightarrow> expire_time (timer_mem t ! node) - cur, w, t)"
  from timer_loop_eq [OF assms(2,3) g] assms(1)
  have "map_option ?f (timer_while env cur0 w0 t) = Some (d, w', t')" by simp
  then obtain r where r: "timer_while env cur0 w0 t = Some r" "?f r = (d, w', t')"
    unfolding map_option_eq_Some by blast
  obtain cur w1 t1 where "r = (cur, w1, t1)" by (rule prod_cases3)
  with r that [OF g, of cur] show ?thesis by auto
qed

section \<open>Termination\<close>

text \<open>
  A clock that does not run backwards and does not pass \<open>T\<close> during the call: \<open>clk\<close> is the latest
  time the world has seen.
\<close>

definition clock_until :: "int \<Rightarrow> ('w \<Rightarrow> int) \<Rightarrow> ('h, 'w) timer_env \<Rightarrow> bool" where
  "clock_until T clk env \<longleftrightarrow>
     (\<forall>w n w'. get_now env w = (n, w') \<longrightarrow> clk w \<le> n \<and> n \<le> T \<and> clk w' = n) \<and>
     (\<forall>h w t rst w' t'. call_handler env h w t = (rst, w', t') \<longrightarrow> clk w \<le> clk w')"

lemma clock_untilD:
  assumes "clock_until T clk env"
  shows "get_now env w = (n, w') \<Longrightarrow> clk w \<le> n \<and> n \<le> T \<and> clk w' = n"
    and "call_handler env h w t = (rst, w', t') \<Longrightarrow> clk w \<le> clk w'"
  using assms unfolding clock_until_def by blast+

text \<open>The ticks up to \<open>T\<close> for which the nodes of the heap are still due.\<close>

definition ticks_left :: "int \<Rightarrow> 'h timer_node list \<Rightarrow> nat \<Rightarrow> nat" where
  "ticks_left T mem a = nat (T + 1 - expire_time (mem ! a))"

definition heap_ticks :: "int \<Rightarrow> 'h heap_timer \<Rightarrow> nat" where
  "heap_ticks T t = sum_mset (image_mset (ticks_left T (timer_mem t)) (mset (heap_tree t)))"

definition intervals_positive :: "'h heap_timer \<Rightarrow> bool" where
  "intervals_positive t \<longleftrightarrow> (\<forall>a < length (timer_mem t). 0 < sint (interval (timer_mem t ! a)))"

text \<open>The nodes a client may add: with a positive interval, and due only after \<open>T\<close>.\<close>

abbreviation later :: "int \<Rightarrow> int \<Rightarrow> int \<Rightarrow> bool" where
  "later T \<equiv> (\<lambda>now i. 0 < i \<and> T < now + i)"

lemma heap_ticks_cong:
  assumes "\<And>a. a \<in> set (heap_tree t) \<Longrightarrow> expire_time (mem ! a) = expire_time (timer_mem t ! a)"
  shows "sum_mset (image_mset (ticks_left T mem) (mset (heap_tree t))) = heap_ticks T t"
  unfolding heap_ticks_def using assms by (intro arg_cong [where f = sum_mset] image_mset_cong) (simp add: ticks_left_def)

lemma heap_ticks_frame:
  assumes inv: "timer_inv t" and f: "timer_frame (later T) t t'" and inv': "timer_inv t'"
  shows "heap_ticks T t' = heap_ticks T t"
proof -
  note d = timer_frameD [OF f]
  obtain new where new: "mset (heap_tree t') = mset (heap_tree t) + new" "\<forall>a \<in># new. length (timer_mem t) \<le> a"
    using d(5) by blast
  have "ticks_left T (timer_mem t') a = 0" if "a \<in># new" for a
  proof -
    have "a \<in> set (heap_tree t')" using that new(1) by (metis set_mset_mset union_iff)
    then have "a < length (timer_mem t')" by (rule timer_invD(3) [OF inv'])
    with d(4) [of a] new(2) that show ?thesis by (auto simp: ticks_left_def)
  qed
  then have "image_mset (ticks_left T (timer_mem t')) new = image_mset (\<lambda>_. 0) new" by (rule image_mset_cong)
  then have z: "sum_mset (image_mset (ticks_left T (timer_mem t')) new) = 0" by simp
  have "expire_time (timer_mem t' ! a) = expire_time (timer_mem t ! a)" if "a \<in> set (heap_tree t)" for a
    using node_frame_fields [OF d(3) [OF timer_invD(3) [OF inv that]]] by simp
  from heap_ticks_cong [OF this, of T] z show ?thesis
    by (simp add: heap_ticks_def new(1))
qed

lemma intervals_positive_frame:
  assumes "intervals_positive t" and f: "timer_frame (later T) t t'"
  shows "intervals_positive t'"
  unfolding intervals_positive_def
proof (intro allI impI)
  fix a assume a: "a < length (timer_mem t')"
  show "0 < sint (interval (timer_mem t' ! a))"
  proof (cases "a < length (timer_mem t)")
    case True
    with assms(1) node_frame_fields [OF timer_frameD(3) [OF f True]] show ?thesis
      by (simp add: intervals_positive_def)
  qed (use timer_frameD(4) [OF f] a in auto)
qed

lemma timer_pass_ticks:
  assumes inv: "timer_inv t" and hs: "handlers_ok (later T) env" and top: "heap_top (heap_tree t) = Some node"
    and p: "timer_pass env node w t = (w', t')" and ck: "clock_until T clk env" and ip: "intervals_positive t"
    and due: "expire_time (timer_mem t ! node) \<le> clk w" "clk w \<le> T"
  shows "heap_ticks T t' < heap_ticks T t \<and> intervals_positive t' \<and> clk w \<le> clk w'"
proof -
  have ticks: "heap_ticks T t = ticks_left T (timer_mem t) node + heap_ticks T (pop_top t)"
    using pop_top_ok(2) [OF inv top] by (simp add: heap_ticks_def)
  have pos: "0 < ticks_left T (timer_mem t) node" using due by (simp add: ticks_left_def)
  show ?thesis
    using inv hs top p
  proof (cases rule: timer_pass_cases)
    case dropped
    with ticks pos ip show ?thesis by (simp add: intervals_positive_def)
  next
    case (called rst w1 t1)
    let ?t0 = "(pop_top t)\<lparr>fired := node # fired t\<rparr>"
    have inv0: "timer_inv ?t0" using pop_top_ok(1) [OF inv top] by simp
    have t1: "heap_ticks T t1 = heap_ticks T (pop_top t)"
      using heap_ticks_frame [OF inv0 called(4,3)] by (simp add: heap_ticks_def)
    have ip1: "intervals_positive t1"
      by (rule intervals_positive_frame [OF _ called(4)]) (use ip in \<open>simp add: intervals_positive_def\<close>)
    have n: "node < length (timer_mem t)" using timer_invD(3) [OF inv heap_top_min(1) [OF inv top]] .
    have ck1: "clk w \<le> clk w1" by (rule clock_untilD(2) [OF ck called(2)])
    show ?thesis
    proof (cases "rst \<and> loop (timer_mem t1 ! node) \<and> \<not> stopped (timer_mem t1 ! node)")
      case False
      then have "timer_mem t' = timer_mem t1 \<or> timer_mem t' = timer_mem (set_stopped node t1)"
        and "w' = w1" "heap_tree t' = heap_tree t1" using called(7) by (auto split: if_splits)
      then have e: "length (timer_mem t') = length (timer_mem t1)"
        "a < length (timer_mem t1) \<Longrightarrow> expire_time (timer_mem t' ! a) = expire_time (timer_mem t1 ! a) \<and>
          interval (timer_mem t' ! a) = interval (timer_mem t1 ! a)" for a by (auto simp: set_stopped_nth)
      have "heap_ticks T t' = heap_ticks T t1"
        using heap_ticks_cong [of t1 "timer_mem t'" T] e(2) timer_invD(3) [OF called(3)] \<open>heap_tree t' = heap_tree t1\<close>
        by (simp add: heap_ticks_def)
      with e ip1 t1 ticks pos ck1 \<open>w' = w1\<close> show ?thesis by (simp add: intervals_positive_def)
    next
      case True
      obtain now w2 where g: "get_now env w1 = (now, w2)" by fastforce
      from True called(7) g have t': "t' = rearm now node t1" "w' = w2" by simp_all
      note r = rearm_ok [OF called(3,5,6), of now]
      have iv: "0 < sint (interval (timer_mem t1 ! node))" using ip1 called(5) by (simp add: intervals_positive_def)
      have "expire_time (timer_mem t' ! node) = now + sint (interval (timer_mem t1 ! node))"
        using r(3) called(5) t' by simp
      with iv clock_untilD(1) [OF ck g] ck1 due(1)
      have later: "expire_time (timer_mem t ! node) < expire_time (timer_mem t' ! node)" by linarith
      have "expire_time (timer_mem t' ! a) = expire_time (timer_mem t1 ! a)" if "a \<in> set (heap_tree t1)" for a
        using that called(6) r(3) t' by (metis nth_list_update_neq)
      from heap_ticks_cong [OF this, of T] r(2) t'
      have "heap_ticks T t' = ticks_left T (timer_mem t') node + heap_ticks T t1" by (simp add: heap_ticks_def)
      moreover have "ticks_left T (timer_mem t') node < ticks_left T (timer_mem t) node"
        using later pos by (simp add: ticks_left_def)
      moreover have "intervals_positive t'" using ip1 r(3) t' called(5) by (auto simp: intervals_positive_def nth_list_update)
      ultimately show ?thesis using ticks t1 ck1 clock_untilD(1) [OF ck g] t' by simp
    qed
  qed
qed

lemma timer_while_terminates:
  assumes "timer_inv t" and "handlers_ok (later T) env" and ck: "clock_until T clk env" and "intervals_positive t"
    and "clk w = cur" "cur \<le> T"
  shows "\<exists>r. timer_while env cur w t = Some r"
  using assms
proof (induction "heap_ticks T t" arbitrary: cur w t rule: less_induct)
  case less
  show ?case
  proof (cases "heap_top (heap_tree t)")
    case None
    then show ?thesis by (subst timer_while.simps) simp
  next
    case (Some node)
    show ?thesis
    proof (cases "expire_time (timer_mem t ! node) \<le> cur")
      case False
      with Some show ?thesis by (subst timer_while.simps) simp
    next
      case True
      obtain w1 t1 where p: "timer_pass env node w t = (w1, t1)" by fastforce
      obtain cur2 w2 where g: "get_now env w1 = (cur2, w2)" by fastforce
      have due: "expire_time (timer_mem t ! node) \<le> clk w" "clk w \<le> T" using True less.prems by simp_all
      note ti = timer_pass_ticks [OF less.prems(1,2) Some p ck less.prems(4) due]
      from timer_pass_trace [OF less.prems(1,2) Some p True] have "timer_inv t1" using run_traceD(1) by blast
      with less.hyps [of t1 w2 cur2] ti less.prems(2) ck clock_untilD(1) [OF ck g]
      have "\<exists>r. timer_while env cur2 w2 t1 = Some r" by blast
      with Some True p g show ?thesis by (subst timer_while.simps) simp
    qed
  qed
qed

section \<open>Properties\<close>

text \<open>A concrete environment: the clock stands at \<open>now\<close>, a handler is the value it returns.\<close>

definition still_env :: "int \<Rightarrow> (bool, unit) timer_env" where
  "still_env now = \<lparr>get_now = (\<lambda>w. (now, w)), call_handler = (\<lambda>h w t. (h, w, t))\<rparr>"

lemma still_env_ok: "handlers_ok P (still_env now)" "fst (get_now (still_env now) w) = now"
  "clock_until now (\<lambda>_. now) (still_env now)"
  by (simp_all add: handlers_ok_def still_env_def timer_client.client_refl clock_until_def)

text \<open>A timer of 5 ticks, started at time 0 in an empty timer; its handler asks to stop.\<close>

definition one_timer :: "bool heap_timer" where
  "one_timer = snd (start_timer_at 0 False 5 True HeapTimer)"

lemma HeapTimer_inv: "timer_inv HeapTimer"
  by (simp add: timer_inv_def HeapTimer_def is_heap_def)

lemma one_timer_inv: "timer_inv one_timer"
  unfolding one_timer_def using start_timer_at_ok(1) [OF HeapTimer_inv] by (metis prod.collapse)

lemma one_timer_fields [simp]:
  "timer_mem one_timer = [(TimerNode 0 5 False True)\<lparr>timer_id := 1024\<rparr>]"
  "heap_tree one_timer = [0]" "timer_nodes one_timer = [1024 \<mapsto> 0]" "fired one_timer = []"
  by (simp_all add: one_timer_def start_timer_at_def add_timer_def HeapTimer_def Let_def heap_tree_insert_def
      heap_insert_def base_timer_index_def)

lemma one_timer_loop: "map_option (\<lambda>(d, w, t). d) (timer_loop (still_env now) () one_timer) = Some d \<Longrightarrow>
  \<exists>t'. timer_loop (still_env now) () one_timer = Some (d, (), t')"
  by auto

text \<open>
  (C5) No timer is lost: when \<open>timer_loop\<close> returns, every timer that was due before every reading of
  the clock during the call has had its handler called in this call, unless it was stopped.
  Handlers may start, stop and restart any timers.
\<close>

theorem timer_loop_fires_due:
  assumes "timer_inv t" "handlers_ok (\<lambda>_ _. True) env" "timer_loop env w t = Some (d, w', t')"
    and "a \<in> set (heap_tree t)" "\<And>w. expire_time (timer_mem t ! a) \<le> fst (get_now env w)"
  shows "stopped (timer_mem t' ! a) \<or> (\<exists>fs. fired t' = fs @ fired t \<and> a \<in> set fs)"
proof -
  obtain cur0 w0 cur where g: "get_now env w = (cur0, w0)" and wh: "timer_while env cur0 w0 t = Some (cur, w', t')"
    using timer_loop_while [OF assms(3,1,2)] by metis
  note tr = timer_while_trace [OF wh assms(1,2)]
  then obtain T fs where fs: "run_trace T t fs t'" by blast
  have "expire_time (timer_mem t ! a) \<le> cur" using tr assms(5) g by (metis fst_conv)
  with tr run_traceD(3) [OF fs] run_traceD(7) [OF fs assms(4)] show ?thesis by fastforce
qed

theorem timer_loop_fires_due_witness:
  "\<exists>t'. timer_loop (still_env 10) () one_timer = Some (1, (), t') \<and>
     (stopped (timer_mem t' ! 0) \<or> (\<exists>fs. fired t' = fs @ [] \<and> 0 \<in> set fs))"
proof -
  have "map_option (\<lambda>(d, w, t). d) (timer_loop (still_env 10) () one_timer) = Some 1" by code_simp
  from one_timer_loop [OF this] obtain t' where t': "timer_loop (still_env 10) () one_timer = Some (1, (), t')"
    by blast
  have "0 \<in> set (heap_tree one_timer)" "\<And>w. expire_time (timer_mem one_timer ! 0) \<le> fst (get_now (still_env 10) w)"
    by (simp_all add: still_env_ok TimerNode_def)
  from timer_loop_fires_due [OF one_timer_inv still_env_ok(1) t' this] t' show ?thesis by auto
qed

text \<open>
  (C12) \<open>timer_loop\<close> calls no handler too early and no handler of a stopped timer: if the clock does not
  pass \<open>T\<close> during the call, a timer that expires after \<open>T\<close> is not called and stays armed, and a
  timer that was stopped before the call is not called, whatever the other handlers do.
\<close>

theorem timer_loop_only_due:
  assumes "timer_inv t" "handlers_ok (\<lambda>_ _. True) env" "timer_loop env w t = Some (d, w', t')"
    and "\<And>w. fst (get_now env w) \<le> T"
  shows "\<exists>fs. fired t' = fs @ fired t \<and>
    (\<forall>a \<in> set (heap_tree t). T < expire_time (timer_mem t ! a) \<longrightarrow> a \<notin> set fs \<and> a \<in> set (heap_tree t')) \<and>
    (\<forall>a < length (timer_mem t). stopped (timer_mem t ! a) \<longrightarrow> a \<notin> set fs \<and> stopped (timer_mem t' ! a))"
proof -
  obtain cur0 w0 cur where g: "get_now env w = (cur0, w0)" and wh: "timer_while env cur0 w0 t = Some (cur, w', t')"
    using timer_loop_while [OF assms(3,1,2)] by metis
  have "cur0 \<le> T" using assms(4) [of w] g by simp
  with timer_while_trace [OF wh assms(1,2)] assms(4) obtain fs where fs: "run_trace T t fs t'" by blast
  from run_traceD(3,4,5,6) [OF fs] show ?thesis by blast
qed

theorem timer_loop_only_due_witness:
  "\<exists>t'. timer_loop (still_env 3) () one_timer = Some (2, (), t') \<and> 0 \<in> set (heap_tree t')"
proof -
  have "map_option (\<lambda>(d, w, t). d) (timer_loop (still_env 3) () one_timer) = Some 2" by code_simp
  from one_timer_loop [OF this] obtain t' where t': "timer_loop (still_env 3) () one_timer = Some (2, (), t')"
    by blast
  have "fst (get_now (still_env 3) w) \<le> 3" for w by (simp add: still_env_ok)
  from timer_loop_only_due [OF one_timer_inv still_env_ok(1) t' this] t' show ?thesis by (auto simp: TimerNode_def)
qed



text \<open>
  (C20) \<open>timer_loop\<close> returns when the clock neither runs backwards nor passes some time \<open>T\<close> during the
  call, every timer has a positive interval, and handlers start or restart timers only for a time
  after \<open>T\<close>.
\<close>

theorem timer_loop_terminates:
  assumes "timer_inv t" "handlers_ok (\<lambda>now i. 0 < i \<and> T < now + i) env" "clock_until T clk env"
    and "\<forall>a < length (timer_mem t). 0 < sint (interval (timer_mem t ! a))"
  shows "\<exists>d w' t'. timer_loop env w t = Some (d, w', t')"
proof -
  obtain cur w0 where g: "get_now env w = (cur, w0)" by fastforce
  have c: "clk w0 = cur" "cur \<le> T" using clock_untilD(1) [OF assms(3) g] by simp_all
  have "intervals_positive t" using assms(4) by (simp add: intervals_positive_def)
  from timer_while_terminates [OF assms(1-3) this c] timer_loop_eq [OF assms(1,2) g] show ?thesis by auto
qed

theorem timer_loop_terminates_witness: "\<exists>d w' t'. timer_loop (still_env 7) () one_timer = Some (d, w', t')"
  using timer_loop_terminates [OF one_timer_inv still_env_ok(1) still_env_ok(3), of 7 "()"] by (simp add: TimerNode_def)

text \<open>
  (C34) Every operation keeps the invariant: the heap is in order and holds each node once, and the
  node found under an id has that id and is running.
\<close>

theorem heap_timer_ops_inv:
  "timer_inv HeapTimer \<and>
   (timer_inv t \<longrightarrow>
     timer_inv (snd (snd (start_timer env h i l w t))) \<and> timer_inv (snd (stop_timer k t)) \<and>
     timer_inv (snd (snd (restart_timer env k i w t))))"
proof (intro conjI impI)
  show "timer_inv HeapTimer" by (rule HeapTimer_inv)
  assume inv: "timer_inv t"
  show "timer_inv (snd (snd (start_timer env h i l w t)))"
    using start_timer_at_ok(1) [OF inv] by (auto simp: start_timer_def split: prod.split)
  show "timer_inv (snd (stop_timer k t))" using stop_timer_ok(1) [OF inv] by (metis prod.collapse)
  show "timer_inv (snd (snd (restart_timer env k i w t)))"
    using restart_timer_at_ok(1) [OF inv] inv by (auto simp: restart_timer_def split: prod.split)
qed

theorem heap_timer_ops_inv_witness: "timer_inv (snd (stop_timer 1024 one_timer))"
  using heap_timer_ops_inv [of one_timer "still_env 0" False 0 True "()" 1024] one_timer_inv by blast

text \<open>
  A timer that was started can be stopped by the id that was returned: \<open>stop_timer\<close> finds it, stops it,
  and forgets the id; it is then found by no further \<open>stop_timer\<close> or \<open>restart_timer\<close>.
\<close>

theorem start_stop_timer:
  assumes "timer_inv t" "start_timer env h i l w t = (k, w', t1)"
  shows "\<exists>t2. stop_timer k t1 = (True, t2) \<and> length (timer_mem t) \<in> set (heap_tree t2) \<and>
    stopped (timer_mem t2 ! length (timer_mem t)) \<and>
    stop_timer k t2 = (False, t2) \<and> restart_timer env k i w'' t2 = (False, w'', t2)"
proof -
  obtain now w0 where g: "get_now env w = (now, w0)" by fastforce
  from assms(2) g have s: "start_timer_at now h i l t = (k, t1)" by (auto simp: start_timer_def split: prod.splits)
  note ok = start_timer_at_ok(3-6) [OF assms(1) s]
  have "length (timer_mem t) \<in> set (heap_tree t1)" using ok(4) by (metis set_mset_mset union_single_eq_member)
  with ok show ?thesis by (auto simp: stop_timer_def set_stopped_nth restart_timer_def nth_append)
qed

theorem start_stop_timer_witness:
  "\<exists>t2. stop_timer 1024 one_timer = (True, t2) \<and> stopped (timer_mem t2 ! 0)"
proof -
  have s: "start_timer (still_env 0) False 5 True () HeapTimer = (1024, (), one_timer)"
    by (simp add: start_timer_def still_env_def one_timer_def start_timer_at_def add_timer_def Let_def HeapTimer_def
        base_timer_index_def)
  from start_stop_timer [OF HeapTimer_inv s] show ?thesis by (auto simp: HeapTimer_def)
qed

text \<open>
  \<open>restart_timer\<close> loses the id: the new node keeps the default id 0, so that after a successful restart
  the timer is armed and runs, and \<open>stop_timer\<close> and \<open>restart_timer\<close> with the id its owner has do not
  find it; a further restart of any other timer makes it unreachable altogether.
\<close>

theorem restart_timer_loses_id:
  assumes "timer_inv t" "timer_nodes t k = Some a" "k \<noteq> 0"
  shows "\<exists>t1. restart_timer_at now k i t = (True, t1) \<and>
    timer_nodes t1 0 = Some (length (timer_mem t)) \<and> \<not> stopped (timer_mem t1 ! length (timer_mem t)) \<and>
    length (timer_mem t) \<in> set (heap_tree t1) \<and>
    stop_timer k t1 = (False, t1) \<and> restart_timer_at now' k i' t1 = (False, t1)"
proof -
  obtain t1 where t1: "restart_timer_at now k i t = (True, t1)"
    using assms(2) by (simp add: restart_timer_at_def Let_def)
  have n: "timer_nodes t1 0 = Some (length (timer_mem t))" "timer_nodes t1 k = None"
    using t1 assms(2,3) by (auto simp: restart_timer_at_def Let_def TimerNode_def)
  note inv = restart_timer_at_ok(1) [OF assms(1) t1]
  have "length (timer_mem t) \<in> set (heap_tree t1)"
    using restart_timer_at_ok(3) [OF assms(1) t1] assms(2) by simp
  with t1 n timer_invD(5) [OF inv n(1)] show ?thesis by (simp add: stop_timer_def restart_timer_at_def)
qed

theorem restart_timer_loses_id_witness:
  "\<exists>t1. restart_timer_at 1 1024 9 one_timer = (True, t1) \<and> 1 \<in> set (heap_tree t1) \<and>
     \<not> stopped (timer_mem t1 ! 1) \<and> stop_timer 1024 t1 = (False, t1)"
  using restart_timer_loses_id [OF one_timer_inv, of 1024 0 1 9] by auto

end
