(* ===== verification/Epoll_Worker.thy ===== *)
theory Epoll_Worker
  imports Heap_Timer
begin

text \<open>
  \<open>EpollWorker\<close> (src/include/tcp/epoll\_worker.h): the registration of descriptors, the timer descriptor
  and the loop that waits for events. The kernel is a parameter, a record of functions on the state
  \<open>'w\<close> of everything outside the worker; so are the handlers of events, tasks and timers, which may change
  the worker and that state. Printing is left out. The thread is the sequence of the passes of its loop.
\<close>

datatype 'a loop_result = Ok 'a | Undefined | Diverges

fun bind_out :: "'a loop_result \<Rightarrow> ('a \<Rightarrow> 'b loop_result) \<Rightarrow> 'b loop_result" where
  "bind_out (Ok x) f = f x"
| "bind_out Undefined f = Undefined"
| "bind_out Diverges f = Diverges"

definition out_option :: "'a option \<Rightarrow> 'a loop_result" where
  "out_option r = (case r of None \<Rightarrow> Diverges | Some x \<Rightarrow> Ok x)"

lemma bind_out_Ok: "bind_out r f = Ok y \<longleftrightarrow> (\<exists>x. r = Ok x \<and> f x = Ok y)"
  by (cases r) auto

lemma bind_out_Undefined: "bind_out r f = Undefined \<longleftrightarrow> r = Undefined \<or> (\<exists>x. r = Ok x \<and> f x = Undefined)"
  by (cases r) auto

section \<open>The kernel\<close>

datatype epoll_op = CTL_ADD | CTL_MOD | CTL_DEL

text \<open>\<open>ev_data\<close> is the union \<open>data\<close>: a pointer, or a descriptor in its lower 32 bits.\<close>

record epoll_event =
  ev_data :: u64
  ev_events :: u32

definition data_fd :: "u64 \<Rightarrow> int" where
  "data_fd d = sint (ucast d :: u32)"

definition data_of_fd :: "int \<Rightarrow> u64" where
  "data_of_fd fd = ucast (of_int fd :: u32)"

record itimerspec =
  value_sec :: nat
  value_nsec :: nat
  interval_sec :: nat
  interval_nsec :: nat

text \<open>The result of \<open>epoll_wait\<close>: events, or an error, with whether it is \<open>EINTR\<close>.\<close>

datatype wait_result = Wait_events "epoll_event list" | Wait_error bool

record 'w epoll_kernel =
  sys_epoll_create :: "'w \<Rightarrow> int \<times> 'w"
  sys_cloexec :: "int \<Rightarrow> 'w \<Rightarrow> int \<times> 'w"
  sys_timerfd_create :: "'w \<Rightarrow> int \<times> 'w"
  sys_timerfd_settime :: "int \<Rightarrow> itimerspec \<Rightarrow> 'w \<Rightarrow> int \<times> 'w"
  sys_epoll_ctl :: "int \<Rightarrow> epoll_op \<Rightarrow> int \<Rightarrow> epoll_event option \<Rightarrow> 'w \<Rightarrow> int \<times> 'w"
  sys_epoll_wait :: "int \<Rightarrow> nat \<Rightarrow> 'w \<Rightarrow> wait_result \<times> 'w"
  sys_close :: "int \<Rightarrow> 'w \<Rightarrow> 'w"

section \<open>The worker\<close>

record ('h, 't) epoll_worker =
  timers :: "'h heap_timer"
  tasks :: "'t list"
  timer_fd :: int
  is_running :: bool
  epoll_fd :: int

definition EpollWorker :: "('h, 't) epoll_worker" where
  "EpollWorker = \<lparr>timers = HeapTimer, tasks = [], timer_fd = -1, is_running = False, epoll_fd = -1\<rparr>"

definition MAX_WAIT_EVENT :: nat where
  "MAX_WAIT_EVENT = 128"

definition start :: "'w epoll_kernel \<Rightarrow> ('h, 't) epoll_worker \<Rightarrow> 'w \<Rightarrow> int \<times> ('h, 't) epoll_worker \<times> 'w" where
  "start k wk w =
     (let (fd, w) = sys_epoll_create k w;
          wk = wk\<lparr>epoll_fd := fd\<rparr>;
          (ret, w) = sys_cloexec k (epoll_fd wk) w
      in if ret < 0 then (-1, wk, w)
         else
           let (fd, w) = sys_timerfd_create k w;
               wk = wk\<lparr>timer_fd := fd\<rparr>
           in if timer_fd wk = -1 then (-1, wk, w) else (0, wk\<lparr>is_running := True\<rparr>, w))"

definition add_event :: "'w epoll_kernel \<Rightarrow> ('h, 't) epoll_worker \<Rightarrow> int \<Rightarrow> u64 \<Rightarrow> u32 \<Rightarrow> 'w \<Rightarrow> bool \<times> 'w" where
  "add_event k wk sd hdl evts w =
     (if 0 < sd then
        let (ret, w) = sys_epoll_ctl k (epoll_fd wk) CTL_ADD sd (Some \<lparr>ev_data = hdl, ev_events = evts\<rparr>) w
        in if ret \<noteq> 0 then (False, sys_close k sd w) else (True, w)
      else (False, w))"

definition mod_event :: "'w epoll_kernel \<Rightarrow> ('h, 't) epoll_worker \<Rightarrow> int \<Rightarrow> u64 \<Rightarrow> u32 \<Rightarrow> 'w \<Rightarrow> bool \<times> 'w" where
  "mod_event k wk sd hdl evts w =
     (if 0 < sd then
        let (ret, w) = sys_epoll_ctl k (epoll_fd wk) CTL_MOD sd (Some \<lparr>ev_data = hdl, ev_events = evts\<rparr>) w;
            w = (if ret = -1 then sys_close k sd w else w)
        in (0 \<le> ret, w)
      else (False, w))"

definition del_event :: "'w epoll_kernel \<Rightarrow> ('h, 't) epoll_worker \<Rightarrow> int \<Rightarrow> 'w \<Rightarrow> bool \<times> 'w" where
  "del_event k wk sd w =
     (if 0 < sd then let (ret, w) = sys_epoll_ctl k (epoll_fd wk) CTL_DEL sd None w in (0 \<le> ret, w)
      else (False, w))"

definition timer_spec :: "u32 \<Rightarrow> u32 \<Rightarrow> itimerspec" where
  "timer_spec ival delay =
     \<lparr>value_sec = unat delay, value_nsec = 0, interval_sec = unat (ival div 1000000),
      interval_nsec = unat ((ival mod 1000000) * 1000)\<rparr>"

definition add_timer :: "'w epoll_kernel \<Rightarrow> ('h, 't) epoll_worker \<Rightarrow> bool \<Rightarrow> u32 \<Rightarrow> u32 \<Rightarrow> 'w \<Rightarrow> bool \<times> 'w" where
  "add_timer k wk md ival delay w =
     (let (ret, w) = sys_timerfd_settime k (timer_fd wk) (timer_spec ival delay) w
      in if ret = -1 then (False, w)
         else
           let event = \<lparr>ev_data = data_of_fd (timer_fd wk), ev_events = 1\<rparr>;
               (ret, w) = sys_epoll_ctl k (epoll_fd wk) (if md then CTL_MOD else CTL_ADD) (timer_fd wk) (Some event) w
           in if ret = -1 then (False, w) else (True, w))"

definition post_task :: "'t \<Rightarrow> ('h, 't) epoll_worker \<Rightarrow> ('h, 't) epoll_worker" where
  "post_task task wk = wk\<lparr>tasks := tasks wk @ [task]\<rparr>"

definition stop :: "('h, 't) epoll_worker \<Rightarrow> ('h, 't) epoll_worker" where
  "stop wk = wk\<lparr>is_running := False\<rparr>"

text \<open>
  What the loop calls: the handler at an address, a task, the handlers of the timers (which may post
  tasks), and the destructors of the tasks when the vector is cleared.
\<close>

record ('h, 't, 'w) worker_env =
  process_event :: "u64 \<Rightarrow> u32 \<Rightarrow> ('h, 't) epoll_worker \<times> 'w \<Rightarrow> (('h, 't) epoll_worker \<times> 'w) loop_result"
  call_task :: "'t \<Rightarrow> ('h, 't) epoll_worker \<times> 'w \<Rightarrow> (('h, 't) epoll_worker \<times> 'w) loop_result"
  timer_handlers :: "('h, 't list \<times> 'w) timer_env"
  destroy_tasks :: "'t list \<Rightarrow> 'w \<Rightarrow> 'w"

text \<open>An event of the timer descriptor. The interval is converted to \<open>uint32_t\<close>; the delay is the default of one second.\<close>

definition timer_event ::
    "('h, 't, 'w) worker_env \<Rightarrow> 'w epoll_kernel \<Rightarrow> ('h, 't) epoll_worker \<times> 'w \<Rightarrow> (('h, 't) epoll_worker \<times> 'w) loop_result" where
  "timer_event env k s =
     (case s of (wk, w) \<Rightarrow>
        bind_out (out_option (timer_loop (timer_handlers env) (tasks wk, w) (timers wk))) (\<lambda>(nextExpire, (ts, w), t).
          let wk = wk\<lparr>timers := t, tasks := ts\<rparr>
          in Ok (wk, snd (add_timer k wk True (of_int nextExpire) 1 w))))"

definition dispatch ::
    "('h, 't, 'w) worker_env \<Rightarrow> 'w epoll_kernel \<Rightarrow> epoll_event \<Rightarrow> ('h, 't) epoll_worker \<times> 'w \<Rightarrow>
     (('h, 't) epoll_worker \<times> 'w) loop_result" where
  "dispatch env k ev s =
     (if data_fd (ev_data ev) = timer_fd (fst s) then timer_event env k s
      else if ev_data ev \<noteq> 0 then process_event env (ev_data ev) (ev_events ev) s
      else Ok s)"

fun event_loop ::
    "('h, 't, 'w) worker_env \<Rightarrow> 'w epoll_kernel \<Rightarrow> epoll_event list \<Rightarrow> ('h, 't) epoll_worker \<times> 'w \<Rightarrow>
     (('h, 't) epoll_worker \<times> 'w) loop_result" where
  "event_loop env k [] s = Ok s"
| "event_loop env k (ev # evs) s = bind_out (dispatch env k ev s) (event_loop env k evs)"

text \<open>
  The loop over the vector \<open>tasks\<close>. A task that posts another one changes the vector while it is iterated
  over: its storage may be gone, and the new task is dropped otherwise.
\<close>

fun task_loop ::
    "('h, 't, 'w) worker_env \<Rightarrow> 't list \<Rightarrow> ('h, 't) epoll_worker \<times> 'w \<Rightarrow> (('h, 't) epoll_worker \<times> 'w) loop_result" where
  "task_loop env [] s = Ok s"
| "task_loop env (task # ts) s =
     bind_out (call_task env task s) (\<lambda>s'.
       if length (tasks (fst s')) \<noteq> length (tasks (fst s)) then Undefined else task_loop env ts s')"

definition run_tasks ::
    "('h, 't, 'w) worker_env \<Rightarrow> ('h, 't) epoll_worker \<times> 'w \<Rightarrow> (('h, 't) epoll_worker \<times> 'w) loop_result" where
  "run_tasks env s =
     bind_out (task_loop env (tasks (fst s)) s) (\<lambda>(wk, w). Ok (wk\<lparr>tasks := []\<rparr>, destroy_tasks env (tasks wk) w))"

text \<open>One pass of the loop of \<open>run\<close>, and \<open>n\<close> passes, as long as the worker is running.\<close>

definition run_pass ::
    "('h, 't, 'w) worker_env \<Rightarrow> 'w epoll_kernel \<Rightarrow> ('h, 't) epoll_worker \<times> 'w \<Rightarrow> (('h, 't) epoll_worker \<times> 'w) loop_result" where
  "run_pass env k s =
     (case s of (wk, w) \<Rightarrow>
        case sys_epoll_wait k (epoll_fd wk) MAX_WAIT_EVENT w of
          (Wait_error eintr, w) \<Rightarrow> if eintr then Ok (wk, w) else run_tasks env (wk, w)
        | (Wait_events waitEvents, w) \<Rightarrow> bind_out (event_loop env k waitEvents (wk, w)) (run_tasks env))"

fun run ::
    "('h, 't, 'w) worker_env \<Rightarrow> 'w epoll_kernel \<Rightarrow> nat \<Rightarrow> ('h, 't) epoll_worker \<times> 'w \<Rightarrow> (('h, 't) epoll_worker \<times> 'w) loop_result" where
  "run env k 0 s = Ok s"
| "run env k (Suc n) s = (if is_running (fst s) then bind_out (run_pass env k s) (run env k n) else Ok s)"

text \<open>The body of the thread.\<close>

definition thread_main ::
    "('h, 't, 'w) worker_env \<Rightarrow> 'w epoll_kernel \<Rightarrow> nat \<Rightarrow> ('h, 't) epoll_worker \<times> 'w \<Rightarrow> (('h, 't) epoll_worker \<times> 'w) loop_result" where
  "thread_main env k n s = (case s of (wk, w) \<Rightarrow> run env k n (wk, snd (add_timer k wk False 1 1 w)))"

section \<open>Facts\<close>

lemma data_fd_of_fd: "-(2 ^ 31) \<le> fd \<Longrightarrow> fd < 2 ^ 31 \<Longrightarrow> data_fd (data_of_fd fd) = fd"
proof -
  assume "-(2 ^ 31) \<le> fd" "fd < 2 ^ 31"
  moreover have "ucast (ucast x :: u64) = x" for x :: u32 by (rule bit_word_eqI) (simp add: bit_simps)
  ultimately show ?thesis by (simp add: data_fd_def data_of_fd_def signed_of_int signed_take_bit_int_eq_self)
qed

lemma out_option_simps [simp]: "out_option r \<noteq> Undefined" "out_option r = Ok x \<longleftrightarrow> r = Some x"
  by (auto simp: out_option_def split: option.splits)

text \<open>What the clock and the handlers of a timer keep, its loop keeps.\<close>

lemma timer_pass_keeps:
  assumes now: "\<And>w n w'. P w \<Longrightarrow> get_now env w = (n, w') \<Longrightarrow> P w'"
    and call: "\<And>h w t b w' t'. P w \<Longrightarrow> call_handler env h w t = (b, w', t') \<Longrightarrow> P w'"
    and "P w" "timer_pass env node w t = (w', t')"
  shows "P w'"
proof (cases "stopped (timer_mem (pop_top t) ! node)")
  case True
  with assms(3,4) show ?thesis by (simp add: timer_pass_def)
next
  case False
  then have h: "handle_timeout env node w (pop_top t) = (w', t')" using assms(4) by (simp add: timer_pass_def)
  obtain b w1 t1 where c: "call_handler env (handler (timer_mem (pop_top t) ! node)) w ((pop_top t)\<lparr>fired := node # fired (pop_top t)\<rparr>) = (b, w1, t1)"
    by (metis prod.exhaust)
  have "P w1" by (rule call [OF assms(3) c])
  moreover have "w' = w1 \<or> (\<exists>n. get_now env w1 = (n, w'))"
    using h c by (auto simp: handle_timeout_def Let_def split: if_splits prod.splits)
  ultimately show ?thesis using now by blast
qed

lemma timer_while_keeps:
  fixes env :: "('h, 'w) timer_env" and t :: "'h heap_timer"
  assumes now: "\<And>w n w'. P w \<Longrightarrow> get_now env w = (n, w') \<Longrightarrow> P w'"
    and call: "\<And>h w t b w' t'. P w \<Longrightarrow> call_handler env h w t = (b, w', t') \<Longrightarrow> P w'"
    and r: "timer_while env cur w t = Some (cur', w', t')" and "P w"
  shows "P w'"
proof -
  let ?Q = "\<lambda>e (cur :: int) w (t :: 'h heap_timer) r. e = env \<longrightarrow> P w \<longrightarrow> P (fst (snd r))"
  have "?Q env cur w t (cur', w', t')"
  proof (rule timer_while.raw_induct [where P = ?Q, OF _ r])
    fix f e cur w and t :: "'h heap_timer" and r
    assume IH: "\<And>e cur w t r. f e cur w t = Some r \<Longrightarrow> ?Q e cur w t r"
      and eq: "(case heap_top (heap_tree t) of None \<Rightarrow> Some (cur, w, t)
        | Some node \<Rightarrow> if expire_time (timer_mem t ! node) \<le> cur
            then let (w, t) = timer_pass e node w t; (cur, w) = get_now e w in f e cur w t
            else Some (cur, w, t)) = Some r"
    show "?Q e cur w t r"
    proof (intro impI)
      assume e: "e = env" and w: "P w"
      show "P (fst (snd r))"
      proof (cases "\<exists>node. heap_top (heap_tree t) = Some node \<and> expire_time (timer_mem t ! node) \<le> cur")
        case False
        with eq w show ?thesis by (auto split: option.splits if_splits)
      next
        case True
        then obtain node where n: "heap_top (heap_tree t) = Some node" "expire_time (timer_mem t ! node) \<le> cur" by blast
        obtain w1 t1 where p: "timer_pass env node w t = (w1, t1)" by fastforce
        obtain c w2 where g: "get_now env w1 = (c, w2)" by fastforce
        have "P w2" using now [OF timer_pass_keeps [of P, OF now call w p] g] .
        moreover have "f env c w2 t1 = Some r" using eq n p g e by simp
        ultimately show ?thesis using IH by blast
      qed
    qed
  qed
  with assms(4) show ?thesis by simp
qed

lemma timer_loop_keeps:
  fixes env :: "('h, 'w) timer_env" and t :: "'h heap_timer"
  assumes now: "\<And>w n w'. P w \<Longrightarrow> get_now env w = (n, w') \<Longrightarrow> P w'"
    and call: "\<And>h w t b w' t'. P w \<Longrightarrow> call_handler env h w t = (b, w', t') \<Longrightarrow> P w'"
    and r: "timer_loop env w t = Some (d, w', t')" and "P w"
  shows "P w'"
proof -
  let ?Q = "\<lambda>e w (t :: 'h heap_timer) r. e = env \<longrightarrow> P w \<longrightarrow> P (fst (snd r))"
  have "?Q env w t (d, w', t')"
  proof (rule timer_loop.raw_induct [where P = ?Q, OF _ r])
    fix f e w and t :: "'h heap_timer" and r
    assume IH: "\<And>e w t r. f e w t = Some r \<Longrightarrow> ?Q e w t r"
      and eq: "(let (cur, w) = get_now e w in Option.bind (timer_while e cur w t) (\<lambda>(cur, w, t).
        case heap_top (heap_tree t) of None \<Rightarrow> Some (1, w, t)
        | Some node \<Rightarrow> if cur < expire_time (timer_mem t ! node) then Some (expire_time (timer_mem t ! node) - cur, w, t)
            else Option.bind (f e w t) (\<lambda>(_, w, t). Some (1, w, t)))) = Some r"
    show "?Q e w t r"
    proof (intro impI)
      assume e: "e = env" and w: "P w"
      obtain cur w1 where g: "get_now env w = (cur, w1)" by fastforce
      obtain c w2 t2 where l: "timer_while env cur w1 t = Some (c, w2, t2)"
        using eq g e by (auto simp: Option.bind_eq_Some_conv)
      have w2: "P w2" using timer_while_keeps [of P, OF now call l now [OF w g]] .
      show "P (fst (snd r))" using eq g l e w2 IH [of env w2 t2]
        by (auto simp: Option.bind_eq_Some_conv split: option.splits if_splits)
    qed
  qed
  with assms(4) show ?thesis by simp
qed

end
