(* ===== verification/Tcp_Server.thy ===== *)
theory Tcp_Server
  imports Tcp_Calls Epoll_Worker
begin

text \<open>
  A server: the connections as objects in a store, the map of \<open>TcpFactory\<close> (src/include/tcp/tcp\_factory.h)
  that owns them, and the worker that knows them by their addresses. \<open>TcpListener\<close>
  (src/include/tcp/tcp\_listener.h) and \<open>TcpConnector\<close> (src/include/tcp/tcp\_connector.h) make
  connections; a connection that has closed removes itself by a task. The connections of one worker
  are modelled; the passes of its loop, the steps of listener and connector and the calls of the application
  are atomic steps. The calls that a connection makes on its worker are those it has recorded, carried out when its
  method returns; it uses none of their results.
\<close>

section \<open>The factory\<close>

text \<open>The task that \<open>do_close\<close> posts holds the connection, given by its address.\<close>

datatype conn_task = Remove_task u64

text \<open>
  \<open>objs\<close> are the live objects by address. \<open>connection_index\<close> is the counter of \<open>TcpConnection\<close>, and \<open>kst\<close>
  the state of the kernel's part of the worker.
\<close>

record ('u, 'w, 'k) server =
  objs :: "u64 \<rightharpoonup> ('u, 'w) tcp_connection"
  connection_map :: "u64 \<rightharpoonup> u64"
  connection_index :: u64
  kst :: 'k

definition add_connection :: "u64 \<Rightarrow> u64 \<Rightarrow> ('u, 'w, 'k) server \<Rightarrow> ('u, 'w, 'k) server" where
  "add_connection cid a s = s\<lparr>connection_map := (connection_map s)(cid \<mapsto> a)\<rparr>"

definition remove_connection :: "u64 \<Rightarrow> ('u, 'w, 'k) server \<Rightarrow> int \<times> ('u, 'w, 'k) server" where
  "remove_connection cid s =
     (if connection_map s cid = None then 0 else 1, s\<lparr>connection_map := (connection_map s)(cid := None)\<rparr>)"

definition find_connection :: "u64 \<Rightarrow> ('u, 'w, 'k) server \<Rightarrow> u64 option" where
  "find_connection cid s = connection_map s cid"

text \<open>The constructor \<open>TcpConnection ()\<close>; \<open>mem\<close> is the uninitialised receive buffer.\<close>

definition make_connection :: "bytes \<Rightarrow> 'u \<Rightarrow> 'w \<Rightarrow> u64 \<Rightarrow> ('u, 'w) tcp_connection" where
  "make_connection mem u w cid =
     \<lparr>read_buffer = mem, read_buffer_pos = 0, remote_port = 0, remote_host = [], conn_status = CONN_IDLE,
      tcp_worker = False, conn_sd = -1, need_reconnect = False, send_buffer = [], epoll_events = 0,
      is_passive = True, conn_id = cid, factory = False, calls = [], world = w, app = u,
      accepted = [], sent = [], received = [], delivered = [], events = []\<rparr>"

text \<open>\<open>create\<close>: \<open>a\<close> is the address of the new object; the hook \<open>on_create\<close> may set its own members.\<close>

definition create ::
    "(u64 \<Rightarrow> 'u \<Rightarrow> 'u) \<Rightarrow> bytes \<Rightarrow> 'u \<Rightarrow> 'w \<Rightarrow> bool \<Rightarrow> u64 \<Rightarrow> ('u, 'w, 'k) server \<Rightarrow>
     ('u, 'w) tcp_connection \<times> ('u, 'w, 'k) server" where
  "create on_create mem u w passive a s =
     (let s = s\<lparr>connection_index := connection_index s + 1\<rparr>;
          c = make_connection mem u w (connection_index s);
          c = c\<lparr>is_passive := passive\<rparr>;
          c = c\<lparr>factory := True\<rparr>;
          c = c\<lparr>app := on_create (conn_id c) (app c)\<rparr>
      in (c, add_connection (conn_id c) a (s\<lparr>objs := (objs s)(a \<mapsto> c)\<rparr>)))"

text \<open>\<open>release\<close>: \<open>hook\<close> is \<open>connection_releaser\<close> or \<open>on_release\<close>.\<close>

definition release ::
    "(u64 \<Rightarrow> ('u, 'w, 'k) server \<Rightarrow> ('u, 'w, 'k) server) \<Rightarrow> u64 \<Rightarrow> ('u, 'w, 'k) server \<Rightarrow> ('u, 'w, 'k) server" where
  "release hook cid s = snd (remove_connection cid (hook cid s))"

section \<open>The calls of a connection on its worker\<close>

record ('u, 'w, 'h, 'k) server_params =
  socket_kernel :: "'w kernel"
  worker_kernel :: "'k epoll_kernel"
  methods :: "('u, 'w) conn_handlers"
  buffer_size :: nat
  timer_env :: "('h, conn_task list \<times> ('u, 'w, 'k) server) timer_env"
  reconnect_handler :: "u64 \<Rightarrow> 'h"

type_synonym ('u, 'w, 'h, 'k) system = "('h, conn_task) epoll_worker \<times> ('u, 'w, 'k) server"

fun apply_call ::
    "('u, 'w, 'h, 'k) server_params \<Rightarrow> u64 \<Rightarrow> worker_call \<Rightarrow> ('u, 'w, 'h, 'k) system \<Rightarrow> ('u, 'w, 'h, 'k) system" where
  "apply_call p a (Mod_event sd evts) (wk, s) =
     (wk, s\<lparr>kst := snd (Epoll_Worker.mod_event (worker_kernel p) wk sd a evts (kst s))\<rparr>)"
| "apply_call p a (Del_event sd) (wk, s) = (wk, s\<lparr>kst := snd (del_event (worker_kernel p) wk sd (kst s))\<rparr>)"
| "apply_call p a (Add_event sd evts) (wk, s) = (wk, s\<lparr>kst := snd (add_event (worker_kernel p) wk sd a evts (kst s))\<rparr>)"
| "apply_call p a (Close_fd fd) (wk, s) = (wk, s\<lparr>kst := sys_close (worker_kernel p) fd (kst s)\<rparr>)"
| "apply_call p a (Remove_connection cid) (wk, s) = (post_task (Remove_task a) wk, s)"
| "apply_call p a (Start_timer ival l) (wk, s) =
     (let (_, (ts, s), t) = start_timer (timer_env p) (reconnect_handler p a) ival l (tasks wk, s) (timers wk)
      in (wk\<lparr>timers := t, tasks := ts\<rparr>, s))"

definition apply_calls ::
    "('u, 'w, 'h, 'k) server_params \<Rightarrow> u64 \<Rightarrow> worker_call list \<Rightarrow> ('u, 'w, 'h, 'k) system \<Rightarrow> ('u, 'w, 'h, 'k) system" where
  "apply_calls p a cs x = fold (apply_call p a) cs x"

text \<open>A method of the object at \<open>a\<close> has changed it from \<open>c\<close> to \<open>c'\<close>.\<close>

definition put_conn ::
    "('u, 'w, 'h, 'k) server_params \<Rightarrow> u64 \<Rightarrow> ('u, 'w) tcp_connection \<Rightarrow> ('u, 'w) tcp_connection \<Rightarrow>
     ('u, 'w, 'h, 'k) system \<Rightarrow> ('u, 'w, 'h, 'k) system" where
  "put_conn p a c c' x =
     apply_calls p a (drop (length (calls c)) (calls c')) (fst x, (snd x)\<lparr>objs := (objs (snd x))(a \<mapsto> c')\<rparr>)"

section \<open>The loop of the worker\<close>

text \<open>An event for an address without an object is a call on freed memory.\<close>

definition conn_event ::
    "('u, 'w, 'h, 'k) server_params \<Rightarrow> u64 \<Rightarrow> u32 \<Rightarrow> ('u, 'w, 'h, 'k) system \<Rightarrow> ('u, 'w, 'h, 'k) system loop_result" where
  "conn_event p a evts x =
     (case objs (snd x) a of
        None \<Rightarrow> Undefined
      | Some c \<Rightarrow>
          bind_out (out_option (Tcp_Connection.process_event (socket_kernel p) (methods p) (buffer_size p) evts c))
            (\<lambda>c'. Ok (put_conn p a c c' x)))"

definition run_conn_task ::
    "conn_task \<Rightarrow> ('u, 'w, 'h, 'k) system \<Rightarrow> ('u, 'w, 'h, 'k) system loop_result" where
  "run_conn_task task x =
     (case task of Remove_task a \<Rightarrow>
        case objs (snd x) a of
          None \<Rightarrow> Undefined
        | Some c \<Rightarrow> Ok (fst x, snd (remove_connection (conn_id c) (snd x))))"

text \<open>When the tasks go, the connections go that no entry of the map holds.\<close>

definition destroy_conns :: "('u, 'w, 'k) server \<Rightarrow> ('u, 'w, 'k) server" where
  "destroy_conns s = s\<lparr>objs := objs s |` ran (connection_map s)\<rparr>"

definition server_env :: "('u, 'w, 'h, 'k) server_params \<Rightarrow> ('h, conn_task, ('u, 'w, 'k) server) worker_env" where
  "server_env p = \<lparr>process_event = conn_event p, call_task = run_conn_task, timer_handlers = timer_env p,
     destroy_tasks = (\<lambda>_. destroy_conns)\<rparr>"

text \<open>The kernel on the state of the server.\<close>

definition on_kst :: "('k \<Rightarrow> 'a \<times> 'k) \<Rightarrow> ('u, 'w, 'k) server \<Rightarrow> 'a \<times> ('u, 'w, 'k) server" where
  "on_kst f s = (let (r, k) = f (kst s) in (r, s\<lparr>kst := k\<rparr>))"

definition server_kernel :: "('u, 'w, 'h, 'k) server_params \<Rightarrow> ('u, 'w, 'k) server epoll_kernel" where
  "server_kernel p =
     (let k = worker_kernel p in
      \<lparr>sys_epoll_create = on_kst (sys_epoll_create k), sys_cloexec = (\<lambda>fd. on_kst (sys_cloexec k fd)),
       sys_timerfd_create = on_kst (sys_timerfd_create k),
       sys_timerfd_settime = (\<lambda>fd t. on_kst (sys_timerfd_settime k fd t)),
       sys_epoll_ctl = (\<lambda>epfd op fd ev. on_kst (sys_epoll_ctl k epfd op fd ev)),
       sys_epoll_wait = (\<lambda>epfd n. on_kst (sys_epoll_wait k epfd n)),
       sys_close = (\<lambda>fd s. s\<lparr>kst := sys_close k fd (kst s)\<rparr>)\<rparr>)"

definition server_pass :: "('u, 'w, 'h, 'k) server_params \<Rightarrow> ('u, 'w, 'h, 'k) system \<Rightarrow> ('u, 'w, 'h, 'k) system loop_result" where
  "server_pass p = run_pass (server_env p) (server_kernel p)"

section \<open>Listener and connector\<close>

text \<open>
  \<open>process_event\<close> of the listener, for the descriptor, the address and the port that \<open>accept4\<close> gives, or
  \<open>None\<close> for its error; the default of the events is that of \<open>add_event\<close>.
\<close>

definition accept_event ::
    "('u, 'w, 'h, 'k) server_params \<Rightarrow> (u64 \<Rightarrow> 'u \<Rightarrow> 'u) \<Rightarrow> bytes \<Rightarrow> 'u \<Rightarrow> 'w \<Rightarrow> u64 \<Rightarrow> u32 \<Rightarrow>
     (int \<times> bytes \<times> u16) option \<Rightarrow> ('u, 'w, 'h, 'k) system \<Rightarrow> ('u, 'w, 'h, 'k) system" where
  "accept_event p on_create mem u w a evts client x =
     (if has_event evts EPOLLIN then
        case client of
          None \<Rightarrow> x
        | Some (clientFd, remoteHost, remotePort) \<Rightarrow>
            let (wk, s) = x;
                (conn, s) = create on_create mem u w True a s;
                conn = conn\<lparr>tcp_worker := True\<rparr>;
                conn = conn_init clientFd remoteHost remotePort True conn;
                s = s\<lparr>objs := (objs s)(a \<mapsto> conn)\<rparr>;
                (_, k) = add_event (worker_kernel p) wk clientFd a (EPOLLET OR EPOLLIN OR EPOLLOUT OR EPOLLERR) (kst s)
            in (wk, s\<lparr>kst := k\<rparr>)
      else x)"

text \<open>\<open>TcpConnector::connect\<close>.\<close>

definition connect ::
    "('u, 'w, 'h, 'k) server_params \<Rightarrow> (u64 \<Rightarrow> 'u \<Rightarrow> 'u) \<Rightarrow> bytes \<Rightarrow> 'u \<Rightarrow> 'w \<Rightarrow> u64 \<Rightarrow> bool \<Rightarrow> bytes \<Rightarrow> u16 \<Rightarrow>
     ('u, 'w, 'h, 'k) system \<Rightarrow> ('u, 'w, 'h, 'k) system" where
  "connect p on_create mem u w a reconnect host port x =
     (let (wk, s) = x;
          (conn, s) = create on_create mem u w False a s;
          conn = conn\<lparr>need_reconnect := reconnect\<rparr>;
          conn = conn\<lparr>tcp_worker := True\<rparr>;
          conn = conn_init 0 host port False conn
      in put_conn p a conn (snd (do_connect (socket_kernel p) conn)) (wk, s))"

text \<open>\<open>get_worker\<close> goes round the workers of a listener, or returns the listener's own.\<close>

record 'v listener =
  worker_index :: u32
  listen_worker :: 'v
  tcp_workers :: "'v list"

definition get_worker :: "'v listener \<Rightarrow> 'v \<times> 'v listener" where
  "get_worker l =
     (if tcp_workers l \<noteq> [] then
        let l = l\<lparr>worker_index := worker_index l + 1\<rparr>;
            l = l\<lparr>worker_index := of_nat (unat (worker_index l) mod length (tcp_workers l))\<rparr>
        in (tcp_workers l ! unat (worker_index l), l)
      else (listen_worker l, l))"

definition add_worker :: "'v option \<Rightarrow> 'v listener \<Rightarrow> 'v listener" where
  "add_worker worker l = (case worker of None \<Rightarrow> l | Some v \<Rightarrow> l\<lparr>tcp_workers := tcp_workers l @ [v]\<rparr>)"

text \<open>\<open>broadcast\<close>, for the addresses in the order of the iteration over the map.\<close>

definition broadcast ::
    "('u, 'w, 'h, 'k) server_params \<Rightarrow> bytes \<Rightarrow> u64 list \<Rightarrow> ('u, 'w, 'h, 'k) system \<Rightarrow> ('u, 'w, 'h, 'k) system" where
  "broadcast p msg as x =
     fold (\<lambda>a x. case objs (snd x) a of
         Some c \<Rightarrow> put_conn p a c (snd (msend (socket_kernel p) [Arg_string msg] c)) x
       | None \<Rightarrow> x) as x"

end
