(* ===== verification/Tcp_System.thy ===== *)
theory Tcp_System
  imports Tcp_Server
begin

text \<open>
  The states a server reaches, whatever the events, the clients and the application do, and the invariant
  that keeps the registrations of the worker, the store of connections, the map of the factory and the
  posted tasks in step: no event is ever handed to a connection that is gone.
\<close>

section \<open>The documented behaviour of epoll\<close>

text \<open>
  \<open>reg\<close> is the interest list of the worker's instance: adding and modifying enter the event, deleting and
  closing remove it, a call that fails changes nothing, and \<open>epoll_wait\<close> reports data of registered entries only.
\<close>

definition epoll_ok :: "'k epoll_kernel \<Rightarrow> int \<Rightarrow> ('k \<Rightarrow> int \<Rightarrow> epoll_event option) \<Rightarrow> bool" where
  "epoll_ok k epfd reg \<longleftrightarrow>
     (\<forall>op fd ev w r w'. sys_epoll_ctl k epfd op fd ev w = (r, w') \<longrightarrow>
        reg w' = (if r = 0 then (reg w)(fd := (if op = CTL_DEL then None else ev)) else reg w)) \<and>
     (\<forall>fd w. reg (sys_close k fd w) = (reg w)(fd := None)) \<and>
     (\<forall>fd t w. reg (snd (sys_timerfd_settime k fd t w)) = reg w) \<and>
     (\<forall>n w. reg (snd (sys_epoll_wait k epfd n w)) = reg w) \<and>
     (\<forall>n w evs w'. sys_epoll_wait k epfd n w = (Wait_events evs, w') \<longrightarrow>
        (\<forall>ev \<in> set evs. \<exists>fd e. reg w fd = Some e \<and> ev_data e = ev_data ev))"

lemma epoll_okD:
  assumes "epoll_ok k epfd reg"
  shows "sys_epoll_ctl k epfd op fd ev w = (r, w') \<Longrightarrow>
      reg w' = (if r = 0 then (reg w)(fd := (if op = CTL_DEL then None else ev)) else reg w)"
    "reg (sys_close k fd w) = (reg w)(fd := None)"
    "reg (snd (sys_timerfd_settime k fd t w)) = reg w"
    "reg (snd (sys_epoll_wait k epfd n w)) = reg w"
    "sys_epoll_wait k epfd n w = (Wait_events evs, w') \<Longrightarrow> v \<in> set evs \<Longrightarrow> \<exists>fd e. reg w fd = Some e \<and> ev_data e = ev_data v"
  using assms unfolding epoll_ok_def by blast+

text \<open>What operations for descriptor \<open>sd\<close> and address \<open>a\<close> do to the registrations.\<close>

definition reg_le :: "u64 \<Rightarrow> int \<Rightarrow> (int \<Rightarrow> epoll_event option) \<Rightarrow> (int \<Rightarrow> epoll_event option) \<Rightarrow> bool" where
  "reg_le a sd r r' \<longleftrightarrow> (\<forall>fd e. r' fd = Some e \<longrightarrow> r fd = Some e \<or> fd = sd \<and> 0 < sd \<and> ev_data e = a)"

lemma reg_le_refl: "reg_le a sd r r"
  by (simp add: reg_le_def)

lemma reg_le_trans: "reg_le a sd r r1 \<Longrightarrow> reg_le a sd r1 r2 \<Longrightarrow> reg_le a sd r r2"
  unfolding reg_le_def by blast

lemma worker_ops_reg:
  assumes k: "epoll_ok k epfd reg" and wk: "epoll_fd wk = epfd"
  shows "reg_le a sd (reg w) (reg (snd (Epoll_Worker.mod_event k wk sd a evts w)))"
    "reg_le a sd (reg w) (reg (snd (add_event k wk sd a evts w)))"
    "reg_le a sd (reg w) (reg (snd (del_event k wk sd w)))"
    "reg_le a sd (reg w) (reg (sys_close k fd w))"
  using epoll_okD(1,2) [OF k] wk
  by (auto simp: reg_le_def Epoll_Worker.mod_event_def add_event_def del_event_def Let_def split: prod.splits if_splits)

section \<open>Steps\<close>

text \<open>The application sends and closes, or reconnects and asks for it on connections that are not gone.\<close>

inductive server_act ::
    "('u, 'w, 'h, 'k) server_params \<Rightarrow> ('u, 'w, 'h, 'k) system \<Rightarrow> ('u, 'w, 'h, 'k) system \<Rightarrow> bool"
  for p :: "('u, 'w, 'h, 'k) server_params" and x :: "('u, 'w, 'h, 'k) system" where
  act_refl: "server_act p x x"
| act_client: "server_act p x y \<Longrightarrow> objs (snd y) a = Some c \<Longrightarrow> conn_client (socket_kernel p) c c' \<Longrightarrow>
    server_act p x (put_conn p a c c' y)"
| act_enable: "server_act p x y \<Longrightarrow> objs (snd y) a = Some c \<Longrightarrow> conn_status c \<noteq> CONN_CLOSED \<Longrightarrow>
    server_act p x (put_conn p a c (enable_reconnect t c) y)"
| act_reconnect: "server_act p x y \<Longrightarrow> objs (snd y) a = Some c \<Longrightarrow> need_reconnect c \<Longrightarrow>
    server_act p x (put_conn p a c (snd (reconnect_timer (socket_kernel p) c)) y)"

text \<open>The clock changes nothing, and handlers of timers act on connections as the application does.\<close>

definition timers_ok :: "('u, 'w, 'h, 'k) server_params \<Rightarrow> int \<Rightarrow> int \<Rightarrow> ('k \<Rightarrow> int \<Rightarrow> epoll_event option) \<Rightarrow> bool" where
  "timers_ok p epfd tfd reg \<longleftrightarrow>
     (\<forall>w n w'. get_now (timer_env p) w = (n, w') \<longrightarrow>
        fst w' = fst w \<and> (\<exists>k. snd w' = (snd w)\<lparr>kst := k\<rparr> \<and> reg k = reg (kst (snd w)))) \<and>
     (\<forall>h ts s t b ts' s' t'. call_handler (timer_env p) h (ts, s) t = (b, (ts', s'), t') \<longrightarrow>
        (\<exists>wk wk'. epoll_fd wk = epfd \<and> timer_fd wk = tfd \<and> tasks wk = ts \<and> tasks wk' = ts' \<and> server_act p (wk, s) (wk', s')))"

lemma timers_okD:
  assumes "timers_ok p epfd tfd reg"
  shows "get_now (timer_env p) w = (n, w') \<Longrightarrow> fst w' = fst w \<and> (\<exists>k. snd w' = (snd w)\<lparr>kst := k\<rparr> \<and> reg k = reg (kst (snd w)))"
    "call_handler (timer_env p) h (ts, s) t = (b, (ts', s'), t') \<Longrightarrow>
      \<exists>wk wk'. epoll_fd wk = epfd \<and> timer_fd wk = tfd \<and> tasks wk = ts \<and> tasks wk' = ts' \<and> server_act p (wk, s) (wk', s')"
  using assms unfolding timers_ok_def by blast+

inductive server_reach ::
    "('u, 'w, 'h, 'k) server_params \<Rightarrow> int \<Rightarrow> int \<Rightarrow> ('k \<Rightarrow> int \<Rightarrow> epoll_event option) \<Rightarrow> ('u, 'w, 'h, 'k) system \<Rightarrow> bool"
  for p :: "('u, 'w, 'h, 'k) server_params" and epfd tfd :: int and reg :: "'k \<Rightarrow> int \<Rightarrow> epoll_event option" where
  reach_start: "epoll_fd wk = epfd \<Longrightarrow> timer_fd wk = tfd \<Longrightarrow> tasks wk = [] \<Longrightarrow> objs s = Map.empty \<Longrightarrow>
    connection_map s = Map.empty \<Longrightarrow> (\<forall>fd e. reg (kst s) fd = Some e \<longrightarrow> data_fd (ev_data e) = tfd) \<Longrightarrow>
    server_reach p epfd tfd reg (wk, s)"
| reach_accept: "server_reach p epfd tfd reg x \<Longrightarrow> objs (snd x) a = None \<Longrightarrow> connection_index (snd x) \<noteq> -1 \<Longrightarrow>
    buffer_size p \<le> length mem \<Longrightarrow> server_reach p epfd tfd reg (accept_event p on_create mem u w a evts client x)"
| reach_connect: "server_reach p epfd tfd reg x \<Longrightarrow> objs (snd x) a = None \<Longrightarrow> connection_index (snd x) \<noteq> -1 \<Longrightarrow>
    buffer_size p \<le> length mem \<Longrightarrow> server_reach p epfd tfd reg (connect p on_create mem u w a reconnect host port x)"
| reach_act: "server_reach p epfd tfd reg x \<Longrightarrow> server_act p x y \<Longrightarrow> server_reach p epfd tfd reg y"
| reach_pass: "server_reach p epfd tfd reg x \<Longrightarrow> server_pass p x = Ok y \<Longrightarrow> server_reach p epfd tfd reg y"

section \<open>The invariant\<close>

definition conn_ok :: "nat \<Rightarrow> ('u, 'w) tcp_connection \<Rightarrow> bool" where
  "conn_ok n c \<longleftrightarrow> streams_ok n c \<and> tcp_worker c \<and> factory c \<and>
     (conn_status c = CONN_CLOSED \<longrightarrow> \<not> need_reconnect c \<and> \<not> 0 < conn_sd c)"

definition conn_regs :: "(int \<Rightarrow> epoll_event option) \<Rightarrow> int \<Rightarrow> (u64 \<rightharpoonup> ('u, 'w) tcp_connection) \<Rightarrow> bool" where
  "conn_regs r tfd os \<longleftrightarrow> (\<forall>fd e. r fd = Some e \<longrightarrow> data_fd (ev_data e) = tfd \<or>
     (\<exists>c. os (ev_data e) = Some c \<and> conn_status c \<noteq> CONN_CLOSED \<and> 0 < fd \<and> (need_reconnect c \<or> conn_sd c = fd)))"

definition sinv ::
    "('u, 'w, 'h, 'k) server_params \<Rightarrow> ('k \<Rightarrow> int \<Rightarrow> epoll_event option) \<Rightarrow> int \<Rightarrow> conn_task list \<Rightarrow> ('u, 'w, 'k) server \<Rightarrow> bool" where
  "sinv p reg tfd ts s \<longleftrightarrow>
     (\<forall>a c. objs s a = Some c \<longrightarrow> conn_ok (buffer_size p) c \<and> connection_map s (conn_id c) = Some a \<and>
        (conn_status c = CONN_CLOSED \<longrightarrow> Remove_task a \<in> set ts)) \<and>
     (\<forall>cid a. connection_map s cid = Some a \<longrightarrow> cid \<le> connection_index s \<and> (\<exists>c. objs s a = Some c \<and> conn_id c = cid)) \<and>
     (\<forall>a. Remove_task a \<in> set ts \<longrightarrow> (\<exists>c. objs s a = Some c \<and> conn_status c = CONN_CLOSED)) \<and>
     conn_regs (reg (kst s)) tfd (objs s)"

definition sys_inv ::
    "('u, 'w, 'h, 'k) server_params \<Rightarrow> int \<Rightarrow> int \<Rightarrow> ('k \<Rightarrow> int \<Rightarrow> epoll_event option) \<Rightarrow> ('u, 'w, 'h, 'k) system \<Rightarrow> bool" where
  "sys_inv p epfd tfd reg x \<longleftrightarrow> epoll_fd (fst x) = epfd \<and> timer_fd (fst x) = tfd \<and> sinv p reg tfd (tasks (fst x)) (snd x)"

lemma apply_calls_simps [simp]:
  "apply_calls p a [] x = x" "apply_calls p a (c # cs) x = apply_calls p a cs (apply_call p a c x)"
  "apply_calls p a (cs @ ds) x = apply_calls p a ds (apply_calls p a cs x)"
  by (simp_all add: apply_calls_def)

text \<open>Calls that only concern the registration of the descriptor.\<close>

lemma apply_mods:
  assumes k: "epoll_ok (worker_kernel p) epfd reg" and wk: "epoll_fd wk = epfd"
  shows "\<exists>k'. apply_calls p a (map (Mod_event sd) es) (wk, s) = (wk, s\<lparr>kst := k'\<rparr>) \<and> reg_le a sd (reg (kst s)) (reg k')"
proof (induction es arbitrary: s)
  case Nil
  show ?case using reg_le_refl by (intro exI [of _ "kst s"]) simp
next
  case (Cons e es)
  let ?k = "snd (Epoll_Worker.mod_event (worker_kernel p) wk sd a e (kst s))"
  from Cons [of "s\<lparr>kst := ?k\<rparr>"] obtain k' where
    "apply_calls p a (map (Mod_event sd) es) (wk, s\<lparr>kst := ?k\<rparr>) = (wk, s\<lparr>kst := k'\<rparr>)" "reg_le a sd (reg ?k) (reg k')" by auto
  moreover have "reg_le a sd (reg (kst s)) (reg ?k)" by (rule worker_ops_reg(1) [OF k wk])
  ultimately show ?case using reg_le_trans by (intro exI [of _ k']) auto
qed

lemma apply_ended:
  assumes k: "epoll_ok (worker_kernel p) epfd reg" and wk: "epoll_fd wk = epfd"
  shows "\<exists>k'. apply_calls p a (ended_calls c) (wk, s) =
      (if need_reconnect c then wk else post_task (Remove_task a) wk, s\<lparr>kst := k'\<rparr>) \<and>
    reg_le a (conn_sd c) (reg (kst s)) (reg k') \<and> (0 < conn_sd c \<and> \<not> need_reconnect c \<longrightarrow> reg k' (conn_sd c) = None)"
proof -
  let ?k = "snd (del_event (worker_kernel p) wk (conn_sd c) (kst s))"
  let ?k' = "if 0 < conn_sd c \<and> \<not> need_reconnect c then sys_close (worker_kernel p) (conn_sd c) ?k else ?k"
  have d: "reg_le a (conn_sd c) (reg (kst s)) (reg ?k)" by (rule worker_ops_reg(3) [OF k wk])
  have "reg_le a (conn_sd c) (reg (kst s)) (reg ?k')"
    using d reg_le_trans [OF d worker_ops_reg(4) [OF k wk]] by simp
  moreover have "apply_calls p a (ended_calls c) (wk, s) =
      (if need_reconnect c then wk else post_task (Remove_task a) wk, s\<lparr>kst := ?k'\<rparr>)" by (simp add: ended_calls_def)
  ultimately show ?thesis using epoll_okD(2) [OF k] by (intro exI [of _ ?k']) simp
qed

lemma sinv_put:
  assumes "sinv p reg tfd ts s" "objs s a = Some c" "conn_ok (buffer_size p) c'" "conn_id c' = conn_id c"
    "conn_status c = CONN_CLOSED \<longrightarrow> conn_status c' = CONN_CLOSED"
    "ts' = ts @ (if conn_status c' = CONN_CLOSED \<and> conn_status c \<noteq> CONN_CLOSED then [Remove_task a] else [])"
    "conn_regs (reg k') tfd ((objs s)(a \<mapsto> c'))"
  shows "sinv p reg tfd ts' (s\<lparr>objs := (objs s)(a \<mapsto> c'), kst := k'\<rparr>)"
proof -
  note inv = assms(1) [unfolded sinv_def]
  have 1: "conn_ok (buffer_size p) d \<and> connection_map s (conn_id d) = Some b \<and> (conn_status d = CONN_CLOSED \<longrightarrow> Remove_task b \<in> set ts')"
    if "((objs s)(a \<mapsto> c')) b = Some d" for b d
    using that inv assms(2-6) by (cases "b = a") auto
  have 2: "cid \<le> connection_index s \<and> (\<exists>d. ((objs s)(a \<mapsto> c')) b = Some d \<and> conn_id d = cid)"
    if "connection_map s cid = Some b" for cid b
  proof -
    from inv that have "cid \<le> connection_index s \<and> (\<exists>d. objs s b = Some d \<and> conn_id d = cid)" by blast
    with assms(2,4) show ?thesis by (cases "b = a") auto
  qed
  have 3: "\<exists>d. ((objs s)(a \<mapsto> c')) b = Some d \<and> conn_status d = CONN_CLOSED" if "Remove_task b \<in> set ts'" for b
  proof (cases "b = a")
    case True
    with that inv assms(2,5,6) show ?thesis by (cases "Remove_task a \<in> set ts") (auto split: if_splits)
  next
    case False
    with that assms(6) have "Remove_task b \<in> set ts" by (auto split: if_splits)
    with inv False show ?thesis by auto
  qed
  from 1 2 3 assms(7) show ?thesis by (simp add: sinv_def)
qed

lemma conn_regs_kept:
  assumes "conn_regs r tfd os" "os a = Some c" "reg_le a (conn_sd c) r r'" "kept c c'" "same_owner c c'" "conn_ok n c"
  shows "conn_regs r' tfd (os(a \<mapsto> c'))"
  unfolding conn_regs_def
proof (intro allI impI)
  fix fd e
  assume r: "r' fd = Some e"
  have c': "conn_status c' = CONN_CLOSED \<longleftrightarrow> conn_status c = CONN_CLOSED" "conn_sd c' = conn_sd c" "need_reconnect c' = need_reconnect c"
    using assms(4,5) by (simp_all add: kept_def same_owner_def)
  from assms(3) r consider "r fd = Some e" | "fd = conn_sd c" "0 < fd" "ev_data e = a" by (auto simp: reg_le_def)
  then show "data_fd (ev_data e) = tfd \<or> (\<exists>d. (os(a \<mapsto> c')) (ev_data e) = Some d \<and> conn_status d \<noteq> CONN_CLOSED \<and> 0 < fd \<and>
      (need_reconnect d \<or> conn_sd d = fd))"
  proof cases
    case 1
    with assms(1) have "data_fd (ev_data e) = tfd \<or> (\<exists>d. os (ev_data e) = Some d \<and> conn_status d \<noteq> CONN_CLOSED \<and> 0 < fd \<and>
      (need_reconnect d \<or> conn_sd d = fd))" unfolding conn_regs_def by blast
    with assms(2) c' show ?thesis by (cases "ev_data e = a") auto
  next
    case 2
    with assms(6) c' show ?thesis by (auto simp: conn_ok_def)
  qed
qed

lemma conn_regs_ended:
  assumes "conn_regs r tfd os" "os a = Some c" "reg_le a (conn_sd c) r r'" "ended c c'" "same_owner c c'"
    "0 < conn_sd c \<and> \<not> need_reconnect c \<longrightarrow> r' (conn_sd c) = None"
  shows "conn_regs r' tfd (os(a \<mapsto> c'))"
  unfolding conn_regs_def
proof (intro allI impI)
  fix fd e
  assume r: "r' fd = Some e"
  from assms(3) r consider "r fd = Some e" | "fd = conn_sd c" "0 < fd" "ev_data e = a" by (auto simp: reg_le_def)
  then show "data_fd (ev_data e) = tfd \<or> (\<exists>d. (os(a \<mapsto> c')) (ev_data e) = Some d \<and> conn_status d \<noteq> CONN_CLOSED \<and> 0 < fd \<and>
      (need_reconnect d \<or> conn_sd d = fd))"
  proof cases
    case 1
    with assms(1) have o: "data_fd (ev_data e) = tfd \<or> (\<exists>d. os (ev_data e) = Some d \<and> conn_status d \<noteq> CONN_CLOSED \<and> 0 < fd \<and>
      (need_reconnect d \<or> conn_sd d = fd))" unfolding conn_regs_def by blast
    show ?thesis
    proof (cases "ev_data e = a \<and> data_fd (ev_data e) \<noteq> tfd")
      case True
      with o assms(2) have "0 < fd" "need_reconnect c \<or> conn_sd c = fd" by auto
      with assms(4-6) r True show ?thesis by (auto simp: ended_def same_owner_def)
    qed (use o in auto)
  next
    case 2
    with assms(4-6) r show ?thesis by (auto simp: ended_def same_owner_def)
  qed
qed

lemma conn_ok_kept: "conn_ok n c \<Longrightarrow> kept c c' \<Longrightarrow> same_owner c c' \<Longrightarrow> streams_ok n c' \<Longrightarrow> conn_ok n c'"
  by (auto simp: conn_ok_def kept_def same_owner_def)

lemma conn_ok_ended: "conn_ok n c \<Longrightarrow> ended c c' \<Longrightarrow> same_owner c c' \<Longrightarrow> streams_ok n c' \<Longrightarrow> conn_ok n c'"
  by (auto simp: conn_ok_def ended_def same_owner_def split: if_splits)

lemma put_conn_effect:
  assumes k: "epoll_ok (worker_kernel p) epfd reg" and x: "sys_inv p epfd tfd reg x"
    and a: "objs (snd x) a = Some c" and e: "kept c c' \<or> ended c c'" and o: "same_owner c c'" and r: "streams_ok (buffer_size p) c'"
  shows "sys_inv p epfd tfd reg (put_conn p a c c' x)"
proof -
  obtain wk s where [simp]: "x = (wk, s)" by fastforce
  let ?s = "s\<lparr>objs := (objs s)(a \<mapsto> c')\<rparr>"
  have wk: "epoll_fd wk = epfd" "timer_fd wk = tfd" and inv: "sinv p reg tfd (tasks wk) s" and ac: "objs s a = Some c"
    using x a by (simp_all add: sys_inv_def)
  have ok: "conn_ok (buffer_size p) c" and rg: "conn_regs (reg (kst s)) tfd (objs s)" using inv ac by (simp_all add: sinv_def)
  have id: "conn_id c' = conn_id c" using o by (simp add: same_owner_def)
  from e show ?thesis
  proof
    assume kc: "kept c c'"
    then obtain es where es: "calls c' = calls c @ map (Mod_event (conn_sd c)) es" by (auto simp: kept_def mods_def)
    from apply_mods [OF k wk(1), of a "conn_sd c" es ?s] obtain k' where
      k': "put_conn p a c c' x = (wk, ?s\<lparr>kst := k'\<rparr>)" "reg_le a (conn_sd c) (reg (kst s)) (reg k')"
      using es by (auto simp: put_conn_def)
    have "sinv p reg tfd (tasks wk) (s\<lparr>objs := (objs s)(a \<mapsto> c'), kst := k'\<rparr>)"
      by (rule sinv_put [OF inv ac conn_ok_kept [OF ok kc o r] id _ _ conn_regs_kept [OF rg ac k'(2) kc o ok]])
        (use kc in \<open>simp_all add: kept_def\<close>)
    with wk k'(1) show ?thesis by (simp add: sys_inv_def)
  next
    assume ec: "ended c c'"
    then obtain es where es: "calls c' = calls c @ map (Mod_event (conn_sd c)) es @ ended_calls c" by (auto simp: ended_def)
    from apply_mods [OF k wk(1), of a "conn_sd c" es ?s] obtain k1 where
      k1: "apply_calls p a (map (Mod_event (conn_sd c)) es) (wk, ?s) = (wk, ?s\<lparr>kst := k1\<rparr>)" "reg_le a (conn_sd c) (reg (kst s)) (reg k1)"
      by auto
    from apply_ended [OF k wk(1), of a c "?s\<lparr>kst := k1\<rparr>"] obtain k' where
      k': "apply_calls p a (ended_calls c) (wk, ?s\<lparr>kst := k1\<rparr>) =
          (if need_reconnect c then wk else post_task (Remove_task a) wk, ?s\<lparr>kst := k'\<rparr>)"
        "reg_le a (conn_sd c) (reg k1) (reg k')" "0 < conn_sd c \<and> \<not> need_reconnect c \<longrightarrow> reg k' (conn_sd c) = None" by auto
    have p: "put_conn p a c c' x = (if need_reconnect c then wk else post_task (Remove_task a) wk, ?s\<lparr>kst := k'\<rparr>)"
      using es k1(1) k'(1) by (simp add: put_conn_def)
    have "sinv p reg tfd (tasks wk @ (if conn_status c' = CONN_CLOSED \<and> conn_status c \<noteq> CONN_CLOSED then [Remove_task a] else []))
        (s\<lparr>objs := (objs s)(a \<mapsto> c'), kst := k'\<rparr>)"
      by (rule sinv_put [OF inv ac conn_ok_ended [OF ok ec o r] id _ refl
            conn_regs_ended [OF rg ac reg_le_trans [OF k1(2) k'(2)] ec o k'(3)]])
        (use ec in \<open>simp add: ended_def\<close>)
    moreover have "conn_status c' = CONN_CLOSED \<and> conn_status c \<noteq> CONN_CLOSED \<longleftrightarrow> \<not> need_reconnect c"
      using ec by (auto simp: ended_def split: if_splits)
    ultimately show ?thesis using wk p by (auto simp: sys_inv_def post_task_def)
  qed
qed

text \<open>A connection that reconnects may be registered under any descriptor.\<close>

lemma conn_regs_reconnect:
  assumes "conn_regs r tfd os" "need_reconnect c'" "conn_status c' \<noteq> CONN_CLOSED" "reg_le a sd r r'"
  shows "conn_regs r' tfd (os(a \<mapsto> c'))"
  unfolding conn_regs_def
proof (intro allI impI)
  fix fd e
  assume "r' fd = Some e"
  with assms(4) consider "r fd = Some e" | "0 < fd" "ev_data e = a" by (auto simp: reg_le_def)
  then show "data_fd (ev_data e) = tfd \<or> (\<exists>d. (os(a \<mapsto> c')) (ev_data e) = Some d \<and> conn_status d \<noteq> CONN_CLOSED \<and> 0 < fd \<and>
      (need_reconnect d \<or> conn_sd d = fd))"
  proof cases
    case 1
    with assms(1) have "data_fd (ev_data e) = tfd \<or> (\<exists>d. os (ev_data e) = Some d \<and> conn_status d \<noteq> CONN_CLOSED \<and> 0 < fd \<and>
      (need_reconnect d \<or> conn_sd d = fd))" unfolding conn_regs_def by blast
    with assms(2,3) show ?thesis by (cases "ev_data e = a") auto
  qed (use assms(2,3) in auto)
qed

lemma sinv_kst: "reg k = reg (kst s) \<Longrightarrow> sinv p reg tfd ts (s\<lparr>kst := k\<rparr>) = sinv p reg tfd ts s"
  by (simp add: sinv_def)

lemma conn_regs_timer:
  "conn_regs r tfd os \<Longrightarrow> (\<And>fd e. r' fd = Some e \<Longrightarrow> r fd = Some e \<or> data_fd (ev_data e) = tfd) \<Longrightarrow> conn_regs r' tfd os"
  unfolding conn_regs_def by blast

lemma do_connect_calls:
  assumes k: "epoll_ok (worker_kernel p) epfd reg" and wk: "epoll_fd wk = epfd" and d: "do_connect sk c = (n, c')"
  shows "\<exists>k'. apply_calls p a (drop (length (calls c)) (calls c')) (wk, s) = (wk, s\<lparr>kst := k'\<rparr>) \<and>
      reg_le a (conn_sd c') (reg (kst s)) (reg k') \<and> same_owner c c' \<and> conn_status c' = conn_status c \<and>
      (streams_ok m c \<longrightarrow> streams_ok m c')"
proof -
  obtain fd w where f: "sys_socket sk (world c) = (fd, w)" by fastforce
  obtain r w1 where g: "sys_connect sk fd (remote_host c) (remote_port c) w = (r, w1)" by fastforce
  have n: "reg_le a (conn_sd c') (reg (kst s)) (reg (kst s))" by (rule reg_le_refl)
  show ?thesis
  proof (cases r)
    case Bad_address
    with d f g n show ?thesis
      by (intro exI [of _ "kst s"]) (auto simp: do_connect_def Let_def same_owner_def streams_simps)
  next
    case Connect_failed
    with d f g worker_ops_reg(4) [OF k wk, of a "conn_sd c'" "kst s" fd] show ?thesis
      by (intro exI [of _ "sys_close (worker_kernel p) fd (kst s)"])
        (auto simp: do_connect_def Let_def same_owner_def worker_call_def streams_simps)
  next
    case Connected
    have c': "c' = worker_call (Add_event fd (epoll_events c OR EPOLLOUT)) (c\<lparr>conn_sd := fd, world := w1, epoll_events := epoll_events c OR EPOLLOUT\<rparr>)"
      using d f g Connected by (auto simp: do_connect_def Let_def)
    show ?thesis
      using worker_ops_reg(2) [OF k wk, of a fd "kst s" "epoll_events c OR EPOLLOUT"]
      by (intro exI [of _ "snd (add_event (worker_kernel p) wk fd a (epoll_events c OR EPOLLOUT) (kst s))"])
        (auto simp: c' same_owner_def worker_call_def streams_simps)
  qed
qed

lemma start_timer_world:
  assumes t: "timers_ok p epfd tfd reg" and st: "start_timer (timer_env p) h i l w t0 = (n, w', t')"
  shows "fst w' = fst w \<and> (\<exists>k. snd w' = (snd w)\<lparr>kst := k\<rparr> \<and> reg k = reg (kst (snd w)))"
proof -
  obtain now w1 where g: "get_now (timer_env p) w = (now, w1)" by (metis prod.exhaust)
  with st have "w' = w1" by (auto simp: start_timer_def Let_def split: prod.splits)
  with t g show ?thesis unfolding timers_ok_def by blast
qed

section \<open>Actions\<close>

text \<open>What a step of the application or of the loop keeps: the invariant, and the objects of \<open>D\<close>.\<close>

definition keeps ::
    "('u, 'w, 'h, 'k) server_params \<Rightarrow> int \<Rightarrow> int \<Rightarrow> ('k \<Rightarrow> int \<Rightarrow> epoll_event option) \<Rightarrow> u64 set \<Rightarrow> ('u, 'w, 'h, 'k) system \<Rightarrow> bool" where
  "keeps p epfd tfd reg D x \<longleftrightarrow> sys_inv p epfd tfd reg x \<and> D \<subseteq> dom (objs (snd x))"

lemma apply_call_objs:
  assumes "timers_ok p epfd tfd reg"
  shows "objs (snd (apply_call p a wc x)) = objs (snd x)"
proof -
  obtain wk s where [simp]: "x = (wk, s)" by fastforce
  show ?thesis
  proof (cases wc)
    case (Start_timer i l)
    obtain n w' t' where st: "start_timer (timer_env p) (reconnect_handler p a) i l (tasks wk, s) (timers wk) = (n, w', t')" by (metis prod.exhaust)
    from start_timer_world [OF assms st] obtain k where "snd w' = s\<lparr>kst := k\<rparr>" by auto
    with Start_timer st show ?thesis by (cases w') simp
  qed simp_all
qed

lemma put_conn_objs:
  assumes "timers_ok p epfd tfd reg"
  shows "objs (snd (put_conn p a c c' x)) = (objs (snd x))(a \<mapsto> c')"
proof -
  have "objs (snd (apply_calls p a cs y)) = objs (snd y)" for cs y
    using apply_call_objs [OF assms] by (induction cs arbitrary: y) simp_all
  then show ?thesis by (simp add: put_conn_def)
qed

text \<open>The ids of the connections that the tasks take out of the map.\<close>

definition task_ids :: "conn_task list \<Rightarrow> ('u, 'w, 'k) server \<Rightarrow> u64 set" where
  "task_ids ts s = {cid. \<exists>a c. Remove_task a \<in> set ts \<and> objs s a = Some c \<and> conn_id c = cid}"

text \<open>After the tasks no closed connection is left, and each object is in the map under its id.\<close>

definition no_closed :: "('u, 'w, 'h, 'k) system \<Rightarrow> bool" where
  "no_closed x \<longleftrightarrow> (\<forall>a c. objs (snd x) a = Some c \<longrightarrow> conn_status c \<noteq> CONN_CLOSED)"

locale server_system = conn_methods "socket_kernel p" "methods p"
  for p :: "('u, 'w, 'h, 'k) server_params" +
  fixes epfd tfd :: int and reg :: "'k \<Rightarrow> int \<Rightarrow> epoll_event option"
  assumes socket_ok: "kernel_ok (socket_kernel p)"
    and epoll: "epoll_ok (worker_kernel p) epfd reg"
    and timers: "timers_ok p epfd tfd reg"
    and timer_fd_range: "-(2 ^ 31) \<le> tfd" "tfd < 2 ^ 31"
begin

lemma keeps_put:
  assumes x: "keeps p epfd tfd reg D x" and a: "objs (snd x) a = Some c" and e: "kept c c' \<or> ended c c'"
    and o: "same_owner c c'" and r: "streams_ok (buffer_size p) c'"
  shows "keeps p epfd tfd reg D (put_conn p a c c' x)"
  using put_conn_effect [OF epoll _ a e o r] x put_conn_objs [OF timers, of a c c' x] by (auto simp: keeps_def)

lemma live_ok:
  assumes "keeps p epfd tfd reg D x" "objs (snd x) a = Some c"
  shows "streams_ok (buffer_size p) c" "tcp_worker c" "factory c" "conn_status c = CONN_CLOSED \<Longrightarrow> \<not> need_reconnect c"
  using assms by (auto simp: keeps_def sys_inv_def sinv_def conn_ok_def)

lemma keeps_enable:
  assumes x: "keeps p epfd tfd reg D x" and a: "objs (snd x) a = Some c" and c: "conn_status c \<noteq> CONN_CLOSED"
  shows "keeps p epfd tfd reg D (put_conn p a c (enable_reconnect t c) x)"
proof -
  obtain wk s where [simp]: "x = (wk, s)" by fastforce
  let ?c = "enable_reconnect t c"
  obtain n w' t' where st: "start_timer (timer_env p) (reconnect_handler p a) t True
      (tasks wk, s\<lparr>objs := (objs s)(a \<mapsto> ?c)\<rparr>) (timers wk) = (n, w', t')" by (metis prod.exhaust)
  from start_timer_world [OF timers st] obtain k where k: "w' = (tasks wk, s\<lparr>objs := (objs s)(a \<mapsto> ?c), kst := k\<rparr>)" "reg k = reg (kst s)"
    by (cases w') auto
  have p: "put_conn p a c ?c x = (wk\<lparr>timers := t', tasks := tasks wk\<rparr>, s\<lparr>objs := (objs s)(a \<mapsto> ?c), kst := k\<rparr>)"
    using st k(1) by (simp add: put_conn_def enable_reconnect_def worker_call_def)
  have inv: "sinv p reg tfd (tasks wk) s" and ac: "objs s a = Some c" using x a by (simp_all add: keeps_def sys_inv_def)
  have "sinv p reg tfd (tasks wk) (s\<lparr>objs := (objs s)(a \<mapsto> ?c), kst := k\<rparr>)"
  proof (rule sinv_put [OF inv ac])
    show "conn_ok (buffer_size p) ?c" using live_ok [OF x a] c
      by (simp add: conn_ok_def enable_reconnect_def worker_call_def streams_simps)
    show "conn_regs (reg k) tfd ((objs s)(a \<mapsto> ?c))"
      by (rule conn_regs_reconnect [of "reg (kst s)" _ _ _ _ 0])
        (use inv c k(2) in \<open>simp_all add: sinv_def enable_reconnect_def worker_call_def reg_le_refl\<close>)
  qed (use c in \<open>simp_all add: enable_reconnect_def worker_call_def\<close>)
  then show ?thesis using x p by (auto simp: keeps_def sys_inv_def)
qed

lemma keeps_reconnect:
  assumes x: "keeps p epfd tfd reg D x" and a: "objs (snd x) a = Some c" and c: "need_reconnect c"
  shows "keeps p epfd tfd reg D (put_conn p a c (snd (reconnect_timer (socket_kernel p) c)) x)"
proof (cases "is_open c")
  case True
  have "keeps p epfd tfd reg D (put_conn p a c c x)"
    by (rule keeps_put [OF x a]) (simp_all add: kept_refl same_owner_refl live_ok(1) [OF x a])
  with True show ?thesis by (simp add: reconnect_timer_def)
next
  case False
  obtain wk s where [simp]: "x = (wk, s)" by fastforce
  obtain n c' where d: "do_connect (socket_kernel p) c = (n, c')" by fastforce
  have inv: "sinv p reg tfd (tasks wk) s" and ac: "objs s a = Some c" and wk: "epoll_fd wk = epfd"
    using x a by (simp_all add: keeps_def sys_inv_def)
  from do_connect_calls [OF epoll wk d, of a "s\<lparr>objs := (objs s)(a \<mapsto> c')\<rparr>" "buffer_size p"] obtain k' where
    k': "put_conn p a c c' x = (wk, s\<lparr>objs := (objs s)(a \<mapsto> c'), kst := k'\<rparr>)" "reg_le a (conn_sd c') (reg (kst s)) (reg k')"
      "same_owner c c'" "conn_status c' = conn_status c" "streams_ok (buffer_size p) c \<longrightarrow> streams_ok (buffer_size p) c'"
    by (auto simp: put_conn_def)
  have nc: "conn_status c \<noteq> CONN_CLOSED" using live_ok(4) [OF x a] c by blast
  have "sinv p reg tfd (tasks wk) (s\<lparr>objs := (objs s)(a \<mapsto> c'), kst := k'\<rparr>)"
  proof (rule sinv_put [OF inv ac])
    show "conn_ok (buffer_size p) c'" using live_ok [OF x a] c k' nc by (simp add: conn_ok_def same_owner_def)
    show "conn_regs (reg k') tfd ((objs s)(a \<mapsto> c'))"
      by (rule conn_regs_reconnect [OF _ _ _ k'(2)]) (use inv nc c k' in \<open>simp_all add: sinv_def same_owner_def\<close>)
  qed (use nc k' in \<open>simp_all add: same_owner_def\<close>)
  with x k' d False show ?thesis by (auto simp: keeps_def sys_inv_def reconnect_timer_def)
qed

lemma act_keeps: "server_act p x y \<Longrightarrow> keeps p epfd tfd reg D x \<Longrightarrow> keeps p epfd tfd reg D y"
proof (induction rule: server_act.induct)
  case (act_client y a c c')
  then have y: "keeps p epfd tfd reg D y" by blast
  from client_effect [OF socket_ok act_client.hyps(3) live_ok(1) [OF y act_client.hyps(2)]]
  show ?case using keeps_put [OF y act_client.hyps(2)] by blast
qed (blast intro: keeps_enable keeps_reconnect)+

text \<open>The timer descriptor.\<close>

lemma add_timer_reg:
  assumes wk: "epoll_fd wk = epfd" "timer_fd wk = tfd" and x: "keeps p epfd tfd reg D (wk, s)"
  shows "keeps p epfd tfd reg D (wk, snd (Epoll_Worker.add_timer (server_kernel p) wk md i d s))"
proof -
  let ?wk = "worker_kernel p"
  obtain r k1 where 1: "sys_timerfd_settime ?wk (timer_fd wk) (timer_spec i d) (kst s) = (r, k1)" by fastforce
  obtain r' k2 where 2: "sys_epoll_ctl ?wk (epoll_fd wk) (if md then CTL_MOD else CTL_ADD) (timer_fd wk)
      (Some \<lparr>ev_data = data_of_fd (timer_fd wk), ev_events = 1\<rparr>) k1 = (r', k2)" by fastforce
  have t: "\<exists>k. snd (Epoll_Worker.add_timer (server_kernel p) wk md i d s) = s\<lparr>kst := k\<rparr> \<and> (k = k1 \<or> k = k2)"
    using 1 2 by (cases s) (auto simp: Epoll_Worker.add_timer_def server_kernel_def Let_def on_kst_def)
  have k1: "reg k1 = reg (kst s)" using epoll_okD(3) [OF epoll, of "timer_fd wk" "timer_spec i d" "kst s"] 1 by simp
  have k2: "reg k2 fd = Some e \<Longrightarrow> reg (kst s) fd = Some e \<or> data_fd (ev_data e) = tfd" for fd e
    using epoll_okD(1) [OF epoll, of "if md then CTL_MOD else CTL_ADD"] 2 wk k1 data_fd_of_fd [OF timer_fd_range]
    by (fastforce split: if_splits)
  have rg: "conn_regs (reg (kst s)) tfd (objs s)" using x by (simp add: keeps_def sys_inv_def sinv_def)
  have "conn_regs (reg k2) tfd (objs s)" by (rule conn_regs_timer [OF rg k2])
  with t k1 x rg show ?thesis by (auto simp: keeps_def sys_inv_def sinv_def)
qed

lemma timer_event_keeps:
  assumes x: "keeps p epfd tfd reg D x"
  shows "timer_event (server_env p) (server_kernel p) x \<noteq> Undefined"
    "timer_event (server_env p) (server_kernel p) x = Ok y \<Longrightarrow> keeps p epfd tfd reg D y"
proof -
  obtain wk s where [simp]: "x = (wk, s)" by fastforce
  let ?P = "\<lambda>(ts, s). sinv p reg tfd ts s \<and> D \<subseteq> dom (objs s)"
  show "timer_event (server_env p) (server_kernel p) x \<noteq> Undefined"
    by (auto simp: timer_event_def bind_out_Undefined Let_def split: prod.splits)
  assume "timer_event (server_env p) (server_kernel p) x = Ok y"
  then obtain d ts s' t where l: "timer_loop (timer_env p) (tasks wk, s) (timers wk) = Some (d, (ts, s'), t)"
    and y: "y = (wk\<lparr>timers := t, tasks := ts\<rparr>,
      snd (Epoll_Worker.add_timer (server_kernel p) (wk\<lparr>timers := t, tasks := ts\<rparr>) True (of_int d) 1 s'))"
    by (auto simp: timer_event_def bind_out_Ok server_env_def Let_def split: prod.splits)
  have now: "?P w'" if "?P w" "get_now (timer_env p) w = (n, w')" for w n w'
  proof -
    from timers_okD(1) [OF timers that(2)] obtain ts s k where w: "w = (ts, s)" "w' = (ts, s\<lparr>kst := k\<rparr>)" and k: "reg k = reg (kst s)"
      by (metis prod.collapse)
    show ?thesis using that(1) unfolding w by (simp add: sinv_kst [where s = s, OF k])
  qed
  have call: "?P w'" if "?P w" "call_handler (timer_env p) h w t = (b, w', t')" for h w t b w' t'
  proof -
    obtain ts s where [simp]: "w = (ts, s)" by fastforce
    obtain ts' s' where [simp]: "w' = (ts', s')" by fastforce
    from that(2) have "call_handler (timer_env p) h (ts, s) t = (b, (ts', s'), t')" by simp
    from timers_okD(2) [OF timers this] obtain wk wk' where k: "epoll_fd wk = epfd" "timer_fd wk = tfd" "tasks wk = ts" "tasks wk' = ts'"
      "server_act p (wk, s) (wk', s')" by blast
    from act_keeps [OF k(5), of D] k that(1) show ?thesis by (simp add: keeps_def sys_inv_def)
  qed
  have "?P (ts, s')" using timer_loop_keeps [of ?P, OF now call l] x by (simp add: keeps_def sys_inv_def)
  then show "keeps p epfd tfd reg D y" unfolding y using x by (intro add_timer_reg) (simp_all add: keeps_def sys_inv_def)
qed

lemma conn_event_keeps:
  assumes x: "keeps p epfd tfd reg D x" and y: "conn_event p a evts x = Ok y"
  shows "keeps p epfd tfd reg D y"
proof -
  from y obtain c c' where c: "objs (snd x) a = Some c" and
    e: "Tcp_Connection.process_event (socket_kernel p) (methods p) (buffer_size p) evts c = Some c'" and
    y': "y = put_conn p a c c' x"
    by (auto simp: conn_event_def bind_out_Ok split: option.splits)
  from process_event_effect [OF socket_ok live_ok(2,3,1) [OF x c] e] show ?thesis
    unfolding y' using keeps_put [OF x c] by blast
qed

text \<open>Every event of a batch finds its object: the objects of its addresses stay until the tasks are run.\<close>

lemma event_loop_keeps:
  assumes "keeps p epfd tfd reg D x" "\<forall>ev \<in> set evs. data_fd (ev_data ev) = tfd \<or> ev_data ev \<in> D"
  shows "event_loop (server_env p) (server_kernel p) evs x \<noteq> Undefined \<and>
    (\<forall>y. event_loop (server_env p) (server_kernel p) evs x = Ok y \<longrightarrow> keeps p epfd tfd reg D y)"
  using assms
proof (induction evs arbitrary: x)
  case (Cons ev evs)
  have tfd: "timer_fd (fst x) = tfd" using Cons.prems(1) by (simp add: keeps_def sys_inv_def)
  have "dispatch (server_env p) (server_kernel p) ev x \<noteq> Undefined"
  proof (cases "data_fd (ev_data ev) = tfd")
    case False
    with Cons.prems have "objs (snd x) (ev_data ev) \<noteq> None" by (auto simp: keeps_def)
    then have "conn_event p (ev_data ev) (ev_events ev) x \<noteq> Undefined"
      by (auto simp: conn_event_def bind_out_Undefined split: option.splits)
    with False tfd show ?thesis by (simp add: dispatch_def server_env_def)
  qed (use timer_event_keeps(1) [OF Cons.prems(1)] tfd in \<open>simp add: dispatch_def\<close>)
  moreover have "keeps p epfd tfd reg D y" if "dispatch (server_env p) (server_kernel p) ev x = Ok y" for y
    using that tfd timer_event_keeps(2) [OF Cons.prems(1)] conn_event_keeps [OF Cons.prems(1)] Cons.prems(1)
    by (auto simp: dispatch_def server_env_def split: if_splits)
  ultimately show ?case using Cons.IH Cons.prems(2) by (auto simp: bind_out_Undefined bind_out_Ok)
qed simp

text \<open>The tasks take the closed connections out of the map, and nothing else.\<close>

lemma task_loop_removes:
  assumes "\<And>a. Remove_task a \<in> set ts \<Longrightarrow> objs (snd x) a \<noteq> None"
  shows "task_loop (server_env p) ts x =
    Ok (fst x, (snd x)\<lparr>connection_map := connection_map (snd x) |` (- task_ids ts (snd x))\<rparr>)"
  using assms
proof (induction ts arbitrary: x)
  case Nil
  have "connection_map (snd x) |` (- task_ids [] (snd x)) = connection_map (snd x)"
    by (rule ext) (simp add: task_ids_def restrict_map_def)
  then show ?case by (cases x) simp
next
  case (Cons t ts)
  obtain a where t: "t = Remove_task a" by (cases t)
  from Cons.prems t obtain c where c: "objs (snd x) a = Some c" by fastforce
  let ?y = "(fst x, (snd x)\<lparr>connection_map := (connection_map (snd x))(conn_id c := None)\<rparr>)"
  have "task_ids (t # ts) (snd x) = insert (conn_id c) (task_ids ts (snd ?y))"
    using t c by (auto simp: task_ids_def)
  moreover have "(m(i := None)) |` (- A) = m |` (- insert i A)" for m :: "u64 \<rightharpoonup> u64" and i A
    by (auto simp: restrict_map_def)
  moreover have "task_loop (server_env p) ts ?y = Ok (fst ?y, (snd ?y)\<lparr>connection_map := connection_map (snd ?y) |` (- task_ids ts (snd ?y))\<rparr>)"
    by (rule Cons.IH) (use Cons.prems in auto)
  ultimately show ?case using t c by (simp add: server_env_def run_conn_task_def remove_connection_def)
qed

lemma run_tasks_inv:
  assumes x: "sys_inv p epfd tfd reg x"
  shows "\<exists>y. run_tasks (server_env p) x = Ok y \<and> sys_inv p epfd tfd reg y \<and> no_closed y \<and> tasks (fst y) = [] \<and>
    (\<forall>a c. objs (snd y) a = Some c \<longleftrightarrow> objs (snd x) a = Some c \<and> conn_status c \<noteq> CONN_CLOSED)"
proof -
  obtain wk s where [simp]: "x = (wk, s)" by fastforce
  have wk: "epoll_fd wk = epfd" "timer_fd wk = tfd" and inv: "sinv p reg tfd (tasks wk) s" using x by (simp_all add: sys_inv_def)
  have o: "conn_ok (buffer_size p) c \<and> connection_map s (conn_id c) = Some a \<and> (conn_status c = CONN_CLOSED \<longrightarrow> Remove_task a \<in> set (tasks wk))"
    if "objs s a = Some c" for a c using inv that by (auto simp: sinv_def)
  have m: "cid \<le> connection_index s \<and> (\<exists>c. objs s a = Some c \<and> conn_id c = cid)" if "connection_map s cid = Some a" for cid a
    using inv that unfolding sinv_def by blast
  have tk: "\<exists>c. objs s a = Some c \<and> conn_status c = CONN_CLOSED" if "Remove_task a \<in> set (tasks wk)" for a
    using inv that by (auto simp: sinv_def)
  let ?m = "connection_map s |` (- task_ids (tasks wk) s)"
  let ?s = "s\<lparr>connection_map := ?m, objs := objs s |` ran ?m\<rparr>"
  have r: "run_tasks (server_env p) x = Ok (wk\<lparr>tasks := []\<rparr>, ?s)"
    using task_loop_removes [of "tasks wk" x] tk
    by (fastforce simp: run_tasks_def server_env_def destroy_conns_def)
  have live: "a \<in> ran ?m \<longleftrightarrow> (\<exists>c. objs s a = Some c \<and> conn_status c \<noteq> CONN_CLOSED)" for a
  proof
    assume "a \<in> ran ?m"
    then obtain cid where c: "connection_map s cid = Some a" "cid \<notin> task_ids (tasks wk) s"
      by (auto simp: ran_def restrict_map_def split: if_splits)
    from m [OF c(1)] obtain c where "objs s a = Some c" "conn_id c = cid" by blast
    with o [of a c] c(2) show "\<exists>c. objs s a = Some c \<and> conn_status c \<noteq> CONN_CLOSED" by (auto simp: task_ids_def)
  next
    assume "\<exists>c. objs s a = Some c \<and> conn_status c \<noteq> CONN_CLOSED"
    then obtain c where c: "objs s a = Some c" "conn_status c \<noteq> CONN_CLOSED" by blast
    have "conn_id c \<notin> task_ids (tasks wk) s"
    proof
      assume "conn_id c \<in> task_ids (tasks wk) s"
      then obtain b d where d: "Remove_task b \<in> set (tasks wk)" "objs s b = Some d" "conn_id d = conn_id c" by (auto simp: task_ids_def)
      from o [OF c(1)] o [OF d(2)] d(3) have "b = a" by simp
      with tk [OF d(1)] d(2) c show False by simp
    qed
    with o [OF c(1)] show "a \<in> ran ?m" by (auto simp: ran_def restrict_map_def)
  qed
  have obj: "objs ?s a = Some c \<longleftrightarrow> objs s a = Some c \<and> conn_status c \<noteq> CONN_CLOSED" for a c
    using live [of a] by (auto simp: restrict_map_def)
  have 1: "conn_ok (buffer_size p) c \<and> ?m (conn_id c) = Some a" if "objs ?s a = Some c" for a c
  proof -
    have c: "objs s a = Some c" "a \<in> ran ?m" using that obj live [of a] by blast+
    from c(2) obtain cid where "?m cid = Some a" by (auto simp: ran_def)
    moreover from this have "connection_map s cid = Some a" by (auto simp: restrict_map_def split: if_splits)
    ultimately show ?thesis using m c(1) o [OF c(1)] by fastforce
  qed
  have 2: "cid \<le> connection_index s \<and> (\<exists>c. objs ?s a = Some c \<and> conn_id c = cid)" if c: "?m cid = Some a" for cid a
  proof -
    have "connection_map s cid = Some a" "a \<in> ran ?m" using c by (auto simp: ran_def restrict_map_def split: if_splits)
    with m [of cid a] show ?thesis by (auto simp: restrict_map_def)
  qed
  have 3: "conn_regs (reg (kst s)) tfd (objs ?s)"
    using inv obj unfolding sinv_def conn_regs_def by blast
  have "sinv p reg tfd [] ?s"
    unfolding sinv_def
  proof (intro conjI allI impI)
    fix a c
    assume c: "objs ?s a = Some c"
    from 1 [OF c] show "conn_ok (buffer_size p) c" "connection_map ?s (conn_id c) = Some a" by simp_all
    from c show "conn_status c = CONN_CLOSED \<Longrightarrow> Remove_task a \<in> set []" using obj by blast
  next
    fix cid a
    assume c: "connection_map ?s cid = Some a"
    then show "cid \<le> connection_index ?s" "\<exists>c. objs ?s a = Some c \<and> conn_id c = cid" using 2 [of cid a] by simp_all
  qed (use 3 in simp_all)
  moreover have "no_closed (wk\<lparr>tasks := []\<rparr>, ?s)" using obj by (simp add: no_closed_def)
  ultimately have i: "sys_inv p epfd tfd reg (wk\<lparr>tasks := []\<rparr>, ?s)" "no_closed (wk\<lparr>tasks := []\<rparr>, ?s)"
    using wk by (simp_all add: sys_inv_def)
  have l: "\<forall>a c. objs (snd (wk\<lparr>tasks := []\<rparr>, ?s)) a = Some c \<longleftrightarrow> objs (snd x) a = Some c \<and> conn_status c \<noteq> CONN_CLOSED"
    using obj by simp
  show ?thesis by (intro exI [of _ "(wk\<lparr>tasks := []\<rparr>, ?s)"] conjI r i l) simp
qed

lemma pass_inv:
  assumes x: "sys_inv p epfd tfd reg x"
  shows "server_pass p x \<noteq> Undefined \<and> (\<forall>y. server_pass p x = Ok y \<longrightarrow> sys_inv p epfd tfd reg y \<and>
    (no_closed y \<and> tasks (fst y) = [] \<or> tasks (fst y) = tasks (fst x) \<and> objs (snd y) = objs (snd x)))"
proof -
  obtain wk s where [simp]: "x = (wk, s)" by fastforce
  obtain r k where w: "sys_epoll_wait (worker_kernel p) (epoll_fd wk) MAX_WAIT_EVENT (kst s) = (r, k)" by fastforce
  have wk: "epoll_fd wk = epfd" "timer_fd wk = tfd" using x by (simp_all add: sys_inv_def)
  let ?x = "(wk, s\<lparr>kst := k\<rparr>)"
  have k: "reg k = reg (kst s)" using epoll_okD(4) [OF epoll, of MAX_WAIT_EVENT "kst s"] w wk by simp
  have inv: "sys_inv p epfd tfd reg ?x" using x by (simp add: sys_inv_def sinv_kst [where s = s, OF k])
  have p: "server_pass p x = (case r of Wait_error eintr \<Rightarrow> if eintr then Ok ?x else run_tasks (server_env p) ?x
      | Wait_events evs \<Rightarrow> bind_out (event_loop (server_env p) (server_kernel p) evs ?x) (run_tasks (server_env p)))"
  proof -
    have "sys_epoll_wait (server_kernel p) (epoll_fd wk) MAX_WAIT_EVENT s = (r, s\<lparr>kst := k\<rparr>)"
      using w by (simp add: server_kernel_def Let_def on_kst_def)
    then show ?thesis by (simp add: server_pass_def run_pass_def)
  qed
  show ?thesis
  proof (cases r)
    case (Wait_error b)
    with p inv run_tasks_inv [OF inv] show ?thesis by (cases b) auto
  next
    case (Wait_events evs)
    have D: "keeps p epfd tfd reg (dom (objs s)) ?x" using inv by (simp add: keeps_def)
    have "data_fd (ev_data ev) = tfd \<or> ev_data ev \<in> dom (objs s)" if "ev \<in> set evs" for ev
    proof -
      from epoll_okD(5) [OF epoll _ that] w wk Wait_events obtain fd e where "reg (kst s) fd = Some e" "ev_data e = ev_data ev" by blast
      with x show ?thesis unfolding sys_inv_def sinv_def conn_regs_def by fastforce
    qed
    with event_loop_keeps [OF D] have e: "event_loop (server_env p) (server_kernel p) evs ?x \<noteq> Undefined"
      "\<And>y. event_loop (server_env p) (server_kernel p) evs ?x = Ok y \<Longrightarrow> sys_inv p epfd tfd reg y" by (auto simp: keeps_def)
    with p Wait_events run_tasks_inv show ?thesis by (fastforce simp: bind_out_Undefined bind_out_Ok)
  qed
qed

text \<open>A new connection.\<close>

lemma sinv_new:
  assumes "sinv p reg tfd ts s" "objs s a = None" "connection_index s \<noteq> -1" "conn_ok (buffer_size p) c"
    "conn_status c \<noteq> CONN_CLOSED" "conn_id c = connection_index s + 1"
    "\<And>fd e. reg k' fd = Some e \<Longrightarrow> reg (kst s) fd = Some e \<or> 0 < fd \<and> ev_data e = a \<and> (need_reconnect c \<or> conn_sd c = fd)"
  shows "sinv p reg tfd ts (s\<lparr>connection_index := connection_index s + 1, objs := (objs s)(a \<mapsto> c),
    connection_map := (connection_map s)(connection_index s + 1 \<mapsto> a), kst := k'\<rparr>)"
proof -
  let ?i = "connection_index s + 1"
  have "1 + connection_index s \<noteq> 0" using assms(3) by (metis add.commute add.right_neutral add_diff_cancel_left' diff_0)
  then have "unat ?i = Suc (unat (connection_index s))" using unatSuc [of "connection_index s"] by (simp add: add.commute)
  then have lt: "connection_index s < ?i" by (simp add: word_less_nat_alt)
  have o: "conn_ok (buffer_size p) d \<and> connection_map s (conn_id d) = Some b \<and> (conn_status d = CONN_CLOSED \<longrightarrow> Remove_task b \<in> set ts)"
    if "objs s b = Some d" for b d using assms(1) that by (auto simp: sinv_def)
  have m: "cid \<le> connection_index s \<and> (\<exists>d. objs s b = Some d \<and> conn_id d = cid)" if "connection_map s cid = Some b" for cid b
    using assms(1) that unfolding sinv_def by blast
  have tk: "\<exists>d. objs s b = Some d \<and> conn_status d = CONN_CLOSED" if "Remove_task b \<in> set ts" for b
    using assms(1) that by (auto simp: sinv_def)
  have rg: "conn_regs (reg k') tfd ((objs s)(a \<mapsto> c))"
    unfolding conn_regs_def
  proof (intro allI impI)
    fix fd e assume "reg k' fd = Some e"
    with assms(7) consider "reg (kst s) fd = Some e" | "0 < fd" "ev_data e = a" "need_reconnect c \<or> conn_sd c = fd" by blast
    then show "data_fd (ev_data e) = tfd \<or> (\<exists>d. ((objs s)(a \<mapsto> c)) (ev_data e) = Some d \<and> conn_status d \<noteq> CONN_CLOSED \<and> 0 < fd \<and>
        (need_reconnect d \<or> conn_sd d = fd))"
    proof cases
      case 1
      with assms(1) have "data_fd (ev_data e) = tfd \<or> (\<exists>d. objs s (ev_data e) = Some d \<and> conn_status d \<noteq> CONN_CLOSED \<and> 0 < fd \<and>
        (need_reconnect d \<or> conn_sd d = fd))" unfolding sinv_def conn_regs_def by blast
      with assms(2) show ?thesis by (cases "ev_data e = a") auto
    qed (use assms(5) in auto)
  qed
  show ?thesis
    unfolding sinv_def
  proof (intro conjI allI impI, goal_cases)
    case (1 b d)
    with o assms(4) show ?case by (cases "b = a") auto
  next
    case (2 b d)
    show ?case
    proof (cases "b = a")
      case False
      with 2 o [of b d] have "connection_map s (conn_id d) = Some b" by simp
      moreover from m [OF this] lt have "conn_id d \<noteq> ?i" by auto
      ultimately show ?thesis by simp
    qed (use 2 assms(6) in simp)
  next
    case (3 b d)
    with o [of b d] assms(5) show ?case by (cases "b = a") auto
  next
    case (4 cid b)
    with m [of cid b] lt show ?case by (cases "cid = ?i") (auto intro: order_trans order_less_imp_le)
  next
    case (5 cid b)
    show ?case
    proof (cases "cid = ?i")
      case True
      with 5 assms(6) show ?thesis by simp
    next
      case False
      with 5 have "connection_map s cid = Some b" by simp
      with m [of cid b] obtain d where d: "objs s b = Some d" "conn_id d = cid" by blast
      with assms(2) have "b \<noteq> a" by auto
      with d show ?thesis by simp
    qed
  next
    case (6 b)
    with tk [of b] assms(2) show ?case by (cases "b = a") auto
  next
    case 7
    with rg show ?case by simp
  qed
qed

lemma conn_init_fields:
  "conn_status (conn_init fd h q b c) = conn_status c" "conn_id (conn_init fd h q b c) = conn_id c"
  "need_reconnect (conn_init fd h q b c) = need_reconnect c" "conn_sd (conn_init fd h q b c) = (if 0 < fd then fd else conn_sd c)"
  "tcp_worker (conn_init fd h q b c) = tcp_worker c" "factory (conn_init fd h q b c) = factory c"
  "read_buffer (conn_init fd h q b c) = read_buffer c" "read_buffer_pos (conn_init fd h q b c) = read_buffer_pos c"
  "calls (conn_init fd h q b c) = calls c" "accepted (conn_init fd h q b c) = accepted c" "sent (conn_init fd h q b c) = sent c"
  "send_buffer (conn_init fd h q b c) = send_buffer c" "received (conn_init fd h q b c) = received c"
  "delivered (conn_init fd h q b c) = delivered c"
  by (simp_all add: conn_init_def Let_def)

lemma accept_inv:
  assumes x: "sys_inv p epfd tfd reg x" and a: "objs (snd x) a = None" "connection_index (snd x) \<noteq> -1" and mem: "buffer_size p \<le> length mem"
  shows "sys_inv p epfd tfd reg (accept_event p on_create mem u w a evts client x)"
proof (cases "has_event evts EPOLLIN \<and> client \<noteq> None")
  case False
  with x show ?thesis by (auto simp: accept_event_def split: option.split)
next
  case True
  then obtain fd h q where cl: "client = Some (fd, h, q)" by (cases client) auto
  obtain wk s where [simp]: "x = (wk, s)" by fastforce
  let ?i = "connection_index s + 1"
  define c where "c = conn_init fd h q True
    ((make_connection mem u w ?i)\<lparr>is_passive := True, factory := True, app := on_create ?i u, tcp_worker := True\<rparr>)"
  define k' where "k' = snd (add_event (worker_kernel p) wk fd a (EPOLLET OR EPOLLIN OR EPOLLOUT OR EPOLLERR) (kst s))"
  have e: "accept_event p on_create mem u w a evts client x =
      (wk, s\<lparr>connection_index := ?i, objs := (objs s)(a \<mapsto> c), connection_map := (connection_map s)(?i \<mapsto> a), kst := k'\<rparr>)"
    using True cl unfolding c_def k'_def
    by (cases "add_event (worker_kernel p) wk fd a (EPOLLET OR EPOLLIN OR EPOLLOUT OR EPOLLERR) (kst s)")
      (cases s, simp add: accept_event_def create_def add_connection_def make_connection_def Let_def)
  have wk: "epoll_fd wk = epfd" using x by (simp add: sys_inv_def)
  have "sinv p reg tfd (tasks wk) (s\<lparr>connection_index := ?i, objs := (objs s)(a \<mapsto> c), connection_map := (connection_map s)(?i \<mapsto> a), kst := k'\<rparr>)"
  proof (rule sinv_new)
    show "conn_ok (buffer_size p) c" using mem by (simp add: conn_ok_def c_def conn_init_fields make_connection_def streams_simps)
    show "reg (kst s) g = Some e \<or> 0 < g \<and> ev_data e = a \<and> (need_reconnect c \<or> conn_sd c = g)" if "reg k' g = Some e" for g e
      using that worker_ops_reg(2) [OF epoll wk, of a fd "kst s"] unfolding k'_def reg_le_def
      by (auto simp: c_def conn_init_fields)
  qed (use x a in \<open>simp_all add: sys_inv_def c_def conn_init_fields make_connection_def\<close>)
  with e x show ?thesis by (simp add: sys_inv_def)
qed

lemma connect_inv:
  assumes x: "sys_inv p epfd tfd reg x" and a: "objs (snd x) a = None" "connection_index (snd x) \<noteq> -1" and mem: "buffer_size p \<le> length mem"
  shows "sys_inv p epfd tfd reg (connect p on_create mem u w a reconnect h q x)"
proof -
  obtain wk s where [simp]: "x = (wk, s)" by fastforce
  let ?i = "connection_index s + 1"
  define c0 where "c0 = (make_connection mem u w ?i)\<lparr>is_passive := False, factory := True, app := on_create ?i u\<rparr>"
  define c where "c = conn_init 0 h q False (c0\<lparr>need_reconnect := reconnect, tcp_worker := True\<rparr>)"
  define s1 where "s1 = s\<lparr>connection_index := ?i, objs := (objs s)(a \<mapsto> c0), connection_map := (connection_map s)(?i \<mapsto> a)\<rparr>"
  obtain n c' where d: "do_connect (socket_kernel p) c = (n, c')" by fastforce
  have wk: "epoll_fd wk = epfd" using x by (simp add: sys_inv_def)
  have e: "connect p on_create mem u w a reconnect h q x = put_conn p a c c' (wk, s1)"
    using d unfolding c_def c0_def s1_def
    by (cases s) (simp add: connect_def create_def add_connection_def make_connection_def Let_def)
  from do_connect_calls [OF epoll wk d, of a "s1\<lparr>objs := (objs s1)(a \<mapsto> c')\<rparr>" "buffer_size p"] obtain k' where
    k': "put_conn p a c c' (wk, s1) = (wk, s1\<lparr>objs := (objs s1)(a \<mapsto> c'), kst := k'\<rparr>)" "reg_le a (conn_sd c') (reg (kst s)) (reg k')"
      "same_owner c c'" "conn_status c' = conn_status c" "streams_ok (buffer_size p) c \<longrightarrow> streams_ok (buffer_size p) c'"
    by (auto simp: put_conn_def s1_def)
  have s2: "s1\<lparr>objs := (objs s1)(a \<mapsto> c'), kst := k'\<rparr> =
      s\<lparr>connection_index := ?i, objs := (objs s)(a \<mapsto> c'), connection_map := (connection_map s)(?i \<mapsto> a), kst := k'\<rparr>"
    by (simp add: s1_def)
  note f = c_def c0_def conn_init_fields make_connection_def
  have "sinv p reg tfd (tasks wk) (s\<lparr>connection_index := ?i, objs := (objs s)(a \<mapsto> c'), connection_map := (connection_map s)(?i \<mapsto> a), kst := k'\<rparr>)"
  proof (rule sinv_new)
    show "conn_ok (buffer_size p) c'" using mem k'(3-5) by (simp add: conn_ok_def same_owner_def f streams_simps)
    show "reg (kst s) g = Some e \<or> 0 < g \<and> ev_data e = a \<and> (need_reconnect c' \<or> conn_sd c' = g)" if "reg k' g = Some e" for g e
      using that k'(2) by (auto simp: reg_le_def)
  qed (use x a k'(3,4) in \<open>simp_all add: sys_inv_def same_owner_def f\<close>)
  with e k'(1) s2 x show ?thesis by (simp add: sys_inv_def)
qed

lemma reach_inv: "server_reach p epfd tfd reg x \<Longrightarrow> sys_inv p epfd tfd reg x"
proof (induction rule: server_reach.induct)
  case (reach_start wk s)
  then show ?case by (simp add: sys_inv_def sinv_def conn_regs_def)
next
  case (reach_act x y)
  then show ?case using act_keeps [of x y "{}"] by (simp add: keeps_def)
next
  case (reach_pass x y)
  then show ?case using pass_inv by blast
qed (blast intro: accept_inv connect_inv)+

end

end
