(* ===== verification/Tcp_Props.thy ===== *)
theory Tcp_Props
  imports Tcp_System "HOL-Library.AList"
begin

text \<open>
  The properties of a server (src/include/tcp/epoll\_worker.h, tcp\_factory.h, tcp\_listener.h), and a concrete
  kernel on which its locale is interpreted.
\<close>

section \<open>A kernel with a list of registrations\<close>

text \<open>Its \<open>epoll_wait\<close> reports every registered descriptor as readable and writable, if it is registered for it.\<close>

definition list_event :: "epoll_event \<Rightarrow> epoll_event" where
  "list_event e = e\<lparr>ev_events := ev_events e AND (EPOLLIN OR EPOLLOUT)\<rparr>"

definition list_epoll :: "(int \<times> epoll_event) list epoll_kernel" where
  "list_epoll =
     \<lparr>sys_epoll_create = (\<lambda>w. (3, w)), sys_cloexec = (\<lambda>fd w. (0, w)), sys_timerfd_create = (\<lambda>w. (4, w)),
      sys_timerfd_settime = (\<lambda>fd t w. (0, w)),
      sys_epoll_ctl = (\<lambda>epfd op fd ev w.
        if op = CTL_DEL then (0, AList.delete fd w)
        else case ev of None \<Rightarrow> (-1, w) | Some e \<Rightarrow> (0, AList.update fd e w)),
      sys_epoll_wait = (\<lambda>epfd n w. (Wait_events (take n (map (\<lambda>x. list_event (the (map_of w (fst x)))) w)), w)),
      sys_close = (\<lambda>fd w. AList.delete fd w)\<rparr>"

lemma list_epoll_ok: "epoll_ok list_epoll epfd map_of"
proof -
  have "\<exists>fd e. map_of w fd = Some e \<and> ev_data e = ev_data ev"
    if "ev \<in> set (take n (map (\<lambda>x. list_event (the (map_of w (fst x)))) w))" for n ev and w :: "(int \<times> epoll_event) list"
  proof -
    from in_set_takeD [OF that] obtain x where x: "x \<in> set w" "ev = list_event (the (map_of w (fst x)))" by (auto simp del: fst_conv)
    from x(1) have "map_of w (fst x) \<noteq> None" using weak_map_of_SomeI [of "fst x" "snd x" w] by auto
    with x(2) show ?thesis by (intro exI [of _ "fst x"]) (auto simp: list_event_def)
  qed
  then show ?thesis
    by (auto simp: epoll_ok_def list_epoll_def AList.update_conv' AList.delete_conv' split: option.splits if_splits)
qed

text \<open>A clock that stands, and a server of the base class with it.\<close>

definition still_timers :: "(u64, 'w) timer_env" where
  "still_timers = \<lparr>get_now = (\<lambda>w. (0, w)), call_handler = (\<lambda>h w t. (True, w, t))\<rparr>"

type_synonym base_system = "(unit, bytes list, u64, (int \<times> epoll_event) list) system"

definition base_params :: "(unit, bytes list, u64, (int \<times> epoll_event) list) server_params" where
  "base_params = \<lparr>socket_kernel = script_kernel, worker_kernel = list_epoll, methods = TcpConnection_handlers,
     buffer_size = 8, timer_env = still_timers, reconnect_handler = (\<lambda>a. a)\<rparr>"

lemma base_params_simps [simp]:
  "socket_kernel base_params = script_kernel" "worker_kernel base_params = list_epoll"
  "methods base_params = TcpConnection_handlers" "buffer_size base_params = 8" "timer_env base_params = still_timers"
  by (simp_all add: base_params_def)

lemma still_timers_ok: "timers_ok base_params 3 4 map_of"
proof -
  have "\<exists>wk wk' :: (u64, conn_task) epoll_worker. epoll_fd wk = 3 \<and> timer_fd wk = 4 \<and> tasks wk = ts \<and> tasks wk' = ts \<and>
      server_act base_params (wk, s) (wk', s)" for ts s
    by (intro exI [of _ "EpollWorker\<lparr>epoll_fd := 3, timer_fd := 4, tasks := ts\<rparr>"]) (simp add: act_refl)
  moreover have "\<exists>k. b = b\<lparr>kst := k\<rparr> \<and> map_of k = map_of (kst b)" for b :: "(unit, bytes list, (int \<times> epoll_event) list) server"
    by (intro exI [of _ "kst b"]) simp
  ultimately show ?thesis by (simp add: timers_ok_def still_timers_def)
qed

lemma server_system_intro:
  "methods_ok (socket_kernel p) (methods p) \<Longrightarrow> kernel_ok (socket_kernel p) \<Longrightarrow> epoll_ok (worker_kernel p) epfd reg \<Longrightarrow>
   timers_ok p epfd tfd reg \<Longrightarrow> tfd \<in> {-(2 ^ 31)..<2 ^ 31} \<Longrightarrow> server_system p epfd tfd reg"
  using methods_ok_conn_methods [of "socket_kernel p" "methods p"]
  by (simp add: server_system_def server_system_axioms_def)

interpretation base_server: server_system base_params 3 4 map_of
  by (rule server_system_intro) (simp_all add: base_methods_ok script_kernel_ok list_epoll_ok still_timers_ok)

section \<open>Safety of the server\<close>

definition server_ok :: "('u, 'w, 'h, 'k) server_params \<Rightarrow> int \<Rightarrow> int \<Rightarrow> ('k \<Rightarrow> int \<Rightarrow> epoll_event option) \<Rightarrow> bool" where
  "server_ok p epfd tfd reg \<longleftrightarrow> methods_ok (socket_kernel p) (methods p) \<and> kernel_ok (socket_kernel p) \<and>
     epoll_ok (worker_kernel p) epfd reg \<and> timers_ok p epfd tfd reg \<and> tfd \<in> {-(2 ^ 31)..<2 ^ 31}"

lemma server_ok_system: "server_ok p epfd tfd reg \<Longrightarrow> server_system p epfd tfd reg"
  unfolding server_ok_def by (blast intro: server_system_intro)

lemma base_server_ok: "server_ok base_params 3 4 map_of"
  by (simp add: server_ok_def base_methods_ok script_kernel_ok list_epoll_ok still_timers_ok)


text \<open>A server that has accepted one connection, and its next pass.\<close>

definition empty_system :: base_system where
  "empty_system = (EpollWorker\<lparr>epoll_fd := 3, timer_fd := 4\<rparr>,
     \<lparr>objs = Map.empty, connection_map = Map.empty, connection_index = 1024, kst = []\<rparr>)"

definition one_system :: base_system where
  "one_system = accept_event base_params (\<lambda>_ u. u) ''--------'' () [''abc''] 64 EPOLLIN (Some (7, ''h'', 80)) empty_system"

lemma one_system_reach: "server_reach base_params 3 4 map_of one_system"
  unfolding one_system_def
  by (rule reach_accept) (simp_all add: empty_system_def EpollWorker_def reach_start)


abbreviation one_event :: epoll_event where
  "one_event \<equiv> \<lparr>ev_data = 64, ev_events = EPOLLIN OR EPOLLOUT\<rparr>"

lemma one_system_wait:
  "sys_epoll_wait (server_kernel base_params) (epoll_fd (fst one_system)) MAX_WAIT_EVENT (snd one_system) =
   (Wait_events [one_event], snd one_system)"
proof -
  have "sys_epoll_wait list_epoll (epoll_fd (fst one_system)) MAX_WAIT_EVENT (kst (snd one_system)) =
      (Wait_events [one_event], kst (snd one_system))" by code_simp
  then show ?thesis by (simp add: server_kernel_def Let_def on_kst_def)
qed

lemma one_system_pass:
  "\<exists>y c. server_pass base_params one_system = Ok y \<and> objs (snd y) 64 = Some c \<and> received c = ''abc'' \<and>
     conn_status c = CONN_OPEN \<and> \<not> need_reconnect c \<and> conn_id c = 1025"
proof -
  have "case event_loop (server_env base_params) (server_kernel base_params) [one_event] one_system of
      Ok z \<Rightarrow> map_option (\<lambda>c. (received c, conn_status c, need_reconnect c, conn_id c)) (objs (snd z) 64) =
        Some (''abc'', CONN_OPEN, False, 1025) | _ \<Rightarrow> False" by code_simp
  then obtain z c where z: "event_loop (server_env base_params) (server_kernel base_params) [one_event] one_system = Ok z"
    "objs (snd z) 64 = Some c" "received c = ''abc''" "conn_status c = CONN_OPEN" "\<not> need_reconnect c" "conn_id c = 1025"
    by (auto split: loop_result.splits)
  have "objs (snd one_system) 64 \<noteq> None" by code_simp
  then have k: "keeps base_params 3 4 map_of {64} one_system"
    using base_server.reach_inv [OF one_system_reach] by (auto simp: keeps_def)
  have "\<forall>ev \<in> set [one_event]. data_fd (ev_data ev) = 4 \<or> ev_data ev \<in> {64}" by simp
  from base_server.event_loop_keeps [OF k this] z(1) have "keeps base_params 3 4 map_of {64} z" by blast
  then have "sys_inv base_params 3 4 map_of z" by (simp add: keeps_def)
  from base_server.run_tasks_inv [OF this] obtain y where y: "run_tasks (server_env base_params) z = Ok y"
    and o: "\<forall>a c. objs (snd y) a = Some c \<longleftrightarrow> objs (snd z) a = Some c \<and> conn_status c \<noteq> CONN_CLOSED" by (elim exE conjE)
  have "server_pass base_params one_system = Ok y"
    using one_system_wait z(1) y by (simp add: server_pass_def run_pass_def case_prod_beta del: event_loop.simps)
  moreover have "objs (snd y) 64 = Some c" using o z(2,4) by simp
  ultimately show ?thesis using z(3-6) by blast
qed

text \<open>
  (C15) A closed connection is gone after the next pass that runs the tasks: then no task is left, every
  connection is in the map of the factory under its own id, no two under the same, and none is closed. A
  pass that does not run them (\<open>epoll_wait\<close> was interrupted) changes neither the tasks nor the connections.
\<close>

theorem server_pass_reclaims:
  assumes "server_ok p epfd tfd reg" "server_reach p epfd tfd reg x" "server_pass p x = Ok y"
  shows "tasks (fst y) = [] \<and>
      (\<forall>a c. objs (snd y) a = Some c \<longrightarrow> conn_status c \<noteq> CONN_CLOSED \<and> find_connection (conn_id c) (snd y) = Some a) \<and>
      (\<forall>cid a. find_connection cid (snd y) = Some a \<longrightarrow> (\<exists>c. objs (snd y) a = Some c \<and> conn_id c = cid)) \<or>
    tasks (fst y) = tasks (fst x) \<and> objs (snd y) = objs (snd x)"
proof -
  note s = server_ok_system [OF assms(1)]
  from server_system.pass_inv [OF s server_system.reach_inv [OF s assms(2)]] assms(3)
  have inv: "sys_inv p epfd tfd reg y"
    and or: "no_closed y \<and> tasks (fst y) = [] \<or> tasks (fst y) = tasks (fst x) \<and> objs (snd y) = objs (snd x)" by simp_all
  have o: "connection_map (snd y) (conn_id c) = Some a" if "objs (snd y) a = Some c" for a c
    using inv that by (simp add: sys_inv_def sinv_def)
  have m: "\<exists>c. objs (snd y) a = Some c \<and> conn_id c = cid" if "connection_map (snd y) cid = Some a" for cid a
    using inv that by (simp add: sys_inv_def sinv_def)
  show ?thesis using or o m by (auto simp: no_closed_def find_connection_def)
qed

theorem server_pass_reclaims_witness:
  "\<exists>y. server_pass base_params one_system = Ok y \<and> (\<exists>c. objs (snd y) 64 = Some c \<and> conn_status c = CONN_OPEN) \<and>
     (tasks (fst y) = [] \<or> tasks (fst y) = tasks (fst one_system))"
proof -
  obtain y c where y: "server_pass base_params one_system = Ok y" "objs (snd y) 64 = Some c" "conn_status c = CONN_OPEN"
    using one_system_pass by blast
  from server_pass_reclaims [OF base_server_ok one_system_reach y(1)] y show ?thesis by blast
qed

text \<open>
  (C8) The data of a connection are in order under a server: whatever its loop, its timers and the application
  do, for every connection the bytes the kernel has taken, followed by those that wait, are exactly those that
  were accepted for sending; and while it is not closing, and was never set to reconnect, what was
  delivered to the class, followed by what is in the receive buffer, is exactly what was received.
\<close>

theorem server_streams:
  assumes "server_ok p epfd tfd reg" "server_reach p epfd tfd reg x" "objs (snd x) a = Some c"
  shows "accepted c = sent c @ send_buffer c \<and>
    (\<not> need_reconnect c \<and> (conn_status c = CONN_IDLE \<or> conn_status c = CONN_OPEN) \<longrightarrow>
       received c = concat (delivered c) @ take (read_buffer_pos c) (read_buffer c))"
proof -
  note s = server_ok_system [OF assms(1)]
  have "conn_ok (buffer_size p) c"
    using server_system.reach_inv [OF s assms(2)] assms(3) by (simp add: sys_inv_def sinv_def)
  then show ?thesis by (auto simp: conn_ok_def streams_simps slice_def)
qed

theorem server_streams_witness:
  "\<exists>y c. server_pass base_params one_system = Ok y \<and> objs (snd y) 64 = Some c \<and>
     accepted c = sent c @ send_buffer c \<and> ''abc'' = concat (delivered c) @ take (read_buffer_pos c) (read_buffer c)"
proof -
  obtain y c where y: "server_pass base_params one_system = Ok y" "objs (snd y) 64 = Some c" "conn_status c = CONN_OPEN"
    "received c = ''abc''" "\<not> need_reconnect c" using one_system_pass by blast
  from server_streams [OF base_server_ok reach_pass [OF one_system_reach y(1)] y(2)] y show ?thesis by auto
qed

section \<open>The workers of a listener\<close>

fun get_workers :: "nat \<Rightarrow> 'v listener \<Rightarrow> 'v list \<times> 'v listener" where
  "get_workers 0 l = ([], l)"
| "get_workers (Suc n) l = (let (v, l) = get_worker l; (vs, l) = get_workers n l in (v # vs, l))"

lemma get_worker_next:
  assumes "0 < n" "n = length (tcp_workers l)" "n < 2 ^ 32" "unat (worker_index l) < n"
  shows "get_worker l = (tcp_workers l ! (Suc (unat (worker_index l)) mod n),
    l\<lparr>worker_index := of_nat (Suc (unat (worker_index l)) mod n)\<rparr>)"
proof -
  have "unat (worker_index l + 1) = Suc (unat (worker_index l))" using assms(3,4) by (simp add: unat_word_ariths)
  moreover have "Suc (unat (worker_index l)) mod n < 2 ^ 32" using assms(1,3) by (meson less_trans mod_less_divisor)
  ultimately show ?thesis using assms(1,2) by (auto simp: get_worker_def Let_def unat_of_nat take_bit_nat_eq_self)
qed

text \<open>
  (C28) Connections are spread evenly: \<open>m\<close> calls of \<open>get_worker\<close> go round the workers, from the one after the
  index, and as many calls as there are workers give each of them exactly once.
\<close>

theorem get_worker_round_robin:
  assumes "tcp_workers l \<noteq> []" "length (tcp_workers l) < 2 ^ 32" "unat (worker_index l) < length (tcp_workers l)"
  shows "fst (get_workers m l) =
      map (\<lambda>i. tcp_workers l ! ((unat (worker_index l) + 1 + i) mod length (tcp_workers l))) [0..<m] \<and>
    mset (fst (get_workers (length (tcp_workers l)) l)) = mset (tcp_workers l)"
proof -
  define n where "n = length (tcp_workers l)"
  have n: "0 < n" "n < 2 ^ 32" using assms by (simp_all add: n_def)
  have g: "fst (get_workers m l) = map (\<lambda>i. tcp_workers l ! ((unat (worker_index l) + 1 + i) mod n)) [0..<m]"
    if "n = length (tcp_workers l)" "unat (worker_index l) < n" for m and l :: "'a listener"
    using that
  proof (induction m arbitrary: l)
    case (Suc m)
    let ?i = "Suc (unat (worker_index l)) mod n"
    let ?l = "l\<lparr>worker_index := of_nat ?i\<rparr>"
    have i: "unat (of_nat ?i :: u32) = ?i" "?i < n"
      using n by (simp_all add: unat_of_nat take_bit_nat_eq_self less_trans [OF mod_less_divisor])
    have "get_worker l = (tcp_workers l ! ?i, ?l)" by (rule get_worker_next [OF n(1) Suc.prems(1) n(2) Suc.prems(2)])
    moreover have "fst (get_workers m ?l) = map (\<lambda>j. tcp_workers l ! ((?i + 1 + j) mod n)) [0..<m]"
      using Suc.IH [of ?l] Suc.prems i by simp
    moreover have "(?i + 1 + j) mod n = (unat (worker_index l) + 1 + Suc j) mod n" for j
      by (metis add_Suc_right add_Suc mod_add_left_eq add.assoc Suc_eq_plus1)
    moreover have "[0..<Suc m] = 0 # map Suc [0..<m]" by (simp add: map_Suc_upt upt_conv_Cons)
    ultimately show ?case by (simp add: case_prod_beta)
  qed simp
  define k where "k = unat (worker_index l) + 1"
  have "map (\<lambda>i. tcp_workers l ! ((k + i) mod n)) [0..<n] = rotate k (tcp_workers l)"
    by (rule nth_equalityI) (simp_all add: n_def nth_rotate)
  moreover have "mset (rotate1 xs) = mset xs" for xs :: "'a list" by (cases xs) simp_all
  then have "mset (rotate k (tcp_workers l)) = mset (tcp_workers l)" for k by (induction k) simp_all
  ultimately have "mset (map (\<lambda>i. tcp_workers l ! ((k + i) mod n)) [0..<n]) = mset (tcp_workers l)" by simp
  with g [of l] assms(3) show ?thesis unfolding k_def n_def by simp
qed

theorem get_worker_round_robin_witness:
  "fst (get_workers 3 \<lparr>worker_index = 0, listen_worker = 9, tcp_workers = [1, 2, 3 :: nat]\<rparr>) = [2, 3, 1]"
proof -
  have "fst (get_workers 3 \<lparr>worker_index = 0, listen_worker = 9, tcp_workers = [1, 2, 3 :: nat]\<rparr>) =
      map (\<lambda>i. [1, 2, 3 :: nat] ! ((0 + 1 + i) mod 3)) [0..<3]"
    using get_worker_round_robin [of "\<lparr>worker_index = 0, listen_worker = 9, tcp_workers = [1, 2, 3 :: nat]\<rparr>" 3] by simp
  then show ?thesis by (simp add: upt_rec)
qed

end
