(* ===== verification/Tcp_Rules.thy ===== *)
theory Tcp_Rules
  imports Tcp_Connection
begin

text \<open>
  Rules for the classes that derive from \<open>TcpConnection\<close> (src/include/tcp/tcp\_connection.h): a property of
  the members of the class and of the delivered packages that its methods keep, holds over the whole life of a
  connection; and a class that cuts the stream into frames gets exactly the frames of the received bytes.
\<close>

section \<open>Invariants of a derived class\<close>

lemma own_simps [simp]:
  "app (mod_event c) = app c" "delivered (mod_event c) = delivered c" "is_passive (mod_event c) = is_passive c"
  "app (worker_call wc c) = app c" "delivered (worker_call wc c) = delivered c" "is_passive (worker_call wc c) = is_passive c"
  "app (conn_close c) = app c" "delivered (conn_close c) = delivered c" "is_passive (conn_close c) = is_passive c"
  by (simp_all add: mod_event_def worker_call_def conn_close_def notify_send_def)

lemma do_send_own: "app (do_send k c) = app c \<and> delivered (do_send k c) = delivered c \<and> is_passive (do_send k c) = is_passive c"
proof (induction k c rule: do_send.induct)
  case (1 k c)
  then show ?case by (subst do_send.simps, subst (2) do_send.simps, subst (3) do_send.simps)
    (auto simp: Let_def split: prod.split send_result.split)
qed

text \<open>No method touches the receiving side.\<close>

lemma do_send_buffer: "read_buffer (do_send k c) = read_buffer c \<and> read_buffer_pos (do_send k c) = read_buffer_pos c"
proof (induction k c rule: do_send.induct)
  case (1 k c)
  then show ?case by (subst do_send.simps, subst (2) do_send.simps)
    (auto simp: Let_def mod_event_def worker_call_def conn_close_def notify_send_def split: prod.split send_result.split)
qed

lemma mpush_own:
  "mpush args c = (n, c') \<Longrightarrow> read_buffer c' = read_buffer c \<and> read_buffer_pos c' = read_buffer_pos c \<and>
     delivered c' = delivered c \<and> app c' = app c \<and> is_passive c' = is_passive c"
proof (induction args arbitrary: c n c')
  case (Cons a args)
  obtain l c1 where w: "write_data a c = (l, c1)" by fastforce
  obtain m c2 where r: "mpush args c1 = (m, c2)" by fastforce
  have c': "c' = (if 0 < l then c2 else c1)" using Cons.prems w r by (simp split: if_splits)
  have "read_buffer c1 = read_buffer c \<and> read_buffer_pos c1 = read_buffer_pos c \<and>
      delivered c1 = delivered c \<and> app c1 = app c \<and> is_passive c1 = is_passive c"
    using w by (cases a) (auto simp: write_data_def append_data_def Let_def split: option.splits)
  with Cons.IH [OF r] c' show ?case by simp
qed simp

lemma msend_own:
  assumes "msend k args c = (n, c')"
  shows "read_buffer c' = read_buffer c \<and> read_buffer_pos c' = read_buffer_pos c \<and>
     delivered c' = delivered c \<and> app c' = app c \<and> is_passive c' = is_passive c"
proof (cases "is_open c")
  case True
  obtain l c1 where "mpush args c = (l, c1)" by fastforce
  with True assms mpush_own [of args c l c1] do_send_own [of k c1] do_send_buffer [of k c1] show ?thesis
    by (auto simp: msend_def Let_def split: if_splits)
qed (use assms in \<open>simp add: msend_def\<close>)

lemma conn_client_own:
  "conn_client k c c' \<Longrightarrow> read_buffer c' = read_buffer c \<and> read_buffer_pos c' = read_buffer_pos c \<and>
     delivered c' = delivered c \<and> is_passive c' = is_passive c"
proof (induction rule: conn_client.induct)
  case (client_send c1 args n c2)
  with msend_own show ?case by metis
qed (simp_all add: conn_close_def notify_send_def mod_event_def worker_call_def)

lemma do_send_accepted: "accepted (do_send k c) = accepted c"
proof (induction k c rule: do_send.induct)
  case (1 k c)
  then show ?case by (subst do_send.simps)
    (auto simp: Let_def mod_event_def worker_call_def conn_close_def notify_send_def split: prod.split send_result.split)
qed

lemma send_accepted: "is_open c \<Longrightarrow> accepted (snd (send k d c)) = accepted c @ d"
  by (simp add: send_def msend_def write_data_def append_data_def Let_def do_send_accepted case_prod_beta)

locale conn_invariant =
  fixes h :: "('u, 'w) conn_handlers" and J :: "('u, 'w) tcp_connection \<Rightarrow> bool"
  assumes inv_own: "J c \<Longrightarrow> app c' = app c \<Longrightarrow> delivered c' = delivered c \<Longrightarrow> is_passive c' = is_passive c \<Longrightarrow> J c'"
    and inv_package: "J c \<Longrightarrow> handle_package h v c = (n, c') \<Longrightarrow> J c'"
    and inv_data: "J c \<Longrightarrow> handle_package h (slice (read_buffer c) readPos (read_buffer_pos c)) c = (n, c1) \<Longrightarrow>
      0 < n \<Longrightarrow> n \<le> int (read_buffer_pos c1) - int readPos \<Longrightarrow> d = slice (read_buffer c1) readPos (nat n) \<Longrightarrow>
      handle_data h d (c1\<lparr>delivered := delivered c1 @ [d]\<rparr>) = (m, c2) \<Longrightarrow> J c2"
    and inv_event: "J c \<Longrightarrow> handle_event h evt (c\<lparr>events := es\<rparr>) = (b, c') \<Longrightarrow> J c'"
begin

lemma process_loop_inv:
  assumes ret: "process_loop h bufsize readPos c = Some (ok, r, c')" and "J c"
  shows "J c'"
proof -
  let ?Q = "\<lambda>h' (b :: nat) (readPos :: nat) c (ok :: bool, r :: nat, c'). h' = h \<longrightarrow> J c \<longrightarrow> J c'"
  have "?Q h bufsize readPos c (ok, r, c')"
  proof (rule process_loop.raw_induct [where P = ?Q, OF _ ret])
    fix f h' b readPos and c :: "('u, 'w) tcp_connection" and q
    assume IH: "\<And>h' b readPos c q. f h' b readPos c = Some q \<Longrightarrow> ?Q h' b readPos c q"
      and eq: "(if readPos < read_buffer_pos c
        then let (pkgLen, c) = handle_package h' (slice (read_buffer c) readPos (read_buffer_pos c)) c
             in if pkgLen \<le> 0 \<or> int (read_buffer_pos c) - int readPos < pkgLen
                then if int b < pkgLen then Some (False, readPos, conn_close c) else Some (True, readPos, c)
                else let d = slice (read_buffer c) readPos (nat pkgLen);
                         (_, c) = handle_data h' d (c\<lparr>delivered := delivered c @ [d]\<rparr>)
                     in f h' b (readPos + nat pkgLen) c
        else Some (True, readPos, c)) = Some q"
    show "?Q h' b readPos c q"
    proof (clarify)
      fix ok r c' assume q: "q = (ok, r, c')" and h: "h' = h" and J: "J c"
      show "J c'"
      proof (cases "readPos < read_buffer_pos c")
        case False
        with eq q J show ?thesis by simp
      next
        case True
        obtain n c1 where p: "handle_package h (slice (read_buffer c) readPos (read_buffer_pos c)) c = (n, c1)" by fastforce
        have J1: "J c1" by (rule inv_package [OF J p])
        show ?thesis
        proof (cases "n \<le> 0 \<or> int (read_buffer_pos c1) - int readPos < n")
          case stop: True
          with eq q h True p J1 inv_own [OF J1, of "conn_close c1"] show ?thesis by (auto split: if_splits)
        next
          case False
          let ?d = "slice (read_buffer c1) readPos (nat n)"
          obtain m c2 where d: "handle_data h ?d (c1\<lparr>delivered := delivered c1 @ [?d]\<rparr>) = (m, c2)" by fastforce
          have "J c2" by (rule inv_data [OF J p _ _ refl d]) (use False in auto)
          moreover have "f h b (readPos + nat n) c2 = Some (ok, r, c')" using eq q h True p False d by (simp add: Let_def)
          ultimately show ?thesis using IH by fastforce
        qed
      qed
    qed
  qed
  with assms(2) show ?thesis by simp
qed

lemma process_data_inv: "process_data h bufsize nread c = Some (hm, c') \<Longrightarrow> J c \<Longrightarrow> J c'"
proof -
  assume p: "process_data h bufsize nread c = Some (hm, c')" and J: "J c"
  then obtain ok r c1 where l: "process_loop h bufsize 0 (c\<lparr>read_buffer_pos := read_buffer_pos c + nread\<rparr>) = Some (ok, r, c1)"
    unfolding process_data_def by (auto simp: Option.bind_eq_Some_conv)
  have "J c1" by (rule process_loop_inv [OF l inv_own [OF J]]) simp_all
  from inv_own [OF this, of c'] p l show "J c'" by (auto simp: process_data_def Let_def split: if_splits)
qed

lemma recv_step_inv: "J c \<Longrightarrow> (case recv_step k bufsize c of Inl (n, c') \<Rightarrow> J c' | Inr (n, c') \<Rightarrow> J c')"
  by (auto simp: recv_step_def split: prod.split recv_result.split intro: inv_own)

lemma do_read_inv:
  fixes k :: "'w kernel"
  assumes ret: "do_read k h bufsize c = Some (n, c')" and "J c"
  shows "J c'"
proof -
  let ?Q = "\<lambda>(k' :: 'w kernel) h' (b :: nat) c (n :: int, c'). h' = h \<longrightarrow> J c \<longrightarrow> J c'"
  have "?Q k h bufsize c (n, c')"
  proof (rule do_read.raw_induct [where P = ?Q, OF _ ret])
    fix f and k' :: "'w kernel" and h' b and c :: "('u, 'w) tcp_connection" and q
    assume IH: "\<And>k' h' b c q. f k' h' b c = Some q \<Longrightarrow> ?Q k' h' b c q"
      and eq: "(case recv_step k' b c of Inl r \<Rightarrow> Some r
        | Inr (len, c) \<Rightarrow> Option.bind (process_data h' b len c) (\<lambda>(hasMore, c).
            if hasMore then Option.bind (f k' h' b c) (\<lambda>(_, c). Some (int len, c)) else Some (int len, c))) = Some q"
    show "?Q k' h' b c q"
    proof (clarify)
      fix n c' assume q: "q = (n, c')" and h: "h' = h" and J: "J c"
      show "J c'"
      proof (cases "recv_step k' b c")
        case (Inl r)
        with eq q recv_step_inv [OF J, of k' b] show ?thesis by auto
      next
        case (Inr r)
        obtain len c1 where r: "r = (len, c1)" by fastforce
        with Inr recv_step_inv [OF J, of k' b] have J1: "J c1" by simp
        from eq Inr r h obtain hm c2 where p: "process_data h b len c1 = Some (hm, c2)"
          and e: "(if hm then Option.bind (f k' h b c2) (\<lambda>(_, c). Some (int len, c)) else Some (int len, c2)) = Some q"
          by (auto simp: Option.bind_eq_Some_conv)
        have "J c2" by (rule process_data_inv [OF p J1])
        with e q IH show ?thesis by (fastforce simp: Option.bind_eq_Some_conv split: if_splits)
      qed
    qed
  qed
  with assms(2) show ?thesis by simp
qed

lemma fire_event_inv: "J c \<Longrightarrow> J (fire_event h evt c)"
  unfolding fire_event_def using inv_event by (metis prod.collapse)

lemma do_close_keeps: "J c \<Longrightarrow> J (do_close h c)"
proof -
  assume J: "J c"
  define c2 where "c2 = fire_event h EVT_DISCONNECT
    (if tcp_worker c then worker_call (Del_event (conn_sd c)) (c\<lparr>conn_status := CONN_CLOSED\<rparr>) else c\<lparr>conn_status := CONN_CLOSED\<rparr>)"
  have "J c2" unfolding c2_def by (rule fire_event_inv) (rule inv_own [OF J], simp_all)
  then have "J (do_close h c)" if "conn_status c = CONN_CLOSING"
    by (rule inv_own) (use that in \<open>simp_all add: do_close_def Let_def c2_def cong: if_cong\<close>)
  with J show ?thesis by (cases "conn_status c = CONN_CLOSING") (simp_all add: do_close_def)
qed

lemma finish_event_keeps: "J c \<Longrightarrow> J (finish_event k h evts c)"
proof -
  assume J: "J c"
  define c1 where "c1 = (if has_event evts EPOLLOUT then do_send k c else c)"
  define c2 where "c2 = (if has_event evts EPOLLERR then conn_close c1 else c1)"
  have "J c2" by (rule inv_own [OF J]) (simp_all add: c2_def c1_def do_send_own)
  with do_close_keeps show ?thesis unfolding finish_event_def Let_def c1_def [symmetric] c2_def [symmetric] by simp
qed

lemma process_event_keeps:
  assumes "process_event k h bufsize evts c = Some c'" "J c"
  shows "J c'"
proof -
  define c0 where "c0 = (if conn_status c = CONN_IDLE then on_ready h c else c)"
  have c0: "J c0"
    using assms(2) fire_event_inv [OF inv_own [OF assms(2), of "c\<lparr>conn_status := CONN_OPEN\<rparr>"]] by (simp add: c0_def on_ready_def)
  from assms(1) obtain c1 where c1: "(if has_event evts EPOLLIN then map_option snd (do_read k h bufsize c0) else Some c0) = Some c1"
    and c': "c' = finish_event k h evts c1"
    unfolding process_event_def Let_def c0_def [symmetric] map_option_eq_Some by blast
  have "J c1" using c1 c0 do_read_inv by (auto split: if_splits)
  with c' finish_event_keeps show ?thesis by simp
qed

end

section \<open>Framing\<close>

text \<open>Why the loop over the packages stops: it is through, or what is left is not a package.\<close>

lemma process_loop_stop:
  assumes ret: "process_loop h bufsize readPos c = Some (ok, r, c')" and "ok"
  shows "\<not> r < read_buffer_pos c' \<or>
    (\<exists>c0 n. handle_package h (slice (read_buffer c0) r (read_buffer_pos c0)) c0 = (n, c') \<and>
       (n \<le> 0 \<or> int (read_buffer_pos c') - int r < n))"
proof -
  let ?S = "\<lambda>h r c'. \<not> r < read_buffer_pos c' \<or>
    (\<exists>c0 n. handle_package h (slice (read_buffer c0) r (read_buffer_pos c0)) c0 = (n, c') \<and>
       (n \<le> 0 \<or> int (read_buffer_pos c') - int r < n))"
  let ?Q = "\<lambda>h (b :: nat) (readPos :: nat) c (ok :: bool, r :: nat, c'). ok \<longrightarrow> ?S h r c'"
  have "?Q h bufsize readPos c (ok, r, c')"
  proof (rule process_loop.raw_induct [where P = ?Q, OF _ ret])
    fix f and h :: "('a, 'b) conn_handlers" and b readPos c q
    assume IH: "\<And>h b readPos c q. f h b readPos c = Some q \<Longrightarrow> ?Q h b readPos c q"
      and eq: "(if readPos < read_buffer_pos c
        then let (pkgLen, c) = handle_package h (slice (read_buffer c) readPos (read_buffer_pos c)) c
             in if pkgLen \<le> 0 \<or> int (read_buffer_pos c) - int readPos < pkgLen
                then if int b < pkgLen then Some (False, readPos, conn_close c) else Some (True, readPos, c)
                else let d = slice (read_buffer c) readPos (nat pkgLen);
                         (_, c) = handle_data h d (c\<lparr>delivered := delivered c @ [d]\<rparr>)
                     in f h b (readPos + nat pkgLen) c
        else Some (True, readPos, c)) = Some q"
    obtain n c1 where p: "handle_package h (slice (read_buffer c) readPos (read_buffer_pos c)) c = (n, c1)" by fastforce
    obtain m c2 where d: "handle_data h (slice (read_buffer c1) readPos (nat n))
      (c1\<lparr>delivered := delivered c1 @ [slice (read_buffer c1) readPos (nat n)]\<rparr>) = (m, c2)" by fastforce
    show "?Q h b readPos c q"
      using eq p d IH [of h b "readPos + nat n" c2 q] by (auto simp: Let_def split: if_splits)
  qed
  with assms(2) show ?thesis by simp
qed

text \<open>
  \<open>frame\<close> is the length of the complete frame a byte string begins with. Such a frame is told by its own
  bytes, and \<open>handle_package\<close> reports it.
\<close>

locale framing =
  fixes frame :: "bytes \<Rightarrow> nat option"
  assumes frame_bound: "frame v = Some n \<Longrightarrow> 0 < n \<and> n \<le> length v"
    and frame_take: "frame v = Some n \<Longrightarrow> frame (take n v) = Some n"
    and frame_append: "frame v = Some n \<Longrightarrow> frame (v @ w) = Some n"
begin

text \<open>All the frames of a stream, and what is left.\<close>

function frames :: "bytes \<Rightarrow> bytes list \<times> bytes" where
  "frames s = (case frame s of None \<Rightarrow> ([], s) | Some n \<Rightarrow> (case frames (drop n s) of (ds, r) \<Rightarrow> (take n s # ds, r)))"
  by pat_completeness auto
termination
  by (relation "measure length") (auto dest: frame_bound)

declare frames.simps [simp del]

lemma frames_exact:
  assumes "\<forall>d \<in> set ds. frame d = Some (length d)" "frame r = None"
  shows "frames (concat ds @ r) = (ds, r)"
  using assms(1)
proof (induction ds)
  case Nil
  with assms(2) show ?case by (subst frames.simps) simp
next
  case (Cons d ds)
  then have "frame (concat (d # ds) @ r) = Some (length d)" using frame_append [of d] by simp
  with Cons show ?case by (subst frames.simps) simp
qed

end

locale framed_methods = conn_methods k h + framing frame
  for k :: "'w kernel" and h :: "('u, 'w) conn_handlers" and frame +
  assumes package_frame: "handle_package h v c = (n, c') \<Longrightarrow> (if 0 < n then frame v = Some (nat n) else frame v = None)"
begin

definition framed :: "('u, 'w) tcp_connection \<Rightarrow> bool" where
  "framed c \<longleftrightarrow> (\<forall>d \<in> set (delivered c). frame d = Some (length d))"

definition no_frame :: "('u, 'w) tcp_connection \<Rightarrow> bool" where
  "no_frame c \<longleftrightarrow> frame (take (read_buffer_pos c) (read_buffer c)) = None"

sublocale framed: conn_invariant h framed
proof
  fix c c1 c2 :: "('u, 'w) tcp_connection" and readPos n d m
  assume J: "framed c" and p: "handle_package h (slice (read_buffer c) readPos (read_buffer_pos c)) c = (n, c1)"
    and n: "0 < n" "n \<le> int (read_buffer_pos c1) - int readPos" and d: "d = slice (read_buffer c1) readPos (nat n)"
    and r: "handle_data h d (c1\<lparr>delivered := delivered c1 @ [d]\<rparr>) = (m, c2)"
  note o = conn_client_own [OF package_client [OF p]] conn_client_own [OF data_client [OF r]]
  let ?v = "slice (read_buffer c) readPos (read_buffer_pos c)"
  have f: "frame ?v = Some (nat n)" using package_frame [OF p] n(1) by simp
  moreover have "take (nat n) ?v = d" using d o n(2) by (simp add: slice_def min_def)
  moreover have "length d = nat n" using frame_bound [OF f] calculation(2) by (metis length_take min.absorb2)
  ultimately have "frame d = Some (length d)" using frame_take by metis
  with J o show "framed c2" by (auto simp: framed_def)
next
  show "framed c \<Longrightarrow> delivered c' = delivered c \<Longrightarrow> framed c'" for c c' by (simp add: framed_def)
  show "framed c \<Longrightarrow> handle_package h v c = (n, c') \<Longrightarrow> framed c'" for c v n c'
    using conn_client_own [OF package_client] by (metis (no_types) framed_def)
  show "framed c \<Longrightarrow> handle_event h evt (c\<lparr>events := es\<rparr>) = (b, c') \<Longrightarrow> framed c'" for c evt es b c'
    using conn_client_own [OF event_client] by (fastforce simp: framed_def)
qed

lemma process_loop_no_frame:
  assumes ret: "process_loop h bufsize readPos c = Some (True, r, c')" and rx: "rx_loop_inv e bufsize r c'"
  shows "frame (slice (read_buffer c') r (read_buffer_pos c' - r)) = None"
proof (rule ccontr)
  let ?r = "slice (read_buffer c') r (read_buffer_pos c' - r)"
  assume "frame ?r \<noteq> None"
  then obtain m where m: "frame ?r = Some m" by blast
  have len: "length ?r = read_buffer_pos c' - r" using rx by (auto simp: rx_loop_inv_def)
  from frame_bound [OF m] have "r < read_buffer_pos c'" using len by auto
  with process_loop_stop [OF ret] obtain c0 n where
    p: "handle_package h (slice (read_buffer c0) r (read_buffer_pos c0)) c0 = (n, c')" and n: "n \<le> 0 \<or> int (read_buffer_pos c') - int r < n"
    by auto
  have "slice (read_buffer c0) r (read_buffer_pos c0) = ?r @ slice (read_buffer c') (r + (read_buffer_pos c' - r)) r"
    using conn_client_own [OF package_client [OF p]] \<open>r < read_buffer_pos c'\<close> slice_append_slice [of "read_buffer c'" r "read_buffer_pos c' - r" r] by simp
  then have "frame (slice (read_buffer c0) r (read_buffer_pos c0)) = Some m" using frame_append [OF m] by simp
  with package_frame [OF p] have "0 < n" "nat n = m" by (auto split: if_splits)
  with n frame_bound [OF m] len show False by linarith
qed

lemma process_data_no_frame:
  assumes ko: "kernel_ok k" and p: "process_data h bufsize nread c = Some (hm, c')"
    and rx: "rx_inv e bufsize (c\<lparr>read_buffer_pos := read_buffer_pos c + nread\<rparr>)"
  shows "closing c' \<or> no_frame c'"
proof -
  from process_loop_correct [OF ko rx [unfolded rx_inv_def]] obtain ok r c1 where
    l: "process_loop h bufsize 0 (c\<lparr>read_buffer_pos := read_buffer_pos c + nread\<rparr>) = Some (ok, r, c1)"
      "if ok then rx_loop_inv e bufsize r c1 else closing c1 \<and> rx_inv False bufsize c1" by blast
  show ?thesis
  proof (cases ok)
    case False
    with l p show ?thesis by (simp add: process_data_def)
  next
    case True
    with l have rx1: "rx_loop_inv e bufsize r c1" by simp
    from process_loop_no_frame [of bufsize 0 _ r c1, OF _ rx1] l(1) True
    have n: "frame (slice (read_buffer c1) r (read_buffer_pos c1 - r)) = None" by simp
    let ?rest = "read_buffer_pos c1 - r"
    have c': "c' = (if r < read_buffer_pos c1 then c1\<lparr>read_buffer := mem_write (read_buffer c1) 0 (slice (read_buffer c1) r ?rest)\<rparr> else c1)
        \<lparr>read_buffer_pos := ?rest\<rparr>"
      using p l(1) True by (auto simp: process_data_def Let_def)
    have "length (slice (read_buffer c1) r ?rest) = ?rest" using rx1 by (auto simp: rx_loop_inv_def)
    then have "take ?rest (mem_write (read_buffer c1) 0 (slice (read_buffer c1) r ?rest)) = slice (read_buffer c1) r ?rest"
      by (simp add: mem_write_def)
    with n c' show ?thesis by (auto simp: no_frame_def slice_def)
  qed
qed

lemma do_read_no_frame:
  assumes ko: "kernel_ok k" and rx: "rx_inv e bufsize c" and ret: "do_read k h bufsize c = Some (n, c')" and "closing c \<or> no_frame c"
  shows "closing c' \<or> no_frame c'"
proof -
  let ?Q = "\<lambda>k' h' b c (n :: int, c'). k' = k \<longrightarrow> h' = h \<longrightarrow> rx_inv e b c \<longrightarrow> closing c \<or> no_frame c \<longrightarrow> closing c' \<or> no_frame c'"
  have "?Q k h bufsize c (n, c')"
  proof (rule do_read.raw_induct [where P = ?Q, OF _ ret])
    fix f k' h' b and c :: "('u, 'w) tcp_connection" and q
    assume IH: "\<And>k' h' b c q. f k' h' b c = Some q \<Longrightarrow> ?Q k' h' b c q"
      and eq: "(case recv_step k' b c of Inl r \<Rightarrow> Some r
        | Inr (len, c) \<Rightarrow> Option.bind (process_data h' b len c) (\<lambda>(hasMore, c).
            if hasMore then Option.bind (f k' h' b c) (\<lambda>(_, c). Some (int len, c)) else Some (int len, c))) = Some q"
    obtain n c' where q: "q = (n, c')" by fastforce
    show "?Q k' h' b c q"
      unfolding q prod.case
    proof (intro impI)
      assume kh: "k' = k" "h' = h" and rx: "rx_inv e b c" and nf: "closing c \<or> no_frame c"
      show "closing c' \<or> no_frame c'"
      proof (cases "recv_step k b c")
        case (Inl r)
        then have "read_buffer (snd r) = read_buffer c \<and> read_buffer_pos (snd r) = read_buffer_pos c"
          by (auto simp: recv_step_def conn_close_def notify_send_def mod_event_def worker_call_def
              split: if_splits prod.splits recv_result.splits)
        moreover have "loop_frame c (snd r)" using recv_step_correct [OF ko rx] Inl by auto
        ultimately show ?thesis using Inl eq kh q nf loop_frame_closing [of c "snd r"] by (auto simp: no_frame_def)
      next
        case (Inr r)
        obtain len c1 where r: "r = (len, c1)" by fastforce
        with recv_step_correct [OF ko rx] Inr
        have rx1: "rx_inv e b (c1\<lparr>read_buffer_pos := read_buffer_pos c1 + len\<rparr>)" by simp
        from process_data_correct [OF ko rx1] obtain hm c2 where p: "process_data h b len c1 = Some (hm, c2)"
          and c2: "closing c2 \<and> \<not> hm \<or> rx_inv e b c2 \<and> hm = (0 < read_buffer_pos c2)" by blast
        note nf2 = process_data_no_frame [OF ko p rx1]
        show ?thesis
        proof (cases hm)
          case False
          with eq kh q Inr r p nf2 show ?thesis by simp
        next
          case True
          with eq kh q Inr r p obtain n2 where "f k h b c2 = Some (n2, c')" by (auto simp: Option.bind_eq_Some_conv)
          from IH [OF this] c2 nf2 True show ?thesis by auto
        qed
      qed
    qed
  qed
  with rx assms(4) show ?thesis by simp
qed

lemma frame_client_no_frame: "conn_frame c c' \<Longrightarrow> closing c \<or> no_frame c \<Longrightarrow> closing c' \<or> no_frame c'"
  using loop_frame_closing [OF conn_frame_loop_frame] by (auto simp: no_frame_def conn_frame_defs)

lemma do_close_closed:
  assumes ko: "kernel_ok k" and c: "conn_status c = CONN_CLOSING" "\<not> need_reconnect c"
  shows "closing (do_close h c)"
proof -
  define c2 where "c2 = (if tcp_worker c then worker_call (Del_event (conn_sd c)) (c\<lparr>conn_status := CONN_CLOSED\<rparr>)
    else c\<lparr>conn_status := CONN_CLOSED\<rparr>)"
  define c3 where "c3 = fire_event h EVT_DISCONNECT c2"
  have f: "conn_frame (c2\<lparr>events := events c2 @ [EVT_DISCONNECT]\<rparr>) c3"
    unfolding c3_def by (rule fire_event_frame [OF ko])
  have "conn_status c2 = CONN_CLOSED" "need_reconnect c2 = need_reconnect c" by (simp_all add: c2_def worker_call_def)
  with f c(2) have "conn_status c3 = CONN_CLOSED" "\<not> need_reconnect c3" by (simp_all add: conn_frame_defs closing_def)
  then show ?thesis using c(1) by (simp add: do_close_def Let_def c2_def c3_def closing_def worker_call_def cong: if_cong)
qed

lemma process_event_no_frame:
  assumes ko: "kernel_ok k" and inv: "conn_inv bufsize sd c" and p: "process_event k h bufsize evts c = Some c'"
    and nf: "closing c \<or> no_frame c"
  shows "closing c' \<or> no_frame c'"
proof -
  define c0 where "c0 = (if conn_status c = CONN_IDLE then on_ready h c else c)"
  have c0: "conn_inv bufsize sd c0" using on_ready_inv [OF ko inv] inv by (simp add: c0_def)
  have nf0: "closing c0 \<or> no_frame c0"
  proof (cases "conn_status c = CONN_IDLE")
    case True
    with nf have "no_frame (c\<lparr>conn_status := CONN_OPEN, events := events c @ [EVT_CONNECT]\<rparr>)" by (auto simp: closing_def no_frame_def)
    with frame_client_no_frame [OF fire_event_frame [OF ko, of "c\<lparr>conn_status := CONN_OPEN\<rparr>" EVT_CONNECT]] True
    show ?thesis by (simp add: c0_def on_ready_def)
  qed (use nf in \<open>simp add: c0_def\<close>)
  from p obtain c1 where c1: "(if has_event evts EPOLLIN then map_option snd (do_read k h bufsize c0) else Some c0) = Some c1"
    and c': "c' = finish_event k h evts c1"
    unfolding process_event_def Let_def c0_def [symmetric] map_option_eq_Some by blast
  have c1: "(closing c1 \<or> no_frame c1) \<and> \<not> need_reconnect c1"
  proof (cases "has_event evts EPOLLIN")
    case True
    with c1 obtain n where r: "do_read k h bufsize c0 = Some (n, c1)" by auto
    have rx: "rx_inv (\<not> closing c0) bufsize c0" using c0 by (simp add: conn_inv_def)
    have "loop_frame c0 c1" using do_read_correct [OF ko rx r] by blast
    then have "\<not> need_reconnect c1" using c0 by (simp add: loop_frame_def conn_inv_def)
    with do_read_no_frame [OF ko rx r nf0] show ?thesis by blast
  qed (use nf0 c1 c0 in \<open>simp add: conn_inv_def\<close>)
  define c2 where "c2 = (if has_event evts EPOLLERR then conn_close (if has_event evts EPOLLOUT then do_send k c1 else c1)
    else (if has_event evts EPOLLOUT then do_send k c1 else c1))"
  have f: "conn_frame c1 c2"
    unfolding c2_def using conn_frame_trans [OF _ conn_frame_close(1)] do_send_frame [OF ko] conn_frame_refl by auto
  have c2: "closing c2 \<or> no_frame c2" by (rule frame_client_no_frame [OF f]) (use c1 in blast)
  have e: "c' = (if conn_status c2 = CONN_CLOSING then do_close h c2 else c2)"
    unfolding c' finish_event_def Let_def c2_def by simp
  show ?thesis
  proof (cases "conn_status c2 = CONN_CLOSING")
    case True
    have "\<not> need_reconnect c2" using f c1 by (simp add: conn_frame_defs)
    from do_close_closed [OF ko True this] e True show ?thesis by simp
  qed (use e c2 in simp)
qed

lemma frames_steps:
  assumes "conn_steps k h bufsize c c'" and ko: "kernel_ok k" and "conn_inv bufsize sd c" "framed c" "closing c \<or> no_frame c"
  shows "conn_inv bufsize sd c' \<and> framed c' \<and> (closing c' \<or> no_frame c')"
  using assms(1,3-5)
proof (induction rule: conn_steps.induct)
  case (steps_step c c1 c2)
  then have i: "conn_inv bufsize sd c1" "framed c1" "closing c1 \<or> no_frame c1" by blast+
  from steps_step.hyps(2) show ?case
  proof (rule conn_stepE)
    fix evts
    assume p: "process_event k h bufsize evts c1 = Some c2"
    from process_event_inv [OF ko i(1) p] framed.process_event_keeps [OF p i(2)] process_event_no_frame [OF ko i(1) p i(3)]
    show ?case by blast
  next
    assume cl: "conn_client k c1 c2"
    note f = conn_client_frame [OF cl ko]
    have "framed c2" using i(2) f by (simp add: framed_def conn_frame_defs)
    with conn_inv_frame [OF f i(1)] frame_client_no_frame [OF f i(3)] show ?case by blast
  qed
qed blast

text \<open>While a connection is open, its class has got all the frames of the received bytes, and no others.\<close>

lemma frames_life:
  assumes "kernel_ok k" "bufsize \<le> length mem" "0 < fd" "conn_steps k h bufsize (new_connection mem cid fd host port u w) c"
    and "\<not> closing c"
  shows "frames (received c) = (delivered c, take (read_buffer_pos c) (read_buffer c))"
proof -
  let ?c = "new_connection mem cid fd host port u w"
  have n: "delivered ?c = []" "read_buffer_pos ?c = 0" by (simp_all add: new_connection_def conn_init_def Let_def)
  have "frame [] = None" using frame_bound [of "[]"] by (cases "frame []") auto
  with n have "framed ?c" "closing ?c \<or> no_frame ?c" by (simp_all add: framed_def no_frame_def)
  from frames_steps [OF assms(4,1) new_connection_inv [OF assms(2,3)] this] assms(5)
  have "framed c" "no_frame c" by blast+
  then show ?thesis
    using frames_exact [of "delivered c" "take (read_buffer_pos c) (read_buffer c)"] conn_life(2) [OF assms]
    by (simp add: framed_def no_frame_def)
qed

end

end
