(* ===== verification/Pipe_Layer.thy ===== *)
theory Pipe_Layer
  imports Tcp_Rules
begin

text \<open>
  The pipe layer (src/include/pipe): \<open>PipeConnection\<close> cuts the stream into messages with a head of 16 bytes, binds
  a connection to a user's session by a handshake and hands data to the session; \<open>PipeFactory\<close> holds the
  sessions by their ids, and \<open>TcpPipe\<close> makes them. The sessions are objects that connections share: a store, and
  their addresses. The methods of a user's session class are parameters. A call on a null pointer sets the
  field \<open>faulted\<close>, which is not part of the program. Printing is left out.
\<close>

section \<open>Messages\<close>

text \<open>The structure as it lies in memory: little endian, without padding.\<close>

fun le_bytes :: "nat \<Rightarrow> 'a::len word \<Rightarrow> bytes" where
  "le_bytes 0 w = []"
| "le_bytes (Suc n) w = char_of (uint w) # le_bytes n (drop_bit 8 w)"

fun le_word :: "bytes \<Rightarrow> 'a::len word" where
  "le_word [] = 0"
| "le_word (c # cs) = of_char c OR push_bit 8 (le_word cs)"

lemma length_le_bytes [simp]: "length (le_bytes n w) = n"
  by (induction n arbitrary: w) simp_all

lemma le_word_bytes: "le_word (le_bytes n w) = take_bit (8 * n) (w :: 'a::len word)"
proof (induction n arbitrary: w)
  case (Suc n)
  have "of_char (char_of (uint w)) = (of_int (uint w mod 256) :: 'a word)"
    by (metis of_char_of of_int_of_char)
  also have "\<dots> = take_bit 8 w"
    by (rule bit_word_eqI) (auto simp: bit_simps take_bit_eq_mod [symmetric, where n = 8, simplified])
  finally have "of_char (char_of (uint w)) = take_bit 8 w" .
  moreover have "take_bit 8 w OR push_bit 8 (take_bit (8 * n) (drop_bit 8 w)) = take_bit (8 + 8 * n) w"
    by (rule bit_word_eqI) (auto simp: bit_simps)
  ultimately show ?case using Suc by simp
qed simp

definition PIPE_MSG_SHAKE_HAND :: u32 where "PIPE_MSG_SHAKE_HAND = 1"
definition PIPE_MSG_HEART_BEAT :: u32 where "PIPE_MSG_HEART_BEAT = 2"
definition PIPE_MSG_DATA :: u32 where "PIPE_MSG_DATA = 3"
definition PIPE_MSG_ACK :: u32 where "PIPE_MSG_ACK = 4"

lemmas pipe_msg_defs = PIPE_MSG_SHAKE_HAND_def PIPE_MSG_HEART_BEAT_def PIPE_MSG_DATA_def PIPE_MSG_ACK_def

record PipeMsgHead =
  msg_length :: u32
  msg_type :: u32
  msg_data :: u64

abbreviation head_size :: nat where
  "head_size \<equiv> 16"

definition head_bytes :: "PipeMsgHead \<Rightarrow> bytes" where
  "head_bytes h = le_bytes 4 (msg_length h) @ le_bytes 4 (msg_type h) @ le_bytes 8 (msg_data h)"

definition head_of :: "bytes \<Rightarrow> PipeMsgHead" where
  "head_of d = \<lparr>msg_length = le_word (slice d 0 4), msg_type = le_word (slice d 4 4), msg_data = le_word (slice d 8 8)\<rparr>"

definition msg_body :: "bytes \<Rightarrow> bytes" where
  "msg_body d = slice d head_size (unat (msg_length (head_of d)))"

lemma length_head_bytes [simp]: "length (head_bytes h) = head_size"
  by (simp add: head_bytes_def)

lemma head_of_bytes [simp]: "head_of (head_bytes h @ w) = h"
  by (simp add: head_of_def head_bytes_def slice_def le_word_bytes take_bit_word_eq_self)

section \<open>Sessions\<close>

datatype PipeStatus = PIPE_STATUS_INIT | PIPE_STATUS_UNBIND | PIPE_STATUS_BIND

record 'm pipe_session =
  pipe_id :: bytes
  pipe_status :: PipeStatus
  session_state :: 'm

record 'm session_methods =
  session_event :: "u32 \<Rightarrow> 'm pipe_session \<Rightarrow> bool \<times> 'm pipe_session"
  session_message :: "bytes \<Rightarrow> u32 \<Rightarrow> u64 \<Rightarrow> 'm pipe_session \<Rightarrow> int \<times> 'm pipe_session"

definition PipeSession_methods :: "'m session_methods" where
  "PipeSession_methods = \<lparr>session_event = (\<lambda>evt s. (True, s)), session_message = (\<lambda>data dataLen obdata s. (0, s))\<rparr>"

definition session_on_ready :: "'m pipe_session \<Rightarrow> 'm pipe_session" where
  "session_on_ready s = s\<lparr>pipe_status := PIPE_STATUS_BIND\<rparr>"

text \<open>The map of \<open>PipeFactory\<close>, and the objects it leads to.\<close>

record 'm pipe_net =
  pipe_map :: "bytes \<rightharpoonup> nat"
  sessions :: "'m pipe_session list"

definition add_session :: "bytes \<Rightarrow> nat \<Rightarrow> 'm pipe_net \<Rightarrow> 'm pipe_net" where
  "add_session pid a f = f\<lparr>pipe_map := (pipe_map f)(pid \<mapsto> a)\<rparr>"

definition find_user_session :: "bytes \<Rightarrow> 'm pipe_net \<Rightarrow> nat option" where
  "find_user_session pid f = pipe_map f pid"

definition on_session :: "nat \<Rightarrow> ('m pipe_session \<Rightarrow> 'm pipe_session) \<Rightarrow> 'm pipe_net \<Rightarrow> 'm pipe_net" where
  "on_session a g f = f\<lparr>sessions := (sessions f)[a := g (sessions f ! a)]\<rparr>"

section \<open>Connections\<close>

record 'm pipe_members =
  user_session :: "nat option"
  pipe_factory :: bool
  net :: "'m pipe_net"
  faulted :: bool

type_synonym ('m, 'w) pipe_connection = "('m pipe_members, 'w) tcp_connection"

text \<open>\<open>on_create\<close> of the factory.\<close>

definition pipe_on_create :: "u64 \<Rightarrow> 'm pipe_members \<Rightarrow> 'm pipe_members" where
  "pipe_on_create cid u = u\<lparr>pipe_factory := True\<rparr>"

definition null_call :: "('m, 'w) pipe_connection \<Rightarrow> ('m, 'w) pipe_connection" where
  "null_call c = c\<lparr>app := (app c)\<lparr>faulted := True\<rparr>\<rparr>"

definition call_session ::
    "nat \<Rightarrow> ('m pipe_session \<Rightarrow> 'm pipe_session) \<Rightarrow> ('m, 'w) pipe_connection \<Rightarrow> ('m, 'w) pipe_connection" where
  "call_session a g c = c\<lparr>app := (app c)\<lparr>net := on_session a g (net (app c))\<rparr>\<rparr>"

text \<open>The sum is at most the length of the data, so that its conversion to \<open>int32_t\<close> keeps it.\<close>

definition pipe_handle_package :: "bytes \<Rightarrow> ('m, 'w) pipe_connection \<Rightarrow> int \<times> ('m, 'w) pipe_connection" where
  "pipe_handle_package data c =
     (if length data < head_size then (0, c)
      else
        let msg = head_of data
        in if length data < unat (msg_length msg) + head_size then (0, c)
           else (int (head_size + unat (msg_length msg)), c))"

definition send_heartbeat :: "'w kernel \<Rightarrow> bytes \<Rightarrow> ('m, 'w) pipe_connection \<Rightarrow> int \<times> ('m, 'w) pipe_connection" where
  "send_heartbeat k msg c =
     msend k [Arg_pod (head_bytes \<lparr>msg_length = of_nat (length msg), msg_type = PIPE_MSG_HEART_BEAT, msg_data = 0\<rparr>), Arg_string msg] c"

definition send_shakehand :: "'w kernel \<Rightarrow> bytes \<Rightarrow> ('m, 'w) pipe_connection \<Rightarrow> ('m, 'w) pipe_connection" where
  "send_shakehand k pid c =
     snd (msend k [Arg_pod (head_bytes \<lparr>msg_length = of_nat (length pid), msg_type = PIPE_MSG_SHAKE_HAND, msg_data = 0\<rparr>), Arg_string pid] c)"

definition pipe_handle_event :: "'w kernel \<Rightarrow> NetEvent \<Rightarrow> ('m, 'w) pipe_connection \<Rightarrow> bool \<times> ('m, 'w) pipe_connection" where
  "pipe_handle_event k evt c =
     (True,
      if evt = EVT_CONNECT then
        if \<not> is_passive c then
          case user_session (app c) of
            None \<Rightarrow> null_call c
          | Some a \<Rightarrow> send_shakehand k (pipe_id (sessions (net (app c)) ! a)) c
        else c
      else c)"

definition process_client_handshake :: "bytes \<Rightarrow> ('m, 'w) pipe_connection \<Rightarrow> ('m, 'w) pipe_connection" where
  "process_client_handshake msg c =
     (if 0 < msg_length (head_of msg)
      then case user_session (app c) of None \<Rightarrow> c | Some a \<Rightarrow> call_session a session_on_ready c
      else c)"

definition process_server_handshake ::
    "'w kernel \<Rightarrow> 'm session_methods \<Rightarrow> bytes \<Rightarrow> ('m, 'w) pipe_connection \<Rightarrow> ('m, 'w) pipe_connection" where
  "process_server_handshake k um msg c =
     (if 0 < msg_length (head_of msg)
      then
        let pid = msg_body msg
        in if \<not> pipe_factory (app c) then null_call c
           else
             let c = (case find_user_session pid (net (app c)) of
                        None \<Rightarrow> c
                      | Some a \<Rightarrow> call_session a (\<lambda>s. snd (session_event um 1 (session_on_ready s))) c)
             in send_shakehand k pid c
      else c)"

definition pipe_handle_data ::
    "'w kernel \<Rightarrow> 'm session_methods \<Rightarrow> bytes \<Rightarrow> ('m, 'w) pipe_connection \<Rightarrow> int \<times> ('m, 'w) pipe_connection" where
  "pipe_handle_data k um data c =
     (let msg = head_of data in
      (int (length data),
       if msg_type msg = PIPE_MSG_SHAKE_HAND
       then if is_passive c then process_server_handshake k um data c else process_client_handshake data c
       else if msg_type msg = PIPE_MSG_HEART_BEAT
       then if is_passive c then snd (send_heartbeat k [] c) else c
       else case user_session (app c) of
           None \<Rightarrow> null_call c
         | Some a \<Rightarrow> call_session a (\<lambda>s. snd (session_message um (msg_body data) (msg_length msg) (msg_data msg) s)) c))"

definition pipe_handlers :: "'w kernel \<Rightarrow> 'm session_methods \<Rightarrow> ('m pipe_members, 'w) conn_handlers" where
  "pipe_handlers k um = \<lparr>handle_package = pipe_handle_package, handle_data = pipe_handle_data k um, handle_event = pipe_handle_event k\<rparr>"

section \<open>Pipes\<close>

text \<open>\<open>PipeMode\<close>, and what \<open>start\<close> starts: the server, and the client.\<close>

definition PIPE_SERVER_MODE :: u32 where "PIPE_SERVER_MODE = 1"
definition PIPE_CLIENT_MODE :: u32 where "PIPE_CLIENT_MODE = 2"
definition PIPE_DUET_MODE :: u32 where "PIPE_DUET_MODE = 3"

definition pipe_start :: "u16 \<Rightarrow> u32 \<Rightarrow> bool \<times> bool" where
  "pipe_start port md = (md AND PIPE_SERVER_MODE \<noteq> 0 \<and> 0 < port, md AND PIPE_CLIENT_MODE \<noteq> 0)"

text \<open>\<open>s\<close> is the new session, constructed from the arguments.\<close>

definition add_local_pipe :: "bytes \<Rightarrow> 'm pipe_session \<Rightarrow> 'm pipe_net \<Rightarrow> nat \<times> 'm pipe_net" where
  "add_local_pipe pid s f =
     (let s = s\<lparr>pipe_id := pid\<rparr>;
          a = length (sessions f)
      in (a, add_session pid a (f\<lparr>sessions := sessions f @ [s]\<rparr>)))"

text \<open>The members of the connection that \<open>tcp_client.connect\<close> makes for it.\<close>

definition add_remote_pipe :: "bytes \<Rightarrow> 'm pipe_session \<Rightarrow> 'm pipe_net \<Rightarrow> nat \<times> 'm pipe_members" where
  "add_remote_pipe pid s f =
     (let (a, f) = add_local_pipe pid s f
      in (a, \<lparr>user_session = Some a, pipe_factory = True, net = f, faulted = False\<rparr>))"

section \<open>The contract of a derived class\<close>

lemma shakehand_client: "conn_client k c c' \<Longrightarrow> conn_client k c (send_shakehand k pid c')"
  unfolding send_shakehand_def by (metis conn_client.client_send prod.collapse)

lemma heartbeat_client: "conn_client k c c' \<Longrightarrow> conn_client k c (snd (send_heartbeat k pid c'))"
  unfolding send_heartbeat_def by (metis conn_client.client_send prod.collapse)

lemma app_client: "conn_client k c c' \<Longrightarrow> conn_client k c (null_call c')" "conn_client k c c' \<Longrightarrow> conn_client k c (call_session a g c')"
  by (simp_all add: null_call_def call_session_def conn_client.client_app)

lemmas pipe_client = shakehand_client heartbeat_client app_client conn_client.client_refl

text \<open>The length of the complete message that a byte string begins with.\<close>

definition pipe_frame :: "bytes \<Rightarrow> nat option" where
  "pipe_frame v =
     (if length v < head_size then None
      else if length v < unat (msg_length (head_of v)) + head_size then None
      else Some (head_size + unat (msg_length (head_of v))))"

lemma head_of_take: "head_size \<le> n \<Longrightarrow> n \<le> length v \<Longrightarrow> head_of (take n v) = head_of v"
  by (simp add: head_of_def slice_def min_def drop_take)

lemma head_of_append: "head_size \<le> length v \<Longrightarrow> head_of (v @ w) = head_of v"
  by (simp add: head_of_def slice_def)

interpretation pipe_frame: framing pipe_frame
proof
  fix v w n
  assume "pipe_frame v = Some n"
  then have n: "head_size \<le> length v" "n = head_size + unat (msg_length (head_of v))" "n \<le> length v"
    by (auto simp: pipe_frame_def split: if_splits)
  then show "0 < n \<and> n \<le> length v" by simp
  show "pipe_frame (take n v) = Some n" using n head_of_take [of n v] by (simp add: pipe_frame_def)
  show "pipe_frame (v @ w) = Some n" using n head_of_append [of v w] by (simp add: pipe_frame_def)
qed

interpretation pipe: framed_methods k "pipe_handlers k um" pipe_frame
  for k :: "'w kernel" and um :: "'m session_methods"
proof
  fix c c' :: "('m, 'w) pipe_connection" and d v n evt b
  show "handle_package (pipe_handlers k um) d c = (n, c') \<Longrightarrow> conn_client k c c'"
    by (auto simp: pipe_handlers_def pipe_handle_package_def Let_def intro: pipe_client split: if_splits)
  show "handle_data (pipe_handlers k um) d c = (n, c') \<Longrightarrow> conn_client k c c'"
    by (auto simp: pipe_handlers_def pipe_handle_data_def process_server_handshake_def process_client_handshake_def Let_def
        intro!: pipe_client split: option.splits)
  show "handle_event (pipe_handlers k um) evt c = (b, c') \<Longrightarrow> conn_client k c c'"
    by (auto simp: pipe_handlers_def pipe_handle_event_def intro!: pipe_client split: option.splits)
  show "handle_package (pipe_handlers k um) v c = (n, c') \<Longrightarrow> (if 0 < n then pipe_frame v = Some (nat n) else pipe_frame v = None)"
    by (auto simp: pipe_handlers_def pipe_handle_package_def pipe_frame_def Let_def simp del: of_nat_add split: if_splits)
qed

text \<open>So a server of pipe connections is an instance of the server of \<open>TcpConnection\<close>.\<close>

lemma pipe_methods_ok: "methods_ok k (pipe_handlers k um)"
  unfolding methods_ok_def using pipe.package_client pipe.data_client pipe.event_client by (metis prod.collapse)

section \<open>Properties\<close>

definition pipe_message :: "u32 \<times> u64 \<times> bytes \<Rightarrow> bytes" where
  "pipe_message m = (case m of (t, d, body) \<Rightarrow>
     head_bytes \<lparr>msg_length = of_nat (length body), msg_type = t, msg_data = d\<rparr> @ body)"

definition pipe_parse :: "bytes \<Rightarrow> u32 \<times> u64 \<times> bytes" where
  "pipe_parse d = (msg_type (head_of d), msg_data (head_of d), msg_body d)"

definition fits :: "u32 \<times> u64 \<times> bytes \<Rightarrow> bool" where
  "fits m \<longleftrightarrow> length (snd (snd m)) < 2 ^ 32"

lemma pipe_parse_message:
  assumes "fits m"
  shows "pipe_parse (pipe_message m) = m" "pipe_frame (pipe_message m) = Some (length (pipe_message m))"
proof -
  obtain t d b where m: "m = (t, d, b)" by (cases m)
  have "unat (of_nat (length b) :: u32) = length b" using assms by (simp add: m fits_def unat_of_nat take_bit_nat_eq_self)
  then show "pipe_parse (pipe_message m) = m" "pipe_frame (pipe_message m) = Some (length (pipe_message m))"
    by (simp_all add: m pipe_parse_def pipe_message_def msg_body_def pipe_frame_def slice_def)
qed

text \<open>
  (C9) Messages arrive as they were sent: if the bytes that a pipe connection has received are whole messages followed by
  the beginning of another one, then what it has handed to \<open>handle_data\<close> is exactly these messages, with their
  types, user data and bodies, and the beginning waits in the receive buffer. This holds however the stream
  was cut into pieces, and also though \<open>handle_package\<close> is shown bytes beyond those received.
\<close>

theorem pipe_messages_delivered:
  assumes "kernel_ok k" "bufsize \<le> length mem" "0 < fd"
    and "conn_steps k (pipe_handlers k um) bufsize (new_connection mem cid fd host port u w) c"
    and "conn_status c = CONN_IDLE \<or> conn_status c = CONN_OPEN"
    and "received c = concat (map pipe_message ms) @ r" "\<forall>m \<in> set ms. fits m" "pipe_frame r = None"
  shows "map pipe_parse (delivered c) = ms \<and> take (read_buffer_pos c) (read_buffer c) = r"
proof -
  have "\<not> closing c" using assms(5) by (auto simp: closing_def)
  from pipe.frames_life [OF assms(1-4) this]
  have f: "pipe_frame.frames (received c) = (delivered c, take (read_buffer_pos c) (read_buffer c))" .
  have "\<forall>d \<in> set (map pipe_message ms). pipe_frame d = Some (length d)" using assms(7) pipe_parse_message(2) by auto
  from pipe_frame.frames_exact [OF this assms(8)] f assms(6)
  have "delivered c = map pipe_message ms" "take (read_buffer_pos c) (read_buffer c) = r" by simp_all
  with assms(7) pipe_parse_message(1) show ?thesis by (simp add: map_idI)
qed

text \<open>A passive connection that gets a heartbeat, cut in two, and the beginning of the next message.\<close>

definition sample_members :: "unit pipe_members" where
  "sample_members = \<lparr>user_session = None, pipe_factory = True,
     net = \<lparr>pipe_map = [''p'' \<mapsto> 0], sessions = [\<lparr>pipe_id = ''p'', pipe_status = PIPE_STATUS_INIT, session_state = ()\<rparr>]\<rparr>,
     faulted = False\<rparr>"

definition sample_pipe :: "bytes list \<Rightarrow> (unit, bytes list) pipe_connection" where
  "sample_pipe w = new_connection (replicate 20 CHR ''-'') 1025 7 ''h'' 80 sample_members w"

text \<open>The events \<open>evts\<close>, one after the other.\<close>

fun run_events ::
    "'w kernel \<Rightarrow> ('u, 'w) conn_handlers \<Rightarrow> nat \<Rightarrow> u32 list \<Rightarrow> ('u, 'w) tcp_connection \<Rightarrow> ('u, 'w) tcp_connection option" where
  "run_events k h bufsize [] c = Some c"
| "run_events k h bufsize (evts # es) c = Option.bind (process_event k h bufsize evts c) (run_events k h bufsize es)"

lemma run_events_steps: "run_events k h bufsize es c1 = Some c' \<Longrightarrow> conn_steps k h bufsize c c1 \<Longrightarrow> conn_steps k h bufsize c c'"
proof (induction es arbitrary: c1)
  case (Cons evts es)
  then obtain c2 where "process_event k h bufsize evts c1 = Some c2" "run_events k h bufsize es c2 = Some c'"
    by (auto simp: Option.bind_eq_Some_conv)
  with Cons show ?case by (meson conn_step.step_event conn_steps.steps_step)
qed simp

abbreviation sample_handlers :: "(unit pipe_members, bytes list) conn_handlers" where
  "sample_handlers \<equiv> pipe_handlers script_kernel PipeSession_methods"

abbreviation heartbeat_stream :: "bytes list" where
  "heartbeat_stream \<equiv> [take 10 (pipe_message (2, 9, ''h'')), drop 10 (pipe_message (2, 9, ''h'')) @ ''x'']"

lemma sample_pipe_run:
  "\<exists>c. run_events script_kernel sample_handlers 20 [1, 1, 1] (sample_pipe heartbeat_stream) = Some c \<and>
     received c = pipe_message (2, 9, ''h'') @ ''x'' \<and> conn_status c = CONN_OPEN"
proof -
  have "map_option (\<lambda>c. (received c = pipe_message (2, 9, ''h'') @ ''x'', conn_status c))
      (run_events script_kernel sample_handlers 20 [1, 1, 1] (sample_pipe heartbeat_stream)) = Some (True, CONN_OPEN)"
    by code_simp
  then show ?thesis unfolding map_option_eq_Some by auto
qed

theorem pipe_messages_delivered_witness:
  "\<exists>c. run_events script_kernel sample_handlers 20 [1, 1, 1] (sample_pipe heartbeat_stream) = Some c \<and>
     map pipe_parse (delivered c) = [(2, 9, ''h'')] \<and> take (read_buffer_pos c) (read_buffer c) = ''x''"
proof -
  obtain c where c: "run_events script_kernel sample_handlers 20 [1, 1, 1] (sample_pipe heartbeat_stream) = Some c"
    "received c = pipe_message (2, 9, ''h'') @ ''x''" "conn_status c = CONN_OPEN" using sample_pipe_run by blast
  have s: "conn_steps script_kernel sample_handlers 20 (sample_pipe heartbeat_stream) c"
    by (rule run_events_steps [OF c(1) conn_steps.steps_refl])
  have "pipe_frame ''x'' = None" by (simp add: pipe_frame_def)
  moreover have "\<forall>m \<in> set [(2, 9, ''h'')]. fits m" by (simp add: fits_def)
  moreover have "20 \<le> length (replicate 20 CHR ''-'')" "0 < (7 :: int)" by simp_all
  ultimately show ?thesis
    using pipe_messages_delivered [OF script_kernel_ok _ _ s [unfolded sample_pipe_def], of "[(2, 9, ''h'')]" "''x''"] c by auto
qed

section \<open>The handshake\<close>

lemma word_length_pos:
  assumes "0 < length d" "length d < 2 ^ 32"
  shows "0 < (of_nat (length d) :: u32)"
proof -
  have "unat (of_nat (length d) :: u32) = length d" using assms(2) by (simp add: unat_of_nat take_bit_nat_eq_self)
  with assms(1) show ?thesis by (metis unat_gt_0 word_gt_0)
qed

lemma msend_accepted:
  assumes "is_open c" "length (send_buffer c @ head_bytes hdr @ d) < 2 ^ 32"
  shows "accepted (snd (msend k [Arg_pod (head_bytes hdr), Arg_string d] c)) = accepted c @ head_bytes hdr @ d"
proof -
  have 1: "0 < (of_nat (length (send_buffer c @ head_bytes hdr)) :: u32)" by (rule word_length_pos) (use assms(2) in simp_all)
  have "accepted (snd (mpush [Arg_pod (head_bytes hdr), Arg_string d] c)) = accepted c @ head_bytes hdr @ d"
    using 1 by (simp add: write_data_def append_data_def Let_def case_prod_beta)
  with assms(1) show ?thesis by (simp add: msend_def Let_def case_prod_beta do_send_accepted)
qed

lemma msend_app: "app (snd (msend k args c)) = app c"
  using msend_own [OF prod.collapse [symmetric]] by blast

abbreviation shake_hand :: "bytes \<Rightarrow> bytes" where
  "shake_hand pid \<equiv> pipe_message (PIPE_MSG_SHAKE_HAND, 0, pid)"

lemma send_shakehand_effect:
  assumes "is_open c" "length (send_buffer c) + head_size + length pid < 2 ^ 32"
  shows "accepted (send_shakehand k pid c) = accepted c @ shake_hand pid \<and> app (send_shakehand k pid c) = app c"
  using msend_accepted [OF assms(1), of "\<lparr>msg_length = of_nat (length pid), msg_type = PIPE_MSG_SHAKE_HAND, msg_data = 0\<rparr>" pid k] assms(2)
  by (simp add: send_shakehand_def pipe_message_def add.assoc msend_app)

lemma shake_hand_head:
  assumes "length pid < 2 ^ 32" "pid \<noteq> []"
  shows "msg_type (head_of (shake_hand pid)) = PIPE_MSG_SHAKE_HAND" "0 < msg_length (head_of (shake_hand pid))"
    "msg_body (shake_hand pid) = pid"
proof -
  have "fits (PIPE_MSG_SHAKE_HAND, 0, pid)" using assms(1) by (simp add: fits_def)
  from pipe_parse_message(1) [OF this] show "msg_type (head_of (shake_hand pid)) = PIPE_MSG_SHAKE_HAND" "msg_body (shake_hand pid) = pid"
    by (simp_all add: pipe_parse_def)
  show "0 < msg_length (head_of (shake_hand pid))" using word_length_pos [of pid] assms by (simp add: pipe_message_def)
qed

text \<open>
  (C24) The handshake binds both ends: the client announces the id of its session when it is connected; the server, for an id its
  factory knows, binds the session and answers with the same message, and that binds the session of the client.
  Each side sends exactly this one message.
\<close>

theorem pipe_handshake:
  assumes "is_open client" "\<not> is_passive client" "user_session (app client) = Some a" "a < length (sessions (net (app client)))"
    and "pid = pipe_id (sessions (net (app client)) ! a)" "pid \<noteq> []" "length (send_buffer client) + head_size + length pid < 2 ^ 32"
    and "is_open server" "is_passive server" "pipe_factory (app server)" "find_user_session pid (net (app server)) = Some b"
    and "b < length (sessions (net (app server)))" "length (send_buffer server) + head_size + length pid < 2 ^ 32"
    and "\<And>s. pipe_status (snd (session_event um 1 s)) = pipe_status s"
    and "client1 = snd (handle_event (pipe_handlers k um) EVT_CONNECT client)"
    and "server1 = snd (handle_data (pipe_handlers k' um) (shake_hand pid) server)"
    and "client2 = snd (handle_data (pipe_handlers k um) (shake_hand pid) client1)"
  shows "accepted client1 = accepted client @ shake_hand pid \<and>
    accepted server1 = accepted server @ shake_hand pid \<and> pipe_status (sessions (net (app server1)) ! b) = PIPE_STATUS_BIND \<and>
    accepted client2 = accepted client1 \<and> pipe_status (sessions (net (app client2)) ! a) = PIPE_STATUS_BIND"
proof -
  have len: "length pid < 2 ^ 32" using assms(7) by linarith
  note hd = shake_hand_head [OF len assms(6)]
  have c1: "client1 = send_shakehand k pid client"
    using assms(2,3,5,15) by (simp add: pipe_handlers_def pipe_handle_event_def)
  note e1 = send_shakehand_effect [OF assms(1,7), of k]
  have "\<not> is_passive client1"
    unfolding c1 send_shakehand_def using msend_own [OF prod.collapse [symmetric]] assms(2) by blast
  then have c2: "client2 = call_session a session_on_ready client1"
    using assms(3,17) hd(1,2) c1 e1 by (simp add: pipe_handlers_def pipe_handle_data_def process_client_handshake_def Let_def)
  define s where "s = call_session b (\<lambda>s. snd (session_event um 1 (session_on_ready s))) server"
  have s1: "server1 = send_shakehand k' pid s"
    using assms(9-11,16) hd by (simp add: pipe_handlers_def pipe_handle_data_def process_server_handshake_def Let_def s_def)
  have "is_open s = is_open server" "send_buffer s = send_buffer server" "accepted s = accepted server"
    by (simp_all add: s_def call_session_def is_open_def)
  with send_shakehand_effect [of s pid k'] assms(8,13) have e2: "accepted server1 = accepted server @ shake_hand pid" "app server1 = app s"
    by (simp_all add: s1)
  have "pipe_status (sessions (net (app s)) ! b) = PIPE_STATUS_BIND"
    using assms(12,14) by (simp add: s_def call_session_def on_session_def session_on_ready_def)
  moreover have "pipe_status (sessions (net (app client2)) ! a) = PIPE_STATUS_BIND"
    using assms(4) e1 c1 by (simp add: c2 call_session_def on_session_def session_on_ready_def)
  moreover have "accepted client2 = accepted client1" by (simp add: c2 call_session_def)
  ultimately show ?thesis using e1 c1 e2 by simp
qed

text \<open>A server that knows the session \<open>p\<close>, and a client with such a session, both open.\<close>

definition server_end :: "(unit, bytes list) pipe_connection" where
  "server_end = (sample_pipe [])\<lparr>conn_status := CONN_OPEN\<rparr>"

definition client_end :: "(unit, bytes list) pipe_connection" where
  "client_end = (sample_pipe [])\<lparr>conn_status := CONN_OPEN, is_passive := False, app := sample_members\<lparr>user_session := Some 0\<rparr>\<rparr>"

theorem pipe_handshake_witness:
  "pipe_status (sessions (net (app (snd (handle_data sample_handlers (shake_hand ''p'') server_end)))) ! 0) = PIPE_STATUS_BIND \<and>
   accepted (snd (handle_event sample_handlers EVT_CONNECT client_end)) = shake_hand ''p''"
proof -
  note d = client_end_def server_end_def sample_pipe_def new_connection_def conn_init_def sample_members_def Let_def
  have "is_open client_end" "\<not> is_passive client_end" "user_session (app client_end) = Some 0"
      "0 < length (sessions (net (app client_end)))" "''p'' = pipe_id (sessions (net (app client_end)) ! 0)" "''p'' \<noteq> []"
      "length (send_buffer client_end) + head_size + length ''p'' < 2 ^ 32"
    and "is_open server_end" "is_passive server_end" "pipe_factory (app server_end)" "find_user_session ''p'' (net (app server_end)) = Some 0"
      "0 < length (sessions (net (app server_end)))" "length (send_buffer server_end) + head_size + length ''p'' < 2 ^ 32"
      "\<And>s. pipe_status (snd (session_event PipeSession_methods 1 s)) = pipe_status s" "accepted client_end = []"
    by (simp_all add: d is_open_def find_user_session_def PipeSession_methods_def)
  from pipe_handshake [OF this(1-14) refl refl refl] this(15) show ?thesis by simp
qed

section \<open>Data on the side of the server\<close>

text \<open>No one sets the session of a passive connection.\<close>

definition data_faults :: "('m, 'w) pipe_connection \<Rightarrow> bool" where
  "data_faults c \<longleftrightarrow> is_passive c \<and> user_session (app c) = None \<and>
     ((\<exists>d \<in> set (delivered c). msg_type (head_of d) \<notin> {PIPE_MSG_SHAKE_HAND, PIPE_MSG_HEART_BEAT}) \<longrightarrow> faulted (app c))"

lemma pipe_send_own:
  "app (send_shakehand k pid c) = app c" "delivered (send_shakehand k pid c) = delivered c" "is_passive (send_shakehand k pid c) = is_passive c"
  "app (snd (send_heartbeat k pid c)) = app c" "delivered (snd (send_heartbeat k pid c)) = delivered c"
  "is_passive (snd (send_heartbeat k pid c)) = is_passive c"
  using msend_own [OF prod.collapse [symmetric]] by (auto simp: send_shakehand_def send_heartbeat_def)

lemma data_faults_data:
  assumes "data_faults c" "pipe_handle_data k um d (c\<lparr>delivered := delivered c @ [d]\<rparr>) = (m, c2)"
  shows "data_faults c2"
  using assms
  by (auto simp: pipe_handle_data_def process_server_handshake_def data_faults_def null_call_def call_session_def pipe_send_own Let_def
      split: if_splits option.splits)

interpretation pipe_faults: conn_invariant "pipe_handlers k um" data_faults
  for k :: "'w kernel" and um :: "'m session_methods"
proof
  fix c c' c1 c2 :: "('m, 'w) pipe_connection" and v n b es evt readPos d m
  show "data_faults c \<Longrightarrow> app c' = app c \<Longrightarrow> delivered c' = delivered c \<Longrightarrow> is_passive c' = is_passive c \<Longrightarrow> data_faults c'"
    by (simp add: data_faults_def)
  have p: "handle_package (pipe_handlers k um) v c = (n, c1) \<Longrightarrow> c1 = c" for v n c1
    by (auto simp: pipe_handlers_def pipe_handle_package_def Let_def split: if_splits)
  then show "data_faults c \<Longrightarrow> handle_package (pipe_handlers k um) v c = (n, c') \<Longrightarrow> data_faults c'" by blast
  show "data_faults c \<Longrightarrow> handle_package (pipe_handlers k um) (slice (read_buffer c) readPos (read_buffer_pos c)) c = (n, c1) \<Longrightarrow>
      handle_data (pipe_handlers k um) d (c1\<lparr>delivered := delivered c1 @ [d]\<rparr>) = (m, c2) \<Longrightarrow> data_faults c2"
    using p data_faults_data [of c k um d m c2] by (auto simp: pipe_handlers_def)
  show "data_faults c \<Longrightarrow> handle_event (pipe_handlers k um) evt (c\<lparr>events := es\<rparr>) = (b, c') \<Longrightarrow> data_faults c'"
    by (auto simp: pipe_handlers_def pipe_handle_event_def data_faults_def split: if_splits)
qed

text \<open>
  (C29) A pipe never carries data to a server: the first message on an accepted connection that is neither a handshake nor a
  heartbeat makes it call its session through a null pointer, also after a handshake, since the handshake does
  not set the session of the connection.
\<close>

theorem pipe_server_data_faults:
  assumes "user_session u = None"
    and "run_events k (pipe_handlers k um) bufsize es (new_connection mem cid fd host port (pipe_on_create cid u) w) = Some c"
    and "d \<in> set (delivered c)" "msg_type (head_of d) \<notin> {PIPE_MSG_SHAKE_HAND, PIPE_MSG_HEART_BEAT}"
  shows "faulted (app c)"
proof -
  have "data_faults (new_connection mem cid fd host port (pipe_on_create cid u) w)"
    using assms(1) by (simp add: data_faults_def new_connection_def conn_init_def pipe_on_create_def Let_def)
  moreover have "data_faults c' \<Longrightarrow> run_events k (pipe_handlers k um) bufsize es c' = Some c \<Longrightarrow> data_faults c" for c'
    by (induction es arbitrary: c') (auto simp: Option.bind_eq_Some_conv dest: pipe_faults.process_event_keeps)
  ultimately show ?thesis using assms(2-4) unfolding data_faults_def by blast
qed

theorem pipe_server_data_faults_witness:
  "\<exists>c. run_events script_kernel sample_handlers 20 [1] (new_connection (replicate 20 CHR ''-'') 1025 7 ''h'' 80
      (pipe_on_create 1025 sample_members) [pipe_message (PIPE_MSG_DATA, 0, ''d'')]) = Some c \<and> faulted (app c)"
proof -
  let ?c = "new_connection (replicate 20 CHR ''-'') 1025 7 ''h'' 80 (pipe_on_create 1025 sample_members) [pipe_message (PIPE_MSG_DATA, 0, ''d'')]"
  have "map_option (\<lambda>c. map (msg_type \<circ> head_of) (delivered c)) (run_events script_kernel sample_handlers 20 [1] ?c) = Some [3]"
    by code_simp
  then obtain c where c: "run_events script_kernel sample_handlers 20 [1] ?c = Some c" "map (msg_type \<circ> head_of) (delivered c) = [3]"
    unfolding map_option_eq_Some by (elim exE conjE) (rule that)
  from c(2) obtain d where d: "d \<in> set (delivered c)" "msg_type (head_of d) = 3" by (cases "delivered c") auto
  have u: "user_session sample_members = None" by (simp add: sample_members_def)
  have "msg_type (head_of d) \<notin> {PIPE_MSG_SHAKE_HAND, PIPE_MSG_HEART_BEAT}" by (simp add: d(2) pipe_msg_defs)
  from pipe_server_data_faults [OF u c(1) d(1) this] show ?thesis by (intro exI [of _ c] conjI c(1))
qed

end
