(* ===== verification/Http_Parser_Types.thy ===== *)
theory Http_Parser_Types
  imports Snet_Prelude
begin

text \<open>
  The data of \<open>include/http/http_parser.h\<close>: methods, error codes, parser and header states, the
  character tables and classes, the structures \<open>http_parser\<close> and \<open>http_parser_settings\<close>, and the
  small functions on them (initialisation, keep-alive, names of methods and errors, pausing).
  The strict build is modelled (\<open>HTTP_PARSER_STRICT\<close> is 1 unless the build overrides it). A byte
  is an Isabelle \<open>char\<close>; where C compares a (signed) \<open>char\<close> with a bound, the model compares the
  unsigned value: each such comparison in the source is an interval test within the ASCII
  range, for which the two agree.
\<close>

section \<open>Enumerations\<close>

text \<open>The status codes with their names and reason phrases.\<close>

definition HTTP_STATUS_MAP :: "(nat \<times> string \<times> string) list" where
  "HTTP_STATUS_MAP = [
    (100, ''CONTINUE'', ''Continue''), (101, ''SWITCHING_PROTOCOLS'', ''Switching Protocols''),
    (102, ''PROCESSING'', ''Processing''), (200, ''OK'', ''OK''),
    (201, ''CREATED'', ''Created''), (202, ''ACCEPTED'', ''Accepted''),
    (203, ''NON_AUTHORITATIVE_INFORMATION'', ''Non-Authoritative Information''),
    (204, ''NO_CONTENT'', ''No Content''), (205, ''RESET_CONTENT'', ''Reset Content''),
    (206, ''PARTIAL_CONTENT'', ''Partial Content''), (207, ''MULTI_STATUS'', ''Multi-Status''),
    (208, ''ALREADY_REPORTED'', ''Already Reported''), (226, ''IM_USED'', ''IM Used''),
    (300, ''MULTIPLE_CHOICES'', ''Multiple Choices''),
    (301, ''MOVED_PERMANENTLY'', ''Moved Permanently''), (302, ''FOUND'', ''Found''),
    (303, ''SEE_OTHER'', ''See Other''), (304, ''NOT_MODIFIED'', ''Not Modified''),
    (305, ''USE_PROXY'', ''Use Proxy''), (307, ''TEMPORARY_REDIRECT'', ''Temporary Redirect''),
    (308, ''PERMANENT_REDIRECT'', ''Permanent Redirect''),
    (400, ''BAD_REQUEST'', ''Bad Request''), (401, ''UNAUTHORIZED'', ''Unauthorized''),
    (402, ''PAYMENT_REQUIRED'', ''Payment Required''), (403, ''FORBIDDEN'', ''Forbidden''),
    (404, ''NOT_FOUND'', ''Not Found''), (405, ''METHOD_NOT_ALLOWED'', ''Method Not Allowed''),
    (406, ''NOT_ACCEPTABLE'', ''Not Acceptable''),
    (407, ''PROXY_AUTHENTICATION_REQUIRED'', ''Proxy Authentication Required''),
    (408, ''REQUEST_TIMEOUT'', ''Request Timeout''), (409, ''CONFLICT'', ''Conflict''),
    (410, ''GONE'', ''Gone''), (411, ''LENGTH_REQUIRED'', ''Length Required''),
    (412, ''PRECONDITION_FAILED'', ''Precondition Failed''),
    (413, ''PAYLOAD_TOO_LARGE'', ''Payload Too Large''),
    (414, ''URI_TOO_LONG'', ''URI Too Long''),
    (415, ''UNSUPPORTED_MEDIA_TYPE'', ''Unsupported Media Type''),
    (416, ''RANGE_NOT_SATISFIABLE'', ''Range Not Satisfiable''),
    (417, ''EXPECTATION_FAILED'', ''Expectation Failed''),
    (421, ''MISDIRECTED_REQUEST'', ''Misdirected Request''),
    (422, ''UNPROCESSABLE_ENTITY'', ''Unprocessable Entity''), (423, ''LOCKED'', ''Locked''),
    (424, ''FAILED_DEPENDENCY'', ''Failed Dependency''),
    (426, ''UPGRADE_REQUIRED'', ''Upgrade Required''),
    (428, ''PRECONDITION_REQUIRED'', ''Precondition Required''),
    (429, ''TOO_MANY_REQUESTS'', ''Too Many Requests''),
    (431, ''REQUEST_HEADER_FIELDS_TOO_LARGE'', ''Request Header Fields Too Large''),
    (451, ''UNAVAILABLE_FOR_LEGAL_REASONS'', ''Unavailable For Legal Reasons''),
    (500, ''INTERNAL_SERVER_ERROR'', ''Internal Server Error''),
    (501, ''NOT_IMPLEMENTED'', ''Not Implemented''), (502, ''BAD_GATEWAY'', ''Bad Gateway''),
    (503, ''SERVICE_UNAVAILABLE'', ''Service Unavailable''),
    (504, ''GATEWAY_TIMEOUT'', ''Gateway Timeout''),
    (505, ''HTTP_VERSION_NOT_SUPPORTED'', ''HTTP Version Not Supported''),
    (506, ''VARIANT_ALSO_NEGOTIATES'', ''Variant Also Negotiates''),
    (507, ''INSUFFICIENT_STORAGE'', ''Insufficient Storage''),
    (508, ''LOOP_DETECTED'', ''Loop Detected''), (510, ''NOT_EXTENDED'', ''Not Extended''),
    (511, ''NETWORK_AUTHENTICATION_REQUIRED'', ''Network Authentication Required'')]"

datatype (plugins only: code) http_method =
    HTTP_DELETE | HTTP_GET | HTTP_HEAD | HTTP_POST | HTTP_PUT | HTTP_CONNECT | HTTP_OPTIONS |
    HTTP_TRACE | HTTP_COPY | HTTP_LOCK | HTTP_MKCOL | HTTP_MOVE | HTTP_PROPFIND |
    HTTP_PROPPATCH | HTTP_SEARCH | HTTP_UNLOCK | HTTP_BIND | HTTP_REBIND | HTTP_UNBIND |
    HTTP_ACL | HTTP_REPORT | HTTP_MKACTIVITY | HTTP_CHECKOUT | HTTP_MERGE | HTTP_MSEARCH |
    HTTP_NOTIFY | HTTP_SUBSCRIBE | HTTP_UNSUBSCRIBE | HTTP_PATCH | HTTP_PURGE |
    HTTP_MKCALENDAR | HTTP_LINK | HTTP_UNLINK | HTTP_SOURCE

definition http_method_num :: "http_method \<Rightarrow> nat" where
  "http_method_num m = (case m of
      HTTP_DELETE \<Rightarrow> 0 | HTTP_GET \<Rightarrow> 1 | HTTP_HEAD \<Rightarrow> 2 |
      HTTP_POST \<Rightarrow> 3 | HTTP_PUT \<Rightarrow> 4 | HTTP_CONNECT \<Rightarrow> 5 |
      HTTP_OPTIONS \<Rightarrow> 6 | HTTP_TRACE \<Rightarrow> 7 | HTTP_COPY \<Rightarrow> 8 |
      HTTP_LOCK \<Rightarrow> 9 | HTTP_MKCOL \<Rightarrow> 10 | HTTP_MOVE \<Rightarrow> 11 |
      HTTP_PROPFIND \<Rightarrow> 12 | HTTP_PROPPATCH \<Rightarrow> 13 |
      HTTP_SEARCH \<Rightarrow> 14 | HTTP_UNLOCK \<Rightarrow> 15 |
      HTTP_BIND \<Rightarrow> 16 | HTTP_REBIND \<Rightarrow> 17 |
      HTTP_UNBIND \<Rightarrow> 18 | HTTP_ACL \<Rightarrow> 19 | HTTP_REPORT \<Rightarrow> 20 |
      HTTP_MKACTIVITY \<Rightarrow> 21 | HTTP_CHECKOUT \<Rightarrow> 22 |
      HTTP_MERGE \<Rightarrow> 23 | HTTP_MSEARCH \<Rightarrow> 24 |
      HTTP_NOTIFY \<Rightarrow> 25 | HTTP_SUBSCRIBE \<Rightarrow> 26 |
      HTTP_UNSUBSCRIBE \<Rightarrow> 27 | HTTP_PATCH \<Rightarrow> 28 |
      HTTP_PURGE \<Rightarrow> 29 | HTTP_MKCALENDAR \<Rightarrow> 30 |
      HTTP_LINK \<Rightarrow> 31 | HTTP_UNLINK \<Rightarrow> 32 | HTTP_SOURCE \<Rightarrow> 33)"

definition method_strings :: "string list" where
  "method_strings = [
    ''DELETE'', ''GET'', ''HEAD'', ''POST'', ''PUT'', ''CONNECT'', ''OPTIONS'', ''TRACE'',
    ''COPY'', ''LOCK'', ''MKCOL'', ''MOVE'', ''PROPFIND'', ''PROPPATCH'', ''SEARCH'',
    ''UNLOCK'', ''BIND'', ''REBIND'', ''UNBIND'', ''ACL'', ''REPORT'', ''MKACTIVITY'',
    ''CHECKOUT'', ''MERGE'', ''M-SEARCH'', ''NOTIFY'', ''SUBSCRIBE'', ''UNSUBSCRIBE'',
    ''PATCH'', ''PURGE'', ''MKCALENDAR'', ''LINK'', ''UNLINK'', ''SOURCE'']"

datatype http_parser_type = HTTP_REQUEST | HTTP_RESPONSE | HTTP_BOTH

text \<open>Flag values of the 8-bit field \<open>flags\<close>.\<close>

definition F_CHUNKED :: u8 where "F_CHUNKED = 1"
definition F_CONNECTION_KEEP_ALIVE :: u8 where "F_CONNECTION_KEEP_ALIVE = 2"
definition F_CONNECTION_CLOSE :: u8 where "F_CONNECTION_CLOSE = 4"
definition F_CONNECTION_UPGRADE :: u8 where "F_CONNECTION_UPGRADE = 8"
definition F_TRAILING :: u8 where "F_TRAILING = 16"
definition F_UPGRADE :: u8 where "F_UPGRADE = 32"
definition F_SKIPBODY :: u8 where "F_SKIPBODY = 64"
definition F_CONTENTLENGTH :: u8 where "F_CONTENTLENGTH = 128"

lemmas flag_defs = F_CHUNKED_def F_CONNECTION_KEEP_ALIVE_def F_CONNECTION_CLOSE_def
  F_CONNECTION_UPGRADE_def F_TRAILING_def F_UPGRADE_def F_SKIPBODY_def F_CONTENTLENGTH_def

text \<open>The C condition \<open>flags & f\<close>.\<close>

definition has_flag :: "u8 \<Rightarrow> u8 \<Rightarrow> bool" where
  "has_flag fl f \<longleftrightarrow> fl AND f \<noteq> 0"

lemma has_flag_or [simp]: "has_flag (a OR b) f \<longleftrightarrow> has_flag a f \<or> has_flag b f"
  by (simp add: has_flag_def bit.conj_disj_distrib2 or_eq_0_iff)

lemma has_flag_zero [simp]: "\<not> has_flag 0 f"
  by (simp add: has_flag_def)

datatype (plugins only: code) http_errno =
    HPE_OK | HPE_CB_message_begin | HPE_CB_url | HPE_CB_header_field | HPE_CB_header_value |
    HPE_CB_headers_complete | HPE_CB_body | HPE_CB_message_complete | HPE_CB_status |
    HPE_CB_chunk_header | HPE_CB_chunk_complete | HPE_INVALID_EOF_STATE | HPE_HEADER_OVERFLOW |
    HPE_CLOSED_CONNECTION | HPE_INVALID_VERSION | HPE_INVALID_STATUS | HPE_INVALID_METHOD |
    HPE_INVALID_URL | HPE_INVALID_HOST | HPE_INVALID_PORT | HPE_INVALID_PATH |
    HPE_INVALID_QUERY_STRING | HPE_INVALID_FRAGMENT | HPE_LF_EXPECTED |
    HPE_INVALID_HEADER_TOKEN | HPE_INVALID_CONTENT_LENGTH | HPE_UNEXPECTED_CONTENT_LENGTH |
    HPE_INVALID_CHUNK_SIZE | HPE_INVALID_CONSTANT | HPE_INVALID_INTERNAL_STATE | HPE_STRICT |
    HPE_PAUSED | HPE_UNKNOWN

definition http_errno_num :: "http_errno \<Rightarrow> nat" where
  "http_errno_num e = (case e of
      HPE_OK \<Rightarrow> 0 | HPE_CB_message_begin \<Rightarrow> 1 |
      HPE_CB_url \<Rightarrow> 2 | HPE_CB_header_field \<Rightarrow> 3 |
      HPE_CB_header_value \<Rightarrow> 4 | HPE_CB_headers_complete \<Rightarrow> 5 |
      HPE_CB_body \<Rightarrow> 6 | HPE_CB_message_complete \<Rightarrow> 7 |
      HPE_CB_status \<Rightarrow> 8 | HPE_CB_chunk_header \<Rightarrow> 9 |
      HPE_CB_chunk_complete \<Rightarrow> 10 | HPE_INVALID_EOF_STATE \<Rightarrow> 11 |
      HPE_HEADER_OVERFLOW \<Rightarrow> 12 | HPE_CLOSED_CONNECTION \<Rightarrow> 13 |
      HPE_INVALID_VERSION \<Rightarrow> 14 | HPE_INVALID_STATUS \<Rightarrow> 15 |
      HPE_INVALID_METHOD \<Rightarrow> 16 | HPE_INVALID_URL \<Rightarrow> 17 |
      HPE_INVALID_HOST \<Rightarrow> 18 | HPE_INVALID_PORT \<Rightarrow> 19 |
      HPE_INVALID_PATH \<Rightarrow> 20 | HPE_INVALID_QUERY_STRING \<Rightarrow> 21 |
      HPE_INVALID_FRAGMENT \<Rightarrow> 22 | HPE_LF_EXPECTED \<Rightarrow> 23 |
      HPE_INVALID_HEADER_TOKEN \<Rightarrow> 24 | HPE_INVALID_CONTENT_LENGTH \<Rightarrow> 25 |
      HPE_UNEXPECTED_CONTENT_LENGTH \<Rightarrow> 26 |
      HPE_INVALID_CHUNK_SIZE \<Rightarrow> 27 | HPE_INVALID_CONSTANT \<Rightarrow> 28 |
      HPE_INVALID_INTERNAL_STATE \<Rightarrow> 29 | HPE_STRICT \<Rightarrow> 30 |
      HPE_PAUSED \<Rightarrow> 31 | HPE_UNKNOWN \<Rightarrow> 32)"

text \<open>The table of names and descriptions of the error codes.\<close>

definition http_strerror_tab :: "(string \<times> string) list" where
  "http_strerror_tab = [
    (''HPE_OK'', ''success''),
    (''HPE_CB_message_begin'', ''the on_message_begin callback failed''),
    (''HPE_CB_url'', ''the on_url callback failed''),
    (''HPE_CB_header_field'', ''the on_header_field callback failed''),
    (''HPE_CB_header_value'', ''the on_header_value callback failed''),
    (''HPE_CB_headers_complete'', ''the on_headers_complete callback failed''),
    (''HPE_CB_body'', ''the on_body callback failed''),
    (''HPE_CB_message_complete'', ''the on_message_complete callback failed''),
    (''HPE_CB_status'', ''the on_status callback failed''),
    (''HPE_CB_chunk_header'', ''the on_chunk_header callback failed''),
    (''HPE_CB_chunk_complete'', ''the on_chunk_complete callback failed''),
    (''HPE_INVALID_EOF_STATE'', ''stream ended at an unexpected time''),
    (''HPE_HEADER_OVERFLOW'', ''too many header bytes seen; overflow detected''),
    (''HPE_CLOSED_CONNECTION'', ''data received after completed connection: close message''),
    (''HPE_INVALID_VERSION'', ''invalid HTTP version''),
    (''HPE_INVALID_STATUS'', ''invalid HTTP status code''),
    (''HPE_INVALID_METHOD'', ''invalid HTTP method''), (''HPE_INVALID_URL'', ''invalid URL''),
    (''HPE_INVALID_HOST'', ''invalid host''), (''HPE_INVALID_PORT'', ''invalid port''),
    (''HPE_INVALID_PATH'', ''invalid path''),
    (''HPE_INVALID_QUERY_STRING'', ''invalid query string''),
    (''HPE_INVALID_FRAGMENT'', ''invalid fragment''),
    (''HPE_LF_EXPECTED'', ''LF character expected''),
    (''HPE_INVALID_HEADER_TOKEN'', ''invalid character in header''),
    (''HPE_INVALID_CONTENT_LENGTH'', ''invalid character in content-length header''),
    (''HPE_UNEXPECTED_CONTENT_LENGTH'', ''unexpected content-length header''),
    (''HPE_INVALID_CHUNK_SIZE'', ''invalid character in chunk size header''),
    (''HPE_INVALID_CONSTANT'', ''invalid constant string''),
    (''HPE_INVALID_INTERNAL_STATE'', ''encountered unexpected internal state''),
    (''HPE_STRICT'', ''strict mode assertion failed''), (''HPE_PAUSED'', ''parser is paused''),
    (''HPE_UNKNOWN'', ''an unknown error occurred'')]"

text \<open>The states of the parser. \<open>PARSING_HEADER\<close> compares their numbers.\<close>

datatype (plugins only: code) state =
    s_dead | s_start_req_or_res | s_res_or_resp_H | s_start_res | s_res_H | s_res_HT |
    s_res_HTT | s_res_HTTP | s_res_http_major | s_res_http_dot | s_res_http_minor |
    s_res_http_end | s_res_first_status_code | s_res_status_code | s_res_status_start |
    s_res_status | s_res_line_almost_done | s_start_req | s_req_method |
    s_req_spaces_before_url | s_req_schema | s_req_schema_slash | s_req_schema_slash_slash |
    s_req_server_start | s_req_server | s_req_server_with_at | s_req_path |
    s_req_query_string_start | s_req_query_string | s_req_fragment_start | s_req_fragment |
    s_req_http_start | s_req_http_H | s_req_http_HT | s_req_http_HTT | s_req_http_HTTP |
    s_req_http_I | s_req_http_IC | s_req_http_major | s_req_http_dot | s_req_http_minor |
    s_req_http_end | s_req_line_almost_done | s_header_field_start | s_header_field |
    s_header_value_discard_ws | s_header_value_discard_ws_almost_done |
    s_header_value_discard_lws | s_header_value_start | s_header_value | s_header_value_lws |
    s_header_almost_done | s_chunk_size_start | s_chunk_size | s_chunk_parameters |
    s_chunk_size_almost_done | s_headers_almost_done | s_headers_done | s_chunk_data |
    s_chunk_data_almost_done | s_chunk_data_done | s_body_identity | s_body_identity_eof |
    s_message_done

definition state_num :: "state \<Rightarrow> nat" where
  "state_num s = (case s of
      s_dead \<Rightarrow> 1 | s_start_req_or_res \<Rightarrow> 2 |
      s_res_or_resp_H \<Rightarrow> 3 | s_start_res \<Rightarrow> 4 | s_res_H \<Rightarrow> 5 |
      s_res_HT \<Rightarrow> 6 | s_res_HTT \<Rightarrow> 7 | s_res_HTTP \<Rightarrow> 8 |
      s_res_http_major \<Rightarrow> 9 | s_res_http_dot \<Rightarrow> 10 |
      s_res_http_minor \<Rightarrow> 11 | s_res_http_end \<Rightarrow> 12 |
      s_res_first_status_code \<Rightarrow> 13 | s_res_status_code \<Rightarrow> 14 |
      s_res_status_start \<Rightarrow> 15 | s_res_status \<Rightarrow> 16 |
      s_res_line_almost_done \<Rightarrow> 17 | s_start_req \<Rightarrow> 18 |
      s_req_method \<Rightarrow> 19 | s_req_spaces_before_url \<Rightarrow> 20 |
      s_req_schema \<Rightarrow> 21 | s_req_schema_slash \<Rightarrow> 22 |
      s_req_schema_slash_slash \<Rightarrow> 23 | s_req_server_start \<Rightarrow> 24 |
      s_req_server \<Rightarrow> 25 | s_req_server_with_at \<Rightarrow> 26 |
      s_req_path \<Rightarrow> 27 | s_req_query_string_start \<Rightarrow> 28 |
      s_req_query_string \<Rightarrow> 29 | s_req_fragment_start \<Rightarrow> 30 |
      s_req_fragment \<Rightarrow> 31 | s_req_http_start \<Rightarrow> 32 |
      s_req_http_H \<Rightarrow> 33 | s_req_http_HT \<Rightarrow> 34 |
      s_req_http_HTT \<Rightarrow> 35 | s_req_http_HTTP \<Rightarrow> 36 |
      s_req_http_I \<Rightarrow> 37 | s_req_http_IC \<Rightarrow> 38 |
      s_req_http_major \<Rightarrow> 39 | s_req_http_dot \<Rightarrow> 40 |
      s_req_http_minor \<Rightarrow> 41 | s_req_http_end \<Rightarrow> 42 |
      s_req_line_almost_done \<Rightarrow> 43 | s_header_field_start \<Rightarrow> 44 |
      s_header_field \<Rightarrow> 45 | s_header_value_discard_ws \<Rightarrow> 46 |
      s_header_value_discard_ws_almost_done \<Rightarrow> 47 |
      s_header_value_discard_lws \<Rightarrow> 48 | s_header_value_start \<Rightarrow> 49 |
      s_header_value \<Rightarrow> 50 | s_header_value_lws \<Rightarrow> 51 |
      s_header_almost_done \<Rightarrow> 52 | s_chunk_size_start \<Rightarrow> 53 |
      s_chunk_size \<Rightarrow> 54 | s_chunk_parameters \<Rightarrow> 55 |
      s_chunk_size_almost_done \<Rightarrow> 56 | s_headers_almost_done \<Rightarrow> 57 |
      s_headers_done \<Rightarrow> 58 | s_chunk_data \<Rightarrow> 59 |
      s_chunk_data_almost_done \<Rightarrow> 60 | s_chunk_data_done \<Rightarrow> 61 |
      s_body_identity \<Rightarrow> 62 | s_body_identity_eof \<Rightarrow> 63 |
      s_message_done \<Rightarrow> 64)"

definition PARSING_HEADER :: "state \<Rightarrow> bool" where
  "PARSING_HEADER s \<longleftrightarrow> state_num s \<le> state_num s_headers_done"

datatype (plugins only: code) header_states =
    h_general | h_C | h_CO | h_CON | h_matching_connection | h_matching_proxy_connection |
    h_matching_content_length | h_matching_transfer_encoding | h_matching_upgrade |
    h_connection | h_content_length | h_content_length_num | h_content_length_ws |
    h_transfer_encoding | h_upgrade | h_matching_transfer_encoding_chunked |
    h_matching_connection_token_start | h_matching_connection_keep_alive |
    h_matching_connection_close | h_matching_connection_upgrade | h_matching_connection_token |
    h_transfer_encoding_chunked | h_connection_keep_alive | h_connection_close |
    h_connection_upgrade

datatype (plugins only: code) http_host_state =
    s_http_host_dead | s_http_userinfo_start | s_http_userinfo | s_http_host_start |
    s_http_host_v6_start | s_http_host | s_http_host_v6 | s_http_host_v6_end |
    s_http_host_v6_zone_start | s_http_host_v6_zone | s_http_host_port_start | s_http_host_port

section \<open>Structures\<close>

text \<open>
  \<open>struct http_parser\<close>, with the bit fields at their width. \<open>'a\<close> is what the \<open>data\<close> pointer leads
  to: the callbacks receive the parser and return it, with their result code.
\<close>

record 'a http_parser =
  hp_type :: http_parser_type
  hp_flags :: u8
  hp_state :: state
  hp_header_state :: header_states
  hp_index :: "7 word"
  hp_lenient :: bool
  hp_nread :: u32
  hp_content_length :: u64
  hp_http_major :: u16
  hp_http_minor :: u16
  hp_status_code :: u16
  hp_method :: http_method
  hp_errno :: http_errno
  hp_upgrade :: bool
  hp_data :: 'a

type_synonym 'a http_cb = "'a http_parser \<Rightarrow> int \<times> 'a http_parser"
type_synonym 'a http_data_cb = "'a http_parser \<Rightarrow> bytes \<Rightarrow> int \<times> 'a http_parser"

text \<open>\<open>struct http_parser_settings\<close>; a null callback is \<open>None\<close>.\<close>

record 'a http_parser_settings =
  on_message_begin :: "'a http_cb option"
  on_url :: "'a http_data_cb option"
  on_status :: "'a http_data_cb option"
  on_header_field :: "'a http_data_cb option"
  on_header_value :: "'a http_data_cb option"
  on_headers_complete :: "'a http_cb option"
  on_body :: "'a http_data_cb option"
  on_message_complete :: "'a http_cb option"
  on_chunk_header :: "'a http_cb option"
  on_chunk_complete :: "'a http_cb option"

section \<open>Constants and character classes\<close>

definition HTTP_MAX_HEADER_SIZE :: u32 where
  "HTTP_MAX_HEADER_SIZE = 80 * 1024"

definition ULLONG_MAX :: u64 where
  "ULLONG_MAX = - 1"

abbreviation NUL :: char where "NUL \<equiv> CHR 0x00"
abbreviation CR :: char where "CR \<equiv> CHR 0x0D"
abbreviation LF :: char where "LF \<equiv> CHR 0x0A"
abbreviation HTAB :: char where "HTAB \<equiv> CHR 0x09"
abbreviation FF :: char where "FF \<equiv> CHR 0x0C"

text \<open>The names of header fields and values the parser looks for.\<close>

definition PROXY_CONNECTION :: string where "PROXY_CONNECTION = ''proxy-connection''"
definition CONNECTION :: string where "CONNECTION = ''connection''"
definition CONTENT_LENGTH :: string where "CONTENT_LENGTH = ''content-length''"
definition TRANSFER_ENCODING :: string where "TRANSFER_ENCODING = ''transfer-encoding''"
definition UPGRADE :: string where "UPGRADE = ''upgrade''"
definition CHUNKED :: string where "CHUNKED = ''chunked''"
definition KEEP_ALIVE :: string where "KEEP_ALIVE = ''keep-alive''"
definition CLOSE :: string where "CLOSE = ''close''"

lemmas name_defs = PROXY_CONNECTION_def CONNECTION_def CONTENT_LENGTH_def TRANSFER_ENCODING_def
  UPGRADE_def CHUNKED_def KEEP_ALIVE_def CLOSE_def

text \<open>
  The byte at an index of a C string literal: the terminating zero at its length, and
  \<open>None\<close> beyond it, where C reads out of bounds.
\<close>

definition cstr_at :: "string \<Rightarrow> nat \<Rightarrow> char option" where
  "cstr_at s i = (if i < length s then Some (s ! i) else if i = length s then Some NUL else None)"

text \<open>
  The table \<open>tokens\<close>. Its initialiser lists 128 of the 256 entries; the others are zero.
\<close>

definition tokens :: "char list" where
  "tokens =
     replicate 8 NUL @
     replicate 8 NUL @
     replicate 8 NUL @
     replicate 8 NUL @
     [CHR '' '', CHR ''!'', NUL, CHR ''#'', CHR ''$'', CHR ''%'', CHR ''&'', CHR 0x27] @
     [NUL, NUL, CHR ''*'', CHR ''+'', NUL, CHR ''-'', CHR ''.'', NUL] @
     ''01234567'' @
     [CHR ''8'', CHR ''9'', NUL, NUL, NUL, NUL, NUL, NUL] @
     [NUL, CHR ''a'', CHR ''b'', CHR ''c'', CHR ''d'', CHR ''e'', CHR ''f'', CHR ''g''] @
     ''hijklmno'' @
     ''pqrstuvw'' @
     [CHR ''x'', CHR ''y'', CHR ''z'', NUL, NUL, NUL, CHR ''^'', CHR ''_''] @
     [CHR 0x60, CHR ''a'', CHR ''b'', CHR ''c'', CHR ''d'', CHR ''e'', CHR ''f'', CHR ''g''] @
     ''hijklmno'' @
     ''pqrstuvw'' @
     [CHR ''x'', CHR ''y'', CHR ''z'', NUL, CHR ''|'', NUL, CHR ''~'', NUL] @
     replicate 128 NUL"

text \<open>
  The table \<open>unhex\<close>. Its initialiser lists 128 of the 256 entries as well, so that the bytes
  from 0x80 on have the value 0 and not -1.
\<close>

definition unhex :: "int list" where
  "unhex = [
    -1, -1, -1, -1, -1, -1, -1, -1, -1, -1, -1, -1, -1, -1, -1, -1, -1, -1, -1, -1, -1, -1, -1,
    -1, -1, -1, -1, -1, -1, -1, -1, -1, -1, -1, -1, -1, -1, -1, -1, -1, -1, -1, -1, -1, -1, -1,
    -1, -1, 0, 1, 2, 3, 4, 5, 6, 7, 8, 9, -1, -1, -1, -1, -1, -1, -1, 10, 11, 12, 13, 14, 15,
    -1, -1, -1, -1, -1, -1, -1, -1, -1, -1, -1, -1, -1, -1, -1, -1, -1, -1, -1, -1, -1, -1, -1,
    -1, -1, -1, 10, 11, 12, 13, 14, 15, -1, -1, -1, -1, -1, -1, -1, -1, -1, -1, -1, -1, -1, -1,
    -1, -1, -1, -1, -1, -1, -1, -1, -1, -1, -1] @ replicate 128 0"

text \<open>The bit set \<open>normal_url_char\<close> (strict build): 16 of the 32 entries are listed.\<close>

definition normal_url_char :: "u8 list" where
  "normal_url_char = [
    0, 0, 0, 0, 246, 255, 255, 127, 255, 255, 255, 255, 255, 255, 255, 127] @ replicate 16 0"

definition BIT_AT :: "u8 list \<Rightarrow> char \<Rightarrow> bool" where
  "BIT_AT a c \<longleftrightarrow> bit (a ! (of_char c div 8)) (of_char c mod 8)"

definition LOWER :: "char \<Rightarrow> char" where
  "LOWER c = (case c of Char b0 b1 b2 b3 b4 b5 b6 b7 \<Rightarrow> Char b0 b1 b2 b3 b4 True b6 b7)"

definition char_in :: "char \<Rightarrow> char \<Rightarrow> char \<Rightarrow> bool" where
  "char_in lo hi c \<longleftrightarrow> (of_char lo :: nat) \<le> of_char c \<and> (of_char c :: nat) \<le> of_char hi"

definition IS_ALPHA :: "char \<Rightarrow> bool" where
  "IS_ALPHA c \<longleftrightarrow> char_in CHR ''a'' CHR ''z'' (LOWER c)"

definition IS_NUMBER :: "char \<Rightarrow> bool" where
  "IS_NUMBER c \<longleftrightarrow> char_in CHR ''0'' CHR ''9'' c"

definition IS_ALPHANUM :: "char \<Rightarrow> bool" where
  "IS_ALPHANUM c \<longleftrightarrow> IS_ALPHA c \<or> IS_NUMBER c"

definition IS_HEX :: "char \<Rightarrow> bool" where
  "IS_HEX c \<longleftrightarrow> IS_NUMBER c \<or> char_in CHR ''a'' CHR ''f'' (LOWER c)"

definition IS_MARK :: "char \<Rightarrow> bool" where
  "IS_MARK c \<longleftrightarrow> c = CHR ''-'' \<or> c = CHR ''_'' \<or> c = CHR ''.'' \<or> c = CHR ''!'' \<or> c = CHR ''~'' \<or>
     c = CHR ''*'' \<or> c = CHR 0x27 \<or> c = CHR ''('' \<or> c = CHR '')''"

definition IS_USERINFO_CHAR :: "char \<Rightarrow> bool" where
  "IS_USERINFO_CHAR c \<longleftrightarrow> IS_ALPHANUM c \<or> IS_MARK c \<or> c = CHR ''%'' \<or> c = CHR '';'' \<or>
     c = CHR '':'' \<or> c = CHR ''&'' \<or> c = CHR ''='' \<or> c = CHR ''+'' \<or> c = CHR ''$'' \<or> c = CHR '',''"

definition STRICT_TOKEN :: "char \<Rightarrow> char" where
  "STRICT_TOKEN c = (if c = CHR '' '' then NUL else tokens ! of_char c)"

definition TOKEN :: "char \<Rightarrow> char" where
  "TOKEN c = STRICT_TOKEN c"

definition IS_URL_CHAR :: "char \<Rightarrow> bool" where
  "IS_URL_CHAR c \<longleftrightarrow> BIT_AT normal_url_char c"

definition IS_HOST_CHAR :: "char \<Rightarrow> bool" where
  "IS_HOST_CHAR c \<longleftrightarrow> IS_ALPHANUM c \<or> c = CHR ''.'' \<or> c = CHR ''-''"

definition IS_HEADER_CHAR :: "char \<Rightarrow> bool" where
  "IS_HEADER_CHAR c \<longleftrightarrow> c = CR \<or> c = LF \<or> c = HTAB \<or> ((of_char c :: nat) > 31 \<and> c \<noteq> CHR 0x7F)"

definition digit_val :: "char \<Rightarrow> nat" where
  "digit_val c = of_char c - of_char CHR ''0''"

lemmas char_class_defs = char_in_def IS_ALPHA_def IS_NUMBER_def IS_ALPHANUM_def IS_HEX_def
  IS_MARK_def IS_USERINFO_CHAR_def STRICT_TOKEN_def TOKEN_def IS_URL_CHAR_def IS_HOST_CHAR_def
  IS_HEADER_CHAR_def BIT_AT_def LOWER_def digit_val_def

section \<open>Operations on the parser structure\<close>

definition set_errno :: "http_errno \<Rightarrow> u32 \<Rightarrow> 'a http_parser \<Rightarrow> 'a http_parser" where
  "set_errno e nread ps = ps\<lparr>hp_nread := nread, hp_errno := e\<rparr>"

definition start_state :: "'a http_parser \<Rightarrow> state" where
  "start_state ps = (if hp_type ps = HTTP_REQUEST then s_start_req else s_start_res)"

definition http_message_needs_eof :: "'a http_parser \<Rightarrow> bool" where
  "http_message_needs_eof ps =
     (if hp_type ps = HTTP_REQUEST then False
      else if hp_status_code ps div 100 = 1 \<or> hp_status_code ps = 204 \<or> hp_status_code ps = 304 \<or>
        has_flag (hp_flags ps) F_SKIPBODY then False
      else if has_flag (hp_flags ps) F_CHUNKED \<or> hp_content_length ps \<noteq> ULLONG_MAX then False
      else True)"

definition http_should_keep_alive :: "'a http_parser \<Rightarrow> bool" where
  "http_should_keep_alive ps =
     (if hp_http_major ps > 0 \<and> hp_http_minor ps > 0
      then (if has_flag (hp_flags ps) F_CONNECTION_CLOSE then False
            else \<not> http_message_needs_eof ps)
      else (if \<not> has_flag (hp_flags ps) F_CONNECTION_KEEP_ALIVE then False
            else \<not> http_message_needs_eof ps))"

definition NEW_MESSAGE :: "'a http_parser \<Rightarrow> state" where
  "NEW_MESSAGE ps = (if http_should_keep_alive ps then start_state ps else s_dead)"

definition http_method_str :: "nat \<Rightarrow> string" where
  "http_method_str m = (if m < length method_strings then method_strings ! m else ''<unknown>'')"

definition http_status_str :: "nat \<Rightarrow> string" where
  "http_status_str s =
     (case find (\<lambda>(num, name, str). num = s) HTTP_STATUS_MAP of
        Some (num, name, str) \<Rightarrow> str
      | None \<Rightarrow> ''<unknown>'')"

definition http_parser_init :: "'a http_parser \<Rightarrow> http_parser_type \<Rightarrow> 'a http_parser" where
  "http_parser_init ps t =
     \<lparr>hp_type = t, hp_flags = 0,
      hp_state = (if t = HTTP_REQUEST then s_start_req
                  else if t = HTTP_RESPONSE then s_start_res else s_start_req_or_res),
      hp_header_state = h_general, hp_index = 0, hp_lenient = False, hp_nread = 0,
      hp_content_length = 0, hp_http_major = 0, hp_http_minor = 0, hp_status_code = 0,
      hp_method = HTTP_DELETE, hp_errno = HPE_OK, hp_upgrade = False, hp_data = hp_data ps\<rparr>"

definition http_parser_settings_init :: "'a http_parser_settings" where
  "http_parser_settings_init =
     \<lparr>on_message_begin = None, on_url = None, on_status = None, on_header_field = None,
      on_header_value = None, on_headers_complete = None, on_body = None,
      on_message_complete = None, on_chunk_header = None, on_chunk_complete = None\<rparr>"

definition http_errno_name :: "http_errno \<Rightarrow> string" where
  "http_errno_name e = fst (http_strerror_tab ! http_errno_num e)"

definition http_errno_description :: "http_errno \<Rightarrow> string" where
  "http_errno_description e = snd (http_strerror_tab ! http_errno_num e)"

text \<open>\<open>None\<close> is the failed assertion of a caller that pauses a parser in an error state.\<close>

definition http_parser_pause :: "'a http_parser \<Rightarrow> bool \<Rightarrow> 'a http_parser option" where
  "http_parser_pause ps paused =
     (if hp_errno ps = HPE_OK \<or> hp_errno ps = HPE_PAUSED
      then Some (set_errno (if paused then HPE_PAUSED else HPE_OK) (hp_nread ps) ps)
      else None)"

definition http_body_is_final :: "'a http_parser \<Rightarrow> bool" where
  "http_body_is_final ps \<longleftrightarrow> hp_state ps = s_message_done"

definition http_parser_version :: u64 where
  "http_parser_version = 2 * 0x10000 OR 9 * 0x00100 OR 2 * 0x00001"

end
