(* ===== verification/Http_Parser_Url.thy ===== *)
theory Http_Parser_Url
  imports Http_Parser_Types
begin

text \<open>
  The URL parser of \<open>include/http/http_parser.h\<close>: the byte-wise state machine \<open>parse_url_char\<close>, which
  \<open>http_parser_execute\<close> shares, and \<open>http_parser_parse_url\<close>, which turns its transitions into
  offsets and lengths of the URL's fields, with the host parser it calls. The theorems show that
  no assertion fails and no byte outside the buffer is read, where the reported fields lie,
  what they contain, which port is reported, and what a CONNECT target may look like.
\<close>

section \<open>Structures\<close>

datatype http_parser_url_fields =
  UF_SCHEMA | UF_HOST | UF_PORT | UF_PATH | UF_QUERY | UF_FRAGMENT | UF_USERINFO | UF_MAX

definition uf_num :: "http_parser_url_fields \<Rightarrow> nat" where
  "uf_num f = (case f of UF_SCHEMA \<Rightarrow> 0 | UF_HOST \<Rightarrow> 1 | UF_PORT \<Rightarrow> 2 | UF_PATH \<Rightarrow> 3 | UF_QUERY \<Rightarrow> 4
     | UF_FRAGMENT \<Rightarrow> 5 | UF_USERINFO \<Rightarrow> 6 | UF_MAX \<Rightarrow> 7)"

text \<open>\<open>1 << uf\<close>, as a value of the 16-bit field set.\<close>

definition uf_bit :: "http_parser_url_fields \<Rightarrow> u16" where
  "uf_bit f = push_bit (uf_num f) 1"

record url_field =
  fd_off :: u16
  fd_len :: u16

record http_parser_url =
  u_field_set :: u16
  u_port :: u16
  u_field_data :: "http_parser_url_fields \<Rightarrow> url_field"

definition http_parser_url_init :: http_parser_url where
  "http_parser_url_init =
     \<lparr>u_field_set = 0, u_port = 0, u_field_data = (\<lambda>f. \<lparr>fd_off = 0, fd_len = 0\<rparr>)\<rparr>"

definition uf_set :: "http_parser_url \<Rightarrow> http_parser_url_fields \<Rightarrow> bool" where
  "uf_set u f \<longleftrightarrow> u_field_set u AND uf_bit f \<noteq> 0"

definition set_off :: "http_parser_url_fields \<Rightarrow> u16 \<Rightarrow> http_parser_url \<Rightarrow> http_parser_url" where
  "set_off f v u = u\<lparr>u_field_data := (u_field_data u)(f := (u_field_data u f)\<lparr>fd_off := v\<rparr>)\<rparr>"

definition set_len :: "http_parser_url_fields \<Rightarrow> u16 \<Rightarrow> http_parser_url \<Rightarrow> http_parser_url" where
  "set_len f v u = u\<lparr>u_field_data := (u_field_data u)(f := (u_field_data u f)\<lparr>fd_len := v\<rparr>)\<rparr>"

definition inc_len :: "http_parser_url_fields \<Rightarrow> http_parser_url \<Rightarrow> http_parser_url" where
  "inc_len f u = set_len f (fd_len (u_field_data u f) + 1) u"

definition set_field :: "http_parser_url_fields \<Rightarrow> http_parser_url \<Rightarrow> http_parser_url" where
  "set_field f u = u\<lparr>u_field_set := u_field_set u OR uf_bit f\<rparr>"

section \<open>The state machine of URLs\<close>

text \<open>The cases \<open>s_req_server_start\<close> and \<open>s_req_server\<close>, into which \<open>s_req_server_with_at\<close> falls through.\<close>

definition parse_server_char :: "char \<Rightarrow> state" where
  "parse_server_char ch =
     (if ch = CHR ''/'' then s_req_path
      else if ch = CHR ''?'' then s_req_query_string_start
      else if ch = CHR ''@'' then s_req_server_with_at
      else if IS_USERINFO_CHAR ch \<or> ch = CHR ''['' \<or> ch = CHR '']'' then s_req_server
      else s_dead)"

definition parse_url_char :: "state \<Rightarrow> char \<Rightarrow> state" where
  "parse_url_char s ch =
     (if ch = CHR '' '' \<or> ch = CR \<or> ch = LF then s_dead
      else if ch = HTAB \<or> ch = FF then s_dead
      else case s of
        s_req_spaces_before_url \<Rightarrow>
          if ch = CHR ''/'' \<or> ch = CHR ''*'' then s_req_path
          else if IS_ALPHA ch then s_req_schema
          else s_dead
      | s_req_schema \<Rightarrow>
          if IS_ALPHA ch then s
          else if ch = CHR '':'' then s_req_schema_slash
          else s_dead
      | s_req_schema_slash \<Rightarrow>
          if ch = CHR ''/'' then s_req_schema_slash_slash else s_dead
      | s_req_schema_slash_slash \<Rightarrow>
          if ch = CHR ''/'' then s_req_server_start else s_dead
      | s_req_server_with_at \<Rightarrow>
          if ch = CHR ''@'' then s_dead else parse_server_char ch
      | s_req_server_start \<Rightarrow> parse_server_char ch
      | s_req_server \<Rightarrow> parse_server_char ch
      | s_req_path \<Rightarrow>
          if IS_URL_CHAR ch then s
          else if ch = CHR ''?'' then s_req_query_string_start
          else if ch = CHR ''#'' then s_req_fragment_start
          else s_dead
      | s_req_query_string_start \<Rightarrow>
          if IS_URL_CHAR ch then s_req_query_string
          else if ch = CHR ''?'' then s_req_query_string
          else if ch = CHR ''#'' then s_req_fragment_start
          else s_dead
      | s_req_query_string \<Rightarrow>
          if IS_URL_CHAR ch then s_req_query_string
          else if ch = CHR ''?'' then s_req_query_string
          else if ch = CHR ''#'' then s_req_fragment_start
          else s_dead
      | s_req_fragment_start \<Rightarrow>
          if IS_URL_CHAR ch then s_req_fragment
          else if ch = CHR ''?'' then s_req_fragment
          else if ch = CHR ''#'' then s
          else s_dead
      | s_req_fragment \<Rightarrow>
          if IS_URL_CHAR ch then s
          else if ch = CHR ''?'' \<or> ch = CHR ''#'' then s
          else s_dead
      | _ \<Rightarrow> s_dead)"

section \<open>The host parser\<close>

definition http_parse_host_char :: "http_host_state \<Rightarrow> char \<Rightarrow> http_host_state" where
  "http_parse_host_char s ch =
     (let v6_end = (if ch = CHR '':'' then s_http_host_port_start else s_http_host_dead);
          v6_start =
            (if IS_HEX ch \<or> ch = CHR '':'' \<or> ch = CHR ''.'' then s_http_host_v6
             else if s = s_http_host_v6 \<and> ch = CHR ''%'' then s_http_host_v6_zone_start
             else s_http_host_dead);
          zone_start =
            (if IS_ALPHANUM ch \<or> ch = CHR ''%'' \<or> ch = CHR ''.'' \<or> ch = CHR ''-'' \<or> ch = CHR ''_'' \<or>
                ch = CHR ''~''
             then s_http_host_v6_zone else s_http_host_dead);
          userinfo =
            (if ch = CHR ''@'' then s_http_host_start
             else if IS_USERINFO_CHAR ch then s_http_userinfo else s_http_host_dead);
          port = (if IS_NUMBER ch then s_http_host_port else s_http_host_dead)
      in case s of
        s_http_userinfo \<Rightarrow> userinfo
      | s_http_userinfo_start \<Rightarrow> userinfo
      | s_http_host_start \<Rightarrow>
          if ch = CHR ''['' then s_http_host_v6_start
          else if IS_HOST_CHAR ch then s_http_host
          else s_http_host_dead
      | s_http_host \<Rightarrow> if IS_HOST_CHAR ch then s_http_host else v6_end
      | s_http_host_v6_end \<Rightarrow> v6_end
      | s_http_host_v6 \<Rightarrow> if ch = CHR '']'' then s_http_host_v6_end else v6_start
      | s_http_host_v6_start \<Rightarrow> v6_start
      | s_http_host_v6_zone \<Rightarrow> if ch = CHR '']'' then s_http_host_v6_end else zone_start
      | s_http_host_v6_zone_start \<Rightarrow> zone_start
      | s_http_host_port \<Rightarrow> port
      | s_http_host_port_start \<Rightarrow> port
      | s_http_host_dead \<Rightarrow> s_http_host_dead)"

text \<open>One byte at offset \<open>p\<close>, with the host state before it and after it.\<close>

definition parse_host_step ::
  "nat \<Rightarrow> http_host_state \<Rightarrow> http_host_state \<Rightarrow> http_parser_url \<Rightarrow> http_parser_url" where
  "parse_host_step p s new_s u =
     (case new_s of
        s_http_host \<Rightarrow>
          inc_len UF_HOST (if s \<noteq> s_http_host then set_off UF_HOST (of_nat p) u else u)
      | s_http_host_v6 \<Rightarrow>
          inc_len UF_HOST (if s \<noteq> s_http_host_v6 then set_off UF_HOST (of_nat p) u else u)
      | s_http_host_v6_zone_start \<Rightarrow> inc_len UF_HOST u
      | s_http_host_v6_zone \<Rightarrow> inc_len UF_HOST u
      | s_http_host_port \<Rightarrow>
          inc_len UF_PORT (if s \<noteq> s_http_host_port
            then set_field UF_PORT (set_len UF_PORT 0 (set_off UF_PORT (of_nat p) u)) else u)
      | s_http_userinfo \<Rightarrow>
          inc_len UF_USERINFO (if s \<noteq> s_http_userinfo
            then set_field UF_USERINFO (set_len UF_USERINFO 0 (set_off UF_USERINFO (of_nat p) u)) else u)
      | _ \<Rightarrow> u)"

text \<open>The loop over the bytes from offset \<open>p\<close> on; \<open>Inl\<close> is the return of 1 from within it.\<close>

fun parse_host_loop ::
  "nat \<Rightarrow> bytes \<Rightarrow> http_host_state \<Rightarrow> http_parser_url \<Rightarrow> http_parser_url + http_host_state \<times> http_parser_url" where
  "parse_host_loop p [] s u = Inr (s, u)"
| "parse_host_loop p (ch # cs) s u =
     (let new_s = http_parse_host_char s ch
      in if new_s = s_http_host_dead then Inl u
         else parse_host_loop (Suc p) cs new_s (parse_host_step p s new_s u))"

definition host_state_final :: "http_host_state \<Rightarrow> bool" where
  "host_state_final s \<longleftrightarrow>
     s \<notin> {s_http_host_start, s_http_host_v6_start, s_http_host_v6, s_http_host_v6_zone_start,
         s_http_host_v6_zone, s_http_host_port_start, s_http_userinfo, s_http_userinfo_start}"

text \<open>\<open>None\<close> is a failed assertion or a read behind the end of the buffer.\<close>

definition http_parse_host :: "bytes \<Rightarrow> http_parser_url \<Rightarrow> bool \<Rightarrow> (int \<times> http_parser_url) option" where
  "http_parse_host buf u found_at =
     (let off = unat (fd_off (u_field_data u UF_HOST));
          buflen = off + unat (fd_len (u_field_data u UF_HOST))
      in if \<not> uf_set u UF_HOST \<or> length buf < buflen then None
         else case parse_host_loop off (slice buf off (buflen - off))
                (if found_at then s_http_userinfo_start else s_http_host_start)
                (set_len UF_HOST 0 u) of
           Inl u' \<Rightarrow> Some (1, u')
         | Inr (s, u') \<Rightarrow> Some (if host_state_final s then 0 else 1, u'))"

section \<open>The fields of a URL\<close>

text \<open>The field that a state belongs to; \<open>None\<close> is the \<open>default\<close> case of the switch.\<close>

definition url_delimiter :: "state \<Rightarrow> bool" where
  "url_delimiter s \<longleftrightarrow>
     s \<in> {s_req_schema_slash, s_req_schema_slash_slash, s_req_server_start,
          s_req_query_string_start, s_req_fragment_start}"

definition url_field_of :: "state \<Rightarrow> http_parser_url_fields option" where
  "url_field_of s =
     (if s = s_req_schema then Some UF_SCHEMA
      else if s = s_req_server_with_at \<or> s = s_req_server then Some UF_HOST
      else if s = s_req_path then Some UF_PATH
      else if s = s_req_query_string then Some UF_QUERY
      else if s = s_req_fragment then Some UF_FRAGMENT
      else None)"

datatype url_outcome =
  Url_return_1 http_parser_url | Url_end bool http_parser_url | Url_assert

fun parse_url_loop ::
  "nat \<Rightarrow> bytes \<Rightarrow> state \<Rightarrow> http_parser_url_fields \<Rightarrow> bool \<Rightarrow> http_parser_url \<Rightarrow> url_outcome" where
  "parse_url_loop p [] s old_uf found_at u = Url_end found_at u"
| "parse_url_loop p (ch # cs) s old_uf found_at u =
     (let s' = parse_url_char s ch
      in if s' = s_dead then Url_return_1 u
         else if url_delimiter s' then parse_url_loop (Suc p) cs s' old_uf found_at u
         else case url_field_of s' of
           None \<Rightarrow> Url_assert
         | Some uf \<Rightarrow>
             let found_at' = (found_at \<or> s' = s_req_server_with_at)
             in if uf = old_uf then parse_url_loop (Suc p) cs s' old_uf found_at' (inc_len uf u)
                else parse_url_loop (Suc p) cs s' uf found_at'
                  (set_field uf (set_len uf 1 (set_off uf (of_nat p) u))))"

text \<open>
  The loop that converts the port, in the 64-bit \<open>unsigned long\<close> of the source, where
  \<open>*p - '0'\<close> is the difference of signed integers; \<open>None\<close> is the return of 1 for a
  value above 0xffff.
\<close>

definition char_int :: "char \<Rightarrow> int" where
  "char_int c = (if (of_char c :: int) < 128 then of_char c else of_char c - 256)"

fun port_loop :: "bytes \<Rightarrow> u64 \<Rightarrow> u64 option" where
  "port_loop [] v = Some v"
| "port_loop (c # cs) v =
     (let v' = v * 10 + of_int (char_int c - 48) in if v' > 0xffff then None else port_loop cs v')"

definition parse_port :: "bytes \<Rightarrow> http_parser_url \<Rightarrow> (int \<times> http_parser_url) option" where
  "parse_port buf u =
     (if uf_set u UF_PORT then
        let off = unat (fd_off (u_field_data u UF_PORT));
            len = unat (fd_len (u_field_data u UF_PORT))
        in if length buf < off + len then None
           else case port_loop (slice buf off len) 0 of
             None \<Rightarrow> Some (1, u)
           | Some v \<Rightarrow> Some (0, u\<lparr>u_port := ucast v\<rparr>)
      else Some (0, u))"

definition http_parser_parse_url :: "bytes \<Rightarrow> bool \<Rightarrow> http_parser_url \<Rightarrow> (int \<times> http_parser_url) option" where
  "http_parser_parse_url buf is_connect u0 =
     (if buf = [] then Some (1, u0)
      else case parse_url_loop 0 buf (if is_connect then s_req_server_start else s_req_spaces_before_url)
             UF_MAX False (u0\<lparr>u_field_set := 0, u_port := 0\<rparr>) of
        Url_assert \<Rightarrow> None
      | Url_return_1 u \<Rightarrow> Some (1, u)
      | Url_end found_at u \<Rightarrow>
          if uf_set u UF_SCHEMA \<and> \<not> uf_set u UF_HOST then Some (1, u)
          else case (if uf_set u UF_HOST then http_parse_host buf u found_at else Some (0, u)) of
            None \<Rightarrow> None
          | Some (rc, u') \<Rightarrow>
              if rc \<noteq> 0 then Some (1, u')
              else if is_connect \<and> u_field_set u' \<noteq> uf_bit UF_HOST OR uf_bit UF_PORT then Some (1, u')
              else parse_port buf u')"

section \<open>Accessors\<close>

lemma uf_bit_and [simp]: "uf_bit f AND uf_bit g = 0 \<longleftrightarrow> f \<noteq> g"
  by (cases f; cases g; simp add: uf_bit_def uf_num_def)

lemma uf_bit_nonzero [simp]: "uf_bit f \<noteq> 0"
  by (cases f) (simp_all add: uf_bit_def uf_num_def)

lemma uf_set_simps [simp]:
  "uf_set (set_field f u) g \<longleftrightarrow> f = g \<or> uf_set u g"
  "uf_set (set_off f v u) = uf_set u"
  "uf_set (set_len f v u) = uf_set u"
  "uf_set (inc_len f u) = uf_set u"
  "uf_set (u\<lparr>u_port := w\<rparr>) = uf_set u"
  "\<not> uf_set (u\<lparr>u_field_set := 0\<rparr>) g"
  by (auto simp: uf_set_def set_field_def set_off_def set_len_def inc_len_def
      bit.conj_disj_distrib2 or_eq_0_iff fun_eq_iff)

lemma field_data_simps [simp]:
  "u_field_data (set_field f u) = u_field_data u"
  "u_field_data (set_off f v u) g =
     (if g = f then (u_field_data u g)\<lparr>fd_off := v\<rparr> else u_field_data u g)"
  "u_field_data (set_len f v u) g =
     (if g = f then (u_field_data u g)\<lparr>fd_len := v\<rparr> else u_field_data u g)"
  "u_field_data (inc_len f u) g =
     (if g = f then (u_field_data u g)\<lparr>fd_len := fd_len (u_field_data u g) + 1\<rparr> else u_field_data u g)"
  by (auto simp: set_field_def set_off_def set_len_def inc_len_def)

abbreviation f_off :: "http_parser_url \<Rightarrow> http_parser_url_fields \<Rightarrow> nat" where
  "f_off u f \<equiv> unat (fd_off (u_field_data u f))"

abbreviation f_len :: "http_parser_url \<Rightarrow> http_parser_url_fields \<Rightarrow> nat" where
  "f_len u f \<equiv> unat (fd_len (u_field_data u f))"

lemma unat_of_nat_le [simp]: "unat (of_nat n :: 'a::len word) \<le> n"
  by (simp add: unat_of_nat take_bit_nat_less_eq_self)

lemma unat_plus_1_le: "unat (w + 1 :: 'a::len word) \<le> Suc (unat w)"
proof -
  have "unat (w + 1) = (unat w + unat (1 :: 'a word)) mod 2 ^ LENGTH('a)"
    by (rule unat_word_ariths)
  also have "\<dots> \<le> unat w + unat (1 :: 'a word)" by (rule mod_less_eq_dividend)
  finally show ?thesis by simp
qed

section \<open>Memory safety\<close>

text \<open>
  The state machine stays among the URL states or dies, whatever state it starts in, and the
  loops keep every field within the bytes read so far.
\<close>

lemma parse_url_char_range:
  "parse_url_char s ch = s_dead \<or> url_delimiter (parse_url_char s ch) \<or>
   url_field_of (parse_url_char s ch) \<noteq> None"
  by (cases s) (simp_all add: parse_url_char_def parse_server_char_def url_delimiter_def url_field_of_def)

text \<open>What one iteration of the URL loop does, as a rule for inductions over the loop.\<close>

lemma parse_url_loop_ConsE:
  assumes "parse_url_loop p (ch # cs) s old fa u = Url_end fa' u'"
  obtains (delimiter) "url_delimiter (parse_url_char s ch)"
      "parse_url_loop (Suc p) cs (parse_url_char s ch) old fa u = Url_end fa' u'"
  | (inside) fa2 where "url_field_of (parse_url_char s ch) = Some old"
      "\<not> url_delimiter (parse_url_char s ch)"
      "parse_url_loop (Suc p) cs (parse_url_char s ch) old fa2 (inc_len old u) = Url_end fa' u'"
  | (enter) uf fa2 where "url_field_of (parse_url_char s ch) = Some uf" "uf \<noteq> old"
      "\<not> url_delimiter (parse_url_char s ch)"
      "parse_url_loop (Suc p) cs (parse_url_char s ch) uf fa2
         (set_field uf (set_len uf 1 (set_off uf (of_nat p) u))) = Url_end fa' u'"
  using assms by (auto simp: Let_def split: if_splits option.splits)

lemma parse_url_loop_bounds:
  assumes "parse_url_loop p cs s old fa u = Url_end fa' u'"
    and "\<And>f. uf_set u f \<Longrightarrow> f_off u f + f_len u f \<le> p"
  shows "uf_set u' f \<Longrightarrow> f_off u' f + f_len u' f \<le> p + length cs"
  using assms
proof (induction cs arbitrary: p s old fa u)
  case (Cons ch cs)
  note bound = Cons.prems(3)
  from Cons.prems(2) show ?case
  proof (cases rule: parse_url_loop_ConsE)
    case delimiter
    from Cons.IH [OF Cons.prems(1) this(2)] bound show ?thesis by (simp add: le_SucI)
  next
    case (inside fa2)
    have "f_off (inc_len old u) g + f_len (inc_len old u) g \<le> Suc p" if "uf_set (inc_len old u) g" for g
      using bound [of g] that unat_plus_1_le [of "fd_len (u_field_data u g)"] by auto
    from Cons.IH [OF Cons.prems(1) inside(3) this] show ?thesis by simp
  next
    case (enter uf fa2)
    let ?u = "set_field uf (set_len uf 1 (set_off uf (of_nat p) u))"
    have "f_off ?u g + f_len ?u g \<le> Suc p" if "uf_set ?u g" for g
      using bound [of g] that by (auto simp: le_SucI)
    from Cons.IH [OF Cons.prems(1) enter(4) this] show ?thesis by simp
  qed
qed simp

lemma parse_url_loop_not_assert: "parse_url_loop p cs s old fa u \<noteq> Url_assert"
proof (induction cs arbitrary: p s old fa u)
  case (Cons ch cs)
  from parse_url_char_range [of s ch] Cons show ?case
    by (auto simp: Let_def split: if_splits)
qed simp

lemma parse_url_loop_fields:
  "parse_url_loop p cs s old fa u = Url_end fa' u' \<Longrightarrow> uf_set u' f \<Longrightarrow>
   uf_set u f \<or> f \<in> {UF_SCHEMA, UF_HOST, UF_PATH, UF_QUERY, UF_FRAGMENT}"
proof (induction cs arbitrary: p s old fa u)
  case (Cons ch cs)
  from Cons.prems(1) show ?case
    by (cases rule: parse_url_loop_ConsE)
      (use Cons.IH [OF _ Cons.prems(2)] in \<open>fastforce simp: url_field_of_def split: if_splits\<close>)+
qed simp

text \<open>The host parser: the fields it writes stay within the bytes it has read.\<close>

definition host_bounds :: "nat \<Rightarrow> nat \<Rightarrow> http_parser_url \<Rightarrow> bool" where
  "host_bounds N p u \<longleftrightarrow>
     (\<forall>f. uf_set u f \<longrightarrow>
        f_off u f + f_len u f \<le> (if f \<in> {UF_HOST, UF_PORT, UF_USERINFO} then p else N))"

definition host_inv :: "nat \<Rightarrow> nat \<Rightarrow> http_host_state \<Rightarrow> http_parser_url \<Rightarrow> bool" where
  "host_inv N p s u \<longleftrightarrow> host_bounds N p u \<and>
     (s \<in> {s_http_userinfo_start, s_http_userinfo, s_http_host_start, s_http_host_v6_start} \<longrightarrow>
        fd_len (u_field_data u UF_HOST) = 0)"

lemma host_bounds_Suc: "host_bounds N p u \<Longrightarrow> host_bounds N (Suc p) u"
  by (fastforce simp: host_bounds_def)

lemma host_bounds_inc:
  assumes "host_bounds N p u" and "f \<in> {UF_HOST, UF_PORT, UF_USERINFO}"
  shows "host_bounds N (Suc p) (inc_len f u)"
  unfolding host_bounds_def
proof (intro allI impI)
  fix g assume "uf_set (inc_len f u) g"
  then have "f_off u g + f_len u g \<le> (if g \<in> {UF_HOST, UF_PORT, UF_USERINFO} then p else N)"
    using assms(1) by (simp add: host_bounds_def)
  with assms(2) unat_plus_1_le [of "fd_len (u_field_data u f)"]
  show "f_off (inc_len f u) g + f_len (inc_len f u) g
      \<le> (if g \<in> {UF_HOST, UF_PORT, UF_USERINFO} then Suc p else N)"
    by (cases "g = f") (auto split: if_splits)
qed

lemma host_bounds_start:
  assumes "host_bounds N p u" and "f \<in> {UF_HOST, UF_PORT, UF_USERINFO}"
    and "fd_len (u_field_data u f) = 0"
  shows "host_bounds N p (set_off f (of_nat p) u)"
  using assms unat_of_nat_le [of p, where 'a = 16] by (auto simp: host_bounds_def)

lemma host_bounds_set:
  assumes "host_bounds N p u" and "f \<in> {UF_HOST, UF_PORT, UF_USERINFO}"
  shows "host_bounds N p (set_field f (set_len f 0 (set_off f (of_nat p) u)))"
  using assms unat_of_nat_le [of p, where 'a = 16] by (auto simp: host_bounds_def)

lemma http_parse_host_char_host:
  "http_parse_host_char s ch = s_http_host \<Longrightarrow> s = s_http_host \<or> s = s_http_host_start"
  "http_parse_host_char s ch = s_http_host_v6 \<Longrightarrow> s = s_http_host_v6 \<or> s = s_http_host_v6_start"
  "http_parse_host_char s ch = s_http_host_start \<Longrightarrow> s \<in> {s_http_userinfo_start, s_http_userinfo}"
  "http_parse_host_char s ch = s_http_userinfo \<Longrightarrow> s \<in> {s_http_userinfo_start, s_http_userinfo}"
  "http_parse_host_char s ch = s_http_host_v6_start \<Longrightarrow> s = s_http_host_start"
  "http_parse_host_char s ch \<noteq> s_http_userinfo_start"
  by (cases s; simp add: http_parse_host_char_def Let_def split: if_splits)+

lemma parse_host_step_inv:
  assumes "host_inv N p s u"
  shows "host_inv N (Suc p) (http_parse_host_char s ch)
    (parse_host_step p s (http_parse_host_char s ch) u)"
proof -
  have B: "host_bounds N p u" using assms by (simp add: host_inv_def)
  note facts = http_parse_host_char_host [of s ch]
  show ?thesis
    using assms B
    by (cases "http_parse_host_char s ch")
      (use facts in \<open>auto simp: host_inv_def parse_host_step_def
        intro!: host_bounds_inc host_bounds_start host_bounds_set intro: host_bounds_Suc\<close>)
qed

lemma parse_host_loop_inv:
  assumes "host_inv N p s u" and "parse_host_loop p cs s u = Inr (s', u')"
  shows "host_inv N (p + length cs) s' u'"
  using assms
proof (induction cs arbitrary: p s u)
  case (Cons ch cs)
  from Cons.prems(2)
  have "parse_host_loop (Suc p) cs (http_parse_host_char s ch)
    (parse_host_step p s (http_parse_host_char s ch) u) = Inr (s', u')"
    by (simp add: Let_def split: if_splits)
  from Cons.IH [OF parse_host_step_inv [OF Cons.prems(1)] this] show ?case by simp
qed simp

text \<open>What the host parser does not touch, and what it may set.\<close>

lemma parse_host_step_frame:
  "uf_set (parse_host_step p s s' u) f \<Longrightarrow> uf_set u f \<or> f = UF_PORT \<or> f = UF_USERINFO"
  "uf_set u f \<Longrightarrow> uf_set (parse_host_step p s s' u) f"
  "f \<notin> {UF_HOST, UF_PORT, UF_USERINFO} \<Longrightarrow>
     u_field_data (parse_host_step p s s' u) f = u_field_data u f"
  by (auto simp: parse_host_step_def split: http_host_state.splits if_splits)

lemma parse_host_loop_frame:
  "parse_host_loop p cs s u = Inr (s', u') \<Longrightarrow> uf_set u f \<Longrightarrow> uf_set u' f"
  "parse_host_loop p cs s u = Inr (s', u') \<Longrightarrow> f \<notin> {UF_HOST, UF_PORT, UF_USERINFO} \<Longrightarrow>
     uf_set u' f = uf_set u f \<and> u_field_data u' f = u_field_data u f"
proof (induction cs arbitrary: p s u)
  case (Cons ch cs)
  {
    case 1
    with Cons.IH(1) parse_host_step_frame(2) show ?case
      by (fastforce simp: Let_def split: if_splits)
  next
    case 2
    with Cons.IH(2) parse_host_step_frame show ?case
      by (fastforce simp: Let_def split: if_splits)
  }
qed simp_all

text \<open>The result of a successful parse, with the intermediate results of its two phases.\<close>

lemma parse_url_successE:
  assumes "http_parser_parse_url buf ic u0 = Some (0, u)"
  obtains (no_host) fa where
    "parse_url_loop 0 buf (if ic then s_req_server_start else s_req_spaces_before_url) UF_MAX False
       (u0\<lparr>u_field_set := 0, u_port := 0\<rparr>) = Url_end fa u"
    "\<not> uf_set u UF_HOST" "\<not> uf_set u UF_SCHEMA" "\<not> ic"
  | (host) fa u1 s u2 where
    "parse_url_loop 0 buf (if ic then s_req_server_start else s_req_spaces_before_url) UF_MAX False
       (u0\<lparr>u_field_set := 0, u_port := 0\<rparr>) = Url_end fa u1"
    "uf_set u1 UF_HOST"
    "parse_host_loop (f_off u1 UF_HOST) (slice buf (f_off u1 UF_HOST) (f_len u1 UF_HOST))
       (if fa then s_http_userinfo_start else s_http_host_start) (set_len UF_HOST 0 u1) = Inr (s, u2)"
    "host_state_final s"
    "ic \<Longrightarrow> u_field_set u2 = uf_bit UF_HOST OR uf_bit UF_PORT"
    "parse_port buf u2 = Some (0, u)"
proof -
  let ?l = "parse_url_loop 0 buf (if ic then s_req_server_start else s_req_spaces_before_url) UF_MAX
    False (u0\<lparr>u_field_set := 0, u_port := 0\<rparr>)"
  from assms have ne: "buf \<noteq> []" by (auto simp: http_parser_parse_url_def)
  from assms ne obtain fa u1 where l: "?l = Url_end fa u1"
    and sh: "\<not> (uf_set u1 UF_SCHEMA \<and> \<not> uf_set u1 UF_HOST)"
    by (auto simp: http_parser_parse_url_def split: url_outcome.splits if_splits)
  show thesis
  proof (cases "uf_set u1 UF_HOST")
    case True
    with assms ne l sh host show ?thesis
      by (auto simp: http_parser_parse_url_def http_parse_host_def Let_def
          split: if_splits option.splits sum.splits)
  next
    case False
    have "\<not> uf_set u1 UF_PORT" using parse_url_loop_fields [OF l, of UF_PORT] by auto
    moreover have "\<not> ic"
    proof
      assume "ic"
      with assms ne l sh False have "u_field_set u1 = uf_bit UF_HOST OR uf_bit UF_PORT"
        by (auto simp: http_parser_parse_url_def split: if_splits)
      with False show False by (simp add: uf_set_def bit.conj_disj_distrib2)
    qed
    ultimately show ?thesis
      using assms ne l sh False no_host
      by (auto simp: http_parser_parse_url_def parse_port_def split: if_splits)
  qed
qed

lemma host_phase_inv:
  assumes "parse_url_loop 0 buf s0 UF_MAX False (u0\<lparr>u_field_set := 0, u_port := 0\<rparr>) = Url_end fa u1"
    and "uf_set u1 UF_HOST"
  shows "f_off u1 UF_HOST + f_len u1 UF_HOST \<le> length buf"
    and "host_inv (length buf) (f_off u1 UF_HOST) s (set_len UF_HOST 0 u1)"
proof -
  have B: "uf_set u1 f \<Longrightarrow> f_off u1 f + f_len u1 f \<le> length buf" for f
    using parse_url_loop_bounds [OF assms(1), of f] by simp
  from B [OF assms(2)] show "f_off u1 UF_HOST + f_len u1 UF_HOST \<le> length buf" .
  have "\<not> uf_set u1 UF_PORT" "\<not> uf_set u1 UF_USERINFO"
    using parse_url_loop_fields [OF assms(1)] by force+
  with B show "host_inv (length buf) (f_off u1 UF_HOST) s (set_len UF_HOST 0 u1)"
    by (auto simp: host_inv_def host_bounds_def)
qed

lemma host_loop_bounds:
  assumes "parse_url_loop 0 buf s0 UF_MAX False (u0\<lparr>u_field_set := 0, u_port := 0\<rparr>) = Url_end fa u1"
    and "uf_set u1 UF_HOST"
    and "parse_host_loop (f_off u1 UF_HOST) (slice buf (f_off u1 UF_HOST) (f_len u1 UF_HOST)) s
      (set_len UF_HOST 0 u1) = Inr (s', u2)"
    and "uf_set u2 f"
  shows "f_off u2 f + f_len u2 f \<le> length buf"
proof -
  note off = host_phase_inv(1) [OF assms(1,2)]
  from parse_host_loop_inv [OF host_phase_inv(2) [OF assms(1,2)] assms(3)] assms(4)
  have "f_off u2 f + f_len u2 f \<le> max (f_off u1 UF_HOST + min (f_len u1 UF_HOST) (length buf - f_off u1 UF_HOST)) (length buf)"
    by (force simp: host_inv_def host_bounds_def split: if_splits)
  also have "\<dots> = length buf" using off by simp
  finally show ?thesis .
qed

lemma parse_url_not_None: "http_parser_parse_url buf ic u0 \<noteq> None"
proof
  assume N: "http_parser_parse_url buf ic u0 = None"
  then have ne: "buf \<noteq> []" by (auto simp: http_parser_parse_url_def)
  obtain fa u1 where l: "parse_url_loop 0 buf (if ic then s_req_server_start else s_req_spaces_before_url)
      UF_MAX False (u0\<lparr>u_field_set := 0, u_port := 0\<rparr>) = Url_end fa u1"
    using N ne parse_url_loop_not_assert
    by (fastforce simp: http_parser_parse_url_def split: url_outcome.splits)
  show False
  proof (cases "uf_set u1 UF_HOST")
    case False
    then have "\<not> uf_set u1 UF_PORT" using parse_url_loop_fields [OF l, of UF_PORT] by auto
    with N ne l False show False
      by (auto simp: http_parser_parse_url_def parse_port_def split: if_splits)
  next
    case True
    note off = host_phase_inv(1) [OF l True]
    from N ne l True off obtain s u2 where
      h: "parse_host_loop (f_off u1 UF_HOST) (slice buf (f_off u1 UF_HOST) (f_len u1 UF_HOST))
        (if fa then s_http_userinfo_start else s_http_host_start) (set_len UF_HOST 0 u1) = Inr (s, u2)"
      and n: "parse_port buf u2 = None"
      by (auto simp: http_parser_parse_url_def http_parse_host_def Let_def
          split: if_splits option.splits sum.splits)
    from n have "uf_set u2 UF_PORT" and "length buf < f_off u2 UF_PORT + f_len u2 UF_PORT"
      by (auto simp: parse_port_def Let_def split: if_splits option.splits)
    with host_loop_bounds [OF l True h, of UF_PORT] show False by simp
  qed
qed

lemma parse_port_frame:
  assumes "parse_port buf u = Some (0, u')"
  shows "uf_set u' = uf_set u" and "u_field_data u' = u_field_data u" and "u_field_set u' = u_field_set u"
  using assms by (auto simp: parse_port_def Let_def split: if_splits option.splits)

section \<open>What the fields contain\<close>

text \<open>
  The specification: the characters that the state machine attributes to a field, in order, and
  the characters of the server part that the host machine attributes to one of its states.
\<close>

fun url_part :: "http_parser_url_fields \<Rightarrow> state \<Rightarrow> bytes \<Rightarrow> bytes" where
  "url_part f s [] = []"
| "url_part f s (c # cs) =
     (if url_field_of (parse_url_char s c) = Some f then c # url_part f (parse_url_char s c) cs
      else url_part f (parse_url_char s c) cs)"

fun host_part :: "http_host_state set \<Rightarrow> http_host_state \<Rightarrow> bytes \<Rightarrow> bytes" where
  "host_part S s [] = []"
| "host_part S s (c # cs) =
     (if http_parse_host_char s c \<in> S then c # host_part S (http_parse_host_char s c) cs
      else host_part S (http_parse_host_char s c) cs)"

text \<open>The field \<open>f\<close> holds the bytes \<open>cs\<close>, all of them before offset \<open>p\<close>.\<close>

definition fld :: "bytes \<Rightarrow> nat \<Rightarrow> http_parser_url \<Rightarrow> http_parser_url_fields \<Rightarrow> bytes \<Rightarrow> bool" where
  "fld buf p u f cs \<longleftrightarrow>
     f_len u f = length cs \<and> f_off u f + length cs \<le> p \<and> slice buf (f_off u f) (length cs) = cs"

definition fld_open :: "nat \<Rightarrow> http_parser_url \<Rightarrow> http_parser_url_fields \<Rightarrow> bool" where
  "fld_open p u f \<longleftrightarrow> f_off u f + f_len u f = p"

lemma fld_Suc: "fld buf p u f cs \<Longrightarrow> fld buf (Suc p) u f cs"
  by (simp add: fld_def)

lemma fld_cong: "u_field_data u' f = u_field_data u f \<Longrightarrow> fld buf p u' f cs = fld buf p u f cs"
  by (simp add: fld_def)

lemma slice_Suc:
  "off + len < length buf \<Longrightarrow> slice buf off (Suc len) = slice buf off len @ [buf ! (off + len)]"
  by (simp add: slice_def take_Suc_conv_app_nth)

lemma unat_u16_Suc: "unat (w :: u16) < 65535 \<Longrightarrow> unat (w + 1) = Suc (unat w)"
  by (simp add: unat_word_ariths)

lemma unat_u16_of_nat: "n < 65536 \<Longrightarrow> unat (of_nat n :: u16) = n"
  by (simp add: unat_of_nat take_bit_nat_eq_self)

lemma fld_inc:
  assumes "fld buf p u f cs" and "fld_open p u f" and "p < length buf" and "length buf \<le> 65535"
  shows "fld buf (Suc p) (inc_len f u) f (cs @ [buf ! p])" and "fld_open (Suc p) (inc_len f u) f"
proof -
  have "f_len u f < 65535" using assms by (simp add: fld_open_def)
  then have L: "f_len (inc_len f u) f = Suc (f_len u f)" by (simp add: unat_u16_Suc)
  with assms slice_Suc [of "f_off u f" "f_len u f" buf]
  show "fld buf (Suc p) (inc_len f u) f (cs @ [buf ! p])" "fld_open (Suc p) (inc_len f u) f"
    by (simp_all add: fld_def fld_open_def)
qed

lemma fld_enter:
  assumes "p < length buf" and "length buf \<le> 65535" and "fd_len (u_field_data u f) = 0"
  shows "fld buf p (set_off f (of_nat p) u) f []" and "fld_open p (set_off f (of_nat p) u) f"
  using assms by (simp_all add: fld_def fld_open_def unat_u16_of_nat slice_def)

lemma fld_enter1:
  assumes "p < length buf" and "length buf \<le> 65535"
  shows "fld buf (Suc p) (set_field f (set_len f 1 (set_off f (of_nat p) u))) f [buf ! p]"
    and "fld_open (Suc p) (set_field f (set_len f 1 (set_off f (of_nat p) u))) f"
  using assms by (simp_all add: fld_def fld_open_def unat_u16_of_nat slice_def take_Suc_conv_app_nth)

text \<open>The fields of a URL follow each other in a fixed order, so that each is one run of bytes.\<close>

definition url_rank :: "state \<Rightarrow> nat" where
  "url_rank s =
     (if s = s_req_schema then 1
      else if s \<in> {s_req_schema_slash, s_req_schema_slash_slash, s_req_server_start} then 2
      else if s \<in> {s_req_server, s_req_server_with_at} then 3
      else if s = s_req_path then 5
      else if s = s_req_query_string_start then 6
      else if s = s_req_query_string then 7
      else if s = s_req_fragment_start then 8
      else if s = s_req_fragment then 9
      else 0)"

definition field_rank :: "http_parser_url_fields \<Rightarrow> nat" where
  "field_rank f = (case f of UF_SCHEMA \<Rightarrow> 1 | UF_HOST \<Rightarrow> 3 | UF_PATH \<Rightarrow> 5 | UF_QUERY \<Rightarrow> 7
     | UF_FRAGMENT \<Rightarrow> 9 | _ \<Rightarrow> 11)"

lemma url_rank_field: "url_field_of s = Some f \<longleftrightarrow> url_rank s = field_rank f"
  by (cases f) (simp_all add: url_field_of_def url_rank_def field_rank_def)

lemma url_rank_mono: "parse_url_char s ch \<noteq> s_dead \<Longrightarrow> url_rank s \<le> url_rank (parse_url_char s ch)"
  by (cases s) (simp_all add: parse_url_char_def parse_server_char_def url_rank_def split: if_splits)

lemma url_delimiter_field: "url_delimiter s \<Longrightarrow> url_field_of s = None"
  by (auto simp: url_delimiter_def url_field_of_def)

lemma field_rank_inj: "field_rank f = field_rank g \<Longrightarrow> url_field_of s = Some f \<Longrightarrow> f = g"
  by (cases f; cases g) (simp_all add: field_rank_def url_field_of_def split: if_splits)

definition url_inv ::
  "bytes \<Rightarrow> nat \<Rightarrow> state \<Rightarrow> http_parser_url_fields \<Rightarrow> http_parser_url \<Rightarrow> (http_parser_url_fields \<Rightarrow> bytes) \<Rightarrow> bool" where
  "url_inv buf p s old u acc \<longleftrightarrow>
     (\<forall>f. (uf_set u f \<longleftrightarrow> acc f \<noteq> []) \<and>
        (uf_set u f \<longrightarrow> fld buf p u f (acc f) \<and> field_rank f \<le> url_rank s)) \<and>
     (\<forall>f. url_field_of s = Some f \<longrightarrow> f = old \<and> uf_set u f \<and> fld_open p u f)"

lemma url_inv_delimiter:
  assumes "url_inv buf p s old u acc" and "url_delimiter (parse_url_char s ch)"
    and "parse_url_char s ch \<noteq> s_dead"
  shows "url_inv buf (Suc p) (parse_url_char s ch) old u acc"
  using assms url_rank_mono [OF assms(3)] url_delimiter_field [OF assms(2)]
  by (auto simp: url_inv_def intro: fld_Suc order_trans)

lemma url_inv_inside:
  assumes I: "url_inv buf p s old u acc" and f: "url_field_of (parse_url_char s ch) = Some old"
    and nd: "parse_url_char s ch \<noteq> s_dead" and set: "uf_set u old"
    and p: "p < length buf" "length buf \<le> 65535"
  shows "url_inv buf (Suc p) (parse_url_char s ch) old (inc_len old u) (acc(old := acc old @ [buf ! p]))"
proof -
  have rk: "url_rank s \<le> field_rank old" using url_rank_mono [OF nd] f by (simp add: url_rank_field)
  with I set have "url_field_of s = Some old" by (auto simp: url_inv_def url_rank_field)
  with I have "fld buf p u old (acc old)" "fld_open p u old" by (auto simp: url_inv_def)
  note fi = fld_inc [OF this p]
  show ?thesis
    unfolding url_inv_def
  proof (intro conjI allI impI)
    fix g assume "uf_set (inc_len old u) g"
    then have g: "uf_set u g" by simp
    show "fld buf (Suc p) (inc_len old u) g ((acc(old := acc old @ [buf ! p])) g)"
      using I g fi by (cases "g = old") (auto simp: url_inv_def fld_cong [of "inc_len old u" g u] intro: fld_Suc)
    from I g url_rank_mono [OF nd] show "field_rank g \<le> url_rank (parse_url_char s ch)"
      by (auto simp: url_inv_def intro: order_trans)
  qed (use I f fi set in \<open>auto simp: url_inv_def\<close>)
qed

lemma url_inv_enter:
  assumes I: "url_inv buf p s old u acc" and f: "url_field_of (parse_url_char s ch) = Some uf"
    and nd: "parse_url_char s ch \<noteq> s_dead" and ne: "uf \<noteq> old"
    and p: "p < length buf" "length buf \<le> 65535"
  shows "url_inv buf (Suc p) (parse_url_char s ch) uf
    (set_field uf (set_len uf 1 (set_off uf (of_nat p) u))) (acc(uf := acc uf @ [buf ! p]))"
proof -
  let ?u = "set_field uf (set_len uf 1 (set_off uf (of_nat p) u))"
  have "\<not> uf_set u uf"
  proof
    assume "uf_set u uf"
    with I url_rank_mono [OF nd] f have "url_rank s = field_rank uf"
      by (auto simp: url_inv_def url_rank_field)
    with I ne show False by (auto simp: url_inv_def url_rank_field)
  qed
  with I have empty: "acc uf = []" by (auto simp: url_inv_def)
  note fe = fld_enter1 [OF p, of uf u]
  show ?thesis
    unfolding url_inv_def
  proof (intro conjI allI impI)
    fix g assume g: "uf_set ?u g"
    show "fld buf (Suc p) ?u g ((acc(uf := acc uf @ [buf ! p])) g)"
      using I g fe empty by (cases "g = uf") (auto simp: url_inv_def fld_cong [of ?u g u] intro: fld_Suc)
    from I g f url_rank_mono [OF nd] show "field_rank g \<le> url_rank (parse_url_char s ch)"
      by (auto simp: url_inv_def url_rank_field intro: order_trans)
  qed (use I f fe in \<open>auto simp: url_inv_def\<close>)
qed

lemma parse_url_loop_runs:
  assumes "parse_url_loop p cs s old fa u = Url_end fa' u'" and "url_inv buf p s old u acc"
    and "cs = drop p buf" and "p \<le> length buf" and "length buf \<le> 65535" and "uf_set u old \<or> old = UF_MAX"
  shows "(uf_set u' f \<longleftrightarrow> acc f @ url_part f s cs \<noteq> []) \<and>
    (uf_set u' f \<longrightarrow> fld buf (length buf) u' f (acc f @ url_part f s cs))"
  using assms
proof (induction cs arbitrary: p s old fa u acc)
  case Nil
  then have "p = length buf" by simp
  with Nil show ?case by (auto simp: url_inv_def)
next
  case (Cons ch cs)
  from Cons.prems(3) have p: "p < length buf" by (metis drop_eq_Nil leI list.distinct(1))
  with Cons.prems(3) have ch: "ch = buf ! p" and cs: "cs = drop (Suc p) buf"
    by (metis Cons_nth_drop_Suc list.inject)+
  let ?s = "parse_url_char s ch"
  from Cons.prems(1) have nd: "?s \<noteq> s_dead" by auto
  from Cons.prems(1) show ?case
  proof (cases rule: parse_url_loop_ConsE)
    case delimiter
    from Cons.IH [OF delimiter(2) url_inv_delimiter [OF Cons.prems(2) delimiter(1) nd] cs _ Cons.prems(5,6)] p
    show ?thesis using url_delimiter_field [OF delimiter(1)] by simp
  next
    case (inside fa2)
    then have "uf_set u old" using Cons.prems(6) by (auto simp: url_field_of_def split: if_splits)
    from Cons.IH [OF inside(3) url_inv_inside [OF Cons.prems(2) inside(1) nd this p Cons.prems(5)] cs _ Cons.prems(5)]
      this p
    show ?thesis using inside(1) ch by auto
  next
    case (enter uf fa2)
    from Cons.IH [OF enter(4) url_inv_enter [OF Cons.prems(2) enter(1) nd enter(2) p Cons.prems(5)] cs _ Cons.prems(5)] p
    show ?thesis using enter(1) ch by auto
  qed
qed

lemma url_inv_init:
  assumes "s \<in> {s_req_server_start, s_req_spaces_before_url}"
  shows "url_inv buf 0 s UF_MAX (u0\<lparr>u_field_set := 0, u_port := 0\<rparr>) (\<lambda>f. [])"
  using assms by (auto simp: url_inv_def url_field_of_def)

lemma url_start_fields:
  assumes "parse_url_loop 0 buf s UF_MAX False (u0\<lparr>u_field_set := 0, u_port := 0\<rparr>) = Url_end fa u'"
    and "length buf \<le> 65535" and "s \<in> {s_req_server_start, s_req_spaces_before_url}"
  shows "uf_set u' f \<longleftrightarrow> url_part f s buf \<noteq> []"
    and "uf_set u' f \<Longrightarrow> fld buf (length buf) u' f (url_part f s buf)"
  using parse_url_loop_runs [OF assms(1) url_inv_init [OF assms(3)], where f = f] assms(2) by auto

lemma found_at_iff:
  "parse_url_loop p cs s old fa u = Url_end fa' u' \<Longrightarrow>
   fa' \<longleftrightarrow> fa \<or> CHR ''@'' \<in> set (url_part UF_HOST s cs)"
proof (induction cs arbitrary: p s old fa u)
  case (Cons ch cs)
  let ?s = "parse_url_char s ch"
  have at: "?s = s_req_server_with_at \<longleftrightarrow> url_field_of ?s = Some UF_HOST \<and> ch = CHR ''@''"
    by (cases s) (auto simp: parse_url_char_def parse_server_char_def url_field_of_def
        IS_USERINFO_CHAR_def IS_ALPHANUM_def IS_ALPHA_def IS_NUMBER_def IS_MARK_def char_in_def LOWER_def
        split: if_splits)
  from Cons.prems obtain old2 u2 where
    "parse_url_loop (Suc p) cs ?s old2 (fa \<or> ?s = s_req_server_with_at) u2 = Url_end fa' u'"
    by (auto simp: Let_def url_delimiter_def split: if_splits option.splits)
  from Cons.IH [OF this] at show ?case by auto
qed simp

text \<open>The same for the host machine.\<close>

definition host_states :: "http_host_state set" where
  "host_states = {s_http_host, s_http_host_v6, s_http_host_v6_zone_start, s_http_host_v6_zone}"

definition host_runs ::
  "bytes \<Rightarrow> nat \<Rightarrow> http_host_state \<Rightarrow> http_parser_url \<Rightarrow> bytes \<Rightarrow> bytes \<Rightarrow> bytes \<Rightarrow> bool" where
  "host_runs buf p s u hs ps us \<longleftrightarrow>
     fld buf p u UF_HOST hs \<and> (s \<in> host_states \<longrightarrow> fld_open p u UF_HOST) \<and>
     (s \<in> {s_http_userinfo_start, s_http_userinfo, s_http_host_start, s_http_host_v6_start} \<longrightarrow> hs = []) \<and>
     (uf_set u UF_PORT \<longleftrightarrow> ps \<noteq> []) \<and> (uf_set u UF_PORT \<longrightarrow> fld buf p u UF_PORT ps) \<and>
     (if s = s_http_host_port then uf_set u UF_PORT \<and> fld_open p u UF_PORT else ps = []) \<and>
     (uf_set u UF_USERINFO \<longleftrightarrow> us \<noteq> []) \<and> (uf_set u UF_USERINFO \<longrightarrow> fld buf p u UF_USERINFO us) \<and>
     (s = s_http_userinfo \<longrightarrow> uf_set u UF_USERINFO \<and> fld_open p u UF_USERINFO) \<and>
     (s = s_http_userinfo_start \<longrightarrow> us = [])"

lemma http_parse_host_char_next:
  "http_parse_host_char s ch = s_http_host_v6_zone_start \<Longrightarrow> s = s_http_host_v6"
  "http_parse_host_char s ch = s_http_host_v6_zone \<Longrightarrow> s \<in> {s_http_host_v6_zone_start, s_http_host_v6_zone}"
  "http_parse_host_char s_http_host_port ch \<in> {s_http_host_port, s_http_host_dead}"
  by (cases s; simp add: http_parse_host_char_def Let_def split: if_splits)+

lemma fld_start:
  assumes "p < length buf" and "length buf \<le> 65535"
  shows "fld buf (Suc p) (inc_len f (set_field f (set_len f 0 (set_off f (of_nat p) u)))) f [buf ! p]"
    and "fld_open (Suc p) (inc_len f (set_field f (set_len f 0 (set_off f (of_nat p) u)))) f"
  using assms by (simp_all add: fld_def fld_open_def unat_u16_of_nat slice_def take_Suc_conv_app_nth)

lemma fld_frame:
  "g \<noteq> f \<Longrightarrow> fld buf p (inc_len f u) g cs = fld buf p u g cs"
  "g \<noteq> f \<Longrightarrow> fld buf p (set_off f v u) g cs = fld buf p u g cs"
  "g \<noteq> f \<Longrightarrow> fld buf p (set_len f v u) g cs = fld buf p u g cs"
  "fld buf p (set_field f u) g cs = fld buf p u g cs"
  "g \<noteq> f \<Longrightarrow> fld_open p (inc_len f u) g = fld_open p u g"
  "g \<noteq> f \<Longrightarrow> fld_open p (set_off f v u) g = fld_open p u g"
  "g \<noteq> f \<Longrightarrow> fld_open p (set_len f v u) g = fld_open p u g"
  "fld_open p (set_field f u) g = fld_open p u g"
  by (simp_all add: fld_def fld_open_def)

lemma host_runs_host:
  assumes R: "host_runs buf p s u hs ps us" and p: "p < length buf" "length buf \<le> 65535"
    and new: "s' \<in> host_states" and s: "s \<in> host_states \<or> s \<in> {s_http_host_start, s_http_host_v6_start}"
    and u1: "u1 = (if s \<in> host_states then u else set_off UF_HOST (of_nat p) u)"
  shows "host_runs buf (Suc p) s' (inc_len UF_HOST u1) (hs @ [buf ! p]) ps us"
proof -
  have F: "fld buf p u1 UF_HOST hs \<and> fld_open p u1 UF_HOST"
  proof (cases "s \<in> host_states")
    case True
    with R u1 show ?thesis by (simp add: host_runs_def)
  next
    case False
    with R s have "hs = []" "fd_len (u_field_data u UF_HOST) = 0"
      by (auto simp: host_runs_def fld_def word_unat_eq_iff)
    with fld_enter [OF p, of u UF_HOST] False u1 show ?thesis by simp
  qed
  with fld_inc [of buf p u1 UF_HOST hs] p
  have "fld buf (Suc p) (inc_len UF_HOST u1) UF_HOST (hs @ [buf ! p])"
    "fld_open (Suc p) (inc_len UF_HOST u1) UF_HOST" by auto
  moreover have "uf_set (inc_len UF_HOST u1) = uf_set u"
    "\<And>q g cs. g \<noteq> UF_HOST \<Longrightarrow> fld buf q (inc_len UF_HOST u1) g cs = fld buf q u g cs"
    using u1 by (simp_all add: fld_frame)
  moreover have "s \<noteq> s_http_host_port" using s by (auto simp: host_states_def)
  moreover have "s' \<noteq> s_http_host_port" "s' \<notin> {s_http_userinfo_start, s_http_userinfo, s_http_host_start, s_http_host_v6_start}"
    using new by (auto simp: host_states_def)
  ultimately show ?thesis
    using R new by (simp add: host_runs_def fld_Suc)
qed

lemma host_runs_port:
  assumes R: "host_runs buf p s u hs ps us" and p: "p < length buf" "length buf \<le> 65535"
    and u1: "u1 = (if s = s_http_host_port then u
      else set_field UF_PORT (set_len UF_PORT 0 (set_off UF_PORT (of_nat p) u)))"
  shows "host_runs buf (Suc p) s_http_host_port (inc_len UF_PORT u1) hs (ps @ [buf ! p]) us"
proof -
  have "fld buf (Suc p) (inc_len UF_PORT u1) UF_PORT (ps @ [buf ! p])"
    "fld_open (Suc p) (inc_len UF_PORT u1) UF_PORT" "uf_set (inc_len UF_PORT u1) UF_PORT"
    using R fld_start [OF p, of UF_PORT u] fld_inc [of buf p u UF_PORT ps] p u1
    by (auto simp: host_runs_def split: if_splits)
  moreover have "uf_set (inc_len UF_PORT u1) UF_USERINFO = uf_set u UF_USERINFO"
    "\<And>q g cs. g \<noteq> UF_PORT \<Longrightarrow> fld buf q (inc_len UF_PORT u1) g cs = fld buf q u g cs"
    using u1 by (simp_all add: fld_frame)
  ultimately show ?thesis
    using R by (simp add: host_runs_def host_states_def fld_Suc)
qed

lemma host_runs_userinfo:
  assumes R: "host_runs buf p s u hs ps us" and p: "p < length buf" "length buf \<le> 65535"
    and s: "s \<in> {s_http_userinfo_start, s_http_userinfo}"
    and u1: "u1 = (if s = s_http_userinfo then u
      else set_field UF_USERINFO (set_len UF_USERINFO 0 (set_off UF_USERINFO (of_nat p) u)))"
  shows "host_runs buf (Suc p) s_http_userinfo (inc_len UF_USERINFO u1) hs ps (us @ [buf ! p])"
proof -
  have "fld buf (Suc p) (inc_len UF_USERINFO u1) UF_USERINFO (us @ [buf ! p])"
    "fld_open (Suc p) (inc_len UF_USERINFO u1) UF_USERINFO" "uf_set (inc_len UF_USERINFO u1) UF_USERINFO"
    using R s fld_start [OF p, of UF_USERINFO u] fld_inc [of buf p u UF_USERINFO us] p u1
    by (auto simp: host_runs_def split: if_splits)
  moreover have "uf_set (inc_len UF_USERINFO u1) UF_PORT = uf_set u UF_PORT"
    "\<And>q g cs. g \<noteq> UF_USERINFO \<Longrightarrow> fld buf q (inc_len UF_USERINFO u1) g cs = fld buf q u g cs"
    using u1 by (simp_all add: fld_frame)
  moreover have "hs = []" "ps = []" "\<not> uf_set u UF_PORT" using R s by (auto simp: host_runs_def)
  ultimately show ?thesis
    using R by (simp add: host_runs_def host_states_def fld_Suc)
qed


lemma host_runs_step:
  assumes R: "host_runs buf p s u hs ps us" and nd: "http_parse_host_char s (buf ! p) \<noteq> s_http_host_dead"
    and p: "p < length buf" "length buf \<le> 65535"
  defines "s' \<equiv> http_parse_host_char s (buf ! p)"
  shows "host_runs buf (Suc p) s' (parse_host_step p s s' u)
    (if s' \<in> host_states then hs @ [buf ! p] else hs)
    (if s' = s_http_host_port then ps @ [buf ! p] else ps)
    (if s' = s_http_userinfo then us @ [buf ! p] else us)"
proof -
  note h = http_parse_host_char_host [of s "buf ! p", folded s'_def]
    http_parse_host_char_next(1,2) [of s "buf ! p", folded s'_def]
  have np: "s = s_http_host_port \<Longrightarrow> s' = s_http_host_port"
    using http_parse_host_char_next(3) [of "buf ! p"] nd by (auto simp: s'_def)
  consider "s' \<in> host_states" | "s' = s_http_host_port" | "s' = s_http_userinfo"
    | "s' \<notin> host_states \<union> {s_http_host_port, s_http_userinfo}" by blast
  then show ?thesis
  proof cases
    case 1
    then have "s \<in> host_states \<or> s \<in> {s_http_host_start, s_http_host_v6_start}"
      and "parse_host_step p s s' u =
        inc_len UF_HOST (if s \<in> host_states then u else set_off UF_HOST (of_nat p) u)"
      using h by (auto simp: host_states_def parse_host_step_def)
    from host_runs_host [OF R p 1 this(1) refl] this(2) 1 show ?thesis
      by (auto simp: host_states_def)
  next
    case 2
    with host_runs_port [OF R p refl] show ?thesis
      by (cases "s = s_http_host_port") (simp_all add: host_states_def parse_host_step_def)
  next
    case 3
    with h(4) host_runs_userinfo [OF R p _ refl] show ?thesis
      by (cases "s = s_http_userinfo") (simp_all add: host_states_def parse_host_step_def)
  next
    case 4
    then have "parse_host_step p s s' u = u" "s \<noteq> s_http_host_port"
      using np by (auto simp: parse_host_step_def host_states_def split: http_host_state.split)
    with 4 have eq: "host_runs buf (Suc p) s' (parse_host_step p s s' u)
        (if s' \<in> host_states then hs @ [buf ! p] else hs)
        (if s' = s_http_host_port then ps @ [buf ! p] else ps)
        (if s' = s_http_userinfo then us @ [buf ! p] else us) = host_runs buf (Suc p) s' u hs ps us"
      by auto
    have "s' \<in> {s_http_host_start, s_http_host_v6_start} \<Longrightarrow> hs = []"
      using h R by (auto simp: host_runs_def)
    with 4 R h(6) \<open>s \<noteq> s_http_host_port\<close> show ?thesis
      unfolding eq by (simp add: host_runs_def fld_Suc)
  qed
qed

lemma parse_host_loop_runs:
  assumes "parse_host_loop p cs s u = Inr (s', u')" and "host_runs buf p s u hs ps us"
    and "p + length cs \<le> length buf" and "cs = slice buf p (length cs)" and "length buf \<le> 65535"
  shows "host_runs buf (p + length cs) s' u' (hs @ host_part host_states s cs)
    (ps @ host_part {s_http_host_port} s cs) (us @ host_part {s_http_userinfo} s cs)"
  using assms
proof (induction cs arbitrary: p s u hs ps us)
  case (Cons ch cs)
  have p: "p < length buf" using Cons.prems(3) by simp
  have "slice buf p (Suc (length cs)) = buf ! p # slice buf (Suc p) (length cs)"
    using p by (simp add: slice_def Cons_nth_drop_Suc [symmetric])
  with Cons.prems(4) have ch: "ch = buf ! p" and cs: "cs = slice buf (Suc p) (length cs)"
    by simp_all
  let ?s = "http_parse_host_char s (buf ! p)"
  from Cons.prems(1) ch have nd: "?s \<noteq> s_http_host_dead"
    and l: "parse_host_loop (Suc p) cs ?s (parse_host_step p s ?s u) = Inr (s', u')"
    by (auto simp: Let_def split: if_splits)
  from Cons.IH [OF l host_runs_step [OF Cons.prems(2) nd p Cons.prems(5)] _ cs Cons.prems(5)] Cons.prems(3) ch
  show ?case by (auto split: if_splits)
qed simp

definition host_seen :: "http_host_state set" where
  "host_seen = host_states \<union> {s_http_host_v6_end, s_http_host_port_start, s_http_host_port}"

lemma host_part_nonempty:
  "parse_host_loop p cs s u = Inr (s', u') \<Longrightarrow> s \<notin> host_seen \<Longrightarrow> s' \<in> host_seen \<Longrightarrow>
   host_part host_states s cs \<noteq> []"
proof (induction cs arbitrary: p s u)
  case (Cons ch cs)
  have "http_parse_host_char s ch \<in> host_seen \<Longrightarrow> http_parse_host_char s ch \<in> host_states"
    using Cons.prems(2) by (cases s) (auto simp: http_parse_host_char_def Let_def host_seen_def host_states_def split: if_splits)
  with Cons show ?case by (fastforce simp: Let_def split: if_splits)
qed simp

lemma parse_host_loop_alive:
  "parse_host_loop p cs s u = Inr (s', u') \<Longrightarrow> s \<noteq> s_http_host_dead \<Longrightarrow> s' \<noteq> s_http_host_dead"
  by (induction cs arbitrary: p s u) (auto simp: Let_def split: if_splits)

lemma host_part_port_digits: "c \<in> set (host_part {s_http_host_port} s cs) \<Longrightarrow> IS_NUMBER c"
proof (induction cs arbitrary: s)
  case (Cons ch cs)
  have "http_parse_host_char s ch = s_http_host_port \<Longrightarrow> IS_NUMBER ch"
    by (cases s) (auto simp: http_parse_host_char_def Let_def split: if_splits)
  with Cons show ?case by (auto split: if_splits)
qed simp

text \<open>What a parse of \<open>buf\<close> is to report as the contents of each field.\<close>

definition url_start :: "bool \<Rightarrow> state" where
  "url_start is_connect = (if is_connect then s_req_server_start else s_req_spaces_before_url)"

definition host_start :: "bytes \<Rightarrow> http_host_state" where
  "host_start server = (if CHR ''@'' \<in> set server then s_http_userinfo_start else s_http_host_start)"

definition url_field_spec :: "bool \<Rightarrow> bytes \<Rightarrow> http_parser_url_fields \<Rightarrow> bytes" where
  "url_field_spec is_connect buf f =
     (let server = url_part UF_HOST (url_start is_connect) buf
      in case f of
           UF_HOST \<Rightarrow> host_part host_states (host_start server) server
         | UF_PORT \<Rightarrow> host_part {s_http_host_port} (host_start server) server
         | UF_USERINFO \<Rightarrow> host_part {s_http_userinfo} (host_start server) server
         | _ \<Rightarrow> url_part f (url_start is_connect) buf)"

lemma url_part_none: "f \<in> {UF_PORT, UF_USERINFO, UF_MAX} \<Longrightarrow> url_part f s cs = []"
  by (induction cs arbitrary: s) (auto simp: url_field_of_def split: if_splits)

lemma host_fields:
  assumes l: "parse_url_loop 0 buf (url_start ic) UF_MAX False (u0\<lparr>u_field_set := 0, u_port := 0\<rparr>) = Url_end fa u1"
    and h: "uf_set u1 UF_HOST"
    and hl: "parse_host_loop (f_off u1 UF_HOST) (slice buf (f_off u1 UF_HOST) (f_len u1 UF_HOST))
      (if fa then s_http_userinfo_start else s_http_host_start) (set_len UF_HOST 0 u1) = Inr (s, u2)"
    and fin: "host_state_final s" and len: "length buf \<le> 65535"
  shows "(uf_set u2 f \<longleftrightarrow> url_field_spec ic buf f \<noteq> []) \<and>
    (uf_set u2 f \<longrightarrow> slice buf (f_off u2 f) (f_len u2 f) = url_field_spec ic buf f)"
proof -
  let ?server = "url_part UF_HOST (url_start ic) buf" and ?p = "f_off u1 UF_HOST"
  have st: "url_start ic \<in> {s_req_server_start, s_req_spaces_before_url}" by (simp add: url_start_def)
  note sf = url_start_fields [OF l len st]
  from sf(2) [OF h] have F: "fld buf (length buf) u1 UF_HOST ?server" .
  then have server: "slice buf ?p (f_len u1 UF_HOST) = ?server" "length ?server = f_len u1 UF_HOST"
    "?p + length ?server \<le> length buf" by (auto simp: fld_def)
  have fa: "(if fa then s_http_userinfo_start else s_http_host_start) = host_start ?server"
    using found_at_iff [OF l] by (simp add: host_start_def)
  have un: "\<not> uf_set u1 UF_PORT" "\<not> uf_set u1 UF_USERINFO"
    using parse_url_loop_fields [OF l] by force+
  have "host_runs buf ?p (host_start ?server) (set_len UF_HOST 0 u1) [] [] []"
    using un by (auto simp: host_runs_def fld_def slice_def host_start_def host_states_def)
  from parse_host_loop_runs [OF hl [unfolded server fa] this server(3) _ len] server
  have R: "host_runs buf (?p + length ?server) s u2 (host_part host_states (host_start ?server) ?server)
    (host_part {s_http_host_port} (host_start ?server) ?server)
    (host_part {s_http_userinfo} (host_start ?server) ?server)" by simp
  have "host_start ?server \<notin> host_seen" "host_start ?server \<noteq> s_http_host_dead"
    by (auto simp: host_start_def host_seen_def host_states_def)
  moreover from parse_host_loop_alive [OF hl [unfolded server fa] this(2)] fin have "s \<in> host_seen"
    by (cases s) (simp_all add: host_state_final_def host_seen_def host_states_def)
  ultimately have ne: "host_part host_states (host_start ?server) ?server \<noteq> []"
    using host_part_nonempty [OF hl [unfolded server fa]] by blast
  have set: "uf_set u2 UF_HOST" using parse_host_loop_frame(1) [OF hl, of UF_HOST] h by simp
  show ?thesis
  proof (cases "f \<in> {UF_HOST, UF_PORT, UF_USERINFO}")
    case True
    with R ne set show ?thesis by (auto simp: host_runs_def url_field_spec_def Let_def fld_def)
  next
    case False
    with parse_host_loop_frame(2) [OF hl, of f]
    have "uf_set u2 f = uf_set u1 f" "u_field_data u2 f = u_field_data u1 f" by auto
    with False sf [of f] show ?thesis
      by (cases f) (auto simp: url_field_spec_def Let_def fld_def)
  qed
qed

lemma parse_url_success_fields:
  assumes "http_parser_parse_url buf ic u0 = Some (0, u)" and "length buf \<le> 65535"
  shows "(uf_set u f \<longleftrightarrow> url_field_spec ic buf f \<noteq> []) \<and>
    (uf_set u f \<longrightarrow> slice buf (f_off u f) (f_len u f) = url_field_spec ic buf f)"
  using assms(1)
proof (cases rule: parse_url_successE)
  case (no_host fa)
  have st: "url_start ic \<in> {s_req_server_start, s_req_spaces_before_url}" by (simp add: url_start_def)
  note sf = url_start_fields [OF no_host(1) [folded url_start_def] assms(2) st]
  from sf(1) [of UF_HOST] no_host(2) have "url_part UF_HOST (url_start ic) buf = []" by simp
  with sf [of f] show ?thesis
    by (cases f) (auto simp: url_field_spec_def Let_def fld_def url_part_none)
next
  case (host fa u1 s u2)
  from host_fields [OF host(1) [folded url_start_def] host(2,3,4) assms(2), of f]
    parse_port_frame [OF host(6)]
  show ?thesis by simp
qed

text \<open>The port: the decimal value of the digits.\<close>

definition dec_value :: "bytes \<Rightarrow> nat" where
  "dec_value cs = foldl (\<lambda>v c. v * 10 + digit_val c) 0 cs"

lemma digit_bounds: "IS_NUMBER c \<Longrightarrow> digit_val c \<le> 9 \<and> char_int c - 48 = int (digit_val c)"
proof -
  assume "IS_NUMBER c"
  then have b: "48 \<le> (of_char c :: nat)" "(of_char c :: nat) \<le> 57"
    by (simp_all add: IS_NUMBER_def char_in_def)
  have "(of_char c :: int) = int (of_char c)" by (simp only: of_nat_of_char)
  with b show ?thesis by (simp add: digit_val_def char_int_def)
qed

lemma port_loop_value:
  assumes "port_loop cs v = Some w" and "\<And>c. c \<in> set cs \<Longrightarrow> IS_NUMBER c" and "unat v \<le> 65535"
  shows "unat w = foldl (\<lambda>v c. v * 10 + digit_val c) (unat v) cs \<and> unat w \<le> 65535"
  using assms
proof (induction cs arbitrary: v)
  case (Cons c cs)
  let ?v = "v * 10 + of_int (char_int c - 48)"
  have d: "digit_val c \<le> 9" "char_int c - 48 = int (digit_val c)" using digit_bounds Cons.prems(2) by auto
  have "unat ?v = (unat v * 10 + digit_val c) mod 2 ^ 64"
    unfolding d(2) by (simp add: unat_word_ariths unat_of_nat take_bit_eq_mod mod_simps)
  also have "\<dots> = unat v * 10 + digit_val c" using d(1) Cons.prems(3) by simp
  finally have u: "unat ?v = unat v * 10 + digit_val c" .
  from Cons.prems(1) have "\<not> ?v > 0xffff" and l: "port_loop cs ?v = Some w"
    by (auto simp: Let_def split: if_splits)
  then have "unat ?v \<le> 65535" by (simp add: word_le_nat_alt not_less)
  from Cons.IH [OF l _ this] Cons.prems(2) u show ?case by simp
qed simp

lemma u_port_simps [simp]:
  "u_port (set_field f u) = u_port u" "u_port (set_off f v u) = u_port u"
  "u_port (set_len f v u) = u_port u" "u_port (inc_len f u) = u_port u"
  by (simp_all add: set_field_def set_off_def set_len_def inc_len_def)

lemma parse_url_loop_port: "parse_url_loop p cs s old fa u = Url_end fa' u' \<Longrightarrow> u_port u' = u_port u"
proof (induction cs arbitrary: p s old fa u)
  case (Cons ch cs)
  from Cons.prems show ?case
    by (cases rule: parse_url_loop_ConsE) (auto dest: Cons.IH)
qed simp

lemma parse_host_step_port: "u_port (parse_host_step p s s' u) = u_port u"
  by (simp add: parse_host_step_def split: http_host_state.split)

lemma parse_host_loop_port: "parse_host_loop p cs s u = Inr (s', u') \<Longrightarrow> u_port u' = u_port u"
  by (induction cs arbitrary: p s u) (auto simp: Let_def parse_host_step_port split: if_splits)

section \<open>Properties\<close>

text \<open>
  (C18) \<open>http_parser_parse_url\<close> fails no assertion and reads no byte outside the buffer, for every
  input and any previous contents of the result structure, and on success every field that is
  marked as present lies within the buffer.
\<close>

theorem parse_url_memory_safe:
  "\<exists>rc u. http_parser_parse_url buf is_connect u0 = Some (rc, u) \<and>
     (rc = 0 \<longrightarrow> (\<forall>f. uf_set u f \<longrightarrow>
        unat (fd_off (u_field_data u f)) + unat (fd_len (u_field_data u f)) \<le> length buf))"
proof -
  obtain rc u where r: "http_parser_parse_url buf is_connect u0 = Some (rc, u)"
    using parse_url_not_None by fastforce
  have "f_off u f + f_len u f \<le> length buf" if "rc = 0" and set: "uf_set u f" for f
  proof -
    from r that(1) have "http_parser_parse_url buf is_connect u0 = Some (0, u)" by simp
    then show ?thesis
    proof (cases rule: parse_url_successE)
      case no_host
      from parse_url_loop_bounds [OF no_host(1), of f] set show ?thesis by simp
    next
      case host
      from host_loop_bounds [OF host(1,2,3), of f] parse_port_frame [OF host(6)] set show ?thesis
        by simp
    qed
  qed
  with r show ?thesis by blast
qed

theorem parse_url_memory_safe_witness:
  "\<exists>u. http_parser_parse_url ''/a?b'' False http_parser_url_init = Some (0, u) \<and>
     uf_set u UF_QUERY \<and> f_off u UF_QUERY + f_len u UF_QUERY \<le> 4"
proof -
  have r: "map_option (\<lambda>(rc, u). (rc, uf_set u UF_QUERY))
      (http_parser_parse_url ''/a?b'' False http_parser_url_init) = Some (0, True)"
    by code_simp
  with parse_url_memory_safe [of "''/a?b''" False http_parser_url_init] show ?thesis by force
qed

text \<open>
  (C13) For a URL of up to 65535 bytes, the fields a successful parse reports are exactly the
  runs of characters that the URL state machine and, within the server part, the host state
  machine attribute to them: a field is marked as present iff its run is not empty, and its
  offset and length denote that run.
\<close>

theorem parse_url_fields_exact:
  assumes "http_parser_parse_url buf is_connect u0 = Some (0, u)" and "length buf \<le> 65535"
  shows "(uf_set u f \<longleftrightarrow> url_field_spec is_connect buf f \<noteq> []) \<and>
    (uf_set u f \<longrightarrow>
       slice buf (unat (fd_off (u_field_data u f))) (unat (fd_len (u_field_data u f))) =
       url_field_spec is_connect buf f)"
  using assms by (rule parse_url_success_fields)

theorem parse_url_fields_exact_witness:
  "\<exists>u. http_parser_parse_url ''http://me@h.org:81/x?y#z'' False http_parser_url_init = Some (0, u) \<and>
     uf_set u UF_HOST \<and>
     slice ''http://me@h.org:81/x?y#z'' (f_off u UF_HOST) (f_len u UF_HOST) = ''h.org''"
proof -
  let ?b = "''http://me@h.org:81/x?y#z''"
  have "map_option fst (http_parser_parse_url ?b False http_parser_url_init) = Some 0" by code_simp
  then obtain u where u: "http_parser_parse_url ?b False http_parser_url_init = Some (0, u)" by auto
  have spec: "url_field_spec False ?b UF_HOST = ''h.org''" by code_simp
  from parse_url_fields_exact [OF u, of UF_HOST] u spec show ?thesis by simp
qed

text \<open>
  The port a successful parse reports is the decimal value of the digits of the port field,
  which is at most 65535; it is 0 when there is no port field.
\<close>

theorem parse_url_port:
  assumes "http_parser_parse_url buf is_connect u0 = Some (0, u)" and "length buf \<le> 65535"
  shows "if uf_set u UF_PORT
    then (\<forall>c \<in> set (url_field_spec is_connect buf UF_PORT). IS_NUMBER c) \<and>
      url_field_spec is_connect buf UF_PORT \<noteq> [] \<and>
      unat (u_port u) = dec_value (url_field_spec is_connect buf UF_PORT)
    else u_port u = 0"
  using assms(1)
proof (cases rule: parse_url_successE)
  case (no_host fa)
  then show ?thesis
    using parse_url_loop_fields [OF no_host(1), of UF_PORT] parse_url_loop_port [OF no_host(1)] by auto
next
  case (host fa u1 s u2)
  have port0: "u_port u2 = 0"
    using parse_url_loop_port [OF host(1)] parse_host_loop_port [OF host(3)] by simp
  show ?thesis
  proof (cases "uf_set u UF_PORT")
    case False
    with host(6) port0 show ?thesis
      by (auto simp: parse_port_def Let_def split: if_splits option.splits)
  next
    case True
    let ?cs = "url_field_spec is_connect buf UF_PORT"
    from parse_url_success_fields [OF assms, of UF_PORT] True
    have cs: "slice buf (f_off u UF_PORT) (f_len u UF_PORT) = ?cs" "?cs \<noteq> []" by auto
    have digits: "IS_NUMBER c" if "c \<in> set ?cs" for c
      using that host_part_port_digits by (auto simp: url_field_spec_def Let_def)
    from host(6) True cs(1) parse_port_frame [OF host(6)] obtain v
      where v: "port_loop ?cs 0 = Some v" "u_port u = ucast v"
      by (auto simp: parse_port_def Let_def split: if_splits option.splits)
    from port_loop_value [OF v(1) digits] have "unat v = dec_value ?cs" "unat v \<le> 65535"
      by (simp_all add: dec_value_def)
    then have "unat (ucast v :: u16) = dec_value ?cs"
      by (simp add: unsigned_ucast_eq take_bit_nat_eq_self)
    with True digits cs v(2) show ?thesis by auto
  qed
qed

theorem parse_url_port_witness:
  "\<exists>u. http_parser_parse_url ''h.org:8080'' True http_parser_url_init = Some (0, u) \<and> u_port u = 8080"
proof -
  let ?b = "''h.org:8080''"
  have "map_option (\<lambda>(rc, u). (rc, uf_set u UF_PORT))
      (http_parser_parse_url ?b True http_parser_url_init) = Some (0, True)" by code_simp
  then obtain u where u: "http_parser_parse_url ?b True http_parser_url_init = Some (0, u)" "uf_set u UF_PORT"
    by auto
  have spec: "url_field_spec True ?b UF_PORT = ''8080''" by code_simp
  have "dec_value ''8080'' = 8080" by (simp add: dec_value_def digit_val_def)
  with parse_url_port [OF u(1)] u spec have "unat (u_port u) = 8080" by simp
  then have "u_port u = 8080" by (simp add: word_unat_eq_iff)
  with u show ?thesis by blast
qed

text \<open>
  A URL with a schema has a host, and the target of a CONNECT request is accepted only as a
  host with a port and nothing else.
\<close>

theorem parse_url_shape:
  assumes "http_parser_parse_url buf is_connect u0 = Some (0, u)"
  shows "(uf_set u UF_SCHEMA \<longrightarrow> uf_set u UF_HOST) \<and>
    (is_connect \<longrightarrow> (\<forall>f. uf_set u f \<longleftrightarrow> f = UF_HOST \<or> f = UF_PORT))"
  using assms
proof (cases rule: parse_url_successE)
  case (host fa u1 s u2)
  have "uf_set u UF_HOST"
    using parse_host_loop_frame(1) [OF host(3), of UF_HOST] host(2) parse_port_frame [OF host(6)] by simp
  moreover have "uf_set u f \<longleftrightarrow> f = UF_HOST \<or> f = UF_PORT" if "is_connect" for f
    using host(5) [OF that] parse_port_frame [OF host(6)]
    by (auto simp: uf_set_def bit.conj_disj_distrib2 or_eq_0_iff)
  ultimately show ?thesis by blast
qed blast

theorem parse_url_shape_witness:
  "\<exists>u. http_parser_parse_url ''h.org:8080'' True http_parser_url_init = Some (0, u) \<and>
     uf_set u UF_HOST \<and> \<not> uf_set u UF_PATH"
proof -
  have "map_option fst (http_parser_parse_url ''h.org:8080'' True http_parser_url_init) = Some 0"
    by code_simp
  then obtain u where u: "http_parser_parse_url ''h.org:8080'' True http_parser_url_init = Some (0, u)"
    by auto
  from parse_url_shape [OF u] u show ?thesis by auto
qed

lemma parse_url_loop_path:
  "parse_url_loop p (replicate n CHR ''/'') s_req_path UF_PATH fa u =
   Url_end fa (set_len UF_PATH (fd_len (u_field_data u UF_PATH) + of_nat n) u)"
proof (induction n arbitrary: p u)
  case 0
  have "set_len UF_PATH (fd_len (u_field_data u UF_PATH)) u = u"
    by (simp add: set_len_def fun_upd_def cong: if_cong)
  then show ?case by simp
next
  case (Suc n)
  have "parse_url_char s_req_path CHR ''/'' = s_req_path"
    by code_simp
  then show ?case
    using Suc [of "Suc p" "inc_len UF_PATH u"]
    by (simp add: Let_def url_delimiter_def url_field_of_def inc_len_def set_len_def algebra_simps)
qed

text \<open>
  The 16-bit lengths wrap: the path of \<open>n\<close> slashes is reported at offset 0 with length
  \<open>n mod 65536\<close>, although the parser accepts header lines of 80 KB; a path of 65536 bytes is
  reported as present and empty.
\<close>

theorem parse_url_length_wraps:
  "\<exists>u. http_parser_parse_url (replicate (Suc n) CHR ''/'') False u0 = Some (0, u) \<and>
     uf_set u UF_PATH \<and> fd_off (u_field_data u UF_PATH) = 0 \<and>
     unat (fd_len (u_field_data u UF_PATH)) = Suc n mod 65536"
proof -
  let ?u = "set_field UF_PATH (set_len UF_PATH 1 (set_off UF_PATH 0 (u0\<lparr>u_field_set := 0, u_port := 0\<rparr>)))"
  let ?v = "set_len UF_PATH (1 + of_nat n) ?u"
  have "parse_url_char s_req_spaces_before_url CHR ''/'' = s_req_path" by code_simp
  then have "parse_url_loop 0 (replicate (Suc n) CHR ''/'') s_req_spaces_before_url UF_MAX False
      (u0\<lparr>u_field_set := 0, u_port := 0\<rparr>) = Url_end False ?v"
    by (simp add: Let_def url_delimiter_def url_field_of_def parse_url_loop_path)
  then have "http_parser_parse_url (replicate (Suc n) CHR ''/'') False u0 = Some (0, ?v)"
    by (simp add: http_parser_parse_url_def parse_port_def)
  moreover have "unat (1 + of_nat n :: u16) = Suc n mod 65536"
    by (simp add: unat_word_ariths unat_of_nat take_bit_eq_mod mod_simps)
  ultimately show ?thesis by simp
qed

end
