(* ===== verification/Http_Parser_Exec.thy ===== *)
theory Http_Parser_Exec
  imports Http_Parser_Types Http_Parser_Url
begin

text \<open>
  \<open>http_parser_execute\<close> of \<open>include/http/http_parser.h\<close>, whole: one definition per state (or group of
  alike states) of its switch, the loops over header names and header values, the callback
  macros, the byte loop and the exits. The local variables of the C function are the record
  \<open>exec\<close>; what a piece of its control flow ends in is a value of \<open>outcome\<close> (the next byte, \<open>goto
  reexecute\<close>, \<open>goto error\<close>, a return, or \<open>Abort\<close> for a failed assertion or a read outside a buffer).
  The macros that may leave the function take the rest of the case as a continuation.
\<close>

section \<open>Local variables and outcomes\<close>

text \<open>The five data callbacks, by the name the macros give them in \<open>FOR\<close>.\<close>

datatype data_for = For_header_field | For_header_value | For_url | For_body | For_status

text \<open>
  The locals: \<open>p\<close> is an offset into \<open>data\<close>, \<open>x_mark x FOR\<close> the pointer \<open>FOR_mark\<close>. The parser
  structure, to which the C function holds a pointer, is threaded with them.
\<close>

record 'a exec =
  x_parser :: "'a http_parser"
  x_p :: nat
  x_ch :: char
  x_state :: state
  x_nread :: u32
  x_mark :: "data_for \<Rightarrow> nat option"

text \<open>What stays fixed during a call: the arguments, \<open>max_header_size\<close> and the local \<open>lenient\<close>.\<close>

record 'a hp_env =
  e_settings :: "'a http_parser_settings"
  e_max :: u32
  e_data :: bytes
  e_lenient :: bool

datatype 'a outcome =
  Break "'a exec" | Reexecute "'a exec" | Goto_error "'a exec" | Return nat "'a http_parser" | Abort

definition on_parser :: "('a http_parser \<Rightarrow> 'a http_parser) \<Rightarrow> 'a exec \<Rightarrow> 'a exec" where
  "on_parser f x = x\<lparr>x_parser := f (x_parser x)\<rparr>"

section \<open>Macros\<close>

definition SET_ERRNO :: "http_errno \<Rightarrow> 'a exec \<Rightarrow> 'a exec" where
  "SET_ERRNO e x = on_parser (set_errno e (x_nread x)) x"

definition UPDATE_STATE :: "state \<Rightarrow> 'a exec \<Rightarrow> 'a exec" where
  "UPDATE_STATE s x = x\<lparr>x_state := s\<rparr>"

definition RETURN :: "nat \<Rightarrow> 'a exec \<Rightarrow> 'a outcome" where
  "RETURN n x = Return n ((x_parser x)\<lparr>hp_nread := x_nread x, hp_state := x_state x\<rparr>)"

definition fail_with :: "http_errno \<Rightarrow> 'a exec \<Rightarrow> 'a outcome" where
  "fail_with e x = Goto_error (SET_ERRNO e x)"

definition ASSERT :: "bool \<Rightarrow> 'a outcome \<Rightarrow> 'a outcome" where
  "ASSERT c k = (if c then k else Abort)"

text \<open>The part common to both kinds of callbacks, from the result of the call on.\<close>

definition after_callback ::
  "http_errno \<Rightarrow> nat \<Rightarrow> int \<times> 'a http_parser \<Rightarrow> 'a exec \<Rightarrow> ('a exec \<Rightarrow> 'a outcome) \<Rightarrow> 'a outcome" where
  "after_callback e er res x k =
     (let ps = (if fst res \<noteq> 0 then set_errno e (x_nread x) (snd res) else snd res)
      in if hp_errno ps \<noteq> HPE_OK then Return er ps
         else k (x\<lparr>x_parser := ps, x_state := hp_state ps\<rparr>))"

definition CALLBACK_NOTIFY_gen ::
  "'a http_cb option \<Rightarrow> http_errno \<Rightarrow> nat \<Rightarrow> 'a exec \<Rightarrow> ('a exec \<Rightarrow> 'a outcome) \<Rightarrow> 'a outcome" where
  "CALLBACK_NOTIFY_gen cb e er x k =
     ASSERT (hp_errno (x_parser x) = HPE_OK)
       (case cb of
          None \<Rightarrow> k x
        | Some f \<Rightarrow> after_callback e er (f ((x_parser x)\<lparr>hp_state := x_state x\<rparr>)) x k)"

definition CALLBACK_NOTIFY ::
  "'a http_cb option \<Rightarrow> http_errno \<Rightarrow> 'a exec \<Rightarrow> ('a exec \<Rightarrow> 'a outcome) \<Rightarrow> 'a outcome" where
  "CALLBACK_NOTIFY cb e x k = CALLBACK_NOTIFY_gen cb e (x_p x + 1) x k"

definition CALLBACK_NOTIFY_NOADVANCE ::
  "'a http_cb option \<Rightarrow> http_errno \<Rightarrow> 'a exec \<Rightarrow> ('a exec \<Rightarrow> 'a outcome) \<Rightarrow> 'a outcome" where
  "CALLBACK_NOTIFY_NOADVANCE cb e x k = CALLBACK_NOTIFY_gen cb e (x_p x) x k"

definition data_cb_of :: "'a http_parser_settings \<Rightarrow> data_for \<Rightarrow> 'a http_data_cb option" where
  "data_cb_of cfg d = (case d of For_header_field \<Rightarrow> on_header_field cfg
     | For_header_value \<Rightarrow> on_header_value cfg | For_url \<Rightarrow> on_url cfg
     | For_body \<Rightarrow> on_body cfg | For_status \<Rightarrow> on_status cfg)"

definition data_errno :: "data_for \<Rightarrow> http_errno" where
  "data_errno d = (case d of For_header_field \<Rightarrow> HPE_CB_header_field
     | For_header_value \<Rightarrow> HPE_CB_header_value | For_url \<Rightarrow> HPE_CB_url
     | For_body \<Rightarrow> HPE_CB_body | For_status \<Rightarrow> HPE_CB_status)"

text \<open>
  \<open>CALLBACK_DATA_(FOR, LEN, ER)\<close>, where \<open>LEN\<close> is the distance from the mark to the offset \<open>stop\<close>;
  a mark behind \<open>stop\<close> or a range that leaves \<open>data\<close> aborts.
\<close>

definition CALLBACK_DATA_gen ::
  "'a hp_env \<Rightarrow> data_for \<Rightarrow> nat \<Rightarrow> nat \<Rightarrow> 'a exec \<Rightarrow> ('a exec \<Rightarrow> 'a outcome) \<Rightarrow> 'a outcome" where
  "CALLBACK_DATA_gen env FOR stop er x k =
     ASSERT (hp_errno (x_parser x) = HPE_OK)
       (case x_mark x FOR of
          None \<Rightarrow> k x
        | Some m \<Rightarrow>
            ASSERT (m \<le> stop \<and> stop \<le> length (e_data env))
              (let clear = (\<lambda>x. x\<lparr>x_mark := (x_mark x)(FOR := None)\<rparr>)
               in case data_cb_of (e_settings env) FOR of
                    None \<Rightarrow> k (clear x)
                  | Some f \<Rightarrow>
                      after_callback (data_errno FOR) er
                        (f ((x_parser x)\<lparr>hp_state := x_state x\<rparr>) (slice (e_data env) m (stop - m))) x
                        (\<lambda>x. k (clear x))))"

definition CALLBACK_DATA ::
  "'a hp_env \<Rightarrow> data_for \<Rightarrow> 'a exec \<Rightarrow> ('a exec \<Rightarrow> 'a outcome) \<Rightarrow> 'a outcome" where
  "CALLBACK_DATA env FOR x k = CALLBACK_DATA_gen env FOR (x_p x) (x_p x + 1) x k"

definition CALLBACK_DATA_NOADVANCE ::
  "'a hp_env \<Rightarrow> data_for \<Rightarrow> 'a exec \<Rightarrow> ('a exec \<Rightarrow> 'a outcome) \<Rightarrow> 'a outcome" where
  "CALLBACK_DATA_NOADVANCE env FOR x k = CALLBACK_DATA_gen env FOR (x_p x) (x_p x) x k"

definition MARK :: "data_for \<Rightarrow> 'a exec \<Rightarrow> 'a exec" where
  "MARK FOR x = (case x_mark x FOR of
       None \<Rightarrow> x\<lparr>x_mark := (x_mark x)(FOR := Some (x_p x))\<rparr>
     | Some m \<Rightarrow> x)"

definition COUNT_HEADER_SIZE :: "'a hp_env \<Rightarrow> nat \<Rightarrow> 'a exec \<Rightarrow> ('a exec \<Rightarrow> 'a outcome) \<Rightarrow> 'a outcome" where
  "COUNT_HEADER_SIZE env v x k =
     (let n = x_nread x + of_nat v; x' = x\<lparr>x_nread := n\<rparr>
      in if n > e_max env then fail_with HPE_HEADER_OVERFLOW x' else k x')"

definition STRICT_CHECK :: "bool \<Rightarrow> 'a exec \<Rightarrow> ('a exec \<Rightarrow> 'a outcome) \<Rightarrow> 'a outcome" where
  "STRICT_CHECK c x k = (if c then fail_with HPE_STRICT x else k x)"

definition expect_char :: "char \<Rightarrow> state \<Rightarrow> 'a exec \<Rightarrow> 'a outcome" where
  "expect_char c s x = STRICT_CHECK (x_ch x \<noteq> c) x (\<lambda>x. Break (UPDATE_STATE s x))"

section \<open>The start of a message and the status line\<close>

definition exec_dead :: "'a exec \<Rightarrow> 'a outcome" where
  "exec_dead x = (if x_ch x = CR \<or> x_ch x = LF then Break x else fail_with HPE_CLOSED_CONNECTION x)"

definition begin_message :: "'a exec \<Rightarrow> 'a exec" where
  "begin_message x = on_parser (\<lambda>ps. ps\<lparr>hp_flags := 0, hp_content_length := ULLONG_MAX\<rparr>) x"

definition exec_start_req_or_res :: "'a hp_env \<Rightarrow> 'a exec \<Rightarrow> 'a outcome" where
  "exec_start_req_or_res env x =
     (if x_ch x = CR \<or> x_ch x = LF then Break x
      else
        let x = begin_message x
        in if x_ch x = CHR ''H''
           then CALLBACK_NOTIFY (on_message_begin (e_settings env)) HPE_CB_message_begin
                  (UPDATE_STATE s_res_or_resp_H x) Break
           else Reexecute (UPDATE_STATE s_start_req (on_parser (\<lambda>ps. ps\<lparr>hp_type := HTTP_REQUEST\<rparr>) x)))"

definition exec_res_or_resp_H :: "'a exec \<Rightarrow> 'a outcome" where
  "exec_res_or_resp_H x =
     (if x_ch x = CHR ''T''
      then Break (UPDATE_STATE s_res_HT (on_parser (\<lambda>ps. ps\<lparr>hp_type := HTTP_RESPONSE\<rparr>) x))
      else if x_ch x \<noteq> CHR ''E'' then fail_with HPE_INVALID_CONSTANT x
      else Break (UPDATE_STATE s_req_method
        (on_parser (\<lambda>ps. ps\<lparr>hp_type := HTTP_REQUEST, hp_method := HTTP_HEAD, hp_index := 2\<rparr>) x)))"

definition exec_start_res :: "'a hp_env \<Rightarrow> 'a exec \<Rightarrow> 'a outcome" where
  "exec_start_res env x =
     (if x_ch x = CR \<or> x_ch x = LF then Break x
      else
        let x = begin_message x
        in if x_ch x = CHR ''H''
           then CALLBACK_NOTIFY (on_message_begin (e_settings env)) HPE_CB_message_begin
                  (UPDATE_STATE s_res_H x) Break
           else fail_with HPE_INVALID_CONSTANT x)"

definition exec_res_http_major :: "'a exec \<Rightarrow> 'a outcome" where
  "exec_res_http_major x =
     (if \<not> IS_NUMBER (x_ch x) then fail_with HPE_INVALID_VERSION x
      else Break (UPDATE_STATE s_res_http_dot
        (on_parser (\<lambda>ps. ps\<lparr>hp_http_major := of_nat (digit_val (x_ch x))\<rparr>) x)))"

definition exec_res_http_dot :: "'a exec \<Rightarrow> 'a outcome" where
  "exec_res_http_dot x =
     (if x_ch x \<noteq> CHR ''.'' then fail_with HPE_INVALID_VERSION x
      else Break (UPDATE_STATE s_res_http_minor x))"

definition exec_res_http_minor :: "'a exec \<Rightarrow> 'a outcome" where
  "exec_res_http_minor x =
     (if \<not> IS_NUMBER (x_ch x) then fail_with HPE_INVALID_VERSION x
      else Break (UPDATE_STATE s_res_http_end
        (on_parser (\<lambda>ps. ps\<lparr>hp_http_minor := of_nat (digit_val (x_ch x))\<rparr>) x)))"

definition exec_res_http_end :: "'a exec \<Rightarrow> 'a outcome" where
  "exec_res_http_end x =
     (if x_ch x \<noteq> CHR '' '' then fail_with HPE_INVALID_VERSION x
      else Break (UPDATE_STATE s_res_first_status_code x))"

definition exec_res_first_status_code :: "'a exec \<Rightarrow> 'a outcome" where
  "exec_res_first_status_code x =
     (if \<not> IS_NUMBER (x_ch x)
      then (if x_ch x = CHR '' '' then Break x else fail_with HPE_INVALID_STATUS x)
      else Break (UPDATE_STATE s_res_status_code
        (on_parser (\<lambda>ps. ps\<lparr>hp_status_code := of_nat (digit_val (x_ch x))\<rparr>) x)))"

definition exec_res_status_code :: "'a exec \<Rightarrow> 'a outcome" where
  "exec_res_status_code x =
     (if \<not> IS_NUMBER (x_ch x)
      then (if x_ch x = CHR '' '' then Break (UPDATE_STATE s_res_status_start x)
            else if x_ch x = CR \<or> x_ch x = LF then Reexecute (UPDATE_STATE s_res_status_start x)
            else fail_with HPE_INVALID_STATUS x)
      else
        let x = on_parser (\<lambda>ps. ps\<lparr>hp_status_code :=
                  hp_status_code ps * 10 + of_nat (digit_val (x_ch x))\<rparr>) x
        in if hp_status_code (x_parser x) > 999 then fail_with HPE_INVALID_STATUS x else Break x)"

definition exec_res_status_start :: "'a exec \<Rightarrow> 'a outcome" where
  "exec_res_status_start x =
     (let x = on_parser (\<lambda>ps. ps\<lparr>hp_index := 0\<rparr>) (UPDATE_STATE s_res_status (MARK For_status x))
      in if x_ch x = CR \<or> x_ch x = LF then Reexecute x else Break x)"

definition exec_res_status :: "'a hp_env \<Rightarrow> 'a exec \<Rightarrow> 'a outcome" where
  "exec_res_status env x =
     (if x_ch x = CR then CALLBACK_DATA env For_status (UPDATE_STATE s_res_line_almost_done x) Break
      else if x_ch x = LF then CALLBACK_DATA env For_status (UPDATE_STATE s_header_field_start x) Break
      else Break x)"

section \<open>The request line\<close>

text \<open>The method that a first letter selects, to be corrected by the letters that follow.\<close>

definition first_method :: "char \<Rightarrow> http_method option" where
  "first_method ch = map_of
     [(CHR ''A'', HTTP_ACL), (CHR ''B'', HTTP_BIND), (CHR ''C'', HTTP_CONNECT),
      (CHR ''D'', HTTP_DELETE), (CHR ''G'', HTTP_GET), (CHR ''H'', HTTP_HEAD),
      (CHR ''L'', HTTP_LOCK), (CHR ''M'', HTTP_MKCOL), (CHR ''N'', HTTP_NOTIFY),
      (CHR ''O'', HTTP_OPTIONS), (CHR ''P'', HTTP_POST), (CHR ''R'', HTTP_REPORT),
      (CHR ''S'', HTTP_SUBSCRIBE), (CHR ''T'', HTTP_TRACE), (CHR ''U'', HTTP_UNLOCK)] ch"

definition exec_start_req :: "'a hp_env \<Rightarrow> 'a exec \<Rightarrow> 'a outcome" where
  "exec_start_req env x =
     (if x_ch x = CR \<or> x_ch x = LF then Break x
      else
        let x = begin_message x
        in if \<not> IS_ALPHA (x_ch x) then fail_with HPE_INVALID_METHOD x
           else
             let x = on_parser (\<lambda>ps. ps\<lparr>hp_method := HTTP_DELETE, hp_index := 1\<rparr>) x
             in case first_method (x_ch x) of
                  None \<Rightarrow> fail_with HPE_INVALID_METHOD x
                | Some m \<Rightarrow>
                    CALLBACK_NOTIFY (on_message_begin (e_settings env)) HPE_CB_message_begin
                      (UPDATE_STATE s_req_method (on_parser (\<lambda>ps. ps\<lparr>hp_method := m\<rparr>) x)) Break)"

text \<open>The switch over method, index and letter.\<close>

definition method_switch :: "http_method \<Rightarrow> nat \<Rightarrow> char \<Rightarrow> http_method option" where
  "method_switch m i ch = map_of
     [((HTTP_POST, 1, CHR ''U''), HTTP_PUT), ((HTTP_POST, 1, CHR ''A''), HTTP_PATCH),
      ((HTTP_POST, 1, CHR ''R''), HTTP_PROPFIND), ((HTTP_PUT, 2, CHR ''R''), HTTP_PURGE),
      ((HTTP_CONNECT, 1, CHR ''H''), HTTP_CHECKOUT), ((HTTP_CONNECT, 2, CHR ''P''), HTTP_COPY),
      ((HTTP_MKCOL, 1, CHR ''O''), HTTP_MOVE), ((HTTP_MKCOL, 1, CHR ''E''), HTTP_MERGE),
      ((HTTP_MKCOL, 1, CHR ''-''), HTTP_MSEARCH), ((HTTP_MKCOL, 2, CHR ''A''), HTTP_MKACTIVITY),
      ((HTTP_MKCOL, 3, CHR ''A''), HTTP_MKCALENDAR), ((HTTP_SUBSCRIBE, 1, CHR ''E''), HTTP_SEARCH),
      ((HTTP_SUBSCRIBE, 1, CHR ''O''), HTTP_SOURCE), ((HTTP_REPORT, 2, CHR ''B''), HTTP_REBIND),
      ((HTTP_PROPFIND, 4, CHR ''P''), HTTP_PROPPATCH), ((HTTP_LOCK, 1, CHR ''I''), HTTP_LINK),
      ((HTTP_UNLOCK, 2, CHR ''S''), HTTP_UNSUBSCRIBE), ((HTTP_UNLOCK, 2, CHR ''B''), HTTP_UNBIND),
      ((HTTP_UNLOCK, 3, CHR ''I''), HTTP_UNLINK)] (m, i, ch)"

definition exec_req_method :: "'a exec \<Rightarrow> 'a outcome" where
  "exec_req_method x =
     (let ch = x_ch x; ps = x_parser x;
          inc = on_parser (\<lambda>ps. ps\<lparr>hp_index := hp_index ps + 1\<rparr>)
      in if ch = NUL then fail_with HPE_INVALID_METHOD x
         else case cstr_at (method_strings ! http_method_num (hp_method ps)) (unat (hp_index ps)) of
           None \<Rightarrow> Abort
         | Some m \<Rightarrow>
             if ch = CHR '' '' \<and> m = NUL then Break (inc (UPDATE_STATE s_req_spaces_before_url x))
             else if ch = m then Break (inc x)
             else if char_in CHR ''A'' CHR ''Z'' ch \<or> ch = CHR ''-'' then
               (case method_switch (hp_method ps) (unat (hp_index ps)) ch of
                  Some m' \<Rightarrow> Break (inc (on_parser (\<lambda>ps. ps\<lparr>hp_method := m'\<rparr>) x))
                | None \<Rightarrow> fail_with HPE_INVALID_METHOD x)
             else fail_with HPE_INVALID_METHOD x)"

definition url_char :: "'a exec \<Rightarrow> 'a outcome" where
  "url_char x =
     (let x = UPDATE_STATE (parse_url_char (x_state x) (x_ch x)) x
      in if x_state x = s_dead then fail_with HPE_INVALID_URL x else Break x)"

definition exec_req_spaces_before_url :: "'a exec \<Rightarrow> 'a outcome" where
  "exec_req_spaces_before_url x =
     (if x_ch x = CHR '' '' then Break x
      else
        let x = MARK For_url x;
            x = (if hp_method (x_parser x) = HTTP_CONNECT then UPDATE_STATE s_req_server_start x else x)
        in url_char x)"

definition exec_req_url_start :: "'a exec \<Rightarrow> 'a outcome" where
  "exec_req_url_start x =
     (if x_ch x = CHR '' '' \<or> x_ch x = CR \<or> x_ch x = LF then fail_with HPE_INVALID_URL x
      else url_char x)"

definition exec_req_url :: "'a hp_env \<Rightarrow> 'a exec \<Rightarrow> 'a outcome" where
  "exec_req_url env x =
     (if x_ch x = CHR '' '' then CALLBACK_DATA env For_url (UPDATE_STATE s_req_http_start x) Break
      else if x_ch x = CR \<or> x_ch x = LF then
        CALLBACK_DATA env For_url
          (UPDATE_STATE (if x_ch x = CR then s_req_line_almost_done else s_header_field_start)
            (on_parser (\<lambda>ps. ps\<lparr>hp_http_major := 0, hp_http_minor := 9\<rparr>) x)) Break
      else url_char x)"

definition exec_req_http_start :: "'a exec \<Rightarrow> 'a outcome" where
  "exec_req_http_start x =
     (if x_ch x = CHR '' '' then Break x
      else if x_ch x = CHR ''H'' then Break (UPDATE_STATE s_req_http_H x)
      else if x_ch x = CHR ''I'' \<and> hp_method (x_parser x) = HTTP_SOURCE
      then Break (UPDATE_STATE s_req_http_I x)
      else fail_with HPE_INVALID_CONSTANT x)"

definition exec_req_http_major :: "'a exec \<Rightarrow> 'a outcome" where
  "exec_req_http_major x =
     (if \<not> IS_NUMBER (x_ch x) then fail_with HPE_INVALID_VERSION x
      else Break (UPDATE_STATE s_req_http_dot
        (on_parser (\<lambda>ps. ps\<lparr>hp_http_major := of_nat (digit_val (x_ch x))\<rparr>) x)))"

definition exec_req_http_dot :: "'a exec \<Rightarrow> 'a outcome" where
  "exec_req_http_dot x =
     (if x_ch x \<noteq> CHR ''.'' then fail_with HPE_INVALID_VERSION x
      else Break (UPDATE_STATE s_req_http_minor x))"

definition exec_req_http_minor :: "'a exec \<Rightarrow> 'a outcome" where
  "exec_req_http_minor x =
     (if \<not> IS_NUMBER (x_ch x) then fail_with HPE_INVALID_VERSION x
      else Break (UPDATE_STATE s_req_http_end
        (on_parser (\<lambda>ps. ps\<lparr>hp_http_minor := of_nat (digit_val (x_ch x))\<rparr>) x)))"

definition exec_req_http_end :: "'a exec \<Rightarrow> 'a outcome" where
  "exec_req_http_end x =
     (if x_ch x = CR then Break (UPDATE_STATE s_req_line_almost_done x)
      else if x_ch x = LF then Break (UPDATE_STATE s_header_field_start x)
      else fail_with HPE_INVALID_VERSION x)"

definition exec_req_line_almost_done :: "'a exec \<Rightarrow> 'a outcome" where
  "exec_req_line_almost_done x =
     (if x_ch x \<noteq> LF then fail_with HPE_LF_EXPECTED x
      else Break (UPDATE_STATE s_header_field_start x))"

section \<open>Header lines\<close>

definition exec_header_field_start :: "'a exec \<Rightarrow> 'a outcome" where
  "exec_header_field_start x =
     (if x_ch x = CR then Break (UPDATE_STATE s_headers_almost_done x)
      else if x_ch x = LF then Reexecute (UPDATE_STATE s_headers_almost_done x)
      else
        let c = TOKEN (x_ch x)
        in if c = NUL then fail_with HPE_INVALID_HEADER_TOKEN x
           else Break (UPDATE_STATE s_header_field
             (on_parser (\<lambda>ps. ps\<lparr>hp_index := 0, hp_header_state :=
                (if c = CHR ''c'' then h_C
                 else if c = CHR ''p'' then h_matching_proxy_connection
                 else if c = CHR ''t'' then h_matching_transfer_encoding
                 else if c = CHR ''u'' then h_matching_upgrade
                 else h_general)\<rparr>) (MARK For_header_field x))))"

text \<open>
  The comparison with the next byte of a name at the incremented index: too long or different,
  the last byte of the name, or one before. \<open>sizeof(NAME) - 1\<close> is the length of the name.
\<close>

datatype match_result = Mismatch | Matched | Matching

definition match_byte :: "string \<Rightarrow> 7 word \<Rightarrow> char \<Rightarrow> match_result" where
  "match_byte name i c =
     (if unat i > length name \<or> cstr_at name (unat i) \<noteq> Some c then Mismatch
      else if unat i = length name - 1 then Matched
      else Matching)"

definition match_field :: "string \<Rightarrow> header_states \<Rightarrow> char \<Rightarrow> 'a http_parser \<Rightarrow> 'a http_parser" where
  "match_field name found c ps =
     (let ps = ps\<lparr>hp_index := hp_index ps + 1\<rparr>
      in case match_byte name (hp_index ps) c of
           Mismatch \<Rightarrow> ps\<lparr>hp_header_state := h_general\<rparr>
         | Matched \<Rightarrow> ps\<lparr>hp_header_state := found\<rparr>
         | Matching \<Rightarrow> ps)"

text \<open>\<open>while (p + 1 < pe && TOKEN(p[1])) p++\<close>\<close>

function skip_tokens :: "bytes \<Rightarrow> nat \<Rightarrow> nat \<Rightarrow> nat" where
  "skip_tokens data pe p =
     (if p + 1 < pe \<and> TOKEN (data ! (p + 1)) \<noteq> NUL then skip_tokens data pe (p + 1) else p)"
  by pat_completeness auto
termination by (relation "measure (\<lambda>(data, pe, p). pe - p)") auto

declare skip_tokens.simps [simp del]

lemma skip_tokens_ge: "p \<le> skip_tokens data pe p"
  by (induction data pe p rule: skip_tokens.induct) (subst skip_tokens.simps, auto)

lemma skip_tokens_less: "p < n \<Longrightarrow> pe \<le> n \<Longrightarrow> skip_tokens data pe p < n"
  by (induction data pe p rule: skip_tokens.induct) (subst skip_tokens.simps, auto)

text \<open>The switch over the header state within a header name; \<open>None\<close> is the failed assertion.\<close>

definition header_field_char ::
  "'a hp_env \<Rightarrow> nat \<Rightarrow> char \<Rightarrow> char \<Rightarrow> 'a http_parser \<Rightarrow> (nat \<times> 'a http_parser) option" where
  "header_field_char env p ch c ps =
     (let inc = ps\<lparr>hp_index := hp_index ps + 1\<rparr>
      in case hp_header_state ps of
           h_general \<Rightarrow>
             Some (skip_tokens (e_data env) (p + min (length (e_data env) - p) (unat (e_max env))) p, ps)
         | h_C \<Rightarrow> Some (p, inc\<lparr>hp_header_state := (if c = CHR ''o'' then h_CO else h_general)\<rparr>)
         | h_CO \<Rightarrow> Some (p, inc\<lparr>hp_header_state := (if c = CHR ''n'' then h_CON else h_general)\<rparr>)
         | h_CON \<Rightarrow> Some (p, inc\<lparr>hp_header_state :=
             (if c = CHR ''n'' then h_matching_connection
              else if c = CHR ''t'' then h_matching_content_length else h_general)\<rparr>)
         | h_matching_connection \<Rightarrow> Some (p, match_field CONNECTION h_connection c ps)
         | h_matching_proxy_connection \<Rightarrow> Some (p, match_field PROXY_CONNECTION h_connection c ps)
         | h_matching_content_length \<Rightarrow> Some (p, match_field CONTENT_LENGTH h_content_length c ps)
         | h_matching_transfer_encoding \<Rightarrow> Some (p, match_field TRANSFER_ENCODING h_transfer_encoding c ps)
         | h_matching_upgrade \<Rightarrow> Some (p, match_field UPGRADE h_upgrade c ps)
         | _ \<Rightarrow>
             if hp_header_state ps \<in> {h_connection, h_content_length, h_transfer_encoding, h_upgrade}
             then Some (p, if ch \<noteq> CHR '' '' then ps\<lparr>hp_header_state := h_general\<rparr> else ps)
             else None)"

lemma header_field_char_ge:
  "header_field_char env p ch c ps = Some (p', ps') \<Longrightarrow> p \<le> p'"
  by (auto simp: header_field_char_def Let_def skip_tokens_ge split: header_states.splits if_splits)

text \<open>The loop over the bytes of a header name, up to the first byte that is no token.\<close>

function header_field_loop ::
  "'a hp_env \<Rightarrow> nat \<Rightarrow> 'a http_parser \<Rightarrow> (nat \<times> 'a http_parser) option" where
  "header_field_loop env p ps =
     (if length (e_data env) \<le> p then Some (p, ps)
      else
        let ch = e_data env ! p; c = TOKEN ch
        in if c = NUL then Some (p, ps)
           else case header_field_char env p ch c ps of
             None \<Rightarrow> None
           | Some (p', ps') \<Rightarrow> header_field_loop env (p' + 1) ps')"
  by pat_completeness auto
termination
  by (relation "measure (\<lambda>(env, p, ps). length (e_data env) - p)") (auto dest!: header_field_char_ge)

declare header_field_loop.simps [simp del]

definition exec_header_field :: "'a hp_env \<Rightarrow> 'a exec \<Rightarrow> 'a outcome" where
  "exec_header_field env x =
     (case header_field_loop env (x_p x) (x_parser x) of
        None \<Rightarrow> Abort
      | Some (p, ps) \<Rightarrow>
          if p = length (e_data env)
          then COUNT_HEADER_SIZE env (p - 1 - x_p x) (x\<lparr>x_p := p - 1, x_parser := ps\<rparr>) Break
          else COUNT_HEADER_SIZE env (p - x_p x) (x\<lparr>x_p := p, x_ch := e_data env ! p, x_parser := ps\<rparr>)
            (\<lambda>x. if x_ch x = CHR '':''
                 then CALLBACK_DATA env For_header_field (UPDATE_STATE s_header_value_discard_ws x) Break
                 else fail_with HPE_INVALID_HEADER_TOKEN x))"

definition header_value_start_state :: "char \<Rightarrow> header_states \<Rightarrow> header_states" where
  "header_value_start_state c hs =
     (case hs of
        h_transfer_encoding \<Rightarrow>
          if c = CHR ''c'' then h_matching_transfer_encoding_chunked else h_general
      | h_content_length \<Rightarrow> h_content_length_num
      | h_content_length_ws \<Rightarrow> h_content_length_ws
      | h_connection \<Rightarrow>
          if c = CHR ''k'' then h_matching_connection_keep_alive
          else if c = CHR ''c'' then h_matching_connection_close
          else if c = CHR ''u'' then h_matching_connection_upgrade
          else h_matching_connection_token
      | h_matching_connection_token_start \<Rightarrow> h_matching_connection_token_start
      | _ \<Rightarrow> h_general)"

definition exec_header_value_start :: "'a exec \<Rightarrow> 'a outcome" where
  "exec_header_value_start x =
     (let x = on_parser (\<lambda>ps. ps\<lparr>hp_index := 0\<rparr>) (UPDATE_STATE s_header_value (MARK For_header_value x));
          c = LOWER (x_ch x);
          hs = hp_header_state (x_parser x);
          next_x = on_parser (\<lambda>ps. ps\<lparr>hp_header_state := header_value_start_state c hs\<rparr>) x
      in if hs = h_upgrade
         then Break (on_parser (\<lambda>ps. ps\<lparr>hp_flags := hp_flags ps OR F_UPGRADE\<rparr>) next_x)
         else if hs = h_content_length then
           (if \<not> IS_NUMBER (x_ch x) then fail_with HPE_INVALID_CONTENT_LENGTH x
            else if has_flag (hp_flags (x_parser x)) F_CONTENTLENGTH
            then fail_with HPE_UNEXPECTED_CONTENT_LENGTH x
            else Break (on_parser (\<lambda>ps. ps\<lparr>hp_flags := hp_flags ps OR F_CONTENTLENGTH,
              hp_content_length := of_nat (digit_val (x_ch x))\<rparr>) next_x))
         else Break next_x)"

definition exec_header_value_discard_ws :: "'a exec \<Rightarrow> 'a outcome" where
  "exec_header_value_discard_ws x =
     (if x_ch x = CHR '' '' \<or> x_ch x = HTAB then Break x
      else if x_ch x = CR then Break (UPDATE_STATE s_header_value_discard_ws_almost_done x)
      else if x_ch x = LF then Break (UPDATE_STATE s_header_value_discard_lws x)
      else exec_header_value_start x)"

text \<open>
  The loop of the header state \<open>h_general\<close> within a value, up to \<open>pe\<close>: \<open>Inl p\<close> is an invalid byte at \<open>p\<close>.
\<close>

definition bad_header_char :: "'a hp_env \<Rightarrow> char \<Rightarrow> bool" where
  "bad_header_char env ch \<longleftrightarrow> \<not> e_lenient env \<and> \<not> IS_HEADER_CHAR ch"

function general_value_loop :: "'a hp_env \<Rightarrow> nat \<Rightarrow> nat \<Rightarrow> nat + nat" where
  "general_value_loop env pe p =
     (if pe \<le> p then Inr p
      else
        let ch = e_data env ! p
        in if ch = CR \<or> ch = LF then Inr (p - 1)
           else if bad_header_char env ch then Inl p
           else general_value_loop env pe (p + 1))"
  by pat_completeness auto
termination by (relation "measure (\<lambda>(env, pe, p). pe - p)") auto

declare general_value_loop.simps [simp del]

lemma general_value_loop_ge:
  "general_value_loop env pe p = Inr q \<Longrightarrow> p \<le> Suc q"
  "general_value_loop env pe p = Inl q \<Longrightarrow> p \<le> q"
proof (induction env pe p rule: general_value_loop.induct)
  case (1 env pe p)
  {
    case 1
    then show ?case
      using "1.IH"(1) by (subst (asm) general_value_loop.simps) (auto simp: Let_def split: if_splits)
  next
    case 2
    then show ?case
      using "1.IH"(2) by (subst (asm) general_value_loop.simps) (auto simp: Let_def split: if_splits)
  }
qed

lemma general_value_loop_le:
  "general_value_loop env pe p = Inr q \<Longrightarrow> p \<le> pe \<Longrightarrow> q \<le> pe"
  "general_value_loop env pe p = Inl q \<Longrightarrow> q < pe"
proof (induction env pe p rule: general_value_loop.induct)
  case (1 env pe p)
  {
    case 1
    then show ?case
      using "1.IH"(1) by (subst (asm) general_value_loop.simps) (auto simp: Let_def split: if_splits)
  next
    case 2
    then show ?case
      using "1.IH"(2) by (subst (asm) general_value_loop.simps) (auto simp: Let_def split: if_splits)
  }
qed

text \<open>
  The switch over the header state within a value. \<open>HV_next p ps h_state\<close> goes on to the byte
  after \<open>p\<close>; \<open>HV_error\<close> carries the parser as it is at \<open>goto error\<close>, before \<open>SET_ERRNO\<close>.
\<close>

datatype 'a hv_result =
  HV_next nat "'a http_parser" header_states | HV_error http_errno nat "'a http_parser" | HV_abort

definition hv_match ::
  "string \<Rightarrow> header_states \<Rightarrow> header_states \<Rightarrow> nat \<Rightarrow> char \<Rightarrow> 'a http_parser \<Rightarrow> header_states \<Rightarrow> 'a hv_result" where
  "hv_match name found other p c ps h_state =
     (let ps = ps\<lparr>hp_index := hp_index ps + 1\<rparr>
      in HV_next p ps (case match_byte name (hp_index ps) c of
           Mismatch \<Rightarrow> other | Matched \<Rightarrow> found | Matching \<Rightarrow> h_state))"

definition hv_general :: "'a hp_env \<Rightarrow> nat \<Rightarrow> 'a http_parser \<Rightarrow> 'a hv_result" where
  "hv_general env p ps =
     (case general_value_loop env (p + min (length (e_data env) - p) (unat (e_max env))) p of
        Inl q \<Rightarrow> HV_error HPE_INVALID_HEADER_TOKEN q ps
      | Inr q \<Rightarrow> HV_next (if q = length (e_data env) then q - 1 else q) ps h_general)"

definition hv_content_length_num :: "nat \<Rightarrow> char \<Rightarrow> 'a http_parser \<Rightarrow> 'a hv_result" where
  "hv_content_length_num p ch ps =
     (let bad = HV_error HPE_INVALID_CONTENT_LENGTH p (ps\<lparr>hp_header_state := h_content_length_num\<rparr>)
      in if ch = CHR '' '' then HV_next p ps h_content_length_ws
         else if \<not> IS_NUMBER ch then bad
         else
           let t = hp_content_length ps * 10 + of_nat (digit_val ch)
           in if (ULLONG_MAX - 10) div 10 < hp_content_length ps then bad
              else HV_next p (ps\<lparr>hp_content_length := t\<rparr>) h_content_length_num)"

definition hv_token_start :: "nat \<Rightarrow> char \<Rightarrow> 'a http_parser \<Rightarrow> 'a hv_result" where
  "hv_token_start p c ps =
     HV_next p ps
       (if c = CHR ''k'' then h_matching_connection_keep_alive
        else if c = CHR ''c'' then h_matching_connection_close
        else if c = CHR ''u'' then h_matching_connection_upgrade
        else if STRICT_TOKEN c \<noteq> NUL then h_matching_connection_token
        else if c = CHR '' '' \<or> c = HTAB then h_matching_connection_token_start
        else h_general)"

definition hv_connection_done :: "u8 \<Rightarrow> nat \<Rightarrow> char \<Rightarrow> 'a http_parser \<Rightarrow> header_states \<Rightarrow> 'a hv_result" where
  "hv_connection_done flag p ch ps h_state =
     (if ch = CHR '',''
      then HV_next p (ps\<lparr>hp_flags := hp_flags ps OR flag, hp_index := 0\<rparr>) h_matching_connection_token_start
      else if ch \<noteq> CHR '' '' then HV_next p ps h_matching_connection_token
      else HV_next p ps h_state)"

definition header_value_char ::
  "'a hp_env \<Rightarrow> nat \<Rightarrow> char \<Rightarrow> char \<Rightarrow> 'a http_parser \<Rightarrow> header_states \<Rightarrow> 'a hv_result" where
  "header_value_char env p ch c ps h_state =
     (case h_state of
        h_general \<Rightarrow> hv_general env p ps
      | h_connection \<Rightarrow> HV_abort
      | h_transfer_encoding \<Rightarrow> HV_abort
      | h_content_length \<Rightarrow>
          if ch = CHR '' '' then HV_next p ps h_content_length else hv_content_length_num p ch ps
      | h_content_length_num \<Rightarrow> hv_content_length_num p ch ps
      | h_content_length_ws \<Rightarrow>
          if ch = CHR '' '' then HV_next p ps h_content_length_ws
          else HV_error HPE_INVALID_CONTENT_LENGTH p (ps\<lparr>hp_header_state := h_content_length_ws\<rparr>)
      | h_matching_transfer_encoding_chunked \<Rightarrow>
          hv_match CHUNKED h_transfer_encoding_chunked h_general p c ps h_state
      | h_matching_connection_token_start \<Rightarrow> hv_token_start p c ps
      | h_matching_connection_keep_alive \<Rightarrow>
          hv_match KEEP_ALIVE h_connection_keep_alive h_matching_connection_token p c ps h_state
      | h_matching_connection_close \<Rightarrow>
          hv_match CLOSE h_connection_close h_matching_connection_token p c ps h_state
      | h_matching_connection_upgrade \<Rightarrow>
          hv_match UPGRADE h_connection_upgrade h_matching_connection_token p c ps h_state
      | h_matching_connection_token \<Rightarrow>
          if ch = CHR '','' then HV_next p (ps\<lparr>hp_index := 0\<rparr>) h_matching_connection_token_start
          else HV_next p ps h_state
      | h_transfer_encoding_chunked \<Rightarrow>
          HV_next p ps (if ch \<noteq> CHR '' '' then h_general else h_state)
      | h_connection_keep_alive \<Rightarrow> hv_connection_done F_CONNECTION_KEEP_ALIVE p ch ps h_state
      | h_connection_close \<Rightarrow> hv_connection_done F_CONNECTION_CLOSE p ch ps h_state
      | h_connection_upgrade \<Rightarrow> hv_connection_done F_CONNECTION_UPGRADE p ch ps h_state
      | _ \<Rightarrow> HV_next p ps h_general)"

lemma hv_general_ge:
  assumes "hv_general env p ps = HV_next p' ps' hs'" and "p < length (e_data env)"
    and "e_data env ! p \<noteq> CR" and "e_data env ! p \<noteq> LF"
  shows "p \<le> p' \<and> p' < length (e_data env)"
proof -
  let ?pe = "p + min (length (e_data env) - p) (unat (e_max env))"
  from assms(1) obtain q where q: "general_value_loop env ?pe p = Inr q"
    and p': "p' = (if q = length (e_data env) then q - 1 else q)"
    by (auto simp: hv_general_def split: sum.splits)
  have "p \<le> q"
  proof (cases "?pe \<le> p")
    case True
    with q show ?thesis by (subst (asm) general_value_loop.simps) simp
  next
    case False
    with q assms(3,4) have "general_value_loop env ?pe (p + 1) = Inr q"
      by (subst (asm) general_value_loop.simps) (auto simp: Let_def split: if_splits)
    from general_value_loop_ge(1) [OF this] show ?thesis by simp
  qed
  moreover from general_value_loop_le(1) [OF q] have "q \<le> length (e_data env)"
    using assms(2) by linarith
  ultimately show ?thesis using p' assms(2) by auto
qed

lemma header_value_char_ge:
  assumes "header_value_char env p ch c ps hs = HV_next p' ps' hs'" and "p < length (e_data env)"
    and "ch = e_data env ! p" and "ch \<noteq> CR" and "ch \<noteq> LF"
  shows "p \<le> p' \<and> p' < length (e_data env)"
  using assms hv_general_ge [of env p ps p' ps' hs']
  by (auto simp: header_value_char_def hv_match_def hv_content_length_num_def hv_token_start_def
      hv_connection_done_def Let_def split: header_states.splits if_splits)

text \<open>The loop over the bytes of a value, and the ways it ends.\<close>

datatype 'a hv_exit =
  HVX_end nat "'a http_parser" header_states
| HVX_CR nat "'a http_parser" header_states
| HVX_LF nat "'a http_parser" header_states
| HVX_error http_errno nat "'a http_parser"
| HVX_abort

function header_value_loop :: "'a hp_env \<Rightarrow> nat \<Rightarrow> 'a http_parser \<Rightarrow> header_states \<Rightarrow> 'a hv_exit" where
  "header_value_loop env p ps h_state =
     (if length (e_data env) \<le> p then HVX_end p ps h_state
      else
        let ch = e_data env ! p
        in if ch = CR then HVX_CR p ps h_state
           else if ch = LF then HVX_LF p ps h_state
           else if bad_header_char env ch then HVX_error HPE_INVALID_HEADER_TOKEN p ps
           else case header_value_char env p ch (LOWER ch) ps h_state of
             HV_next p' ps' h_state' \<Rightarrow> header_value_loop env (p' + 1) ps' h_state'
           | HV_error e p' ps' \<Rightarrow> HVX_error e p' ps'
           | HV_abort \<Rightarrow> HVX_abort)"
  by pat_completeness auto
termination
  by (relation "measure (\<lambda>(env, p, ps, hs). length (e_data env) - p)") (auto dest!: header_value_char_ge)

declare header_value_loop.simps [simp del]

definition exec_header_value :: "'a hp_env \<Rightarrow> 'a exec \<Rightarrow> 'a outcome" where
  "exec_header_value env x =
     (let start = x_p x;
          set_hs = (\<lambda>hs. on_parser (\<lambda>ps. ps\<lparr>hp_header_state := hs\<rparr>))
      in case header_value_loop env start (x_parser x) (hp_header_state (x_parser x)) of
           HVX_end p ps hs \<Rightarrow>
             COUNT_HEADER_SIZE env (p - 1 - start) (set_hs hs (x\<lparr>x_p := p - 1, x_parser := ps\<rparr>)) Break
         | HVX_CR p ps hs \<Rightarrow>
             CALLBACK_DATA env For_header_value
               (set_hs hs (UPDATE_STATE s_header_almost_done (x\<lparr>x_p := p, x_ch := CR, x_parser := ps\<rparr>)))
               (\<lambda>x. COUNT_HEADER_SIZE env (x_p x - start) (set_hs hs x) Break)
         | HVX_LF p ps hs \<Rightarrow>
             COUNT_HEADER_SIZE env (p - start)
               (UPDATE_STATE s_header_almost_done (x\<lparr>x_p := p, x_ch := LF, x_parser := ps\<rparr>))
               (\<lambda>x. CALLBACK_DATA_NOADVANCE env For_header_value (set_hs hs x) Reexecute)
         | HVX_error e p ps \<Rightarrow> fail_with e (x\<lparr>x_p := p, x_parser := ps\<rparr>)
         | HVX_abort \<Rightarrow> Abort)"

definition exec_header_almost_done :: "'a exec \<Rightarrow> 'a outcome" where
  "exec_header_almost_done x =
     (if x_ch x \<noteq> LF then fail_with HPE_LF_EXPECTED x else Break (UPDATE_STATE s_header_value_lws x))"

text \<open>The flag that a completed header sets.\<close>

definition header_flag :: "header_states \<Rightarrow> u8" where
  "header_flag hs =
     (case hs of
        h_connection_keep_alive \<Rightarrow> F_CONNECTION_KEEP_ALIVE
      | h_connection_close \<Rightarrow> F_CONNECTION_CLOSE
      | h_transfer_encoding_chunked \<Rightarrow> F_CHUNKED
      | h_connection_upgrade \<Rightarrow> F_CONNECTION_UPGRADE
      | _ \<Rightarrow> 0)"

definition finish_header :: "'a exec \<Rightarrow> 'a exec" where
  "finish_header x =
     on_parser (\<lambda>ps. ps\<lparr>hp_flags := hp_flags ps OR header_flag (hp_header_state ps)\<rparr>) x"

definition exec_header_value_lws :: "'a exec \<Rightarrow> 'a outcome" where
  "exec_header_value_lws x =
     (if x_ch x = CHR '' '' \<or> x_ch x = HTAB
      then Reexecute (UPDATE_STATE s_header_value_start
        (on_parser (\<lambda>ps. if hp_header_state ps = h_content_length_num
           then ps\<lparr>hp_header_state := h_content_length_ws\<rparr> else ps) x))
      else Reexecute (UPDATE_STATE s_header_field_start (finish_header x)))"

definition exec_header_value_discard_lws :: "'a hp_env \<Rightarrow> 'a exec \<Rightarrow> 'a outcome" where
  "exec_header_value_discard_lws env x =
     (if x_ch x = CHR '' '' \<or> x_ch x = HTAB then Break (UPDATE_STATE s_header_value_discard_ws x)
      else if hp_header_state (x_parser x) = h_content_length then fail_with HPE_INVALID_CONTENT_LENGTH x
      else CALLBACK_DATA_NOADVANCE env For_header_value
        (UPDATE_STATE s_header_field_start (MARK For_header_value (finish_header x))) Reexecute)"

section \<open>The end of the headers\<close>

definition headers_upgrade :: "'a http_parser \<Rightarrow> bool" where
  "headers_upgrade ps =
     (if has_flag (hp_flags ps) F_UPGRADE \<and> has_flag (hp_flags ps) F_CONNECTION_UPGRADE
      then hp_type ps = HTTP_REQUEST \<or> hp_status_code ps = 101
      else hp_method ps = HTTP_CONNECT)"

text \<open>The call of \<open>on_headers_complete\<close> and what its result means.\<close>

definition headers_complete :: "'a hp_env \<Rightarrow> 'a exec \<Rightarrow> 'a outcome" where
  "headers_complete env x =
     (let finish = (\<lambda>x. if hp_errno (x_parser x) \<noteq> HPE_OK then RETURN (x_p x) x else Reexecute x);
          skip = on_parser (\<lambda>ps. ps\<lparr>hp_flags := hp_flags ps OR F_SKIPBODY\<rparr>)
      in case on_headers_complete (e_settings env) of
           None \<Rightarrow> finish x
         | Some f \<Rightarrow>
             let res = f (x_parser x); x = x\<lparr>x_parser := snd res\<rparr>
             in if fst res = 0 then finish x
                else if fst res = 2 then finish (skip (on_parser (\<lambda>ps. ps\<lparr>hp_upgrade := True\<rparr>) x))
                else if fst res = 1 then finish (skip x)
                else RETURN (x_p x) (SET_ERRNO HPE_CB_headers_complete x))"

definition exec_headers_almost_done :: "'a hp_env \<Rightarrow> 'a exec \<Rightarrow> 'a outcome" where
  "exec_headers_almost_done env x =
     STRICT_CHECK (x_ch x \<noteq> LF) x (\<lambda>x.
       if has_flag (hp_flags (x_parser x)) F_TRAILING
       then CALLBACK_NOTIFY_NOADVANCE (on_chunk_complete (e_settings env)) HPE_CB_chunk_complete
              (UPDATE_STATE s_message_done x) Reexecute
       else if has_flag (hp_flags (x_parser x)) F_CHUNKED \<and> has_flag (hp_flags (x_parser x)) F_CONTENTLENGTH
       then fail_with HPE_UNEXPECTED_CONTENT_LENGTH x
       else headers_complete env
         (on_parser (\<lambda>ps. ps\<lparr>hp_upgrade := headers_upgrade ps\<rparr>) (UPDATE_STATE s_headers_done x)))"

definition message_complete :: "'a hp_env \<Rightarrow> 'a exec \<Rightarrow> ('a exec \<Rightarrow> 'a outcome) \<Rightarrow> 'a outcome" where
  "message_complete env x k =
     CALLBACK_NOTIFY (on_message_complete (e_settings env)) HPE_CB_message_complete
       (UPDATE_STATE (NEW_MESSAGE (x_parser x)) x) k"

definition reset_nread :: "'a exec \<Rightarrow> 'a exec" where
  "reset_nread x = on_parser (\<lambda>ps. ps\<lparr>hp_nread := 0\<rparr>) (x\<lparr>x_nread := 0\<rparr>)"

definition exec_headers_done :: "'a hp_env \<Rightarrow> 'a exec \<Rightarrow> 'a outcome" where
  "exec_headers_done env x =
     STRICT_CHECK (x_ch x \<noteq> LF) x (\<lambda>x.
       let x = reset_nread x; ps = x_parser x;
           chunked = has_flag (hp_flags ps) F_CHUNKED;
           skipbody = has_flag (hp_flags ps) F_SKIPBODY;
           cl = hp_content_length ps;
           hasBody = (chunked \<or> (cl > 0 \<and> cl \<noteq> ULLONG_MAX))
       in if hp_upgrade ps \<and> (hp_method ps = HTTP_CONNECT \<or> skipbody \<or> \<not> hasBody)
          then message_complete env x (\<lambda>x. RETURN (x_p x + 1) x)
          else if skipbody then message_complete env x Break
          else if chunked then Break (UPDATE_STATE s_chunk_size_start x)
          else if cl = 0 then message_complete env x Break
          else if cl \<noteq> ULLONG_MAX then Break (UPDATE_STATE s_body_identity x)
          else if \<not> http_message_needs_eof ps then message_complete env x Break
          else Break (UPDATE_STATE s_body_identity_eof x))"

section \<open>Bodies\<close>

text \<open>Mark the body, take \<open>to_read\<close> bytes off \<open>content_length\<close> and move to the last of them.\<close>

definition take_body :: "'a hp_env \<Rightarrow> 'a exec \<Rightarrow> 'a exec" where
  "take_body env x =
     (let to_read = min (unat (hp_content_length (x_parser x))) (length (e_data env) - x_p x);
          x = MARK For_body x
      in on_parser (\<lambda>ps. ps\<lparr>hp_content_length := hp_content_length ps - of_nat to_read\<rparr>)
           (x\<lparr>x_p := x_p x + to_read - 1\<rparr>))"

definition body_length_ok :: "'a exec \<Rightarrow> bool" where
  "body_length_ok x \<longleftrightarrow>
     hp_content_length (x_parser x) \<noteq> 0 \<and> hp_content_length (x_parser x) \<noteq> ULLONG_MAX"

definition exec_body_identity :: "'a hp_env \<Rightarrow> 'a exec \<Rightarrow> 'a outcome" where
  "exec_body_identity env x =
     ASSERT (body_length_ok x)
       (let x = take_body env x
        in if hp_content_length (x_parser x) = 0
           then CALLBACK_DATA_gen env For_body (x_p x + 1) (x_p x) (UPDATE_STATE s_message_done x) Reexecute
           else Break x)"

definition exec_body_identity_eof :: "'a hp_env \<Rightarrow> 'a exec \<Rightarrow> 'a outcome" where
  "exec_body_identity_eof env x = Break ((MARK For_body x)\<lparr>x_p := length (e_data env) - 1\<rparr>)"

definition exec_message_done :: "'a hp_env \<Rightarrow> 'a exec \<Rightarrow> 'a outcome" where
  "exec_message_done env x =
     message_complete env x (\<lambda>x. if hp_upgrade (x_parser x) then RETURN (x_p x + 1) x else Break x)"

definition is_chunked :: "'a exec \<Rightarrow> bool" where
  "is_chunked x \<longleftrightarrow> has_flag (hp_flags (x_parser x)) F_CHUNKED"

definition exec_chunk_size_start :: "'a exec \<Rightarrow> 'a outcome" where
  "exec_chunk_size_start x =
     ASSERT (x_nread x = 1) (ASSERT (is_chunked x)
       (let unhex_val = unhex ! of_char (x_ch x)
        in if unhex_val = -1 then fail_with HPE_INVALID_CHUNK_SIZE x
           else Break (UPDATE_STATE s_chunk_size
             (on_parser (\<lambda>ps. ps\<lparr>hp_content_length := of_int unhex_val\<rparr>) x))))"

definition exec_chunk_size :: "'a exec \<Rightarrow> 'a outcome" where
  "exec_chunk_size x =
     ASSERT (is_chunked x)
       (if x_ch x = CR then Break (UPDATE_STATE s_chunk_size_almost_done x)
        else
          let unhex_val = unhex ! of_char (x_ch x)
          in if unhex_val = -1 then
               (if x_ch x = CHR '';'' \<or> x_ch x = CHR '' '' then Break (UPDATE_STATE s_chunk_parameters x)
                else fail_with HPE_INVALID_CHUNK_SIZE x)
             else
               let t = hp_content_length (x_parser x) * 16 + of_int unhex_val
               in if (ULLONG_MAX - 16) div 16 < hp_content_length (x_parser x)
                  then fail_with HPE_INVALID_CONTENT_LENGTH x
                  else Break (on_parser (\<lambda>ps. ps\<lparr>hp_content_length := t\<rparr>) x))"

definition exec_chunk_parameters :: "'a exec \<Rightarrow> 'a outcome" where
  "exec_chunk_parameters x =
     ASSERT (is_chunked x)
       (if x_ch x = CR then Break (UPDATE_STATE s_chunk_size_almost_done x) else Break x)"

definition exec_chunk_size_almost_done :: "'a hp_env \<Rightarrow> 'a exec \<Rightarrow> 'a outcome" where
  "exec_chunk_size_almost_done env x =
     ASSERT (is_chunked x)
       (STRICT_CHECK (x_ch x \<noteq> LF) x (\<lambda>x.
          let x = reset_nread x
          in CALLBACK_NOTIFY (on_chunk_header (e_settings env)) HPE_CB_chunk_header
               (if hp_content_length (x_parser x) = 0
                then UPDATE_STATE s_header_field_start
                  (on_parser (\<lambda>ps. ps\<lparr>hp_flags := hp_flags ps OR F_TRAILING\<rparr>) x)
                else UPDATE_STATE s_chunk_data x) Break))"

definition exec_chunk_data :: "'a hp_env \<Rightarrow> 'a exec \<Rightarrow> 'a outcome" where
  "exec_chunk_data env x =
     ASSERT (is_chunked x) (ASSERT (body_length_ok x)
       (let x = take_body env x
        in Break (if hp_content_length (x_parser x) = 0 then UPDATE_STATE s_chunk_data_almost_done x else x)))"

definition exec_chunk_data_almost_done :: "'a hp_env \<Rightarrow> 'a exec \<Rightarrow> 'a outcome" where
  "exec_chunk_data_almost_done env x =
     ASSERT (is_chunked x) (ASSERT (hp_content_length (x_parser x) = 0)
       (STRICT_CHECK (x_ch x \<noteq> CR) x (\<lambda>x.
          CALLBACK_DATA env For_body (UPDATE_STATE s_chunk_data_done x) Break)))"

definition exec_chunk_data_done :: "'a hp_env \<Rightarrow> 'a exec \<Rightarrow> 'a outcome" where
  "exec_chunk_data_done env x =
     ASSERT (is_chunked x)
       (STRICT_CHECK (x_ch x \<noteq> LF) x (\<lambda>x.
          CALLBACK_NOTIFY (on_chunk_complete (e_settings env)) HPE_CB_chunk_complete
            (UPDATE_STATE s_chunk_size_start (reset_nread x)) Break))"

section \<open>The switch and the byte loop\<close>

text \<open>
  The dispatch on \<open>CURRENT_STATE()\<close>. Every enumerator has a case in the source, so that its
  \<open>default\<close> (an assertion) has no counterpart here.
\<close>

definition exec_switch :: "'a hp_env \<Rightarrow> 'a exec \<Rightarrow> 'a outcome" where
  "exec_switch env x =
     (case x_state x of
        s_dead \<Rightarrow> exec_dead x
      | s_start_req_or_res \<Rightarrow> exec_start_req_or_res env x
      | s_res_or_resp_H \<Rightarrow> exec_res_or_resp_H x
      | s_start_res \<Rightarrow> exec_start_res env x
      | s_res_H \<Rightarrow> expect_char CHR ''T'' s_res_HT x
      | s_res_HT \<Rightarrow> expect_char CHR ''T'' s_res_HTT x
      | s_res_HTT \<Rightarrow> expect_char CHR ''P'' s_res_HTTP x
      | s_res_HTTP \<Rightarrow> expect_char CHR ''/'' s_res_http_major x
      | s_res_http_major \<Rightarrow> exec_res_http_major x
      | s_res_http_dot \<Rightarrow> exec_res_http_dot x
      | s_res_http_minor \<Rightarrow> exec_res_http_minor x
      | s_res_http_end \<Rightarrow> exec_res_http_end x
      | s_res_first_status_code \<Rightarrow> exec_res_first_status_code x
      | s_res_status_code \<Rightarrow> exec_res_status_code x
      | s_res_status_start \<Rightarrow> exec_res_status_start x
      | s_res_status \<Rightarrow> exec_res_status env x
      | s_res_line_almost_done \<Rightarrow> expect_char LF s_header_field_start x
      | s_start_req \<Rightarrow> exec_start_req env x
      | s_req_method \<Rightarrow> exec_req_method x
      | s_req_spaces_before_url \<Rightarrow> exec_req_spaces_before_url x
      | s_req_schema \<Rightarrow> exec_req_url_start x
      | s_req_schema_slash \<Rightarrow> exec_req_url_start x
      | s_req_schema_slash_slash \<Rightarrow> exec_req_url_start x
      | s_req_server_start \<Rightarrow> exec_req_url_start x
      | s_req_server \<Rightarrow> exec_req_url env x
      | s_req_server_with_at \<Rightarrow> exec_req_url env x
      | s_req_path \<Rightarrow> exec_req_url env x
      | s_req_query_string_start \<Rightarrow> exec_req_url env x
      | s_req_query_string \<Rightarrow> exec_req_url env x
      | s_req_fragment_start \<Rightarrow> exec_req_url env x
      | s_req_fragment \<Rightarrow> exec_req_url env x
      | s_req_http_start \<Rightarrow> exec_req_http_start x
      | s_req_http_H \<Rightarrow> expect_char CHR ''T'' s_req_http_HT x
      | s_req_http_HT \<Rightarrow> expect_char CHR ''T'' s_req_http_HTT x
      | s_req_http_HTT \<Rightarrow> expect_char CHR ''P'' s_req_http_HTTP x
      | s_req_http_I \<Rightarrow> expect_char CHR ''C'' s_req_http_IC x
      | s_req_http_IC \<Rightarrow> expect_char CHR ''E'' s_req_http_HTTP x
      | s_req_http_HTTP \<Rightarrow> expect_char CHR ''/'' s_req_http_major x
      | s_req_http_major \<Rightarrow> exec_req_http_major x
      | s_req_http_dot \<Rightarrow> exec_req_http_dot x
      | s_req_http_minor \<Rightarrow> exec_req_http_minor x
      | s_req_http_end \<Rightarrow> exec_req_http_end x
      | s_req_line_almost_done \<Rightarrow> exec_req_line_almost_done x
      | s_header_field_start \<Rightarrow> exec_header_field_start x
      | s_header_field \<Rightarrow> exec_header_field env x
      | s_header_value_discard_ws \<Rightarrow> exec_header_value_discard_ws x
      | s_header_value_start \<Rightarrow> exec_header_value_start x
      | s_header_value \<Rightarrow> exec_header_value env x
      | s_header_almost_done \<Rightarrow> exec_header_almost_done x
      | s_header_value_lws \<Rightarrow> exec_header_value_lws x
      | s_header_value_discard_ws_almost_done \<Rightarrow> expect_char LF s_header_value_discard_lws x
      | s_header_value_discard_lws \<Rightarrow> exec_header_value_discard_lws env x
      | s_headers_almost_done \<Rightarrow> exec_headers_almost_done env x
      | s_headers_done \<Rightarrow> exec_headers_done env x
      | s_body_identity \<Rightarrow> exec_body_identity env x
      | s_body_identity_eof \<Rightarrow> exec_body_identity_eof env x
      | s_message_done \<Rightarrow> exec_message_done env x
      | s_chunk_size_start \<Rightarrow> exec_chunk_size_start x
      | s_chunk_size \<Rightarrow> exec_chunk_size x
      | s_chunk_parameters \<Rightarrow> exec_chunk_parameters x
      | s_chunk_size_almost_done \<Rightarrow> exec_chunk_size_almost_done env x
      | s_chunk_data \<Rightarrow> exec_chunk_data env x
      | s_chunk_data_almost_done \<Rightarrow> exec_chunk_data_almost_done env x
      | s_chunk_data_done \<Rightarrow> exec_chunk_data_done env x)"

text \<open>The callbacks for the marks left when the bytes have run out.\<close>

definition mark_count :: "'a exec \<Rightarrow> nat" where
  "mark_count x = length (filter (\<lambda>d. x_mark x d \<noteq> None)
     [For_header_field, For_header_value, For_url, For_body, For_status])"

definition exec_finish :: "'a hp_env \<Rightarrow> 'a exec \<Rightarrow> 'a outcome" where
  "exec_finish env x =
     ASSERT (mark_count x \<le> 1)
       (CALLBACK_DATA_NOADVANCE env For_header_field x (\<lambda>x.
        CALLBACK_DATA_NOADVANCE env For_header_value x (\<lambda>x.
        CALLBACK_DATA_NOADVANCE env For_url x (\<lambda>x.
        CALLBACK_DATA_NOADVANCE env For_body x (\<lambda>x.
        CALLBACK_DATA_NOADVANCE env For_status x (\<lambda>x.
        RETURN (length (e_data env)) x))))))"

text \<open>The head of the loop: its condition, and what precedes the label \<open>reexecute\<close>.\<close>

definition exec_head :: "'a hp_env \<Rightarrow> 'a exec \<Rightarrow> 'a outcome" where
  "exec_head env x =
     (if length (e_data env) \<le> x_p x then exec_finish env x
      else
        let x = x\<lparr>x_ch := e_data env ! x_p x\<rparr>
        in if PARSING_HEADER (x_state x) then COUNT_HEADER_SIZE env 1 x Reexecute else Reexecute x)"

text \<open>The code at the label \<open>error\<close>.\<close>

definition exec_error :: "'a exec \<Rightarrow> 'a outcome" where
  "exec_error x =
     (let x = (if hp_errno (x_parser x) = HPE_OK then SET_ERRNO HPE_UNKNOWN x else x)
      in RETURN (x_p x) x)"

datatype 'a exec_result = Returned nat "'a http_parser" | Aborted

text \<open>
  The loop, by the outcome of the last piece of control flow; \<open>None\<close> when the fuel runs out. A
  callback may change \<open>parser->state\<close>, so that nothing bounds the number of re-executions in
  general; for callbacks that leave it alone, the fuel chosen below is shown to be enough.
\<close>

fun exec_run :: "'a hp_env \<Rightarrow> nat \<Rightarrow> 'a outcome \<Rightarrow> 'a exec_result option" where
  "exec_run env 0 out = None"
| "exec_run env (Suc n) (Break x) = exec_run env n (exec_head env (x\<lparr>x_p := x_p x + 1\<rparr>))"
| "exec_run env (Suc n) (Reexecute x) = exec_run env n (exec_switch env x)"
| "exec_run env (Suc n) (Goto_error x) = exec_run env n (exec_error x)"
| "exec_run env (Suc n) (Return k ps) = Some (Returned k ps)"
| "exec_run env (Suc n) Abort = Some Aborted"

text \<open>The marks a call starts with, by the state it starts in.\<close>

definition url_mark_state :: "state \<Rightarrow> bool" where
  "url_mark_state s \<longleftrightarrow>
     s \<in> {s_req_path, s_req_schema, s_req_schema_slash, s_req_schema_slash_slash,
          s_req_server_start, s_req_server, s_req_server_with_at, s_req_query_string_start,
          s_req_query_string, s_req_fragment_start, s_req_fragment}"

definition initial_mark :: "state \<Rightarrow> data_for \<Rightarrow> nat option" where
  "initial_mark s d =
     (case d of
        For_header_field \<Rightarrow> if s = s_header_field then Some 0 else None
      | For_header_value \<Rightarrow> if s = s_header_value then Some 0 else None
      | For_url \<Rightarrow> if url_mark_state s then Some 0 else None
      | For_body \<Rightarrow> None
      | For_status \<Rightarrow> if s = s_res_status then Some 0 else None)"

definition initial_exec :: "'a http_parser \<Rightarrow> 'a exec" where
  "initial_exec ps =
     \<lparr>x_parser = ps, x_p = 0, x_ch = NUL, x_state = hp_state ps, x_nread = hp_nread ps,
      x_mark = initial_mark (hp_state ps)\<rparr>"

text \<open>The call with \<open>len == 0\<close>, which signals the end of the stream.\<close>

definition exec_eof :: "'a http_parser_settings \<Rightarrow> 'a http_parser \<Rightarrow> 'a outcome" where
  "exec_eof cfg ps =
     (let x = (initial_exec ps)\<lparr>x_mark := (\<lambda>d. None)\<rparr>
      in if hp_state ps = s_body_identity_eof
         then CALLBACK_NOTIFY_NOADVANCE (on_message_complete cfg) HPE_CB_message_complete x
                (\<lambda>x. Return 0 (x_parser x))
         else if hp_state ps \<in> {s_dead, s_start_req_or_res, s_start_res, s_start_req} then Return 0 ps
         else Return 1 (set_errno HPE_INVALID_EOF_STATE (hp_nread ps) ps))"

definition exec_fuel :: "bytes \<Rightarrow> nat" where
  "exec_fuel data = 6 * length data + 9"

definition http_parser_execute ::
  "u32 \<Rightarrow> 'a http_parser_settings \<Rightarrow> 'a http_parser \<Rightarrow> bytes \<Rightarrow> 'a exec_result option" where
  "http_parser_execute max_header_size settings ps data =
     (let env = \<lparr>e_settings = settings, e_max = max_header_size, e_data = data,
                 e_lenient = hp_lenient ps\<rparr>
      in if hp_errno ps \<noteq> HPE_OK then Some (Returned 0 ps)
         else exec_run env (exec_fuel data)
                (if data = [] then exec_eof settings ps else exec_head env (initial_exec ps)))"

end
