(* ===== verification/Http_Parser_Inv.thy ===== *)
theory Http_Parser_Inv
  imports Http_Parser_Exec
begin

text \<open>
  The invariant of \<open>http_parser_execute\<close>. For callbacks that keep their hands off the parser's
  private fields (they may change what \<open>data\<close> leads to, fail, or pause the parser), every piece of
  control flow keeps the invariant, fails no assertion, stays within the buffer and makes
  progress; so each call returns within the fuel of the model and leaves a parser on which the
  next call is safe again.
\<close>

section \<open>Well-behaved callbacks\<close>

definition cb_frame :: "'a http_parser \<Rightarrow> 'a http_parser \<Rightarrow> bool" where
  "cb_frame ps ps' \<longleftrightarrow>
     (\<exists>d e. ps' = ps\<lparr>hp_data := d, hp_errno := e\<rparr> \<and> (e = hp_errno ps \<or> e = HPE_PAUSED))"

definition notify_ok :: "'a http_cb option \<Rightarrow> bool" where
  "notify_ok cb \<longleftrightarrow> (case cb of None \<Rightarrow> True | Some f \<Rightarrow> \<forall>ps. cb_frame ps (snd (f ps)))"

definition data_ok :: "'a http_data_cb option \<Rightarrow> bool" where
  "data_ok cb \<longleftrightarrow> (case cb of None \<Rightarrow> True | Some f \<Rightarrow> \<forall>ps s. cb_frame ps (snd (f ps s)))"

definition settings_ok :: "'a http_parser_settings \<Rightarrow> bool" where
  "settings_ok cfg \<longleftrightarrow>
     notify_ok (on_message_begin cfg) \<and> data_ok (on_url cfg) \<and> data_ok (on_status cfg) \<and>
     data_ok (on_header_field cfg) \<and> data_ok (on_header_value cfg) \<and>
     notify_ok (on_headers_complete cfg) \<and> data_ok (on_body cfg) \<and>
     notify_ok (on_message_complete cfg) \<and> notify_ok (on_chunk_header cfg) \<and>
     notify_ok (on_chunk_complete cfg)"

lemma settings_okD [simp]:
  assumes "settings_ok cfg"
  shows "notify_ok (on_message_begin cfg)" "notify_ok (on_headers_complete cfg)"
    "notify_ok (on_message_complete cfg)" "notify_ok (on_chunk_header cfg)"
    "notify_ok (on_chunk_complete cfg)" "data_ok (data_cb_of cfg d)"
  using assms by (cases d; simp add: settings_ok_def data_cb_of_def)+

section \<open>The invariant\<close>

text \<open>The length of the name that \<open>s_req_method\<close> compares with.\<close>

definition method_len :: "http_method \<Rightarrow> nat" where
  "method_len m = length (method_strings ! http_method_num m)"

text \<open>
  Before the body, \<open>content_length\<close> has its initial value until a Content-Length header is seen
  (in the trailer of a chunked message it holds what the last chunk left).
\<close>

definition pre_body :: "'a http_parser \<Rightarrow> bool" where
  "pre_body ps \<longleftrightarrow>
     (\<not> has_flag (hp_flags ps) F_CONTENTLENGTH \<and> \<not> has_flag (hp_flags ps) F_TRAILING \<longrightarrow>
        hp_content_length ps = ULLONG_MAX)"

definition in_chunk :: "'a http_parser \<Rightarrow> bool" where
  "in_chunk ps \<longleftrightarrow>
     has_flag (hp_flags ps) F_CHUNKED \<and> \<not> has_flag (hp_flags ps) F_CONTENTLENGTH"

definition field_state :: "header_states \<Rightarrow> bool" where
  "field_state hs \<longleftrightarrow>
     hs \<in> {h_general, h_C, h_CO, h_CON, h_matching_connection, h_matching_proxy_connection,
           h_matching_content_length, h_matching_transfer_encoding, h_matching_upgrade,
           h_connection, h_content_length, h_transfer_encoding, h_upgrade}"

definition value_state :: "header_states \<Rightarrow> 'a http_parser \<Rightarrow> bool" where
  "value_state hs ps \<longleftrightarrow>
     hs \<notin> {h_connection, h_transfer_encoding, h_content_length} \<and>
     (hs = h_content_length_num \<longrightarrow> has_flag (hp_flags ps) F_CONTENTLENGTH)"

definition before_body :: "state \<Rightarrow> bool" where
  "before_body s \<longleftrightarrow>
     s \<notin> {s_dead, s_start_req_or_res, s_start_res, s_start_req, s_body_identity, s_body_identity_eof,
          s_message_done, s_chunk_size_start, s_chunk_size, s_chunk_parameters,
          s_chunk_size_almost_done, s_chunk_data, s_chunk_data_almost_done, s_chunk_data_done}"

definition st_inv :: "state \<Rightarrow> 'a http_parser \<Rightarrow> bool" where
  "st_inv s ps \<longleftrightarrow> (before_body s \<longrightarrow> pre_body ps) \<and>
     (case s of
        s_req_method \<Rightarrow> unat (hp_index ps) \<le> method_len (hp_method ps)
      | s_header_field \<Rightarrow> field_state (hp_header_state ps)
      | s_header_value \<Rightarrow> value_state (hp_header_state ps) ps
      | s_headers_done \<Rightarrow>
          \<not> (has_flag (hp_flags ps) F_CHUNKED \<and> has_flag (hp_flags ps) F_CONTENTLENGTH)
      | s_chunk_size_start \<Rightarrow> in_chunk ps
      | s_chunk_size \<Rightarrow> in_chunk ps \<and> hp_content_length ps \<noteq> ULLONG_MAX
      | s_chunk_parameters \<Rightarrow> in_chunk ps \<and> hp_content_length ps \<noteq> ULLONG_MAX
      | s_chunk_size_almost_done \<Rightarrow> in_chunk ps \<and> hp_content_length ps \<noteq> ULLONG_MAX
      | s_chunk_data \<Rightarrow> in_chunk ps \<and> hp_content_length ps \<noteq> 0 \<and> hp_content_length ps \<noteq> ULLONG_MAX
      | s_chunk_data_almost_done \<Rightarrow> in_chunk ps \<and> hp_content_length ps = 0
      | s_chunk_data_done \<Rightarrow> in_chunk ps
      | s_body_identity \<Rightarrow>
          hp_content_length ps \<noteq> 0 \<and> hp_content_length ps \<noteq> ULLONG_MAX \<and>
          \<not> has_flag (hp_flags ps) F_CHUNKED
      | _ \<Rightarrow> True)"

lemma st_inv_frame [simp]:
  "st_inv s (ps\<lparr>hp_state := v1\<rparr>) = st_inv s ps" "st_inv s (ps\<lparr>hp_data := v2\<rparr>) = st_inv s ps"
  "st_inv s (ps\<lparr>hp_errno := v3\<rparr>) = st_inv s ps" "st_inv s (ps\<lparr>hp_nread := v4\<rparr>) = st_inv s ps"
  "st_inv s (ps\<lparr>hp_type := v5\<rparr>) = st_inv s ps" "st_inv s (ps\<lparr>hp_upgrade := v6\<rparr>) = st_inv s ps"
  "st_inv s (ps\<lparr>hp_http_major := v7\<rparr>) = st_inv s ps" "st_inv s (ps\<lparr>hp_http_minor := v8\<rparr>) = st_inv s ps"
  "st_inv s (ps\<lparr>hp_status_code := v9\<rparr>) = st_inv s ps"
  by (simp_all add: st_inv_def pre_body_def in_chunk_def value_state_def cong: state.case_cong)

text \<open>The states in which a mark may be set.\<close>

definition mark_state :: "data_for \<Rightarrow> state \<Rightarrow> bool" where
  "mark_state d s =
     (case d of
        For_header_field \<Rightarrow> s = s_header_field
      | For_header_value \<Rightarrow> s = s_header_value
      | For_url \<Rightarrow> url_mark_state s
      | For_body \<Rightarrow> s \<in> {s_body_identity, s_body_identity_eof, s_chunk_data, s_chunk_data_almost_done}
      | For_status \<Rightarrow> s = s_res_status)"

definition mark_ok :: "state \<Rightarrow> nat \<Rightarrow> (data_for \<Rightarrow> nat option) \<Rightarrow> bool" where
  "mark_ok s p m \<longleftrightarrow> (\<forall>d j. m d = Some j \<longrightarrow> j \<le> p \<and> mark_state d s)"

definition exec_inv :: "'a hp_env \<Rightarrow> 'a exec \<Rightarrow> bool" where
  "exec_inv env x \<longleftrightarrow>
     hp_errno (x_parser x) = HPE_OK \<and> st_inv (x_state x) (x_parser x) \<and>
     mark_ok (x_state x) (x_p x) (x_mark x) \<and>
     x_nread x \<le> e_max env \<and> hp_nread (x_parser x) \<le> e_max env"

text \<open>A chunk size is always read with the byte counter at 0.\<close>

definition fresh :: "'a exec \<Rightarrow> bool" where
  "fresh x \<longleftrightarrow> (x_state x = s_chunk_size_start \<longrightarrow> x_nread x = 0 \<and> hp_nread (x_parser x) = 0)"

text \<open>What a call may leave: on such a parser the next call is safe, also after un-pausing.\<close>

definition parser_wf :: "u32 \<Rightarrow> 'a http_parser \<Rightarrow> bool" where
  "parser_wf mx ps \<longleftrightarrow>
     (hp_errno ps = HPE_OK \<or> hp_errno ps = HPE_PAUSED \<longrightarrow>
        st_inv (hp_state ps) ps \<and> (hp_state ps = s_chunk_size_start \<longrightarrow> hp_nread ps = 0) \<and>
        hp_nread ps \<le> mx)"

definition state_rank :: "state \<Rightarrow> nat" where
  "state_rank s =
     (case s of s_start_req_or_res \<Rightarrow> 1 | s_res_status_code \<Rightarrow> 2 | s_res_status_start \<Rightarrow> 1
      | s_header_value \<Rightarrow> 1 | s_header_value_lws \<Rightarrow> 3 | s_header_value_discard_lws \<Rightarrow> 3
      | s_header_field_start \<Rightarrow> 2 | s_headers_almost_done \<Rightarrow> 1 | s_body_identity \<Rightarrow> 1
      | _ \<Rightarrow> 0)"

definition return_ok :: "'a hp_env \<Rightarrow> nat \<Rightarrow> 'a http_parser \<Rightarrow> bool" where
  "return_ok env n ps \<longleftrightarrow>
     n \<le> length (e_data env) \<and> parser_wf (e_max env) ps \<and>
     (n < length (e_data env) \<longrightarrow> hp_errno ps \<noteq> HPE_OK \<or> hp_upgrade ps)"

text \<open>The contract of a piece of control flow that starts at offset \<open>p0\<close> in a state of rank \<open>r0\<close>.\<close>

definition out_ok :: "'a hp_env \<Rightarrow> nat \<Rightarrow> nat \<Rightarrow> 'a outcome \<Rightarrow> bool" where
  "out_ok env p0 r0 out =
     (case out of
        Break x \<Rightarrow> exec_inv env x \<and> fresh x \<and> p0 \<le> x_p x \<and> x_p x < length (e_data env)
      | Reexecute x \<Rightarrow> exec_inv env x \<and> x_state x \<noteq> s_chunk_size_start \<and> p0 \<le> x_p x \<and>
          x_p x < length (e_data env) \<and> state_rank (x_state x) < r0
      | Goto_error x \<Rightarrow> hp_errno (x_parser x) \<notin> {HPE_OK, HPE_PAUSED} \<and> x_p x \<le> length (e_data env)
      | Return n ps \<Rightarrow> return_ok env n ps
      | Abort \<Rightarrow> False)"

lemma out_ok_simps [simp]:
  "out_ok env p0 r0 (Break x) \<longleftrightarrow>
     exec_inv env x \<and> fresh x \<and> p0 \<le> x_p x \<and> x_p x < length (e_data env)"
  "out_ok env p0 r0 (Reexecute x) \<longleftrightarrow>
     exec_inv env x \<and> x_state x \<noteq> s_chunk_size_start \<and> p0 \<le> x_p x \<and>
     x_p x < length (e_data env) \<and> state_rank (x_state x) < r0"
  "out_ok env p0 r0 (Goto_error x) \<longleftrightarrow>
     hp_errno (x_parser x) \<notin> {HPE_OK, HPE_PAUSED} \<and> x_p x \<le> length (e_data env)"
  "out_ok env p0 r0 (Return n ps) \<longleftrightarrow> return_ok env n ps"
  "\<not> out_ok env p0 r0 Abort"
  by (simp_all add: out_ok_def)

section \<open>Rules for the macros\<close>

lemma exec_simps [simp]:
  "x_parser (on_parser f x) = f (x_parser x)" "x_p (on_parser f x) = x_p x"
  "x_ch (on_parser f x) = x_ch x" "x_state (on_parser f x) = x_state x"
  "x_nread (on_parser f x) = x_nread x" "x_mark (on_parser f x) = x_mark x"
  "x_parser (UPDATE_STATE s x) = x_parser x" "x_p (UPDATE_STATE s x) = x_p x"
  "x_ch (UPDATE_STATE s x) = x_ch x" "x_state (UPDATE_STATE s x) = s"
  "x_nread (UPDATE_STATE s x) = x_nread x" "x_mark (UPDATE_STATE s x) = x_mark x"
  "x_parser (MARK d x) = x_parser x" "x_p (MARK d x) = x_p x" "x_ch (MARK d x) = x_ch x"
  "x_state (MARK d x) = x_state x" "x_nread (MARK d x) = x_nread x"
  by (simp_all add: on_parser_def UPDATE_STATE_def MARK_def split: option.split)

lemma out_ok_fail [simp]:
  "out_ok env p0 r0 (fail_with e x) \<longleftrightarrow> e \<notin> {HPE_OK, HPE_PAUSED} \<and> x_p x \<le> length (e_data env)"
  by (simp add: fail_with_def SET_ERRNO_def set_errno_def)

lemma out_ok_ASSERT [simp]: "out_ok env p0 r0 (ASSERT c k) \<longleftrightarrow> c \<and> out_ok env p0 r0 k"
  by (simp add: ASSERT_def)

lemma out_ok_STRICT [simp]:
  "out_ok env p0 r0 (STRICT_CHECK c x k) \<longleftrightarrow>
     (if c then x_p x \<le> length (e_data env) else out_ok env p0 r0 (k x))"
  by (simp add: STRICT_CHECK_def)

lemma out_ok_COUNT:
  assumes "x_p x \<le> length (e_data env)"
    and "x_nread x + of_nat v \<le> e_max env \<Longrightarrow> out_ok env p0 r0 (k (x\<lparr>x_nread := x_nread x + of_nat v\<rparr>))"
  shows "out_ok env p0 r0 (COUNT_HEADER_SIZE env v x k)"
  using assms by (auto simp: COUNT_HEADER_SIZE_def Let_def not_less)

text \<open>What a callback that returns normally may have changed.\<close>

definition cb_sim :: "'a exec \<Rightarrow> 'a exec \<Rightarrow> bool" where
  "cb_sim x x' \<longleftrightarrow> (\<exists>s d. x' = x\<lparr>x_parser := (x_parser x)\<lparr>hp_state := s, hp_data := d\<rparr>\<rparr> \<and>
     (s = hp_state (x_parser x) \<or> s = x_state x))"

lemma cb_sim_refl: "cb_sim x x"
  unfolding cb_sim_def by (rule exI [of _ "hp_state (x_parser x)"], rule exI [of _ "hp_data (x_parser x)"]) simp

lemma cb_simD:
  assumes "cb_sim x x'"
  shows "x_p x' = x_p x" "x_state x' = x_state x" "x_nread x' = x_nread x" "x_mark x' = x_mark x"
    "x_ch x' = x_ch x" "hp_upgrade (x_parser x') = hp_upgrade (x_parser x)"
    "hp_errno (x_parser x') = hp_errno (x_parser x)"
    "exec_inv env x' = exec_inv env x" "fresh x' = fresh x"
  using assms by (auto simp: cb_sim_def exec_inv_def fresh_def)

lemma after_callback_ok:
  assumes res: "cb_frame ((x_parser x)\<lparr>hp_state := x_state x\<rparr>) (snd res)"
    and inv: "hp_errno (x_parser x) = HPE_OK" "st_inv (x_state x) (x_parser x)" "x_nread x \<le> e_max env"
      "hp_nread (x_parser x) \<le> e_max env" "fresh x"
    and e: "e \<notin> {HPE_OK, HPE_PAUSED}" and er: "er \<le> length (e_data env)"
    and k: "\<And>x'. cb_sim x x' \<Longrightarrow> out_ok env p0 r0 (k x')"
  shows "out_ok env p0 r0 (after_callback e er res x k)"
proof -
  obtain d e' where r: "snd res = (x_parser x)\<lparr>hp_state := x_state x, hp_data := d, hp_errno := e'\<rparr>"
    and e': "e' = HPE_OK \<or> e' = HPE_PAUSED"
    using res inv(1) by (auto simp: cb_frame_def)
  show ?thesis
  proof (cases "fst res = 0 \<and> e' = HPE_OK")
    case True
    then have "snd res = (x_parser x)\<lparr>hp_state := x_state x, hp_data := d\<rparr>" using r inv(1) by simp
    moreover have "cb_sim x (x\<lparr>x_parser := (x_parser x)\<lparr>hp_state := x_state x, hp_data := d\<rparr>\<rparr>)"
      by (auto simp: cb_sim_def)
    ultimately show ?thesis using k True inv(1) by (simp add: after_callback_def)
  next
    case False
    with r e e' er inv show ?thesis
      by (auto simp: after_callback_def Let_def set_errno_def return_ok_def parser_wf_def fresh_def)
  qed
qed

lemma notify_rule:
  assumes "exec_inv env x" "fresh x" "notify_ok cb" "e \<notin> {HPE_OK, HPE_PAUSED}"
    and "er \<le> length (e_data env)" and "\<And>x'. cb_sim x x' \<Longrightarrow> out_ok env p0 r0 (k x')"
  shows "out_ok env p0 r0 (CALLBACK_NOTIFY_gen cb e er x k)"
proof (cases cb)
  case None
  with assms(1,6) cb_sim_refl show ?thesis by (auto simp: CALLBACK_NOTIFY_gen_def exec_inv_def)
next
  case (Some f)
  with assms show ?thesis
    by (auto simp: CALLBACK_NOTIFY_gen_def exec_inv_def notify_ok_def intro!: after_callback_ok)
qed

definition clear_mark :: "data_for \<Rightarrow> 'a exec \<Rightarrow> 'a exec" where
  "clear_mark d x = x\<lparr>x_mark := (x_mark x)(d := None)\<rparr>"

lemma clear_mark_simps [simp]:
  "x_parser (clear_mark d x) = x_parser x" "x_p (clear_mark d x) = x_p x"
  "x_ch (clear_mark d x) = x_ch x" "x_state (clear_mark d x) = x_state x"
  "x_nread (clear_mark d x) = x_nread x" "x_mark (clear_mark d x) = (x_mark x)(d := None)"
  "fresh (clear_mark d x) = fresh x"
  by (simp_all add: clear_mark_def fresh_def)

lemma data_rule:
  assumes "exec_inv env (clear_mark FOR x)" "fresh x" "settings_ok (e_settings env)"
    and "\<And>j. x_mark x FOR = Some j \<Longrightarrow> j \<le> stop" and "stop \<le> length (e_data env)"
    and "er \<le> length (e_data env)" and k: "\<And>x'. cb_sim (clear_mark FOR x) x' \<Longrightarrow> out_ok env p0 r0 (k x')"
  shows "out_ok env p0 r0 (CALLBACK_DATA_gen env FOR stop er x k)"
proof (cases "x_mark x FOR")
  case None
  then have "clear_mark FOR x = x" by (simp add: clear_mark_def fun_upd_idem)
  with None assms(1) k cb_sim_refl [of x] show ?thesis by (simp add: CALLBACK_DATA_gen_def exec_inv_def)
next
  case (Some j)
  have sim: "cb_sim (clear_mark FOR x) (x'\<lparr>x_mark := (x_mark x')(FOR := None)\<rparr>)" if "cb_sim x x'" for x'
  proof -
    from that obtain s d where "x' = x\<lparr>x_parser := (x_parser x)\<lparr>hp_state := s, hp_data := d\<rparr>\<rparr>"
      and s: "s = hp_state (x_parser (clear_mark FOR x)) \<or> s = x_state (clear_mark FOR x)"
      by (auto simp: cb_sim_def)
    then have "x'\<lparr>x_mark := (x_mark x')(FOR := None)\<rparr> =
        (clear_mark FOR x)\<lparr>x_parser := (x_parser (clear_mark FOR x))\<lparr>hp_state := s, hp_data := d\<rparr>\<rparr>"
      by (simp add: clear_mark_def)
    then show ?thesis using s unfolding cb_sim_def by blast
  qed
  show ?thesis
  proof (cases "data_cb_of (e_settings env) FOR")
    case None
    with Some assms(1,4,5) k [OF cb_sim_refl] show ?thesis
      by (simp add: CALLBACK_DATA_gen_def exec_inv_def clear_mark_def)
  next
    case (Some f)
    then have "cb_frame ps (snd (f ps s))" for ps s
      using settings_okD(6) [OF assms(3), of FOR] by (simp add: data_ok_def)
    with Some \<open>x_mark x FOR = _\<close> assms sim k show ?thesis
      by (auto simp: CALLBACK_DATA_gen_def exec_inv_def data_errno_def Let_def
          intro!: after_callback_ok split: data_for.splits)
  qed
qed

lemma RETURN_ok:
  assumes "exec_inv env x" "fresh x" "n \<le> length (e_data env)"
    "n < length (e_data env) \<Longrightarrow> hp_upgrade (x_parser x)"
  shows "out_ok env p0 r0 (RETURN n x)"
  using assms by (auto simp: RETURN_def return_ok_def parser_wf_def exec_inv_def fresh_def)

section \<open>Each case of the switch keeps the invariant\<close>

text \<open>What the cases need of the invariant of their own state.\<close>

definition sw_inv :: "'a hp_env \<Rightarrow> 'a exec \<Rightarrow> bool" where
  "sw_inv env x \<longleftrightarrow> exec_inv env x \<and> x_p x < length (e_data env) \<and> settings_ok (e_settings env)"

lemma mark_state_simps [simp]:
  "mark_state For_header_field s \<longleftrightarrow> s = s_header_field"
  "mark_state For_header_value s \<longleftrightarrow> s = s_header_value"
  "mark_state For_url s \<longleftrightarrow> url_mark_state s"
  "mark_state For_body s \<longleftrightarrow>
     s \<in> {s_body_identity, s_body_identity_eof, s_chunk_data, s_chunk_data_almost_done}"
  "mark_state For_status s \<longleftrightarrow> s = s_res_status"
  by (simp_all add: mark_state_def)

lemma all_data_for:
  "(\<forall>d. P d) \<longleftrightarrow> P For_header_field \<and> P For_header_value \<and> P For_url \<and> P For_body \<and> P For_status"
  by (metis data_for.exhaust)

definition no_marks :: "state \<Rightarrow> bool" where
  "no_marks s \<longleftrightarrow> (\<forall>d. \<not> mark_state d s)"

lemma mark_state_unique: "mark_state d s \<Longrightarrow> mark_state d' s \<Longrightarrow> d = d'"
  by (cases d; cases d') (auto simp: url_mark_state_def)

lemma mark_ok_None [simp]: "mark_ok s p (\<lambda>d. None)"
  by (simp add: mark_ok_def)

lemma mark_ok_one [simp]:
  "mark_ok s p ((\<lambda>d. None)(d := Some j)) \<longleftrightarrow> j \<le> p \<and> mark_state d s"
  by (simp add: mark_ok_def)

lemma mark_ok_no_marks [simp]: "no_marks s \<Longrightarrow> mark_ok s p m \<longleftrightarrow> m = (\<lambda>d. None)"
  by (auto simp: mark_ok_def no_marks_def fun_eq_iff)

lemma mark_ok_same: "mark_ok s p m \<Longrightarrow> p \<le> p' \<Longrightarrow> mark_ok s p' m"
  by (fastforce simp: mark_ok_def)

lemma mark_ok_clear: "mark_ok s p m \<Longrightarrow> mark_state d s \<Longrightarrow> m(d := None) = (\<lambda>d. None)"
  by (auto simp: fun_eq_iff mark_ok_def dest: mark_state_unique) (metis mark_state_unique not_None_eq)

lemma mark_ok_switch:
  assumes "mark_ok s p m" "mark_state d s" "mark_state d s'"
  shows "mark_ok s' p m"
  unfolding mark_ok_def
proof (intro allI impI)
  fix d' j assume "m d' = Some j"
  with assms(1) have "j \<le> p" "mark_state d' s" by (auto simp: mark_ok_def)
  with mark_state_unique [OF assms(2)] assms(3) show "j \<le> p \<and> mark_state d' s'" by blast
qed

lemma mark_okD: "mark_ok s p m \<Longrightarrow> m d = Some j \<Longrightarrow> j \<le> p"
  by (auto simp: mark_ok_def)

lemma mark_MARK: "x_mark x = (\<lambda>d. None) \<Longrightarrow> x_mark (MARK d x) = (\<lambda>d. None)(d := Some (x_p x))"
  by (simp add: MARK_def)

lemma mark_ok_MARK:
  assumes "mark_ok s (x_p x) (x_mark x)" "mark_state d s" "x_p x \<le> p'"
  shows "mark_ok s p' (x_mark (MARK d x))"
  using assms by (fastforce simp: mark_ok_def MARK_def split: option.splits if_splits)

lemma no_marks_simps:
  "no_marks s \<longleftrightarrow> s \<notin> {s_header_field, s_header_value, s_res_status, s_body_identity,
     s_body_identity_eof, s_chunk_data, s_chunk_data_almost_done} \<and> \<not> url_mark_state s"
  by (auto simp: no_marks_def all_data_for)

lemmas inv_defs = sw_inv_def exec_inv_def st_inv_def fresh_def

lemma exec_dead_ok:
  "sw_inv env x \<Longrightarrow> x_state x = s_dead \<Longrightarrow> out_ok env (x_p x) r (exec_dead x)"
  by (auto simp: exec_dead_def sw_inv_def fresh_def)

lemma expect_char_ok:
  assumes "sw_inv env x" "no_marks (x_state x)" "s \<noteq> s_chunk_size_start"
    and "st_inv (x_state x) (x_parser x) \<Longrightarrow> st_inv s (x_parser x)"
  shows "out_ok env (x_p x) r (expect_char c s x)"
  using assms by (auto simp: expect_char_def sw_inv_def exec_inv_def fresh_def)

lemmas step_simps = sw_inv_def exec_inv_def fresh_def st_inv_def before_body_def pre_body_def
  no_marks_simps url_mark_state_def state_rank_def

lemma begin_message_parser [simp]:
  "x_parser (begin_message x) = (x_parser x)\<lparr>hp_flags := 0, hp_content_length := ULLONG_MAX\<rparr>"
  "x_p (begin_message x) = x_p x" "x_ch (begin_message x) = x_ch x"
  "x_state (begin_message x) = x_state x" "x_nread (begin_message x) = x_nread x"
  "x_mark (begin_message x) = x_mark x"
  by (simp_all add: begin_message_def)

lemma method_len_pos: "2 \<le> method_len m"
  by (cases m) (simp_all add: method_len_def method_strings_def http_method_num_def)

lemma method_len_ge1 [simp]: "Suc 0 \<le> method_len m"
  using method_len_pos [of m] by simp

lemma method_len_le: "method_len m \<le> 11"
  by (cases m) (simp_all add: method_len_def method_strings_def http_method_num_def)

lemma exec_res_or_resp_H_ok:
  "sw_inv env x \<Longrightarrow> x_state x = s_res_or_resp_H \<Longrightarrow> out_ok env (x_p x) r (exec_res_or_resp_H x)"
  by (auto simp: exec_res_or_resp_H_def step_simps Let_def method_len_def method_strings_def http_method_num_def)

lemma exec_res_http_major_ok:
  "sw_inv env x \<Longrightarrow> x_state x = s_res_http_major \<Longrightarrow> out_ok env (x_p x) r (exec_res_http_major x)"
  by (auto simp: exec_res_http_major_def step_simps Let_def)

lemma exec_res_http_dot_ok:
  "sw_inv env x \<Longrightarrow> x_state x = s_res_http_dot \<Longrightarrow> out_ok env (x_p x) r (exec_res_http_dot x)"
  by (auto simp: exec_res_http_dot_def step_simps Let_def)

lemma exec_res_http_minor_ok:
  "sw_inv env x \<Longrightarrow> x_state x = s_res_http_minor \<Longrightarrow> out_ok env (x_p x) r (exec_res_http_minor x)"
  by (auto simp: exec_res_http_minor_def step_simps Let_def)

lemma exec_res_http_end_ok:
  "sw_inv env x \<Longrightarrow> x_state x = s_res_http_end \<Longrightarrow> out_ok env (x_p x) r (exec_res_http_end x)"
  by (auto simp: exec_res_http_end_def step_simps Let_def)

lemma exec_res_first_status_code_ok:
  "sw_inv env x \<Longrightarrow> x_state x = s_res_first_status_code \<Longrightarrow> out_ok env (x_p x) r (exec_res_first_status_code x)"
  by (auto simp: exec_res_first_status_code_def step_simps Let_def)

lemma exec_res_status_code_ok:
  "sw_inv env x \<Longrightarrow> x_state x = s_res_status_code \<Longrightarrow> out_ok env (x_p x) 2 (exec_res_status_code x)"
  by (auto simp: exec_res_status_code_def step_simps Let_def)

lemma exec_req_http_start_ok:
  "sw_inv env x \<Longrightarrow> x_state x = s_req_http_start \<Longrightarrow> out_ok env (x_p x) r (exec_req_http_start x)"
  by (auto simp: exec_req_http_start_def step_simps Let_def)

lemma exec_req_http_major_ok:
  "sw_inv env x \<Longrightarrow> x_state x = s_req_http_major \<Longrightarrow> out_ok env (x_p x) r (exec_req_http_major x)"
  by (auto simp: exec_req_http_major_def step_simps Let_def)

lemma exec_req_http_dot_ok:
  "sw_inv env x \<Longrightarrow> x_state x = s_req_http_dot \<Longrightarrow> out_ok env (x_p x) r (exec_req_http_dot x)"
  by (auto simp: exec_req_http_dot_def step_simps Let_def)

lemma exec_req_http_minor_ok:
  "sw_inv env x \<Longrightarrow> x_state x = s_req_http_minor \<Longrightarrow> out_ok env (x_p x) r (exec_req_http_minor x)"
  by (auto simp: exec_req_http_minor_def step_simps Let_def)

lemma exec_req_http_end_ok:
  "sw_inv env x \<Longrightarrow> x_state x = s_req_http_end \<Longrightarrow> out_ok env (x_p x) r (exec_req_http_end x)"
  by (auto simp: exec_req_http_end_def step_simps Let_def)

lemma exec_req_line_almost_done_ok:
  "sw_inv env x \<Longrightarrow> x_state x = s_req_line_almost_done \<Longrightarrow> out_ok env (x_p x) r (exec_req_line_almost_done x)"
  by (auto simp: exec_req_line_almost_done_def step_simps Let_def)

lemma exec_header_almost_done_ok:
  "sw_inv env x \<Longrightarrow> x_state x = s_header_almost_done \<Longrightarrow> out_ok env (x_p x) r (exec_header_almost_done x)"
  by (auto simp: exec_header_almost_done_def step_simps Let_def)

lemma notify_BreakI:
  assumes "exec_inv env x" "fresh x" "notify_ok cb" "e \<notin> {HPE_OK, HPE_PAUSED}" "p0 \<le> x_p x"
    "x_p x < length (e_data env)"
  shows "out_ok env p0 r (CALLBACK_NOTIFY cb e x Break)"
  unfolding CALLBACK_NOTIFY_def using assms by (auto intro!: notify_rule simp: cb_simD)

lemma notify_ReexecuteI:
  assumes "exec_inv env x" "x_state x \<noteq> s_chunk_size_start" "notify_ok cb" "e \<notin> {HPE_OK, HPE_PAUSED}"
    "p0 \<le> x_p x" "x_p x < length (e_data env)" "state_rank (x_state x) < r"
  shows "out_ok env p0 r (CALLBACK_NOTIFY_NOADVANCE cb e x Reexecute)"
  unfolding CALLBACK_NOTIFY_NOADVANCE_def using assms
  by (auto intro!: notify_rule simp: cb_simD fresh_def)

lemma data_BreakI:
  assumes "exec_inv env (clear_mark FOR x)" "fresh x" "settings_ok (e_settings env)"
    and "\<And>j. x_mark x FOR = Some j \<Longrightarrow> j \<le> x_p x" and "p0 \<le> x_p x" "x_p x < length (e_data env)"
  shows "out_ok env p0 r (CALLBACK_DATA env FOR x Break)"
  unfolding CALLBACK_DATA_def using assms by (auto intro!: data_rule simp: cb_simD)

lemma data_ReexecuteI:
  assumes "exec_inv env (clear_mark FOR x)" "x_state x \<noteq> s_chunk_size_start" "settings_ok (e_settings env)"
    and "\<And>j. x_mark x FOR = Some j \<Longrightarrow> j \<le> stop" "stop \<le> length (e_data env)"
    and "p0 \<le> x_p x" "x_p x < length (e_data env)" "state_rank (x_state x) < r" "er \<le> length (e_data env)"
  shows "out_ok env p0 r (CALLBACK_DATA_gen env FOR stop er x Reexecute)"
  using assms by (auto intro!: data_rule simp: cb_simD fresh_def)

lemma exec_start_req_or_res_ok:
  "sw_inv env x \<Longrightarrow> x_state x = s_start_req_or_res \<Longrightarrow> out_ok env (x_p x) 1 (exec_start_req_or_res env x)"
  by (auto simp: exec_start_req_or_res_def step_simps Let_def
      intro!: notify_BreakI)

lemma exec_start_res_ok:
  "sw_inv env x \<Longrightarrow> x_state x = s_start_res \<Longrightarrow> out_ok env (x_p x) r (exec_start_res env x)"
  by (auto simp: exec_start_res_def step_simps Let_def
      intro!: notify_BreakI)

lemma exec_start_req_ok:
  "sw_inv env x \<Longrightarrow> x_state x = s_start_req \<Longrightarrow> out_ok env (x_p x) r (exec_start_req env x)"
  by (auto simp: exec_start_req_def step_simps Let_def method_len_ge1
      split: option.split intro!: notify_BreakI)

lemma exec_res_status_start_ok:
  "sw_inv env x \<Longrightarrow> x_state x = s_res_status_start \<Longrightarrow> out_ok env (x_p x) 1 (exec_res_status_start x)"
  by (auto simp: exec_res_status_start_def step_simps Let_def mark_MARK)

lemma exec_res_status_ok:
  "sw_inv env x \<Longrightarrow> x_state x = s_res_status \<Longrightarrow> out_ok env (x_p x) r (exec_res_status env x)"
  by (auto simp: exec_res_status_def step_simps mark_ok_clear dest: mark_okD intro!: data_BreakI)

lemma method_switch_len: "method_switch m i ch = Some m' \<Longrightarrow> Suc i \<le> method_len m'"
  by (auto simp: method_switch_def method_len_def method_strings_def http_method_num_def split: if_splits)

lemma index_inc: "unat (i :: 7 word) < 127 \<Longrightarrow> unat (i + 1) = Suc (unat i)"
  by (simp add: unat_word_ariths)

lemma exec_req_method_ok:
  assumes "sw_inv env x" "x_state x = s_req_method"
  shows "out_ok env (x_p x) r (exec_req_method x)"
proof -
  let ?ps = "x_parser x" and ?i = "unat (hp_index (x_parser x))"
  have i: "?i \<le> method_len (hp_method ?ps)" and P: "pre_body ?ps" and m: "x_mark x = (\<lambda>d. None)"
    and rest: "hp_errno ?ps = HPE_OK" "x_nread x \<le> e_max env" "hp_nread ?ps \<le> e_max env"
      "x_p x < length (e_data env)"
    using assms by (simp_all add: step_simps)
  have inc: "unat (hp_index ?ps + 1) = Suc ?i"
    using i method_len_le [of "hp_method ?ps"] by (intro index_inc) simp
  have at: "cstr_at (method_strings ! http_method_num (hp_method ?ps)) ?i \<noteq> None"
    "cstr_at (method_strings ! http_method_num (hp_method ?ps)) ?i = Some c \<Longrightarrow>
       c = NUL \<or> Suc ?i \<le> method_len (hp_method ?ps)" for c
    using i by (auto simp: cstr_at_def method_len_def split: if_splits)
  have P': "pre_body (?ps\<lparr>hp_index := j\<rparr>)" "pre_body (?ps\<lparr>hp_method := k, hp_index := j\<rparr>)" for j k
    using P by (simp_all add: pre_body_def)
  show ?thesis
    using at inc rest m P' assms(2)
    by (auto simp: exec_req_method_def Let_def exec_inv_def st_inv_def fresh_def no_marks_simps
        url_mark_state_def method_switch_len split: option.split)
qed

lemma url_char_ok:
  assumes "hp_errno (x_parser x) = HPE_OK" "x_nread x \<le> e_max env" "hp_nread (x_parser x) \<le> e_max env"
    and "x_p x < length (e_data env)" "p0 \<le> x_p x"
    and "mark_ok s_req_path (x_p x) (x_mark x)" "pre_body (x_parser x)"
  shows "out_ok env p0 r (url_char x)"
proof -
  let ?s = "parse_url_char (x_state x) (x_ch x)"
  have "?s = s_dead \<or> url_mark_state ?s"
    using parse_url_char_range [of "x_state x" "x_ch x"]
    by (auto simp: url_delimiter_def url_field_of_def url_mark_state_def split: if_splits)
  moreover have "st_inv s (x_parser x)" "s \<noteq> s_chunk_size_start" if "url_mark_state s" for s
    using that assms(7) by (auto simp: url_mark_state_def st_inv_def)
  moreover have "mark_ok s (x_p x) (x_mark x)" if "url_mark_state s" for s
    using mark_ok_switch [OF assms(6), of For_url s] that by (simp add: url_mark_state_def)
  ultimately show ?thesis
    using assms by (auto simp: url_char_def Let_def exec_inv_def fresh_def)
qed

lemma url_states_inv:
  assumes "sw_inv env x" "url_mark_state (x_state x)"
  shows "pre_body (x_parser x)" "(x_mark x)(For_url := None) = (\<lambda>d. None)"
    "x_mark x For_url = Some j \<Longrightarrow> j \<le> x_p x" "mark_ok s_req_path (x_p x) (x_mark x)"
proof -
  have m: "mark_ok (x_state x) (x_p x) (x_mark x)" and "st_inv (x_state x) (x_parser x)"
    using assms(1) by (simp_all add: sw_inv_def exec_inv_def)
  then show "pre_body (x_parser x)"
    using assms(2) by (auto simp: st_inv_def before_body_def url_mark_state_def)
  from mark_ok_clear [OF m, of For_url] assms(2) show "(x_mark x)(For_url := None) = (\<lambda>d. None)" by simp
  from mark_okD [OF m] show "x_mark x For_url = Some j \<Longrightarrow> j \<le> x_p x" .
  from mark_ok_switch [OF m, of For_url s_req_path] assms(2) show "mark_ok s_req_path (x_p x) (x_mark x)"
    by (simp add: url_mark_state_def)
qed

lemma exec_req_url_start_ok:
  assumes "sw_inv env x" "url_mark_state (x_state x)"
  shows "out_ok env (x_p x) r (exec_req_url_start x)"
  using assms url_states_inv [OF assms]
  by (auto simp: exec_req_url_start_def sw_inv_def exec_inv_def intro!: url_char_ok)

lemma exec_req_url_ok:
  assumes "sw_inv env x" "url_mark_state (x_state x)"
  shows "out_ok env (x_p x) r (exec_req_url env x)"
proof -
  note u = url_states_inv [OF assms]
  have "pre_body ((x_parser x)\<lparr>hp_http_major := 0, hp_http_minor := 9\<rparr>)"
    using u(1) by (simp add: pre_body_def)
  with assms u show ?thesis
    by (auto simp: exec_req_url_def sw_inv_def exec_inv_def st_inv_def fresh_def
        intro!: url_char_ok data_BreakI)
qed

lemma exec_req_spaces_before_url_ok:
  assumes "sw_inv env x" "x_state x = s_req_spaces_before_url"
  shows "out_ok env (x_p x) r (exec_req_spaces_before_url x)"
  using assms
  by (auto simp: exec_req_spaces_before_url_def step_simps Let_def mark_MARK intro!: url_char_ok)

lemma exec_header_field_start_ok:
  assumes "sw_inv env x" "x_state x = s_header_field_start"
  shows "out_ok env (x_p x) 2 (exec_header_field_start x)"
  using assms
  by (auto simp: exec_header_field_start_def step_simps Let_def mark_MARK field_state_def)

text \<open>The loop over a header name changes the index and the header state only.\<close>

definition field_frame :: "'a http_parser \<Rightarrow> 'a http_parser \<Rightarrow> bool" where
  "field_frame ps ps' \<longleftrightarrow> (\<exists>i h. ps' = ps\<lparr>hp_index := i, hp_header_state := h\<rparr>)"

lemma field_frameD:
  assumes "field_frame ps ps'"
  shows "hp_errno ps' = hp_errno ps" "hp_nread ps' = hp_nread ps" "pre_body ps' = pre_body ps"
  using assms by (auto simp: field_frame_def pre_body_def)

lemma field_frame_refl: "field_frame ps ps"
  unfolding field_frame_def by (rule exI [of _ "hp_index ps"], rule exI [of _ "hp_header_state ps"]) simp

lemma field_frame_upd [simp]:
  "field_frame ps (ps\<lparr>hp_index := i, hp_header_state := h\<rparr>)"
  "field_frame ps (ps\<lparr>hp_header_state := h\<rparr>)" "field_frame ps (ps\<lparr>hp_index := i\<rparr>)"
proof -
  show "field_frame ps (ps\<lparr>hp_index := i, hp_header_state := h\<rparr>)" by (auto simp: field_frame_def)
  have "ps\<lparr>hp_header_state := h\<rparr> = ps\<lparr>hp_index := hp_index ps, hp_header_state := h\<rparr>" by simp
  then show "field_frame ps (ps\<lparr>hp_header_state := h\<rparr>)" unfolding field_frame_def by blast
  have "ps\<lparr>hp_index := i\<rparr> = ps\<lparr>hp_index := i, hp_header_state := hp_header_state ps\<rparr>" by simp
  then show "field_frame ps (ps\<lparr>hp_index := i\<rparr>)" unfolding field_frame_def by blast
qed

lemma field_frame_trans: "field_frame a b \<Longrightarrow> field_frame b c \<Longrightarrow> field_frame a c"
  by (fastforce simp: field_frame_def)

lemma match_field_ok:
  assumes "field_state found" "field_state (hp_header_state ps)"
  shows "field_frame ps (match_field name found c ps) \<and> field_state (hp_header_state (match_field name found c ps))"
  using assms by (auto simp: match_field_def Let_def field_state_def split: match_result.split)

lemma header_field_char_ok:
  assumes "field_state (hp_header_state ps)" "p < length (e_data env)"
  shows "\<exists>p' ps'. header_field_char env p ch c ps = Some (p', ps') \<and> p \<le> p' \<and> p' < length (e_data env) \<and>
    field_frame ps ps' \<and> field_state (hp_header_state ps')"
proof -
  have "p + min (length (e_data env) - p) (unat (e_max env)) \<le> length (e_data env)" using assms(2) by simp
  note sk = skip_tokens_ge skip_tokens_less [OF assms(2) this]
  have gen: "field_state h_general" "field_state h_connection" "field_state h_content_length"
    "field_state h_transfer_encoding" "field_state h_upgrade" "field_state h_CO" "field_state h_CON"
    "field_state h_matching_connection" "field_state h_matching_content_length"
    by (simp_all add: field_state_def)
  show ?thesis
    using assms gen sk match_field_ok [of _ ps]
    by (cases "hp_header_state ps")
      (simp_all add: header_field_char_def Let_def field_frame_refl, simp_all add: field_state_def)
qed

lemma header_field_loop_ok:
  assumes "field_state (hp_header_state ps)" "p \<le> length (e_data env)"
  shows "\<exists>p' ps'. header_field_loop env p ps = Some (p', ps') \<and> p \<le> p' \<and> p' \<le> length (e_data env) \<and>
    field_frame ps ps' \<and> field_state (hp_header_state ps')"
  using assms
proof (induction env p ps rule: header_field_loop.induct)
  case (1 env p ps)
  show ?case
  proof (cases "length (e_data env) \<le> p \<or> TOKEN (e_data env ! p) = NUL")
    case True
    with "1.prems" show ?thesis
      by (subst header_field_loop.simps) (auto simp: Let_def field_frame_refl)
  next
    case False
    let ?ch = "e_data env ! p"
    from False have p: "p < length (e_data env)" by simp
    from header_field_char_ok [OF "1.prems"(1) p, of ?ch "TOKEN ?ch"] obtain p1 ps1 where
      c: "header_field_char env p ?ch (TOKEN ?ch) ps = Some (p1, ps1)" "p \<le> p1" "p1 < length (e_data env)"
        "field_frame ps ps1" "field_state (hp_header_state ps1)" by blast
    have "header_field_loop env p ps = header_field_loop env (p1 + 1) ps1"
      using False c(1) by (subst header_field_loop.simps) (simp add: Let_def)
    moreover from "1.IH" [OF _ refl refl _ c(1) refl c(5)] False c(3) obtain p2 ps2 where
      "header_field_loop env (p1 + 1) ps1 = Some (p2, ps2)" "p1 + 1 \<le> p2" "p2 \<le> length (e_data env)"
      "field_frame ps1 ps2" "field_state (hp_header_state ps2)" by auto
    ultimately show ?thesis using c(2,4) field_frame_trans by fastforce
  qed
qed

lemma exec_header_field_ok:
  assumes "sw_inv env x" "x_state x = s_header_field"
  shows "out_ok env (x_p x) r (exec_header_field env x)"
proof -
  have f: "field_state (hp_header_state (x_parser x))" and P: "pre_body (x_parser x)"
    and p: "x_p x < length (e_data env)" and m: "mark_ok s_header_field (x_p x) (x_mark x)"
    and rest: "hp_errno (x_parser x) = HPE_OK" "hp_nread (x_parser x) \<le> e_max env" "settings_ok (e_settings env)"
    using assms by (simp_all add: step_simps)
  from header_field_loop_ok [OF f less_imp_le [OF p]] obtain q ps where
    l: "header_field_loop env (x_p x) (x_parser x) = Some (q, ps)" and q: "x_p x \<le> q" "q \<le> length (e_data env)"
    and fr: "field_frame (x_parser x) ps" and f': "field_state (hp_header_state ps)" by blast
  have ps: "hp_errno ps = HPE_OK" "hp_nread ps \<le> e_max env" "pre_body ps"
    using field_frameD [OF fr] rest P by simp_all
  show ?thesis
  proof (cases "q = length (e_data env)")
    case True
    have "mark_ok s_header_field (q - 1) (x_mark x)" using mark_ok_same [OF m, of "q - 1"] p True by simp
    with l True ps f' p assms(2) show ?thesis
      by (auto simp: exec_header_field_def exec_inv_def st_inv_def fresh_def intro!: out_ok_COUNT)
  next
    case False
    from mark_ok_clear [OF m, of For_header_field]
    have "(x_mark x)(For_header_field := None) = (\<lambda>d. None)" by simp
    moreover have "\<And>j. x_mark x For_header_field = Some j \<Longrightarrow> j \<le> q"
      using mark_okD [OF m] q(1) le_trans by blast
    ultimately show ?thesis using l False ps q rest
      by (auto simp: exec_header_field_def exec_inv_def st_inv_def fresh_def
          intro!: out_ok_COUNT data_BreakI)
  qed
qed

lemma exec_header_value_start_ok:
  assumes "sw_inv env x" "x_state x = s_header_value_start \<or> x_state x = s_header_value_discard_ws"
  shows "out_ok env (x_p x) r (exec_header_value_start x)"
proof -
  have P: "pre_body (x_parser x)" and p: "x_p x < length (e_data env)" and m: "x_mark x = (\<lambda>d. None)"
    and rest: "hp_errno (x_parser x) = HPE_OK" "hp_nread (x_parser x) \<le> e_max env" "x_nread x \<le> e_max env"
    using assms by (auto simp: step_simps)
  have [simp]: "has_flag F_CONTENTLENGTH F_CONTENTLENGTH"
    by (simp add: has_flag_def flag_defs)
  have v: "value_state (header_value_start_state c hs) ps" if "hs \<noteq> h_content_length" for c hs and ps :: "'b http_parser"
    using that by (cases hs) (simp_all add: value_state_def header_value_start_state_def)
  have v2: "header_value_start_state c h_content_length = h_content_length_num" for c
    by (simp add: header_value_start_state_def)
  show ?thesis
    using P p m rest v
    by (auto simp: exec_header_value_start_def Let_def exec_inv_def st_inv_def fresh_def mark_MARK pre_body_def
        v2 value_state_def)
qed

lemma exec_header_value_discard_ws_ok:
  assumes "sw_inv env x" "x_state x = s_header_value_discard_ws"
  shows "out_ok env (x_p x) r (exec_header_value_discard_ws x)"
  using assms exec_header_value_start_ok [OF assms(1), of r]
  by (auto simp: exec_header_value_discard_ws_def step_simps)

text \<open>The loop over a value: what it keeps.\<close>

definition value_inv :: "'a http_parser \<Rightarrow> header_states \<Rightarrow> 'a http_parser \<Rightarrow> bool" where
  "value_inv ps0 hs ps \<longleftrightarrow>
     value_state hs ps \<and> pre_body ps \<and> hp_errno ps = hp_errno ps0 \<and> hp_nread ps = hp_nread ps0"

definition hv_ok :: "'a hp_env \<Rightarrow> nat \<Rightarrow> 'a http_parser \<Rightarrow> 'a hv_result \<Rightarrow> bool" where
  "hv_ok env p ps0 res =
     (case res of
        HV_next p' ps' hs' \<Rightarrow> p \<le> p' \<and> p' < length (e_data env) \<and> value_inv ps0 hs' ps'
      | HV_error e p' ps' \<Rightarrow> e \<notin> {HPE_OK, HPE_PAUSED} \<and> p' \<le> length (e_data env)
      | HV_abort \<Rightarrow> False)"

lemma value_inv_upd:
  assumes "value_inv ps0 hs ps"
  shows "value_inv ps0 hs (ps\<lparr>hp_index := i\<rparr>)" "value_inv ps0 hs (ps\<lparr>hp_flags := hp_flags ps OR f\<rparr>)"
    and "has_flag (hp_flags ps) F_CONTENTLENGTH \<Longrightarrow> value_inv ps0 hs (ps\<lparr>hp_content_length := l\<rparr>)"
  using assms by (auto simp: value_inv_def value_state_def pre_body_def)

lemma value_inv_state:
  assumes "value_inv ps0 hs ps"
    and "hs' \<notin> {h_connection, h_transfer_encoding, h_content_length, h_content_length_num}"
  shows "value_inv ps0 hs' ps"
  using assms by (auto simp: value_inv_def value_state_def)

lemma hv_match_ok:
  assumes "value_inv ps0 hs ps" "p < length (e_data env)"
    and "found \<notin> {h_connection, h_transfer_encoding, h_content_length, h_content_length_num}"
    and "other \<notin> {h_connection, h_transfer_encoding, h_content_length, h_content_length_num}"
  shows "hv_ok env p ps0 (hv_match name found other p c ps hs)"
  using assms value_inv_upd(1) [OF assms(1)]
  by (auto simp: hv_match_def hv_ok_def Let_def intro: value_inv_state split: match_result.split)

lemma hv_general_ok:
  assumes "value_inv ps0 h_general ps" "p < length (e_data env)" "e_data env ! p \<notin> {CR, LF}"
  shows "hv_ok env p ps0 (hv_general env p ps)"
proof (cases "hv_general env p ps")
  case (HV_next p' ps' hs')
  with hv_general_ge [OF this assms(2)] assms show ?thesis
    by (auto simp: hv_ok_def hv_general_def split: sum.splits)
next
  case (HV_error e p' ps')
  let ?pe = "p + min (length (e_data env) - p) (unat (e_max env))"
  from HV_error have "general_value_loop env ?pe p = Inl p'" "e = HPE_INVALID_HEADER_TOKEN"
    by (auto simp: hv_general_def split: sum.splits)
  moreover have "?pe \<le> length (e_data env)" using assms(2) by simp
  ultimately show ?thesis
    using general_value_loop_le(2) [of env ?pe p p'] HV_error by (simp add: hv_ok_def)
qed (auto simp: hv_general_def split: sum.splits)

lemma header_value_char_ok:
  assumes I: "value_inv ps0 hs ps" and p: "p < length (e_data env)" and ch: "e_data env ! p \<notin> {CR, LF}"
  shows "hv_ok env p ps0 (header_value_char env p ch c ps hs)"
proof -
  have num: "hv_ok env p ps0 (hv_content_length_num p ch ps)" if "hs = h_content_length_num"
    using I p that value_inv_upd(3) [OF I]
    by (auto simp: hv_content_length_num_def hv_ok_def Let_def value_inv_def value_state_def pre_body_def)
  have tok: "hv_ok env p ps0 (hv_token_start p c ps)"
    using I p by (auto simp: hv_token_start_def hv_ok_def intro: value_inv_state)
  have don: "hv_ok env p ps0 (hv_connection_done f p ch ps hs)" for f
    using I p value_inv_upd(1) [OF value_inv_upd(2) [OF I]]
    by (auto simp: hv_connection_done_def hv_ok_def intro: value_inv_state)
  have ne: "hs \<notin> {h_connection, h_transfer_encoding, h_content_length}"
    using I by (auto simp: value_inv_def value_state_def)
  have next_ok: "hv_ok env p ps0 (HV_next p ps hs')"
    if "hs' \<notin> {h_connection, h_transfer_encoding, h_content_length, h_content_length_num}" for hs'
    using I p that by (auto simp: hv_ok_def intro: value_inv_state)
  have idx: "hv_ok env p ps0 (HV_next p (ps\<lparr>hp_index := 0\<rparr>) h_matching_connection_token_start)"
    using value_inv_upd(1) [OF I, of 0] p by (auto simp: hv_ok_def intro: value_inv_state)
  have err: "hv_ok env p ps0 (HV_error HPE_INVALID_CONTENT_LENGTH p ps')" for ps'
    using p by (simp add: hv_ok_def)
  show ?thesis
    using I ne num tok don next_ok idx err hv_match_ok [OF I p] hv_general_ok [OF _ p ch]
    by (cases hs) (simp_all add: header_value_char_def)
qed

definition hvx_ok :: "'a hp_env \<Rightarrow> nat \<Rightarrow> 'a http_parser \<Rightarrow> 'a hv_exit \<Rightarrow> bool" where
  "hvx_ok env p ps0 res =
     (case res of
        HVX_end p' ps' hs' \<Rightarrow> p' = length (e_data env) \<and> value_inv ps0 hs' ps'
      | HVX_CR p' ps' hs' \<Rightarrow> p \<le> p' \<and> p' < length (e_data env) \<and> value_inv ps0 hs' ps'
      | HVX_LF p' ps' hs' \<Rightarrow> p \<le> p' \<and> p' < length (e_data env) \<and> value_inv ps0 hs' ps'
      | HVX_error e p' ps' \<Rightarrow> e \<notin> {HPE_OK, HPE_PAUSED} \<and> p' \<le> length (e_data env)
      | HVX_abort \<Rightarrow> False)"

lemma hvx_ok_mono: "hvx_ok env q ps0 res \<Longrightarrow> p \<le> q \<Longrightarrow> hvx_ok env p ps0 res"
  by (auto simp: hvx_ok_def split: hv_exit.splits)

lemma header_value_loop_ok:
  assumes "value_inv ps0 hs ps" "p \<le> length (e_data env)"
  shows "hvx_ok env p ps0 (header_value_loop env p ps hs)"
  using assms
proof (induction env p ps hs rule: header_value_loop.induct)
  case (1 env p ps hs)
  let ?ch = "e_data env ! p"
  show ?case
  proof (cases "length (e_data env) \<le> p \<or> ?ch \<in> {CR, LF} \<or> bad_header_char env ?ch")
    case True
    with "1.prems" show ?thesis by (subst header_value_loop.simps) (auto simp: Let_def hvx_ok_def)
  next
    case False
    then have p: "p < length (e_data env)" and ch: "?ch \<notin> {CR, LF}" by auto
    note c = header_value_char_ok [OF "1.prems"(1) p ch, of ?ch "LOWER ?ch"]
    show ?thesis
    proof (cases "header_value_char env p ?ch (LOWER ?ch) ps hs")
      case (HV_next p' ps' hs')
      with c have "p \<le> p'" "p' < length (e_data env)" "value_inv ps0 hs' ps'" by (auto simp: hv_ok_def)
      with "1.IH" [OF _ refl _ _ _ HV_next] False have "hvx_ok env (p' + 1) ps0 (header_value_loop env (p' + 1) ps' hs')"
        by auto
      moreover have "header_value_loop env p ps hs = header_value_loop env (p' + 1) ps' hs'"
        using False HV_next by (subst header_value_loop.simps) (simp add: Let_def)
      ultimately show ?thesis using hvx_ok_mono [of env "p' + 1" ps0 _ p] \<open>p \<le> p'\<close> by simp
    next
      case (HV_error e p' ps')
      with c False show ?thesis
        by (subst header_value_loop.simps) (auto simp: Let_def hvx_ok_def hv_ok_def)
    next
      case HV_abort
      with c show ?thesis by (simp add: hv_ok_def)
    qed
  qed
qed

lemma exec_header_value_ok:
  assumes "sw_inv env x" "x_state x = s_header_value"
  shows "out_ok env (x_p x) 1 (exec_header_value env x)"
proof -
  let ?ps = "x_parser x"
  have I: "value_inv ?ps (hp_header_state ?ps) ?ps"
    and p: "x_p x < length (e_data env)" and m: "mark_ok s_header_value (x_p x) (x_mark x)"
    and rest: "hp_errno ?ps = HPE_OK" "hp_nread ?ps \<le> e_max env" "x_nread x \<le> e_max env"
      "settings_ok (e_settings env)"
    using assms by (simp_all add: sw_inv_def exec_inv_def st_inv_def before_body_def value_inv_def)
  note l = header_value_loop_ok [OF I less_imp_le [OF p]]
  have V: "hp_errno (ps\<lparr>hp_header_state := hs\<rparr>) = HPE_OK" "hp_nread (ps\<lparr>hp_header_state := hs\<rparr>) \<le> e_max env"
      "pre_body (ps\<lparr>hp_header_state := hs\<rparr>)" "value_state hs (ps\<lparr>hp_header_state := hs\<rparr>)"
    if "value_inv ?ps hs ps" for hs ps
    using that rest by (simp_all add: value_inv_def pre_body_def value_state_def)
  have E: "hp_errno ps = HPE_OK" "hp_nread ps \<le> e_max env" "pre_body ps" if "value_inv ?ps hs ps" for hs ps
    using that rest by (simp_all add: value_inv_def)
  from mark_ok_clear [OF m, of For_header_value] have clr: "(x_mark x)(For_header_value := None) = (\<lambda>d. None)"
    by simp
  have mq: "j \<le> q" if "x_mark x For_header_value = Some j" "x_p x \<le> q" for j q
    using mark_okD [OF m that(1)] that(2) by simp
  show ?thesis
  proof (cases "header_value_loop env (x_p x) ?ps (hp_header_state ?ps)")
    case (HVX_end q ps hs)
    with l have q: "q = length (e_data env)" and v: "value_inv ?ps hs ps" by (auto simp: hvx_ok_def)
    have "mark_ok s_header_value (length (e_data env) - 1) (x_mark x)"
      using mark_ok_same [OF m, of "length (e_data env) - 1"] p by simp
    with HVX_end q V [OF v] p assms(2) show ?thesis
      by (auto simp: exec_header_value_def Let_def exec_inv_def st_inv_def fresh_def intro!: out_ok_COUNT)
  next
    case (HVX_CR q ps hs)
    with l have q: "x_p x \<le> q" "q < length (e_data env)" and v: "value_inv ?ps hs ps" by (auto simp: hvx_ok_def)
    let ?x = "on_parser (\<lambda>ps. ps\<lparr>hp_header_state := hs\<rparr>)
      (UPDATE_STATE s_header_almost_done (x\<lparr>x_p := q, x_ch := CR, x_parser := ps\<rparr>))"
    have K: "out_ok env (x_p x) 1 (COUNT_HEADER_SIZE env (x_p x' - x_p x)
        (on_parser (\<lambda>ps. ps\<lparr>hp_header_state := hs\<rparr>) x') Break)"
      if sim: "cb_sim (clear_mark For_header_value ?x) x'" for x'
    proof -
      obtain s d where "x' = (clear_mark For_header_value ?x)\<lparr>x_parser := (ps\<lparr>hp_header_state := hs\<rparr>)\<lparr>hp_state := s, hp_data := d\<rparr>\<rparr>"
        using sim by (auto simp: cb_sim_def)
      with q V [OF v] clr show ?thesis
        by (auto simp: exec_inv_def st_inv_def fresh_def pre_body_def intro!: out_ok_COUNT)
    qed
    have "out_ok env (x_p x) 1 (CALLBACK_DATA env For_header_value ?x
        (\<lambda>x'. COUNT_HEADER_SIZE env (x_p x' - x_p x) (on_parser (\<lambda>ps. ps\<lparr>hp_header_state := hs\<rparr>) x') Break))"
      unfolding CALLBACK_DATA_def
      using q V [OF v] rest clr mq K
      by (intro data_rule) (auto simp: exec_inv_def st_inv_def fresh_def)
    with HVX_CR show ?thesis by (simp add: exec_header_value_def Let_def)
  next
    case (HVX_LF q ps hs)
    with l have q: "x_p x \<le> q" "q < length (e_data env)" and v: "value_inv ?ps hs ps" by (auto simp: hvx_ok_def)
    with HVX_LF V [OF v] rest clr mq show ?thesis
      by (auto simp: exec_header_value_def Let_def exec_inv_def st_inv_def CALLBACK_DATA_NOADVANCE_def
          state_rank_def intro!: out_ok_COUNT data_ReexecuteI)
  next
    case (HVX_error e q ps)
    with l show ?thesis by (auto simp: exec_header_value_def Let_def hvx_ok_def)
  next
    case HVX_abort
    with l show ?thesis by (simp add: hvx_ok_def)
  qed
qed

lemma finish_header_simps [simp]:
  "x_p (finish_header x) = x_p x" "x_ch (finish_header x) = x_ch x" "x_state (finish_header x) = x_state x"
  "x_nread (finish_header x) = x_nread x" "x_mark (finish_header x) = x_mark x"
  "hp_errno (x_parser (finish_header x)) = hp_errno (x_parser x)"
  "hp_nread (x_parser (finish_header x)) = hp_nread (x_parser x)"
  by (simp_all add: finish_header_def)

lemma finish_header_pre_body: "pre_body (x_parser x) \<Longrightarrow> pre_body (x_parser (finish_header x))"
  by (auto simp: finish_header_def pre_body_def)

lemma exec_header_value_lws_ok:
  assumes "sw_inv env x" "x_state x = s_header_value_lws"
  shows "out_ok env (x_p x) 3 (exec_header_value_lws x)"
proof -
  have "pre_body (x_parser x)" using assms by (simp add: step_simps)
  with assms finish_header_pre_body [OF this] show ?thesis
    by (auto simp: exec_header_value_lws_def sw_inv_def exec_inv_def st_inv_def no_marks_simps
        url_mark_state_def state_rank_def pre_body_def)
qed

lemma exec_header_value_discard_lws_ok:
  assumes "sw_inv env x" "x_state x = s_header_value_discard_lws"
  shows "out_ok env (x_p x) 3 (exec_header_value_discard_lws env x)"
proof -
  have P: "pre_body (x_parser x)" "x_mark x = (\<lambda>d. None)" using assms by (simp_all add: step_simps)
  then have "x_mark (MARK For_header_value (finish_header x)) = (\<lambda>d. None)(For_header_value := Some (x_p x))"
    by (simp add: mark_MARK)
  with assms P finish_header_pre_body [OF P(1)] show ?thesis
    by (auto simp: exec_header_value_discard_lws_def sw_inv_def exec_inv_def st_inv_def fresh_def no_marks_simps
        url_mark_state_def state_rank_def CALLBACK_DATA_NOADVANCE_def intro!: data_ReexecuteI)
qed

lemma headers_complete_ok:
  assumes "exec_inv env x" "x_state x = s_headers_done" "x_p x < length (e_data env)" "p0 \<le> x_p x"
    and "settings_ok (e_settings env)" "0 < r"
  shows "out_ok env p0 r (headers_complete env x)"
proof -
  have fin: "out_ok env p0 r (if hp_errno (x_parser y) \<noteq> HPE_OK then RETURN (x_p y) y else Reexecute y)"
    if y: "y = x\<lparr>x_parser := (x_parser x)\<lparr>hp_data := d, hp_errno := e, hp_flags := hp_flags (x_parser x) OR f,
        hp_upgrade := up\<rparr>\<rparr>" and e: "e = HPE_OK \<or> e = HPE_PAUSED" and f: "f = 0 \<or> f = F_SKIPBODY" for y d e f up
  proof -
    have "\<not> has_flag f F_CHUNKED" "\<not> has_flag f F_CONTENTLENGTH" "\<not> has_flag f F_TRAILING"
      using f by (auto simp: has_flag_def flag_defs)
    with assms y e show ?thesis
      by (auto simp:  exec_inv_def st_inv_def before_body_def pre_body_def RETURN_def return_ok_def parser_wf_def
          state_rank_def)
  qed
  show ?thesis
  proof (cases "on_headers_complete (e_settings env)")
    case None
    have "x = x\<lparr>x_parser := (x_parser x)\<lparr>hp_data := hp_data (x_parser x), hp_errno := HPE_OK,
        hp_flags := hp_flags (x_parser x) OR 0, hp_upgrade := hp_upgrade (x_parser x)\<rparr>\<rparr>"
      using assms(1) by (simp add: exec_inv_def)
    from fin [OF this] None show ?thesis by (simp add: headers_complete_def Let_def)
  next
    case (Some g)
    have "notify_ok (Some g)" using settings_okD(2) [OF assms(5)] Some by simp
    then have "cb_frame (x_parser x) (snd (g (x_parser x)))" by (simp add: notify_ok_def)
    then obtain d e where r: "snd (g (x_parser x)) = (x_parser x)\<lparr>hp_data := d, hp_errno := e\<rparr>"
      and e: "e = HPE_OK \<or> e = HPE_PAUSED"
      using assms(1) by (auto simp: cb_frame_def exec_inv_def)
    let ?rc = "fst (g (x_parser x))"
    consider "?rc = 0" | "?rc = 2" | "?rc = 1" | "?rc \<notin> {0, 1, 2}" by blast
    then show ?thesis
    proof cases
      case 1
      have "x\<lparr>x_parser := snd (g (x_parser x))\<rparr> = x\<lparr>x_parser := (x_parser x)\<lparr>hp_data := d, hp_errno := e,
          hp_flags := hp_flags (x_parser x) OR 0, hp_upgrade := hp_upgrade (x_parser x)\<rparr>\<rparr>"
        using r by simp
      from fin [OF this e] Some 1 show ?thesis by (simp add: headers_complete_def Let_def)
    next
      case 2
      have "on_parser (\<lambda>ps. ps\<lparr>hp_flags := hp_flags ps OR F_SKIPBODY\<rparr>)
          (on_parser (\<lambda>ps. ps\<lparr>hp_upgrade := True\<rparr>) (x\<lparr>x_parser := snd (g (x_parser x))\<rparr>)) =
        x\<lparr>x_parser := (x_parser x)\<lparr>hp_data := d, hp_errno := e,
          hp_flags := hp_flags (x_parser x) OR F_SKIPBODY, hp_upgrade := True\<rparr>\<rparr>"
        using r by (simp add: on_parser_def)
      from fin [OF this e] Some 2 show ?thesis by (simp add: headers_complete_def Let_def)
    next
      case 3
      have "on_parser (\<lambda>ps. ps\<lparr>hp_flags := hp_flags ps OR F_SKIPBODY\<rparr>) (x\<lparr>x_parser := snd (g (x_parser x))\<rparr>) =
        x\<lparr>x_parser := (x_parser x)\<lparr>hp_data := d, hp_errno := e,
          hp_flags := hp_flags (x_parser x) OR F_SKIPBODY, hp_upgrade := hp_upgrade (x_parser x)\<rparr>\<rparr>"
        using r by (simp add: on_parser_def)
      from fin [OF this e] Some 3 show ?thesis by (simp add: headers_complete_def Let_def)
    next
      case 4
      with Some assms(3) show ?thesis
        by (auto simp: headers_complete_def Let_def RETURN_def SET_ERRNO_def set_errno_def return_ok_def parser_wf_def)
    qed
  qed
qed

lemma exec_headers_almost_done_ok:
  assumes "sw_inv env x" "x_state x = s_headers_almost_done"
  shows "out_ok env (x_p x) 1 (exec_headers_almost_done env x)"
proof -
  have P: "pre_body (x_parser x)" "x_mark x = (\<lambda>d. None)" using assms by (simp_all add: step_simps)
  then have "pre_body ((x_parser x)\<lparr>hp_upgrade := u\<rparr>)" for u by (simp add: pre_body_def)
  with P assms show ?thesis
    by (auto simp: exec_headers_almost_done_def sw_inv_def exec_inv_def st_inv_def before_body_def state_rank_def
        intro!: notify_ReexecuteI headers_complete_ok)
qed

lemma st_inv_new_message: "st_inv (NEW_MESSAGE ps) ps'" "NEW_MESSAGE ps \<noteq> s_chunk_size_start"
  by (auto simp: NEW_MESSAGE_def start_state_def st_inv_def before_body_def)

lemma message_complete_BreakI:
  assumes "hp_errno (x_parser x) = HPE_OK" "x_mark x = (\<lambda>d. None)" "x_nread x \<le> e_max env"
    "hp_nread (x_parser x) \<le> e_max env" "settings_ok (e_settings env)" "p0 \<le> x_p x" "x_p x < length (e_data env)"
  shows "out_ok env p0 r (message_complete env x Break)"
  unfolding message_complete_def using assms
  by (intro notify_BreakI) (auto simp: exec_inv_def fresh_def st_inv_new_message)

lemma message_complete_RETURN:
  assumes "hp_errno (x_parser x) = HPE_OK" "x_mark x = (\<lambda>d. None)" "x_nread x \<le> e_max env"
    "hp_nread (x_parser x) \<le> e_max env" "settings_ok (e_settings env)" "p0 \<le> x_p x" "x_p x < length (e_data env)"
    and "\<And>x'. b x' \<Longrightarrow> hp_upgrade (x_parser x')"
  shows "out_ok env p0 r (message_complete env x (\<lambda>x. if b x then RETURN (x_p x + 1) x else Break x))"
proof -
  let ?x = "UPDATE_STATE (NEW_MESSAGE (x_parser x)) x"
  have I: "exec_inv env ?x" "fresh ?x" using assms by (auto simp: exec_inv_def fresh_def st_inv_new_message)
  show ?thesis
    unfolding message_complete_def CALLBACK_NOTIFY_def
  proof (rule notify_rule [OF I])
    fix x' assume sim: "cb_sim ?x x'"
    show "out_ok env p0 r (if b x' then RETURN (x_p x' + 1) x' else Break x')"
      using cb_simD [OF sim] I assms by (auto intro!: RETURN_ok)
  qed (use assms in auto)
qed

lemma exec_message_done_ok:
  assumes "sw_inv env x" "x_state x = s_message_done"
  shows "out_ok env (x_p x) r (exec_message_done env x)"
  unfolding exec_message_done_def using assms
  by (intro message_complete_RETURN) (auto simp: step_simps)

lemma reset_nread_simps [simp]:
  "x_parser (reset_nread x) = (x_parser x)\<lparr>hp_nread := 0\<rparr>" "x_p (reset_nread x) = x_p x"
  "x_ch (reset_nread x) = x_ch x" "x_state (reset_nread x) = x_state x"
  "x_nread (reset_nread x) = 0" "x_mark (reset_nread x) = x_mark x"
  by (simp_all add: reset_nread_def)

lemma exec_headers_done_ok:
  assumes "sw_inv env x" "x_state x = s_headers_done"
  shows "out_ok env (x_p x) r (exec_headers_done env x)"
proof -
  let ?x = "reset_nread x" and ?ps = "x_parser (reset_nread x)"
  have facts: "x_mark x = (\<lambda>d. None)" "hp_errno (x_parser x) = HPE_OK" "x_p x < length (e_data env)"
    "settings_ok (e_settings env)"
    "\<not> (has_flag (hp_flags (x_parser x)) F_CHUNKED \<and> has_flag (hp_flags (x_parser x)) F_CONTENTLENGTH)"
    using assms by (simp_all add: step_simps)
  have br: "out_ok env (x_p x) r (message_complete env ?x Break)"
    using facts by (intro message_complete_BreakI) simp_all
  have up: "out_ok env (x_p x) r (message_complete env ?x (\<lambda>x. RETURN (x_p x + 1) x))" if "hp_upgrade ?ps"
  proof -
    have "exec_inv env (UPDATE_STATE (NEW_MESSAGE ?ps) ?x)" "fresh (UPDATE_STATE (NEW_MESSAGE ?ps) ?x)"
      using facts by (auto simp: exec_inv_def fresh_def st_inv_new_message)
    with facts that show ?thesis
      unfolding message_complete_def CALLBACK_NOTIFY_def
      by (intro notify_rule) (auto intro!: RETURN_ok simp: cb_simD)
  qed
  show ?thesis
    using facts br up
    by (auto simp: exec_headers_done_def Let_def exec_inv_def st_inv_def fresh_def before_body_def in_chunk_def)
qed

text \<open>Taking bytes of a body.\<close>

lemma take_body_ok:
  assumes "exec_inv env x" "x_p x < length (e_data env)" "body_length_ok x" "mark_state For_body (x_state x)"
  defines "y \<equiv> take_body env x"
  shows "x_p x \<le> x_p y" "x_p y < length (e_data env)" "x_state y = x_state x" "x_nread y = x_nread x"
    "hp_content_length (x_parser y) \<noteq> ULLONG_MAX"
    "hp_flags (x_parser y) = hp_flags (x_parser x)" "hp_errno (x_parser y) = hp_errno (x_parser x)"
    "hp_nread (x_parser y) = hp_nread (x_parser x)"
    "mark_ok (x_state x) (x_p y) (x_mark y)"
proof -
  let ?cl = "hp_content_length (x_parser x)"
  let ?n = "min (unat ?cl) (length (e_data env) - x_p x)"
  have cl: "?cl \<noteq> 0" "?cl \<noteq> ULLONG_MAX" using assms(3) by (simp_all add: body_length_ok_def)
  then have pos: "0 < unat ?cl" by (simp add: unat_gt_0)
  have p: "x_p y = x_p x + ?n - 1" by (simp add: y_def take_body_def Let_def)
  show "x_p x \<le> x_p y" "x_p y < length (e_data env)" using p pos assms(2) by auto
  show "x_state y = x_state x" "x_nread y = x_nread x"
    "hp_flags (x_parser y) = hp_flags (x_parser x)" "hp_errno (x_parser y) = hp_errno (x_parser x)"
    "hp_nread (x_parser y) = hp_nread (x_parser x)"
    by (simp_all add: y_def take_body_def Let_def)
  have "unat (of_nat ?n :: u64) \<le> ?n" by (rule unat_of_nat_le)
  then have "(of_nat ?n :: u64) \<le> ?cl" by (simp add: word_le_nat_alt)
  then have "?cl - of_nat ?n \<le> ?cl" by (simp add: word_le_nat_alt unat_sub)
  moreover have "?cl < ULLONG_MAX"
    using cl(2) unfolding ULLONG_MAX_def by (simp only: word_order.not_eq_extremum)
  moreover have "hp_content_length (x_parser y) = ?cl - of_nat ?n"
    by (simp add: y_def take_body_def Let_def)
  ultimately show "hp_content_length (x_parser y) \<noteq> ULLONG_MAX" by auto
  have "x_mark y = x_mark (MARK For_body x)" by (simp add: y_def take_body_def Let_def)
  with mark_ok_MARK [of "x_state x" x For_body "x_p y"] assms(1,4) \<open>x_p x \<le> x_p y\<close>
  show "mark_ok (x_state x) (x_p y) (x_mark y)" by (simp add: exec_inv_def)
qed

lemma exec_body_identity_ok:
  assumes "sw_inv env x" "x_state x = s_body_identity"
  shows "out_ok env (x_p x) 1 (exec_body_identity env x)"
proof -
  have I: "exec_inv env x" "x_p x < length (e_data env)" and b: "body_length_ok x"
    and m: "mark_state For_body (x_state x)" and S: "settings_ok (e_settings env)"
    and c: "\<not> has_flag (hp_flags (x_parser x)) F_CHUNKED"
    using assms by (simp_all add: sw_inv_def exec_inv_def st_inv_def body_length_ok_def)
  note t = take_body_ok [OF I b m]
  let ?y = "take_body env x"
  have fl: "hp_flags (x_parser ?y) = hp_flags (x_parser x)" "hp_errno (x_parser ?y) = HPE_OK"
    "hp_nread (x_parser ?y) \<le> e_max env" "x_nread ?y \<le> e_max env"
    using t(4,6,7,8) I(1) by (simp_all add: exec_inv_def)
  have clr: "(x_mark ?y)(For_body := None) = (\<lambda>d. None)" using mark_ok_clear [OF t(9) m] .
  have j: "j \<le> Suc (x_p ?y)" if "x_mark ?y For_body = Some j" for j
    using mark_okD [OF t(9) that] by simp
  show ?thesis
    using t fl clr j b c S assms(2)
    by (auto simp: exec_body_identity_def Let_def exec_inv_def st_inv_def fresh_def before_body_def state_rank_def
        intro!: data_ReexecuteI)
qed

lemma exec_body_identity_eof_ok:
  assumes "sw_inv env x" "x_state x = s_body_identity_eof"
  shows "out_ok env (x_p x) r (exec_body_identity_eof env x)"
  using assms mark_ok_MARK [of s_body_identity_eof x For_body "length (e_data env) - 1"]
  by (auto simp: exec_body_identity_eof_def sw_inv_def exec_inv_def st_inv_def fresh_def)

lemma unhex_range: "unhex ! of_char c = -1 \<or> (0 \<le> unhex ! of_char c \<and> unhex ! of_char c \<le> 15)"
proof -
  have "\<forall>v \<in> set unhex. v = -1 \<or> (0 \<le> v \<and> v \<le> 15)" by (simp add: unhex_def)
  moreover have "of_char c < length unhex" by (simp add: unhex_def)
  ultimately show ?thesis using nth_mem by blast
qed

lemma unat_of_unhex:
  "0 \<le> v \<Longrightarrow> v \<le> 15 \<Longrightarrow> unat (of_int v :: u64) = nat v"
  by (simp add: unsigned_of_int take_bit_int_eq_self)

lemma chunk_size_value:
  assumes "\<not> (ULLONG_MAX - 16) div 16 < (cl :: u64)" "0 \<le> v" "v \<le> 15"
  shows "unat (cl * 16 + of_int v) = unat cl * 16 + nat v" and "cl * 16 + of_int v \<noteq> ULLONG_MAX"
proof -
  have "unat cl \<le> 1152921504606846974"
    using assms(1) by (simp add: ULLONG_MAX_def word_less_nat_alt)
  moreover have "unat (of_int v :: u64) = nat v" by (rule unat_of_unhex [OF assms(2,3)])
  moreover have "nat v \<le> 15" using assms(3) by simp
  ultimately show u: "unat (cl * 16 + of_int v) = unat cl * 16 + nat v"
    by (simp add: unat_word_ariths mod_simps)
  show "cl * 16 + of_int v \<noteq> ULLONG_MAX"
  proof
    assume "cl * 16 + of_int v = ULLONG_MAX"
    then have "unat cl * 16 + nat v = 2 ^ 64 - 1" using u by (simp add: ULLONG_MAX_def unsigned_minus_1_eq_mask mask_eq_exp_minus_1)
    with \<open>unat cl \<le> 1152921504606846974\<close> \<open>nat v \<le> 15\<close> show False by simp
  qed
qed

lemma exec_chunk_size_start_ok:
  assumes "sw_inv env x" "x_state x = s_chunk_size_start" "x_nread x = 1"
  shows "out_ok env (x_p x) r (exec_chunk_size_start x)"
proof -
  have "of_int v \<noteq> ULLONG_MAX" if "0 \<le> v" "v \<le> 15" for v
    using chunk_size_value(2) [of 0 v] that by simp
  with assms unhex_range [of "x_ch x"] show ?thesis
    by (auto simp: exec_chunk_size_start_def Let_def step_simps is_chunked_def in_chunk_def)
qed

lemma exec_chunk_size_ok:
  assumes "sw_inv env x" "x_state x = s_chunk_size"
  shows "out_ok env (x_p x) r (exec_chunk_size x)"
  using assms unhex_range [of "x_ch x"] chunk_size_value(2) [of "hp_content_length (x_parser x)" "unhex ! of_char (x_ch x)"]
  by (auto simp: exec_chunk_size_def Let_def step_simps is_chunked_def in_chunk_def)

lemma exec_chunk_parameters_ok:
  "sw_inv env x \<Longrightarrow> x_state x = s_chunk_parameters \<Longrightarrow> out_ok env (x_p x) r (exec_chunk_parameters x)"
  by (auto simp: exec_chunk_parameters_def step_simps is_chunked_def in_chunk_def)

lemma exec_chunk_size_almost_done_ok:
  assumes "sw_inv env x" "x_state x = s_chunk_size_almost_done"
  shows "out_ok env (x_p x) r (exec_chunk_size_almost_done env x)"
proof -
  have "has_flag F_TRAILING F_TRAILING" by (simp add: has_flag_def flag_defs)
  with assms show ?thesis
    by (auto simp: exec_chunk_size_almost_done_def step_simps is_chunked_def in_chunk_def Let_def
        intro!: notify_BreakI)
qed

lemma exec_chunk_data_ok:
  assumes "sw_inv env x" "x_state x = s_chunk_data"
  shows "out_ok env (x_p x) r (exec_chunk_data env x)"
proof -
  have I: "exec_inv env x" "x_p x < length (e_data env)" and b: "body_length_ok x"
    and m: "mark_state For_body (x_state x)" and c: "in_chunk (x_parser x)"
    using assms by (simp_all add: sw_inv_def exec_inv_def st_inv_def body_length_ok_def)
  note t = take_body_ok [OF I b m]
  have "mark_ok s_chunk_data_almost_done (x_p (take_body env x)) (x_mark (take_body env x))"
    using mark_ok_switch [OF t(9) m] by simp
  with t b c I assms(2) show ?thesis
    by (auto simp: exec_chunk_data_def Let_def exec_inv_def st_inv_def fresh_def before_body_def is_chunked_def
        in_chunk_def)
qed

lemma exec_chunk_data_almost_done_ok:
  assumes "sw_inv env x" "x_state x = s_chunk_data_almost_done"
  shows "out_ok env (x_p x) r (exec_chunk_data_almost_done env x)"
proof -
  have m: "mark_ok (x_state x) (x_p x) (x_mark x)" using assms(1) by (simp add: sw_inv_def exec_inv_def)
  have "(x_mark x)(For_body := None) = (\<lambda>d. None)" using mark_ok_clear [OF m] assms(2) by simp
  with assms mark_okD [OF m] show ?thesis
    by (auto simp: exec_chunk_data_almost_done_def sw_inv_def exec_inv_def st_inv_def fresh_def before_body_def
        is_chunked_def in_chunk_def intro!: data_BreakI)
qed

lemma exec_chunk_data_done_ok:
  "sw_inv env x \<Longrightarrow> x_state x = s_chunk_data_done \<Longrightarrow> out_ok env (x_p x) r (exec_chunk_data_done env x)"
  by (auto simp: exec_chunk_data_done_def step_simps is_chunked_def in_chunk_def intro!: notify_BreakI)

section \<open>The loop\<close>

lemma exec_switch_ok:
  assumes "sw_inv env x" "x_state x = s_chunk_size_start \<Longrightarrow> x_nread x = 1"
  shows "out_ok env (x_p x) (state_rank (x_state x)) (exec_switch env x)"
proof -
  have st: "st_inv (x_state x) (x_parser x)" using assms(1) by (simp add: sw_inv_def exec_inv_def)
  have ex: "out_ok env (x_p x) r (expect_char c s x)"
    if "no_marks (x_state x)" "before_body (x_state x)" "st_inv s (x_parser x) = pre_body (x_parser x)"
      "s \<noteq> s_chunk_size_start" for r c s
    using that st by (intro expect_char_ok [OF assms(1)]) (simp_all add: st_inv_def)
  note simps = exec_switch_def state_rank_def no_marks_simps url_mark_state_def before_body_def st_inv_def
  note cases = exec_dead_ok exec_start_req_or_res_ok exec_res_or_resp_H_ok exec_start_res_ok
    exec_res_http_major_ok exec_res_http_dot_ok exec_res_http_minor_ok exec_res_http_end_ok
    exec_res_first_status_code_ok exec_res_status_code_ok exec_res_status_start_ok exec_res_status_ok
    exec_start_req_ok exec_req_method_ok exec_req_spaces_before_url_ok exec_req_url_start_ok exec_req_url_ok
    exec_req_http_start_ok exec_req_http_major_ok exec_req_http_dot_ok exec_req_http_minor_ok
    exec_req_http_end_ok exec_req_line_almost_done_ok exec_header_field_start_ok exec_header_field_ok
    exec_header_value_discard_ws_ok exec_header_value_start_ok exec_header_value_ok exec_header_almost_done_ok
    exec_header_value_lws_ok exec_header_value_discard_lws_ok exec_headers_almost_done_ok exec_headers_done_ok
    exec_body_identity_ok exec_body_identity_eof_ok exec_message_done_ok exec_chunk_size_start_ok
    exec_chunk_size_ok exec_chunk_parameters_ok exec_chunk_size_almost_done_ok exec_chunk_data_ok
    exec_chunk_data_almost_done_ok exec_chunk_data_done_ok
  show ?thesis
    using assms(2)
    by (cases "x_state x"; simp del: One_nat_def add: simps; intro cases ex assms(1); simp add: simps)
qed

lemma mark_count_le: "mark_ok (x_state x) p (x_mark x) \<Longrightarrow> mark_count x \<le> 1"
proof (cases "\<exists>d j. x_mark x d = Some j")
  case True
  assume M: "mark_ok (x_state x) p (x_mark x)"
  from True obtain d j where d: "x_mark x d = Some j" by blast
  with M have "mark_state d (x_state x)" by (auto simp: mark_ok_def)
  from mark_ok_clear [OF M this] have "\<And>d'. d' \<noteq> d \<Longrightarrow> x_mark x d' = None" by (metis fun_upd_other)
  with d show ?thesis by (cases d) (simp_all add: mark_count_def)
next
  case False
  then have "x_mark x d = None" for d by (cases "x_mark x d") auto
  then show ?thesis by (simp add: mark_count_def)
qed

lemma finish_step:
  assumes "exec_inv env x" "fresh x" "x_p x = length (e_data env)" "settings_ok (e_settings env)"
    and "\<And>x'. exec_inv env x' \<Longrightarrow> fresh x' \<Longrightarrow> x_p x' = length (e_data env) \<Longrightarrow> out_ok env p0 r (k x')"
  shows "out_ok env p0 r (CALLBACK_DATA_NOADVANCE env FOR x k)"
proof -
  have m: "mark_ok (x_state x) (x_p x) (x_mark x)" using assms(1) by (simp add: exec_inv_def)
  then have "mark_ok (x_state x) (x_p x) ((x_mark x)(FOR := None))" by (auto simp: mark_ok_def)
  then have I: "exec_inv env (clear_mark FOR x)" using assms(1) by (simp add: exec_inv_def)
  show ?thesis
    unfolding CALLBACK_DATA_NOADVANCE_def
    using I assms mark_okD [OF m] by (intro data_rule) (auto simp: cb_simD)
qed

lemma exec_finish_ok:
  assumes "exec_inv env x" "fresh x" "x_p x = length (e_data env)" "settings_ok (e_settings env)"
  shows "out_ok env p0 r (exec_finish env x)"
  unfolding exec_finish_def out_ok_ASSERT
proof
  show "mark_count x \<le> 1" using assms(1) mark_count_le by (auto simp: exec_inv_def)
qed (intro finish_step RETURN_ok assms; simp)

text \<open>What holds of an outcome before it is run, and the fuel its run needs.\<close>

definition run_ok :: "'a hp_env \<Rightarrow> 'a outcome \<Rightarrow> bool" where
  "run_ok env out =
     (case out of
        Break x \<Rightarrow> exec_inv env x \<and> fresh x \<and> x_p x < length (e_data env)
      | Reexecute x \<Rightarrow> sw_inv env x \<and> (x_state x = s_chunk_size_start \<longrightarrow> x_nread x = 1)
      | Goto_error x \<Rightarrow> hp_errno (x_parser x) \<notin> {HPE_OK, HPE_PAUSED} \<and> x_p x \<le> length (e_data env)
      | Return n ps \<Rightarrow> return_ok env n ps
      | Abort \<Rightarrow> False)"

definition run_need :: "'a hp_env \<Rightarrow> 'a outcome \<Rightarrow> nat" where
  "run_need env out =
     (case out of
        Break x \<Rightarrow> 5 * (length (e_data env) - x_p x) + 2
      | Reexecute x \<Rightarrow> 5 * (length (e_data env) - x_p x) + state_rank (x_state x) + 3
      | Goto_error x \<Rightarrow> 2
      | _ \<Rightarrow> 1)"

lemma state_rank_le: "state_rank s \<le> 3"
  by (cases s) (simp_all add: state_rank_def)

lemma run_ok_out_ok:
  assumes "out_ok env p0 r out" "settings_ok (e_settings env)"
  shows "run_ok env out"
  using assms by (cases out) (auto simp: run_ok_def sw_inv_def)

lemma run_need_out_ok:
  assumes "out_ok env p0 r out" "p0 < length (e_data env)"
  shows "run_need env out < 5 * (length (e_data env) - p0) + r + 3"
  using assms by (cases out) (auto simp: run_need_def)

lemma exec_head_ok:
  assumes "exec_inv env x" "fresh x" "x_p x \<le> length (e_data env)" "settings_ok (e_settings env)"
  shows "run_ok env (exec_head env x) \<and>
    run_need env (exec_head env x) \<le> max 2 (5 * (length (e_data env) - x_p x) + 6)"
proof (cases "x_p x = length (e_data env)")
  case True
  from exec_finish_ok [OF assms(1,2) True assms(4), of "length (e_data env)" 0]
  have "out_ok env (length (e_data env)) 0 (exec_finish env x)" .
  with run_ok_out_ok [OF this assms(4)] True show ?thesis
    by (cases "exec_finish env x") (auto simp: exec_head_def run_need_def)
next
  case False
  then have p: "x_p x < length (e_data env)" using assms(3) by simp
  let ?x = "x\<lparr>x_ch := e_data env ! x_p x\<rparr>"
  have "PARSING_HEADER s_chunk_size_start" by (simp add: PARSING_HEADER_def state_num_def)
  with assms p state_rank_le [of "x_state x"] show ?thesis
    by (auto simp: exec_head_def Let_def COUNT_HEADER_SIZE_def fail_with_def SET_ERRNO_def set_errno_def
        run_ok_def run_need_def sw_inv_def exec_inv_def fresh_def not_less)
qed

lemma exec_run_ok:
  assumes "run_ok env out" "run_need env out \<le> n" "settings_ok (e_settings env)"
  shows "\<exists>k ps. exec_run env n out = Some (Returned k ps) \<and> return_ok env k ps"
  using assms(1,2)
proof (induction n arbitrary: out)
  case 0
  then show ?case by (cases out) (simp_all add: run_need_def)
next
  case (Suc n)
  show ?case
  proof (cases out)
    case (Break x)
    let ?x = "x\<lparr>x_p := x_p x + 1\<rparr>"
    from Suc.prems(1) Break have x: "exec_inv env x" "fresh x" "x_p x < length (e_data env)"
      by (simp_all add: run_ok_def)
    have "exec_inv env ?x" "fresh ?x" "x_p ?x \<le> length (e_data env)"
      using x mark_ok_same [of "x_state x" "x_p x" "x_mark x" "Suc (x_p x)"]
      by (simp_all add: exec_inv_def fresh_def)
    from exec_head_ok [OF this assms(3)] Suc.IH Suc.prems(2) Break x(3) show ?thesis
      by (auto simp: run_need_def)
  next
    case (Reexecute x)
    with Suc.prems(1) have x: "sw_inv env x" "x_state x = s_chunk_size_start \<Longrightarrow> x_nread x = 1"
      by (simp_all add: run_ok_def)
    note o = exec_switch_ok [OF this]
    have "run_ok env (exec_switch env x)" using run_ok_out_ok [OF o assms(3)] .
    moreover have "run_need env (exec_switch env x) \<le> n"
      using run_need_out_ok [OF o] x(1) Suc.prems(2) Reexecute by (simp add: run_need_def sw_inv_def)
    ultimately show ?thesis using Suc.IH Reexecute by auto
  next
    case (Goto_error x)
    with Suc.prems(1) have "run_ok env (exec_error x)"
      by (auto simp: run_ok_def exec_error_def Let_def RETURN_def return_ok_def parser_wf_def)
    with Suc.IH [of "exec_error x"] Suc.prems(2) Goto_error show ?thesis
      by (simp add: run_need_def exec_error_def RETURN_def Let_def)
  next
    case (Return k ps)
    with Suc.prems(1) show ?thesis by (simp add: run_ok_def)
  next
    case Abort
    with Suc.prems(1) show ?thesis by (simp add: run_ok_def)
  qed
qed

lemma exec_run_Return [simp]: "0 < n \<Longrightarrow> exec_run env n (Return k ps) = Some (Returned k ps)"
  by (cases n) simp_all

lemma exec_fuel_pos [simp]: "0 < exec_fuel data"
  by (simp add: exec_fuel_def)

lemma parser_wf_init: "parser_wf mx (http_parser_init ps t)"
  by (cases t) (simp_all add: parser_wf_def http_parser_init_def st_inv_def before_body_def)

lemma http_parser_execute_ok:
  assumes "settings_ok cfg" "parser_wf mx ps"
  shows "\<exists>k ps'. http_parser_execute mx cfg ps data = Some (Returned k ps') \<and> parser_wf mx ps' \<and>
    k \<le> max 1 (length data) \<and> (data \<noteq> [] \<longrightarrow> k \<le> length data) \<and>
    (k < length data \<longrightarrow> hp_errno ps' \<noteq> HPE_OK \<or> hp_upgrade ps')"
proof (cases "hp_errno ps = HPE_OK")
  case False
  with assms(2) show ?thesis by (simp add: http_parser_execute_def Let_def)
next
  case True
  let ?env = "\<lparr>e_settings = cfg, e_max = mx, e_data = data, e_lenient = hp_lenient ps\<rparr>"
  let ?x = "initial_exec ps"
  from True assms(2) have wf: "st_inv (hp_state ps) ps" "hp_state ps = s_chunk_size_start \<Longrightarrow> hp_nread ps = 0"
    "hp_nread ps \<le> mx" by (auto simp: parser_wf_def)
  show ?thesis
  proof (cases "data = []")
    case False
    have "mark_ok (hp_state ps) 0 (initial_mark (hp_state ps))"
      by (auto simp: mark_ok_def initial_mark_def mark_state_def split: data_for.splits if_splits)
    then have "exec_inv ?env ?x" "fresh ?x" "x_p ?x \<le> length (e_data ?env)"
      using True wf by (simp_all add: exec_inv_def fresh_def initial_exec_def)
    from exec_head_ok [OF this] assms(1)
    have "run_ok ?env (exec_head ?env ?x)" "run_need ?env (exec_head ?env ?x) \<le> exec_fuel data"
      by (auto simp: exec_fuel_def)
    from exec_run_ok [OF this] assms(1) obtain k ps' where
      "exec_run ?env (exec_fuel data) (exec_head ?env ?x) = Some (Returned k ps')" "return_ok ?env k ps'" by auto
    with True False show ?thesis by (auto simp: http_parser_execute_def Let_def return_ok_def)
  next
    case data: True
    let ?y = "?x\<lparr>x_mark := (\<lambda>d. None)\<rparr>"
    show ?thesis
    proof (cases "hp_state ps = s_body_identity_eof")
      case eof: True
      have I: "exec_inv ?env ?y" "fresh ?y" using True wf eof by (simp_all add: exec_inv_def fresh_def initial_exec_def)
      have "out_ok ?env 0 0 (CALLBACK_NOTIFY_gen (on_message_complete cfg) HPE_CB_message_complete 0 ?y
          (\<lambda>x. Return 0 (x_parser x)))"
      proof (rule notify_rule [OF I])
        fix x' assume "cb_sim ?y x'"
        then show "out_ok ?env 0 0 (Return 0 (x_parser x'))"
          using I eof data by (auto simp: cb_sim_def return_ok_def parser_wf_def exec_inv_def fresh_def initial_exec_def)
      qed (use assms(1) in auto)
      moreover have "exec_eof cfg ps = CALLBACK_NOTIFY_gen (on_message_complete cfg) HPE_CB_message_complete 0 ?y
          (\<lambda>x. Return 0 (x_parser x))"
        using eof by (simp add: exec_eof_def Let_def CALLBACK_NOTIFY_NOADVANCE_def initial_exec_def)
      ultimately have o: "out_ok ?env 0 0 (exec_eof cfg ps)" by simp
      then have need: "run_need ?env (exec_eof cfg ps) \<le> exec_fuel data"
        using data by (cases "exec_eof cfg ps") (auto simp: run_need_def exec_fuel_def)
      have S: "settings_ok (e_settings ?env)" using assms(1) by simp
      from exec_run_ok [OF run_ok_out_ok [OF o S] need S] obtain k ps' where
        "exec_run ?env (exec_fuel data) (exec_eof cfg ps) = Some (Returned k ps')" "return_ok ?env k ps'"
        by blast
      with True data show ?thesis by (auto simp: http_parser_execute_def Let_def return_ok_def)
    next
      case False
      with True data assms(2) wf show ?thesis
        by (auto simp: http_parser_execute_def Let_def exec_eof_def parser_wf_def set_errno_def)
    qed
  qed
qed

section \<open>Properties\<close>

text \<open>A connection: the parser is fed one piece of the stream after the other.\<close>

fun feed ::
  "u32 \<Rightarrow> 'a http_parser_settings \<Rightarrow> 'a http_parser \<Rightarrow> bytes list \<Rightarrow> 'a http_parser option" where
  "feed mx cfg ps [] = Some ps"
| "feed mx cfg ps (data # rest) =
     (case http_parser_execute mx cfg ps data of
        Some (Returned k ps') \<Rightarrow> feed mx cfg ps' rest
      | _ \<Rightarrow> None)"

lemma feed_ok:
  assumes "settings_ok cfg" "parser_wf mx ps"
  shows "\<exists>ps'. feed mx cfg ps pieces = Some ps' \<and> parser_wf mx ps'"
  using assms(2)
proof (induction pieces arbitrary: ps)
  case (Cons data rest)
  from http_parser_execute_ok [OF assms(1) Cons.prems, of data] obtain k ps' where
    "http_parser_execute mx cfg ps data = Some (Returned k ps')" "parser_wf mx ps'" by blast
  with Cons.IH [of ps'] show ?case by simp
qed simp

declare feed.simps [simp del]

text \<open>A zeroed parser structure, and callbacks that log what they are given.\<close>

definition zero_parser :: "'a \<Rightarrow> 'a http_parser" where
  "zero_parser d =
     \<lparr>hp_type = HTTP_REQUEST, hp_flags = 0, hp_state = s_dead, hp_header_state = h_general, hp_index = 0,
      hp_lenient = False, hp_nread = 0, hp_content_length = 0, hp_http_major = 0, hp_http_minor = 0,
      hp_status_code = 0, hp_method = HTTP_DELETE, hp_errno = HPE_OK, hp_upgrade = False, hp_data = d\<rparr>"

definition log_notify :: "string \<Rightarrow> (string \<times> bytes) list http_cb" where
  "log_notify ev ps = (0, ps\<lparr>hp_data := hp_data ps @ [(ev, [])]\<rparr>)"

definition log_data :: "string \<Rightarrow> (string \<times> bytes) list http_data_cb" where
  "log_data ev ps s = (0, ps\<lparr>hp_data := hp_data ps @ [(ev, s)]\<rparr>)"

definition log_settings :: "(string \<times> bytes) list http_parser_settings" where
  "log_settings =
     \<lparr>on_message_begin = Some (log_notify ''begin''), on_url = Some (log_data ''url''),
      on_status = Some (log_data ''status''), on_header_field = Some (log_data ''field''),
      on_header_value = Some (log_data ''value''), on_headers_complete = Some (log_notify ''headers''),
      on_body = Some (log_data ''body''), on_message_complete = Some (log_notify ''complete''),
      on_chunk_header = Some (log_notify ''chunk''), on_chunk_complete = Some (log_notify ''chunk end'')\<rparr>"

lemma log_frame: "cb_frame ps (ps\<lparr>hp_data := d\<rparr>)"
  unfolding cb_frame_def by (rule exI [of _ d], rule exI [of _ "hp_errno ps"]) simp

lemma log_settings_ok: "settings_ok log_settings"
  by (simp add: settings_ok_def notify_ok_def data_ok_def log_settings_def log_notify_def log_data_def log_frame)

text \<open>
  (C4) \<open>http_parser_execute\<close> returns, fails no assertion and reads nothing outside its buffers, for
  every input and every well-behaved set of callbacks; it consumes no more bytes than it was
  given, and fewer only after an error, a pause or an upgrade; and it leaves a parser on which
  all of this holds again.
\<close>

theorem http_parser_execute_safe:
  assumes "settings_ok settings" "parser_wf max_header_size parser" "data \<noteq> []"
  shows "\<exists>n parser'. http_parser_execute max_header_size settings parser data = Some (Returned n parser') \<and>
    parser_wf max_header_size parser' \<and> n \<le> length data \<and>
    (n < length data \<longrightarrow> hp_errno parser' \<noteq> HPE_OK \<or> hp_upgrade parser')"
  using http_parser_execute_ok [OF assms(1,2), of data] assms(3) by blast

theorem http_parser_execute_safe_witness:
  "\<exists>n ps. http_parser_execute HTTP_MAX_HEADER_SIZE log_settings
     (http_parser_init (zero_parser []) HTTP_BOTH) ''GET /'' = Some (Returned n ps) \<and> n \<le> 5"
  using http_parser_execute_safe [OF log_settings_ok parser_wf_init, of "''GET /''"] by fastforce

text \<open>
  (C1) Over the whole life of a connection, in whatever pieces the stream arrives, every call on
  a parser that was initialised once returns without a failed assertion, and the framing of the
  body is unambiguous whenever the parser is neither failed nor paused within a body: within a chunked body
  the message has no Content-Length header, within a body of known length it is not chunked, and
  the number of bytes still to come is positive and not the reserved value. The number of header
  bytes on the count never exceeds the configured maximum.
\<close>

theorem http_parser_connection:
  assumes "settings_ok settings"
  shows "\<exists>parser'. feed max_header_size settings (http_parser_init parser type) pieces = Some parser' \<and>
    (hp_errno parser' = HPE_OK \<longrightarrow>
       hp_nread parser' \<le> max_header_size \<and>
       (hp_state parser' \<in> {s_chunk_size_start, s_chunk_size, s_chunk_parameters, s_chunk_size_almost_done,
            s_chunk_data, s_chunk_data_almost_done, s_chunk_data_done} \<longrightarrow>
          has_flag (hp_flags parser') F_CHUNKED \<and> \<not> has_flag (hp_flags parser') F_CONTENTLENGTH) \<and>
       (hp_state parser' = s_body_identity \<longrightarrow> \<not> has_flag (hp_flags parser') F_CHUNKED) \<and>
       (hp_state parser' \<in> {s_body_identity, s_chunk_data} \<longrightarrow>
          0 < hp_content_length parser' \<and> hp_content_length parser' < ULLONG_MAX))"
proof -
  from feed_ok [OF assms parser_wf_init] obtain ps' where
    f: "feed max_header_size settings (http_parser_init parser type) pieces = Some ps'"
    and wf: "parser_wf max_header_size ps'" by blast
  have pos: "0 < w \<and> w < ULLONG_MAX" if "w \<noteq> 0" "w \<noteq> ULLONG_MAX" for w
    using that unfolding ULLONG_MAX_def by (simp add: word_order.not_eq_extremum word_gt_0)
  from wf have "hp_errno ps' = HPE_OK \<Longrightarrow> st_inv (hp_state ps') ps' \<and> hp_nread ps' \<le> max_header_size"
    by (simp add: parser_wf_def)
  with f pos show ?thesis by (fastforce simp: st_inv_def in_chunk_def)
qed

theorem http_parser_connection_witness:
  "\<exists>ps. feed 200 log_settings (http_parser_init (zero_parser []) HTTP_REQUEST)
     [''PO'', ''ST / HTTP/1.1'' @ [CR, LF] @ ''Content-Length: 9'' @ [CR, LF, CR, LF] @ ''abc''] = Some ps \<and>
     hp_state ps = s_body_identity \<and> \<not> has_flag (hp_flags ps) F_CHUNKED"
proof -
  let ?pieces = "[''PO'', ''ST / HTTP/1.1'' @ [CR, LF] @ ''Content-Length: 9'' @ [CR, LF, CR, LF] @ ''abc'']"
  have "map_option (\<lambda>ps. (hp_state ps, hp_errno ps)) (feed 200 log_settings
      (http_parser_init (zero_parser []) HTTP_REQUEST) ?pieces) = Some (s_body_identity, HPE_OK)" by code_simp
  then obtain ps where ps: "feed 200 log_settings (http_parser_init (zero_parser []) HTTP_REQUEST) ?pieces = Some ps"
    and st: "hp_state ps = s_body_identity" "hp_errno ps = HPE_OK"
    unfolding map_option_eq_Some by blast
  obtain ps' where ps': "feed 200 log_settings (http_parser_init (zero_parser []) HTTP_REQUEST) ?pieces = Some ps'"
    and P: "hp_errno ps' = HPE_OK \<longrightarrow> hp_state ps' = s_body_identity \<longrightarrow> \<not> has_flag (hp_flags ps') F_CHUNKED"
    using http_parser_connection [OF log_settings_ok, of 200 "zero_parser []" HTTP_REQUEST ?pieces] by blast
  from ps ps' have "ps' = ps" by (simp only: option.inject)
  with ps st P show ?thesis by blast
qed

end
