(* ===== verification/Http_Decoder.thy ===== *)
theory Http_Decoder
  imports Http_Parser_Inv
begin

text \<open>
  \<open>HttpDecoder\<close> (src/include/http/http\_decoder.h): the client of the HTTP parser. It installs its static
  functions as callbacks, keeps a pointer to itself in the parser's \<open>data\<close> and collects the parts of one
  message. The decoder is therefore modelled as a parser whose \<open>data\<close> is the rest of the decoder; its
  string views are modelled by the bytes they show. Logging is not modelled.
\<close>

section \<open>Data\<close>

text \<open>The message class the template is instantiated with.\<close>

datatype message_kind = Request | Response

text \<open>
  The members of \<open>HttpDecoder\<close> and the members of its message that the callbacks set: \<open>http_url\<close> and
  \<open>method_value\<close> of \<open>HttpRequest\<close>, \<open>status_code\<close> of \<open>HttpResponse\<close>.
\<close>

record http_decoder =
  request_url :: bytes
  http_status :: bytes
  http_body :: bytes
  http_path :: bytes
  http_query :: bytes
  headers :: "(bytes \<times> bytes) list"
  parse_header :: "bytes \<times> bytes"
  raw_data :: bytes
  msg_http_url :: bytes
  msg_method_value :: http_method
  msg_status_code :: u32

definition HttpDecoder :: http_decoder where
  "HttpDecoder = \<lparr>request_url = [], http_status = [], http_body = [], http_path = [], http_query = [],
     headers = [], parse_header = ([], []), raw_data = [], msg_http_url = [], msg_method_value = HTTP_DELETE,
     msg_status_code = 0\<rparr>"

section \<open>Callbacks\<close>

definition on_self :: "(http_decoder \<Rightarrow> http_decoder) \<Rightarrow> http_decoder http_parser \<Rightarrow> http_decoder http_parser" where
  "on_self f hp = hp\<lparr>hp_data := f (hp_data hp)\<rparr>"

definition parse_status :: "message_kind \<Rightarrow> http_decoder http_data_cb" where
  "parse_status kind hp s =
     (case kind of
        Request \<Rightarrow> (0, hp)
      | Response \<Rightarrow>
          (0, on_self (\<lambda>d. d\<lparr>http_status := s, msg_status_code := ucast (hp_status_code hp)\<rparr>) hp))"

definition parse_url :: "message_kind \<Rightarrow> http_decoder http_data_cb" where
  "parse_url kind hp s =
     (case kind of
        Request \<Rightarrow> (0, on_self (\<lambda>d. d\<lparr>request_url := s, msg_http_url := s\<rparr>) hp)
      | Response \<Rightarrow> (0, hp))"

text \<open>
  \<open>u0\<close> is the uninitialised local \<open>urlInfo\<close>. The parser of the URL fails no assertion, so that the first
  case does not arise.
\<close>

definition parse_header_complete :: "http_parser_url \<Rightarrow> message_kind \<Rightarrow> http_decoder http_cb" where
  "parse_header_complete u0 kind hp =
     (case kind of
        Response \<Rightarrow> (0, hp)
      | Request \<Rightarrow>
          let url = request_url (hp_data hp);
              field = (\<lambda>u f. slice url (unat (fd_off (u_field_data u f))) (unat (fd_len (u_field_data u f))))
          in case http_parser_parse_url url False u0 of
               None \<Rightarrow> (0, hp)
             | Some (result, u) \<Rightarrow>
                 if result \<noteq> 0 then (0, hp)
                 else if \<not> uf_set u UF_PATH then (-1, hp)
                 else
                   let hp = on_self (\<lambda>d. d\<lparr>http_path := field u UF_PATH\<rparr>) hp;
                       hp = (if uf_set u UF_QUERY then on_self (\<lambda>d. d\<lparr>http_query := field u UF_QUERY\<rparr>) hp else hp)
                   in (0, on_self (\<lambda>d. d\<lparr>msg_method_value := hp_method hp\<rparr>) hp))"

definition parse_field :: "http_decoder http_data_cb" where
  "parse_field hp s = (0, on_self (\<lambda>d. d\<lparr>parse_header := (s, snd (parse_header d))\<rparr>) hp)"

definition parse_value :: "http_decoder http_data_cb" where
  "parse_value hp s =
     (0, on_self (\<lambda>d. let d = d\<lparr>parse_header := (fst (parse_header d), s)\<rparr>
                      in d\<lparr>headers := headers d @ [parse_header d]\<rparr>) hp)"

definition parse_body :: "http_decoder http_data_cb" where
  "parse_body hp s = (0, on_self (\<lambda>d. d\<lparr>http_body := s\<rparr>) hp)"

definition parse_message_begin :: "http_decoder http_cb" where
  "parse_message_begin hp = (0, hp)"

definition parse_message_complete :: "http_decoder http_cb" where
  "parse_message_complete hp = (0, hp)"

definition parse_chunk_header :: "http_decoder http_cb" where
  "parse_chunk_header hp = (0, hp)"

definition parse_chunk_complete :: "http_decoder http_cb" where
  "parse_chunk_complete hp = (0, hp)"

section \<open>Operations\<close>

definition parser_setting :: "http_parser_url \<Rightarrow> message_kind \<Rightarrow> http_decoder http_parser_settings" where
  "parser_setting u0 kind = http_parser_settings_init
     \<lparr>on_url := Some (parse_url kind), on_status := Some (parse_status kind), on_body := Some parse_body,
      on_header_field := Some parse_field, on_header_value := Some parse_value,
      on_headers_complete := Some (parse_header_complete u0 kind),
      on_message_begin := Some parse_message_begin, on_message_complete := Some parse_message_complete,
      on_chunk_header := Some parse_chunk_header, on_chunk_complete := Some parse_chunk_complete\<rparr>"

definition init_parser :: "http_parser_type \<Rightarrow> http_decoder http_parser \<Rightarrow> http_decoder http_parser" where
  "init_parser msgType hp = http_parser_init hp msgType"

definition message_type :: "message_kind \<Rightarrow> http_parser_type" where
  "message_type kind = (case kind of Request \<Rightarrow> HTTP_REQUEST | Response \<Rightarrow> HTTP_RESPONSE)"

text \<open>
  \<open>parse_request\<close> and \<open>parse_response\<close>, which differ in the type alone: a copy of the data is parsed and
  kept up to where the parser stopped, or the data are parsed in place. \<open>None\<close> is a failed assertion.
\<close>

definition parse_message ::
    "u32 \<Rightarrow> http_parser_url \<Rightarrow> message_kind \<Rightarrow> http_decoder http_parser \<Rightarrow> bytes \<Rightarrow> bool \<Rightarrow>
     (u32 \<times> http_decoder http_parser) option" where
  "parse_message max_header_size u0 kind hp data inplace =
     (let hp = init_parser (message_type kind) hp;
          hp = (if inplace then hp else on_self (\<lambda>d. d\<lparr>raw_data := data\<rparr>) hp)
      in case http_parser_execute max_header_size (parser_setting u0 kind) hp data of
           Some (Returned msgLen hp) \<Rightarrow>
             Some (of_nat msgLen,
               if \<not> inplace \<and> msgLen < length data
               then on_self (\<lambda>d. d\<lparr>raw_data := take msgLen (raw_data d)\<rparr>) hp else hp)
         | _ \<Rightarrow> None)"

definition parse_request where
  "parse_request max_header_size u0 hp data inplace = parse_message max_header_size u0 Request hp data inplace"

definition parse_response where
  "parse_response max_header_size u0 hp data inplace = parse_message max_header_size u0 Response hp data inplace"

definition is_websocket :: "http_decoder http_parser \<Rightarrow> bool" where
  "is_websocket hp = hp_upgrade hp"

definition get_header :: "http_decoder \<Rightarrow> bytes \<Rightarrow> bytes" where
  "get_header d key = (case find (\<lambda>item. fst item = key) (headers d) of Some item \<Rightarrow> snd item | None \<Rightarrow> [])"

section \<open>The decoder keeps the parser's contract\<close>

text \<open>What the parser promises a client whose callbacks respect it.\<close>

locale parser_client =
  fixes cfg :: "'a http_parser_settings"
  assumes cfg_ok: "settings_ok cfg"
begin

lemma execute_fresh:
  "\<exists>n hp'. http_parser_execute mx cfg (http_parser_init hp type) data = Some (Returned n hp') \<and> parser_wf mx hp' \<and>
     (data \<noteq> [] \<longrightarrow> n \<le> length data \<and> (n < length data \<longrightarrow> hp_errno hp' \<noteq> HPE_OK \<or> hp_upgrade hp'))"
  using http_parser_execute_ok [OF cfg_ok parser_wf_init] by blast

end

lemma on_self_frame [simp]: "cb_frame hp (on_self f hp)"
  unfolding cb_frame_def on_self_def by (rule exI, rule exI [of _ "hp_errno hp"]) simp

lemma on_self_on_self [simp]: "on_self f (on_self g hp) = on_self (f \<circ> g) hp"
  by (simp add: on_self_def)

lemma cb_frame_refl [simp]: "cb_frame hp hp"
  unfolding cb_frame_def by (rule exI [of _ "hp_data hp"], rule exI [of _ "hp_errno hp"]) simp

lemma parse_header_complete_frame: "cb_frame hp (snd (parse_header_complete u0 kind hp))"
  by (auto simp: parse_header_complete_def Let_def split: message_kind.split option.split prod.split)

lemma parser_setting_ok: "settings_ok (parser_setting u0 kind)"
  by (simp add: settings_ok_def notify_ok_def data_ok_def parser_setting_def http_parser_settings_init_def
      parse_header_complete_frame parse_url_def parse_status_def parse_field_def parse_value_def parse_body_def
      parse_message_begin_def parse_message_complete_def parse_chunk_header_def parse_chunk_complete_def
      split: message_kind.split)

interpretation decoder: parser_client "parser_setting u0 kind" for u0 kind
  by unfold_locales (rule parser_setting_ok)

section \<open>Properties\<close>

text \<open>
  (C17) Decoding is total: for all data of less than 2 ^ 32 bytes, whatever a decoder has decoded before,
  \<open>parse_request\<close> and \<open>parse_response\<close> return without a failed assertion; the length they return is
  within the data, and it is shorter only after an error or an upgrade.
\<close>

theorem decoder_parse_safe:
  assumes "data \<noteq> []" "length data < 2 ^ 32"
  shows "\<exists>n hp'. parse_message max_header_size u0 kind hp data inplace = Some (n, hp') \<and>
    unat n \<le> length data \<and> (unat n < length data \<longrightarrow> hp_errno hp' \<noteq> HPE_OK \<or> is_websocket hp')"
proof -
  let ?hp = "if inplace then init_parser (message_type kind) hp
    else on_self (\<lambda>d. d\<lparr>raw_data := data\<rparr>) (init_parser (message_type kind) hp)"
  obtain hp0 where hp0: "?hp = http_parser_init hp0 (message_type kind)"
  proof (cases inplace)
    case True
    then show ?thesis using that [of hp] by (simp add: init_parser_def)
  next
    case False
    then show ?thesis using that [of "on_self (\<lambda>d. d\<lparr>raw_data := data\<rparr>) hp"]
      by (simp add: init_parser_def on_self_def http_parser_init_def)
  qed
  from decoder.execute_fresh [of max_header_size u0 kind hp0 "message_type kind" data] obtain k hp1 where
    e: "http_parser_execute max_header_size (parser_setting u0 kind) (http_parser_init hp0 (message_type kind)) data =
      Some (Returned k hp1)" "k \<le> length data" "k < length data \<longrightarrow> hp_errno hp1 \<noteq> HPE_OK \<or> hp_upgrade hp1"
    using assms(1) by blast
  have "unat (of_nat k :: u32) = k"
    using e(2) assms(2) by (simp add: unat_of_nat take_bit_nat_eq_self)
  moreover have "parse_message max_header_size u0 kind hp data inplace =
      Some (of_nat k, if \<not> inplace \<and> k < length data then on_self (\<lambda>d. d\<lparr>raw_data := take k (raw_data d)\<rparr>) hp1 else hp1)"
    unfolding parse_message_def Let_def hp0 e(1) by simp
  ultimately show ?thesis
    using e(2,3) by (auto simp: is_websocket_def on_self_def)
qed

theorem decoder_parse_safe_witness:
  "\<exists>n hp'. parse_message HTTP_MAX_HEADER_SIZE http_parser_url_init Request (zero_parser HttpDecoder) ''GET /'' False =
     Some (n, hp') \<and> unat n \<le> 5"
  using decoder_parse_safe [of "''GET /''" HTTP_MAX_HEADER_SIZE http_parser_url_init Request "zero_parser HttpDecoder" False]
  by fastforce



text \<open>A response whose body \<open>abcde\<close> arrives in two chunks.\<close>

definition chunked_response :: bytes where
  "chunked_response = ''HTTP/1.1 200 OK'' @ [CR, LF] @ ''Transfer-Encoding: chunked'' @ [CR, LF, CR, LF] @
     ''3'' @ [CR, LF] @ ''abc'' @ [CR, LF] @ ''2'' @ [CR, LF] @ ''de'' @ [CR, LF] @ ''0'' @ [CR, LF, CR, LF]"

text \<open>
  The body of a message that arrives in chunks is lost but for its last chunk: every call of
  \<open>parse_body\<close> replaces \<open>http_body\<close>.
\<close>

theorem decoder_chunked_body:
  "map_option (\<lambda>(n, hp). (unat n = length chunked_response, hp_errno hp, http_body (hp_data hp)))
     (parse_response 200 http_parser_url_init (zero_parser HttpDecoder) chunked_response False) =
   Some (True, HPE_OK, ''de'')"
  by code_simp

end
