(* ===== verification/Http_Message.thy ===== *)
theory Http_Message
  imports Snet_Prelude "HOL-Library.List_Lexorder" "HOL-Library.Char_ord"
begin

text \<open>
  The encoding side of the HTTP component: the tables of src/include/http/http\_message.h, \<open>HttpEncoder\<close>
  (http\_encoder.h) with its two helpers, and the encoding methods of \<open>HttpRequest\<close> and \<open>HttpResponse\<close>.
  The formatted date of a response is a parameter.
\<close>

section \<open>Tables\<close>

datatype HttpMethod = HTTP_GET | HTTP_HEAD | HTTP_POST | HTTP_PUT | HTTP_DELETE | HTTP_TRACE
  | HTTP_OPTIONS | HTTP_CONNECT | HTTP_PATCH

definition http_method_string :: "HttpMethod \<Rightarrow> bytes" where
  "http_method_string m =
     (case m of
        HTTP_GET \<Rightarrow> ''GET'' | HTTP_POST \<Rightarrow> ''POST'' | HTTP_HEAD \<Rightarrow> ''HEAD'' | HTTP_PUT \<Rightarrow> ''PUT''
      | HTTP_DELETE \<Rightarrow> ''DELETE'' | HTTP_TRACE \<Rightarrow> ''TRACE'' | HTTP_OPTIONS \<Rightarrow> ''OPTIONS''
      | HTTP_CONNECT \<Rightarrow> ''CONNECT'' | HTTP_PATCH \<Rightarrow> ''TRACE'')"

definition http_version_1_1 :: bytes where
  "http_version_1_1 = ''HTTP/1.1''"

definition mappings :: "(bytes \<times> bytes) list" where
  "mappings = [(''gif'', ''image/gif''), (''htm'', ''text/html''), (''html'', ''text/html''),
     (''jpg'', ''image/jpeg''), (''png'', ''image/png''), (''txt'', ''text/html'')]"

definition to_mime :: "bytes \<Rightarrow> bytes" where
  "to_mime ext = (case find (\<lambda>m. fst m = ext) mappings of Some m \<Rightarrow> snd m | None \<Rightarrow> ''text/plain'')"

definition status_lines :: "(nat \<times> bytes) list" where
  "status_lines =
     [(101, ''HTTP/1.1 101  Web Socket Protocol Handshake''), (200, ''HTTP/1.0 200 OK''),
      (201, ''HTTP/1.0 201 Created''), (202, ''HTTP/1.0 202 Accepted''), (204, ''HTTP/1.0 204 No Content''),
      (300, ''HTTP/1.0 300 Multiple Choices''), (301, ''HTTP/1.0 301 Moved Permanently''),
      (302, ''HTTP/1.0 302 Moved Temporarily''), (304, ''HTTP/1.0 304 Not Modified''),
      (400, ''HTTP/1.0 400 Bad Request''), (401, ''HTTP/1.0 401 Unauthorized''),
      (403, ''HTTP/1.0 403 Forbidden''), (404, ''HTTP/1.0 404 Not Found''),
      (500, ''HTTP/1.0 500 Internal Server Error''), (501, ''HTTP/1.0 501 Not Implemented''),
      (502, ''HTTP/1.0 502 Bad Gateway''), (503, ''HTTP/1.0 503 Service Unavailable'')]"

definition status_string :: "u32 \<Rightarrow> bytes" where
  "status_string code =
     (case find (\<lambda>(n, s). n = unat code) status_lines of Some (n, s) \<Rightarrow> s | None \<Rightarrow> ''HTTP/1.0 400 Bad Request'')"

definition crlf :: bytes where
  "crlf = [CHR 0x0D, CHR 0x0A]"

text \<open>\<open>HttpQueryParameter::add\<close>; the object is its string \<open>parameters\<close>.\<close>

definition query_add :: "bytes \<Rightarrow> bytes \<Rightarrow> bytes \<Rightarrow> bytes" where
  "query_add k v parameters =
     (let parameters = (if parameters \<noteq> [] then parameters @ ''&'' else parameters)
      in parameters @ k @ ''='' @ v)"

section \<open>Encoder\<close>

text \<open>\<open>std::map\<close> from strings to strings: the pairs in the order of their keys.\<close>

type_synonym header_map = "(bytes \<times> bytes) list"

fun map_put :: "bytes \<Rightarrow> bytes \<Rightarrow> header_map \<Rightarrow> header_map" where
  "map_put k v [] = [(k, v)]"
| "map_put k v ((k', v') # m) =
     (if k < k' then (k, v) # (k', v') # m
      else if k = k' then (k, v) # m
      else (k', v') # map_put k v m)"

text \<open>The members of a message that its \<open>HttpEncoder\<close> uses, and the encoder's own map of headers.\<close>

record http_message =
  content :: bytes
  content_type :: bytes
  http_headers :: header_map

definition add_header :: "bytes \<Rightarrow> bytes \<Rightarrow> 'a http_message_scheme \<Rightarrow> 'a http_message_scheme" where
  "add_header key val msg = msg\<lparr>http_headers := map_put key val (http_headers msg)\<rparr>"

definition set_cookie :: "bytes \<Rightarrow> 'a http_message_scheme \<Rightarrow> 'a http_message_scheme" where
  "set_cookie v = add_header ''Cookie'' v"

definition set_content_type :: "bytes \<Rightarrow> 'a http_message_scheme \<Rightarrow> 'a http_message_scheme" where
  "set_content_type v = add_header ''Content-Type'' v"

definition set_host :: "bytes \<Rightarrow> 'a http_message_scheme \<Rightarrow> 'a http_message_scheme" where
  "set_host host = add_header ''Host'' host"

definition set_agent :: "bytes \<Rightarrow> 'a http_message_scheme \<Rightarrow> 'a http_message_scheme" where
  "set_agent agent = add_header ''User-Agent'' agent"

definition set_content :: "bytes \<Rightarrow> bytes \<Rightarrow> 'a http_message_scheme \<Rightarrow> 'a http_message_scheme" where
  "set_content body type msg =
     (if body \<noteq> []
      then add_header ''Content-Length'' (nat_string (length body))
             (msg\<lparr>content_type := to_mime type, content := body\<rparr>)
      else msg)"

definition encode_headers :: "header_map \<Rightarrow> bytes" where
  "encode_headers m =
     concat (map (\<lambda>(k, v). if k \<noteq> [] then k @ '': '' @ v @ crlf else []) m)"

record http_request = http_message +
  http_method :: HttpMethod
  http_url :: bytes

record 'w http_response = http_message +
  status_code :: u32
  writer :: "(bytes \<Rightarrow> 'w \<Rightarrow> int \<times> 'w) option"

definition encode_request :: "http_request \<Rightarrow> bytes" where
  "encode_request r =
     http_method_string (http_method r) @ '' '' @ http_url r @ '' '' @ http_version_1_1 @ crlf @
     encode_headers (http_headers r) @ crlf @ content r"

definition encode_response :: "bytes \<Rightarrow> 'w http_response \<Rightarrow> bytes" where
  "encode_response date r =
     status_string (status_code r) @ crlf @ encode_headers (http_headers r) @
     ''Server: SNet Http Server v0.1'' @ crlf @ ''Date: '' @ date @ crlf @ crlf @ content r"

section \<open>Requests and responses\<close>

definition HttpRequest :: "HttpMethod \<Rightarrow> bytes \<Rightarrow> bytes \<Rightarrow> bytes \<Rightarrow> http_request" where
  "HttpRequest method url body type =
     set_content body type
       \<lparr>content = [], content_type = [], http_headers = [], http_method = method, http_url = url\<rparr>"

definition HttpResponse :: "u32 \<Rightarrow> bytes \<Rightarrow> bytes \<Rightarrow> 'w http_response" where
  "HttpResponse code rsp type =
     set_content rsp type
       \<lparr>content = [], content_type = [], http_headers = [], status_code = code, writer = None\<rparr>"

definition dump :: "bytes \<Rightarrow> 'w http_response \<Rightarrow> bytes" where
  "dump date r = encode_response date r"

text \<open>\<open>date\<close> is the time at which the response is encoded.\<close>

definition call_writer :: "bytes \<Rightarrow> 'w http_response \<Rightarrow> 'w \<Rightarrow> int \<times> 'w \<times> 'w http_response" where
  "call_writer date r w =
     (case writer r of Some f \<Rightarrow> (let (n, w) = f (dump date r) w in (n, w, r)) | None \<Rightarrow> (-1, w, r))"

definition rsp_json :: "bytes \<Rightarrow> bytes \<Rightarrow> 'w http_response \<Rightarrow> 'w \<Rightarrow> int \<times> 'w \<times> 'w http_response" where
  "rsp_json date msg r w =
     (if writer r \<noteq> None then call_writer date (set_content_type ''application/json'' r) w else (-1, w, r))"

definition rsp_text :: "bytes \<Rightarrow> bytes \<Rightarrow> 'w http_response \<Rightarrow> 'w \<Rightarrow> int \<times> 'w \<times> 'w http_response" where
  "rsp_text date msg r w =
     (if writer r \<noteq> None then call_writer date (set_content_type ''text/html; charset=UTF-8'' r) w else (-1, w, r))"

definition rsp_write :: "bytes \<Rightarrow> bytes \<Rightarrow> u32 \<Rightarrow> 'w http_response \<Rightarrow> 'w \<Rightarrow> int \<times> 'w \<times> 'w http_response" where
  "rsp_write date msg code r w =
     (if writer r \<noteq> None
      then
        let r = r\<lparr>status_code := (if status_code r = 0 then code else status_code r)\<rparr>;
            r = set_content msg ''txt'' r;
            r = set_content_type ''text/html; charset=UTF-8'' r
        in call_writer date r w
      else (-1, w, r))"

definition rsp_write_empty :: "bytes \<Rightarrow> 'w http_response \<Rightarrow> 'w \<Rightarrow> int \<times> 'w \<times> 'w http_response" where
  "rsp_write_empty date r w =
     (if writer r \<noteq> None
      then call_writer date (r\<lparr>status_code := (if status_code r = 0 then 200 else status_code r)\<rparr>) w
      else (-1, w, r))"

section \<open>The map of headers\<close>

definition sorted_keys :: "header_map \<Rightarrow> bool" where
  "sorted_keys m \<longleftrightarrow> sorted_wrt (<) (map fst m)"

lemma set_map_put: "set (map fst (map_put k v m)) = insert k (set (map fst m))"
  by (induction k v m rule: map_put.induct) auto

text \<open>What the encoder needs of the map: a header that was added is found, and the others are as before.\<close>

locale header_store =
  fixes invar :: "'m \<Rightarrow> bool" and put :: "bytes \<Rightarrow> bytes \<Rightarrow> 'm \<Rightarrow> 'm" and get :: "'m \<Rightarrow> bytes \<Rightarrow> bytes option"
  assumes put_invar: "invar m \<Longrightarrow> invar (put k v m)"
    and get_put: "invar m \<Longrightarrow> get (put k v m) = (get m)(k \<mapsto> v)"
begin

lemma puts_get:
  assumes "invar m" and "distinct (map fst kvs)"
  shows "invar (fold (\<lambda>(k, v). put k v) kvs m) \<and> get (fold (\<lambda>(k, v). put k v) kvs m) = get m ++ map_of kvs"
  using assms
proof (induction kvs arbitrary: m)
  case (Cons kv kvs)
  obtain k v where kv: "kv = (k, v)" by fastforce
  from Cons.prems kv have "k \<notin> set (map fst kvs)" "distinct (map fst kvs)" by auto
  from this(1) have "map_of kvs k = None" by (simp add: map_of_eq_None_iff)
  then have "(get m)(k \<mapsto> v) ++ map_of kvs = get m ++ map_of (kv # kvs)"
    unfolding kv by (auto simp: map_add_def fun_eq_iff split: option.split)
  with Cons.IH [OF put_invar [OF Cons.prems(1)] \<open>distinct (map fst kvs)\<close>, of k v]
  show ?case by (simp only: kv fold_simps prod.case get_put [OF Cons.prems(1)])
qed simp

end

lemma map_put_sorted: "sorted_keys m \<Longrightarrow> sorted_keys (map_put k v m)"
proof (induction k v m rule: map_put.induct)
  case (2 k v k' v' m)
  show ?case
  proof (cases "k' < k")
    case True
    with 2 have "sorted_keys (map_put k v m)" by (simp add: sorted_keys_def)
    moreover have "\<forall>x \<in> set (map fst (map_put k v m)). k' < x"
      unfolding set_map_put using True 2(2) by (auto simp: sorted_keys_def)
    ultimately show ?thesis using True by (auto simp: sorted_keys_def)
  next
    case False
    with 2(2) show ?thesis by (auto simp: sorted_keys_def)
  qed
qed (simp add: sorted_keys_def)

lemma map_put_get: "sorted_keys m \<Longrightarrow> map_of (map_put k v m) = (map_of m)(k \<mapsto> v)"
proof (induction k v m rule: map_put.induct)
  case (2 k v k' v' m)
  then have IH: "k \<noteq> k' \<Longrightarrow> \<not> k < k' \<Longrightarrow> map_of (map_put k v m) = (map_of m)(k \<mapsto> v)"
    by (auto simp: sorted_keys_def fun_upd_def)
  show ?case using IH by (auto simp: fun_eq_iff)
qed simp

interpretation hs: header_store sorted_keys map_put map_of
  by unfold_locales (simp_all add: map_put_sorted map_put_get)

section \<open>Reading the head of a message\<close>

text \<open>A reference reader: lines end with CR LF, and an empty line ends the head.\<close>

fun next_line :: "bytes \<Rightarrow> (bytes \<times> bytes) option" where
  "next_line [] = None"
| "next_line (c # s) =
     (if c = CHR 0x0D \<and> s \<noteq> [] \<and> hd s = CHR 0x0A then Some ([], tl s)
      else map_option (\<lambda>(l, r). (c # l, r)) (next_line s))"

lemma next_line_length: "next_line s = Some (l, r) \<Longrightarrow> length r < length s"
  by (induction s arbitrary: l r) (auto split: if_splits)

function read_head :: "bytes \<Rightarrow> (bytes list \<times> bytes) option" where
  "read_head s =
     (case next_line s of
        None \<Rightarrow> None
      | Some (l, r) \<Rightarrow> if l = [] then Some ([], r) else map_option (\<lambda>(ls, b). (l # ls, b)) (read_head r))"
  by pat_completeness auto
termination
  by (relation "measure length") (auto dest: next_line_length)

declare read_head.simps [simp del]

lemma next_line_crlf: "CHR 0x0D \<notin> set l \<Longrightarrow> next_line (l @ crlf @ r) = Some (l, r)"
  by (induction l) (auto simp: crlf_def)

lemma read_head_line:
  "CHR 0x0D \<notin> set l \<Longrightarrow> l \<noteq> [] \<Longrightarrow> read_head (l @ crlf @ r) = map_option (\<lambda>(ls, b). (l # ls, b)) (read_head r)"
  by (subst read_head.simps) (simp add: next_line_crlf)

lemma read_head_end: "read_head (crlf @ r) = Some ([], r)"
  using next_line_crlf [of "[]"] by (subst read_head.simps) simp

definition header_lines :: "header_map \<Rightarrow> bytes list" where
  "header_lines m = map (\<lambda>(k, v). k @ '': '' @ v) (filter (\<lambda>(k, v). k \<noteq> []) m)"

definition no_cr :: "bytes \<Rightarrow> bool" where
  "no_cr s \<longleftrightarrow> CHR 0x0D \<notin> set s"

lemma nat_string_no_cr: "no_cr (nat_string n)"
proof -
  have "\<not> (48 \<le> (of_char CHR 0x0D :: nat))" by simp
  then show ?thesis using nat_string_digits [of n] unfolding no_cr_def decimal_def list_all_iff by blast
qed

lemma read_head_headers:
  assumes "\<forall>(k, v) \<in> set m. no_cr k \<and> no_cr v"
  shows "read_head (encode_headers m @ r) = map_option (\<lambda>(ls, b). (header_lines m @ ls, b)) (read_head r)"
  using assms
proof (induction m)
  case Nil
  show ?case by (simp add: encode_headers_def header_lines_def option.map_ident)
next
  case (Cons kv m)
  obtain k v where kv: "kv = (k, v)" by fastforce
  show ?case
  proof (cases "k = []")
    case True
    with Cons kv show ?thesis by (simp add: encode_headers_def header_lines_def)
  next
    case False
    from Cons.prems kv have "CHR 0x0D \<notin> set (k @ '': '' @ v)" by (auto simp: no_cr_def)
    from read_head_line [OF this, of "encode_headers m @ r"] False Cons kv show ?thesis
      by (auto simp: encode_headers_def header_lines_def option.map_comp o_def split_def)
  qed
qed

section \<open>Properties\<close>



text \<open>
  A message with content carries its exact length: after \<open>set_content\<close> with a non-empty body, the
  header \<open>Content-Length\<close> is found and denotes the number of bytes of the content, whatever headers
  were set before; adding any other header leaves it.
\<close>

theorem set_content_length:
  assumes "sorted_keys (http_headers msg)" "body \<noteq> []" "key \<noteq> ''Content-Length''"
  shows "\<exists>s. map_of (http_headers (add_header key val (set_content body type msg))) ''Content-Length'' = Some s \<and>
    string_value s = length (content (add_header key val (set_content body type msg))) \<and>
    content (add_header key val (set_content body type msg)) = body \<and>
    sorted_keys (http_headers (add_header key val (set_content body type msg)))"
proof -
  let ?m = "map_put ''Content-Length'' (nat_string (length body)) (http_headers msg)"
  have s: "sorted_keys ?m" by (rule hs.put_invar [OF assms(1)])
  have "map_of (map_put key val ?m) ''Content-Length'' = Some (nat_string (length body))"
    using hs.get_put [OF s, of key val] hs.get_put [OF assms(1)] assms(3) by simp
  with hs.put_invar [OF s] nat_string_value [of "length body"] assms(2) show ?thesis
    by (simp add: set_content_def add_header_def)
qed

theorem set_content_length_witness:
  "\<exists>s. map_of (http_headers (set_host ''h'' (HttpRequest HTTP_POST ''/x'' ''abc'' ''txt''))) ''Content-Length'' = Some s \<and>
     string_value s = 3"
  using set_content_length [of "\<lparr>content = [], content_type = [], http_headers = [], http_method = HTTP_POST, http_url = ''/x''\<rparr>"
      "''abc''" "''Host''" "''h''" "''txt''"]
  by (auto simp: sorted_keys_def set_host_def HttpRequest_def)

text \<open>
  \<open>json\<close> and \<open>text\<close> send a response that does not depend on the message they are given.
\<close>

theorem rsp_json_ignores_message:
  "rsp_json date msg r w = rsp_json date msg' r w \<and> rsp_text date msg r w = rsp_text date msg' r w"
  by (simp add: rsp_json_def rsp_text_def)

end
