(* ===== verification/Http_Connection.thy ===== *)
theory Http_Connection
  imports Tcp_Rules Http_Decoder Http_Message
begin

text \<open>
  \<open>HttpConnection\<close> (src/include/http/http\_connection.h) with the routes of \<open>HttpFactory\<close> (http\_factory.h) and
  \<open>HttpContext\<close> (http\_context.h): the received bytes are decoded as a request, and the handler that is
  registered for its path answers through the connection, which is closed then. The handlers of the
  application are functions in the table of routes; what they do to the connection goes through its
  public methods. The date of a response and the memory of a new decoder are parameters, as is the size
  limit of headers. Logging, and the unused \<open>RegexOrderable\<close>, are left out.
\<close>

section \<open>Contexts and handlers\<close>

text \<open>The members that the class adds to \<open>TcpConnection\<close>; the table of routes is shared and a parameter.\<close>

record http_members =
  first_request :: "http_request option"

type_synonym 'w http_connection = "(http_members, 'w) tcp_connection"

record 'w http_context =
  request :: "http_decoder http_parser"
  response :: "'w http_connection http_response"

text \<open>A handler returns its result, the context and the connection.\<close>

type_synonym 'w http_callback = "'w http_context \<Rightarrow> 'w http_connection \<Rightarrow> int \<times> 'w http_context \<times> 'w http_connection"

record 'w http_handler =
  http_callback :: "'w http_callback option"
  context_callback :: "'w http_callback option"

definition no_handler :: "'w http_handler" where
  "no_handler = \<lparr>http_callback = None, context_callback = None\<rparr>"

text \<open>\<open>HttpContext::write\<close>.\<close>

definition context_write :: "bytes \<Rightarrow> bytes \<Rightarrow> 'w http_context \<Rightarrow> 'w http_connection \<Rightarrow> int \<times> 'w http_context \<times> 'w http_connection" where
  "context_write date msg ctx c =
     (let (n, c, rsp) = rsp_write date msg 200 (response ctx) c in (n, ctx\<lparr>response := rsp\<rparr>, c))"

text \<open>\<open>HttpHandler::call\<close>.\<close>

definition call_http_handler :: "bytes \<Rightarrow> 'w http_handler \<Rightarrow> 'w http_callback" where
  "call_http_handler date hdl ctx c =
     (case context_callback hdl of
        Some f \<Rightarrow> f ctx c
      | None \<Rightarrow>
          case http_callback hdl of
            Some f \<Rightarrow> f ctx c
          | None \<Rightarrow> (let (n, c, rsp) = rsp_write_empty date (response ctx) c in (n, ctx\<lparr>response := rsp\<rparr>, c)))"

type_synonym 'w http_routes = "bytes \<rightharpoonup> 'w http_handler"

text \<open>\<open>HttpFactory\<close>: the handler for all paths, in its three overloads.\<close>

record 'w http_factory =
  global_router :: "'w http_handler"
  http_routers :: "'w http_routes"

definition register_global_router :: "'w http_handler \<Rightarrow> 'w http_factory \<Rightarrow> 'w http_factory" where
  "register_global_router router fac = fac\<lparr>global_router := router\<rparr>"

definition register_global_request :: "'w http_callback \<Rightarrow> 'w http_factory \<Rightarrow> 'w http_factory" where
  "register_global_request f fac = fac\<lparr>global_router := (global_router fac)\<lparr>http_callback := Some f\<rparr>\<rparr>"

definition register_global_context :: "'w http_callback \<Rightarrow> 'w http_factory \<Rightarrow> 'w http_factory" where
  "register_global_context f fac = fac\<lparr>global_router := (global_router fac)\<lparr>context_callback := Some f\<rparr>\<rparr>"

text \<open>The three overloads of \<open>register_router\<close> change \<open>http_routers\<close>; \<open>operator[]\<close> makes a missing entry.\<close>

definition register_router :: "bytes \<Rightarrow> 'w http_handler \<Rightarrow> 'w http_routes \<Rightarrow> 'w http_routes" where
  "register_router path handler rt = rt(path \<mapsto> handler)"

definition route_entry :: "bytes \<Rightarrow> 'w http_routes \<Rightarrow> 'w http_handler" where
  "route_entry path rt = (case rt path of Some hdl \<Rightarrow> hdl | None \<Rightarrow> no_handler)"

definition register_request_router :: "bytes \<Rightarrow> 'w http_callback \<Rightarrow> 'w http_routes \<Rightarrow> 'w http_routes" where
  "register_request_router path f rt = rt(path \<mapsto> (route_entry path rt)\<lparr>http_callback := Some f\<rparr>)"

definition register_context_router :: "bytes \<Rightarrow> 'w http_callback \<Rightarrow> 'w http_routes \<Rightarrow> 'w http_routes" where
  "register_context_router path f rt = rt(path \<mapsto> (route_entry path rt)\<lparr>context_callback := Some f\<rparr>)"

section \<open>The connection\<close>

text \<open>The two overloads of \<open>write\<close>, and \<open>request\<close>, which sends what \<open>to_string\<close> returns: the decoded body.\<close>

definition http_write_text :: "'w kernel \<Rightarrow> bytes \<Rightarrow> 'w http_connection \<Rightarrow> 'w http_connection" where
  "http_write_text k msg c =
     (let c = (if is_connected c then snd (send k msg c) else c)
      in conn_close c)"

definition http_write :: "'w kernel \<Rightarrow> bytes \<Rightarrow> 'w http_connection http_response \<Rightarrow> 'w http_connection \<Rightarrow> 'w http_connection" where
  "http_write k date rsp c =
     (let c = (if is_connected c then snd (send k (dump date rsp) c) else c)
      in conn_close c)"

definition http_send_request :: "'w kernel \<Rightarrow> http_decoder \<Rightarrow> 'w http_connection \<Rightarrow> 'w http_connection" where
  "http_send_request k req c = snd (send k (http_body req) c)"

definition send_first_request :: "'w kernel \<Rightarrow> 'w http_connection \<Rightarrow> int \<times> 'w http_connection" where
  "send_first_request k c =
     (case first_request (app c) of Some req \<Rightarrow> send k (encode_request req) c | None \<Rightarrow> (-1, c))"

text \<open>
  What \<open>handle_data\<close> reads besides the connection: the limit of the parser, the contents of new memory, the date, and the
  routing members of the connection, which \<open>init_routers\<close> sets when the factory has created it (\<open>on_create\<close>).
  \<open>routes\<close> is the table that the pointer \<open>http_routers\<close> leads to, as it is when the data arrives.
\<close>

record 'w http_config =
  max_header :: u32
  url_memory :: http_parser_url
  parser_memory :: "http_decoder http_parser"
  cfg_date :: bytes
  conn_router :: "'w http_handler"
  routes :: "'w http_routes option"

definition init_routers :: "'w http_handler \<Rightarrow> 'w http_routes option \<Rightarrow> 'w http_config \<Rightarrow> 'w http_config" where
  "init_routers router routers cfg = cfg\<lparr>conn_router := router, routes := routers\<rparr>"

definition http_on_create :: "'w http_factory \<Rightarrow> 'w http_config \<Rightarrow> 'w http_config" where
  "http_on_create fac cfg = init_routers (global_router fac) (Some (http_routers fac)) cfg"

definition HttpResponse_default :: "'c http_response" where
  "HttpResponse_default = \<lparr>content = [], content_type = [], http_headers = [], status_code = 0, writer = None\<rparr>"

text \<open>A new context whose decoder works on \<open>parser_memory\<close>. The parser fails no assertion.\<close>

definition decode_request :: "'w http_config \<Rightarrow> bytes \<Rightarrow> u32 \<times> http_decoder http_parser" where
  "decode_request cfg data =
     (let hp = on_self (\<lambda>_. HttpDecoder) (parser_memory cfg)
      in case parse_request (max_header cfg) (url_memory cfg) hp data False of
           Some r \<Rightarrow> r
         | None \<Rightarrow> (0, hp))"

definition http_handle_data :: "'w kernel \<Rightarrow> 'w http_config \<Rightarrow> bytes \<Rightarrow> 'w http_connection \<Rightarrow> int \<times> 'w http_connection" where
  "http_handle_data k cfg data c =
     (let (msgLen, hp) = decode_request cfg data
      in (1,
          if 0 < msgLen then
            let ctx = \<lparr>request = hp, response = HttpResponse_default\<lparr>writer := Some (\<lambda>data c. send k data c)\<rparr>\<rparr>
            in case routes cfg of
                 None \<Rightarrow> c
               | Some rt \<Rightarrow>
                   let c = (case rt (http_path (hp_data hp)) of
                       Some handler \<Rightarrow>
                         let (rst, ctx, c) = call_http_handler (cfg_date cfg) handler ctx c
                         in if rst < 0 then http_write k (cfg_date cfg) (HttpResponse 501 [] ''txt'') c else c
                     | None \<Rightarrow> http_write k (cfg_date cfg) (HttpResponse 404 [] ''txt'') c)
                   in conn_close c
          else c))"

definition http_handlers :: "'w kernel \<Rightarrow> 'w http_config \<Rightarrow> (http_members, 'w) conn_handlers" where
  "http_handlers k cfg = TcpConnection_handlers\<lparr>handle_data := http_handle_data k cfg\<rparr>"

section \<open>The contract of a derived class\<close>

text \<open>Every handler that is registered acts on the connection through its public methods.\<close>

definition routes_ok :: "'w kernel \<Rightarrow> 'w http_routes \<Rightarrow> bool" where
  "routes_ok k rt \<longleftrightarrow>
     (\<forall>path hdl f ctx c c1. rt path = Some hdl \<longrightarrow> f \<in> set_option (http_callback hdl) \<union> set_option (context_callback hdl) \<longrightarrow>
        conn_client k c c1 \<longrightarrow> conn_client k c (snd (snd (f ctx c1))))"

definition config_ok :: "'w kernel \<Rightarrow> 'w http_config \<Rightarrow> bool" where
  "config_ok k cfg \<longleftrightarrow> (\<forall>rt. routes cfg = Some rt \<longrightarrow> routes_ok k rt)"

lemma send_client: "conn_client k c c1 \<Longrightarrow> conn_client k c (snd (send k d c1))"
  unfolding send_def by (metis conn_client.client_send prod.collapse)

lemma http_write_client: "conn_client k c c1 \<Longrightarrow> conn_client k c (http_write k date rsp c1)"
  by (simp add: http_write_def send_client conn_client.client_close)

lemma call_http_handler_client:
  assumes "routes_ok k rt" "rt path = Some hdl" "conn_client k c c1"
    and w: "writer (response ctx) = Some (\<lambda>data c. send k data c)"
  shows "conn_client k c (snd (snd (call_http_handler date hdl ctx c1)))"
proof (cases "context_callback hdl = None \<and> http_callback hdl = None")
  case True
  with assms(3) w show ?thesis
    by (simp add: call_http_handler_def rsp_write_empty_def call_writer_def send_client case_prod_beta Let_def)
next
  case False
  with assms(1-3) show ?thesis
    unfolding routes_ok_def by (auto simp: call_http_handler_def split: option.splits)
qed

lemma http_handle_data_client:
  assumes "config_ok k cfg"
  shows "conn_client k c (snd (http_handle_data k cfg data c))"
proof -
  let ?ctx = "\<lparr>request = snd (decode_request cfg data), response = HttpResponse_default\<lparr>writer := Some (\<lambda>data c. send k data c)\<rparr>\<rparr>"
  have "conn_client k c (snd (snd (call_http_handler (cfg_date cfg) hdl ?ctx c)))" if "routes cfg = Some rt" "rt path = Some hdl" for rt path hdl
    using call_http_handler_client [of k rt path hdl c c ?ctx "cfg_date cfg"] assms that conn_client.client_refl [of k c]
    by (simp add: config_ok_def)
  then show ?thesis
    by (auto simp: http_handle_data_def Let_def case_prod_beta conn_client.client_refl http_write_client
        intro!: conn_client.client_close split: option.split)
qed

lemma http_methods_ok: "config_ok k cfg \<Longrightarrow> methods_ok k (http_handlers k cfg)"
  by (simp add: methods_ok_def http_handlers_def TcpConnection_handlers_def conn_client.client_refl http_handle_data_client)

section \<open>Properties\<close>

lemma is_connected_open: "is_connected c = is_open c"
  by (simp add: is_connected_def is_open_def)

lemma closing_conn_close [simp]: "closing (conn_close c)"
  by (cases "conn_status c") (auto simp: conn_close_def notify_send_def mod_event_def worker_call_def closing_def
      less_ConnStatus_def status_num_def)

lemma accepted_conn_close [simp]: "accepted (conn_close c) = accepted c"
  by (simp add: conn_close_def notify_send_def mod_event_def worker_call_def)

text \<open>The text of a response without content.\<close>

definition status_text :: "bytes \<Rightarrow> u32 \<Rightarrow> bytes" where
  "status_text date code = dump date (HttpResponse code [] ''txt'' :: unit http_response)"

lemma dump_HttpResponse: "dump date (HttpResponse code [] ''txt'') = status_text date code"
  by (simp add: status_text_def dump_def encode_response_def HttpResponse_def set_content_def)

lemma dump_default:
  "dump date \<lparr>content = [], content_type = [], http_headers = [], status_code = 200, writer = w\<rparr> = status_text date 200"
  by (simp add: status_text_def dump_def encode_response_def HttpResponse_def set_content_def)

lemma send_result:
  assumes "is_open c" "length (send_buffer c @ d) < 2 ^ 31"
  shows "0 \<le> fst (send k d c)"
proof -
  have "sint (of_nat (length (send_buffer c @ d)) :: u32) = int (length (send_buffer c @ d))"
    using assms(2) by (simp add: signed_of_nat signed_take_bit_int_eq_self del: length_append of_nat_add)
  then show ?thesis
    using assms(1) by (simp add: send_def msend_def write_data_def append_data_def Let_def)
qed

lemma http_write_effect:
  "accepted (http_write k d rsp c) = accepted c @ (if is_open c then dump d rsp else [])" "closing (http_write k d rsp c)"
  by (simp_all add: http_write_def is_connected_open send_accepted)


text \<open>A configuration with one route, which answers with a text, and an open connection.\<close>

definition hello_routes :: "bytes list http_routes" where
  "hello_routes = register_context_router ''/a'' (context_write [] ''hello'') Map.empty"

definition hello_config :: "bytes list http_config" where
  "hello_config = \<lparr>max_header = 200, url_memory = http_parser_url_init, parser_memory = zero_parser HttpDecoder,
     cfg_date = [], conn_router = no_handler, routes = Some hello_routes\<rparr>"

definition http_sample :: "bytes list http_connection" where
  "http_sample = (new_connection [] 1025 7 ''h'' 80 \<lparr>first_request = None\<rparr> [])\<lparr>conn_status := CONN_OPEN\<rparr>"

definition hello_request :: bytes where
  "hello_request = ''GET /a HTTP/1.1'' @ crlf @ ''Host: h'' @ crlf @ crlf"

lemma hello_paths:
  "list_all (\<lambda>i. case decode_request hello_config (take i hello_request) of (n, hp) \<Rightarrow>
      0 < n \<and> http_path (hp_data hp) = (if i < length hello_request then [] else ''/a''))
    [1..<Suc (length hello_request)]"
  by code_simp


text \<open>The answer of the route.\<close>

definition hello_text :: bytes where
  "hello_text = dump [] (set_content_type ''text/html; charset=UTF-8'' (set_content ''hello'' ''txt''
     \<lparr>content = [], content_type = [], http_headers = [], status_code = 200, writer = None :: (bytes \<Rightarrow> unit \<Rightarrow> int \<times> unit) option\<rparr>))"

lemma hello_answer: "call_http_handler [] (route_entry ''/a'' hello_routes)
    \<lparr>request = hp, response = HttpResponse_default\<lparr>writer := Some (\<lambda>data c. send k data c)\<rparr>\<rparr> c =
  (fst (send k hello_text c),
   \<lparr>request = hp, response = set_content_type ''text/html; charset=UTF-8'' (set_content ''hello'' ''txt''
      (HttpResponse_default\<lparr>writer := Some (\<lambda>data c. send k data c), status_code := 200\<rparr>))\<rparr>,
   snd (send k hello_text c))"
  by (simp add: call_http_handler_def hello_routes_def register_context_router_def route_entry_def context_write_def rsp_write_def
      HttpResponse_default_def set_content_type_def add_header_def set_content_def call_writer_def hello_text_def dump_def encode_response_def
      case_prod_beta Let_def)



end
