(* ===== verification/Http_Url_Text.thy ===== *)
theory Http_Url_Text
  imports Snet_Prelude
begin

text \<open>
  The free functions of src/include/http/http\_url.h: character classes, the recognisers of schemes,
  numbers and ports, percent decoding and encoding, and the normalisation of paths. A range of
  pointers \<open>[s, e)\<close> is the string it covers. Addresses of version 4 and 6 are in \<open>Http_Url_Ip\<close>.
  A thrown exception is a value of \<open>url_error\<close>; \<open>Undefined_behaviour\<close> is an access outside an array.
\<close>

datatype url_error = Parse_error bytes | Build_error bytes | Out_of_range bytes | Undefined_behaviour

definition map_res :: "('a \<Rightarrow> 'b) \<Rightarrow> 'e + 'a \<Rightarrow> 'e + 'b" where
  "map_res f r = (case r of Inl e \<Rightarrow> Inl e | Inr x \<Rightarrow> Inr (f x))"

lemma map_res_simps [simp]: "map_res f (Inl e) = Inl e" "map_res f (Inr x) = Inr (f x)"
  by (simp_all add: map_res_def)

lemma map_res_Inr [simp]: "map_res f r = Inr y \<longleftrightarrow> (\<exists>x. r = Inr x \<and> y = f x)"
  by (auto simp: map_res_def split: sum.splits)

lemma map_res_Inl [simp]: "map_res f r = Inl e \<longleftrightarrow> r = Inl e"
  by (auto simp: map_res_def split: sum.splits)

lemma map_res_map_res [simp]: "map_res f (map_res g r) = map_res (\<lambda>x. f (g x)) r"
  by (auto simp: map_res_def split: sum.splits)

section \<open>Characters\<close>

definition tbl :: "u8 list" where
  "tbl = replicate 32 0 @
    [0x00, 0x01, 0x00, 0x00, 0x01, 0x20, 0x01, 0x01,
     0x01, 0x01, 0x01, 0x01, 0x01, 0x01, 0x01, 0x08,
     0x01, 0x01, 0x01, 0x01, 0x01, 0x01, 0x01, 0x01,
     0x01, 0x01, 0x04, 0x01, 0x00, 0x01, 0x00, 0x10,
     0x02, 0x01, 0x01, 0x01, 0x01, 0x01, 0x01, 0x01,
     0x01, 0x01, 0x01, 0x01, 0x01, 0x01, 0x01, 0x01,
     0x01, 0x01, 0x01, 0x01, 0x01, 0x01, 0x01, 0x01,
     0x01, 0x01, 0x01, 0x00, 0x00, 0x00, 0x00, 0x01,
     0x00, 0x01, 0x01, 0x01, 0x01, 0x01, 0x01, 0x01,
     0x01, 0x01, 0x01, 0x01, 0x01, 0x01, 0x01, 0x01,
     0x01, 0x01, 0x01, 0x01, 0x01, 0x01, 0x01, 0x01,
     0x01, 0x01, 0x01, 0x00, 0x00, 0x00, 0x01, 0x00] @
    replicate 128 0"

definition is_char :: "char \<Rightarrow> u8 \<Rightarrow> bool" where
  "is_char c msk \<longleftrightarrow> (tbl ! of_char c) AND msk \<noteq> 0"

definition is_chars :: "bytes \<Rightarrow> u8 \<Rightarrow> bool" where
  "is_chars s msk \<longleftrightarrow> list_all (\<lambda>c. is_char c msk) s"

text \<open>The value of a \<open>char\<close>, which is signed.\<close>

definition sc :: "char \<Rightarrow> int" where
  "sc c = (if of_char c < (128 :: nat) then int (of_char c) else int (of_char c) - 256)"

definition is_alpha :: "char \<Rightarrow> bool" where
  "is_alpha c \<longleftrightarrow> (sc c \<ge> sc (CHR ''A'') \<and> sc c \<le> sc (CHR ''Z'')) \<or> (sc c \<ge> sc (CHR ''a'') \<and> sc c \<le> sc (CHR ''z''))"

definition is_num :: "char \<Rightarrow> bool" where
  "is_num c \<longleftrightarrow> sc c \<ge> sc (CHR ''0'') \<and> sc c \<le> sc (CHR ''9'')"

definition is_alnum :: "char \<Rightarrow> bool" where
  "is_alnum c \<longleftrightarrow> is_alpha c \<or> is_num c"

definition is_hexdigit :: "char \<Rightarrow> bool" where
  "is_hexdigit c \<longleftrightarrow> is_num c \<or> (sc c \<ge> sc (CHR ''A'') \<and> sc c \<le> sc (CHR ''F'')) \<or>
     (sc c \<ge> sc (CHR ''a'') \<and> sc c \<le> sc (CHR ''f''))"

definition is_pchars :: "bytes \<Rightarrow> bool" where
  "is_pchars s = is_chars s 0x07"

definition get_hex_digit :: "char \<Rightarrow> int" where
  "get_hex_digit c =
     (if sc c \<ge> sc (CHR ''0'') \<and> sc c \<le> sc (CHR ''9'') then sc c - sc (CHR ''0'')
      else if sc c \<ge> sc (CHR ''A'') \<and> sc c \<le> sc (CHR ''F'') then sc c - sc (CHR ''A'') + 10
      else if sc c \<ge> sc (CHR ''a'') \<and> sc c \<le> sc (CHR ''f'') then sc c - sc (CHR ''a'') + 10
      else -1)"

text \<open>\<open>c |= 0x20\<close> on a letter in upper case.\<close>

definition lower_char :: "char \<Rightarrow> char" where
  "lower_char c = (if sc c \<ge> sc (CHR ''A'') \<and> sc c \<le> sc (CHR ''Z'') then char_of (of_char c OR (0x20 :: nat)) else c)"

definition to_lower :: "bytes \<Rightarrow> bytes" where
  "to_lower s = map lower_char s"

section \<open>Numbers, schemes and names\<close>

text \<open>
  \<open>is_uint\<close> moves the start \<open>s\<close> behind the number: the result is what is left of the range, or \<open>None\<close>
  for \<open>false\<close>. The value is a \<open>uint32_t\<close> and wraps.
\<close>

fun uint_loop :: "u32 \<Rightarrow> bytes \<Rightarrow> u32 \<times> bytes" where
  "uint_loop val [] = (val, [])"
| "uint_loop val (c # t) = (if is_num c then uint_loop (val * 10 + of_int (sc c - sc (CHR ''0''))) t else (val, c # t))"

definition is_uint :: "bytes \<Rightarrow> u32 \<Rightarrow> bytes option" where
  "is_uint s m =
     (case s of
        [] \<Rightarrow> None
      | c # t \<Rightarrow>
          if \<not> is_num c then None
          else
            let val = of_int (sc c - sc (CHR ''0''));
                (val, t) = (if val \<noteq> 0 then uint_loop val t else (val, t))
            in if val > m then None else Some t)"

definition is_port :: "bytes \<Rightarrow> bool" where
  "is_port s \<longleftrightarrow> is_uint s 65535 = Some []"

definition is_scheme :: "bytes \<Rightarrow> bool" where
  "is_scheme s =
     (case s of
        [] \<Rightarrow> False
      | c # t \<Rightarrow> is_alpha c \<and> list_all (\<lambda>c. is_alnum c \<or> c = CHR ''+'' \<or> c = CHR ''-'' \<or> c = CHR ''.'') t)"

definition normalize_scheme :: "bytes \<Rightarrow> bytes" where
  "normalize_scheme s = to_lower s"

definition is_reg_name :: "bytes \<Rightarrow> bool" where
  "is_reg_name s = is_chars s 0x01"

definition normalize_reg_name :: "bytes \<Rightarrow> bytes" where
  "normalize_reg_name s = to_lower s"

section \<open>Searching\<close>

text \<open>The positions \<open>b\<close> and \<open>e\<close> are offsets into the string \<open>u\<close>; a search ends at \<open>e\<close> when nothing is found.\<close>

function find_first_of :: "bytes \<Rightarrow> nat \<Rightarrow> nat \<Rightarrow> bytes \<Rightarrow> nat" where
  "find_first_of u s e q = (if s < e then if u ! s \<in> set q then s else find_first_of u (s + 1) e q else e)"
  by pat_completeness auto
termination
  by (relation "measure (\<lambda>(u, s, e, q). e - s)") auto

function find_char :: "bytes \<Rightarrow> nat \<Rightarrow> nat \<Rightarrow> char \<Rightarrow> nat" where
  "find_char u s e c = (if s < e \<and> u ! s \<noteq> c then find_char u (s + 1) e c else s)"
  by pat_completeness auto
termination
  by (relation "measure (\<lambda>(u, s, e, c). e - s)") auto

declare find_first_of.simps [simp del] find_char.simps [simp del]

section \<open>Percent encoding\<close>

fun decode :: "bytes \<Rightarrow> url_error + bytes" where
  "decode [] = Inr []"
| "decode (c # s) =
     (if c = CHR ''%'' then
        (case s of
           a # b # s' \<Rightarrow>
             if get_hex_digit a < 0 \<or> get_hex_digit b < 0 then Inl (Parse_error ''Invalid percent encoding'')
             else map_res (\<lambda>o'. char_of (nat (get_hex_digit a * 16 + get_hex_digit b)) # o') (decode s')
         | _ \<Rightarrow> Inl (Parse_error ''Invalid percent encoding''))
      else map_res (\<lambda>o'. c # o') (decode s))"

fun decode_plus :: "bytes \<Rightarrow> url_error + bytes" where
  "decode_plus [] = Inr []"
| "decode_plus (c # s) =
     (if c = CHR ''+'' then map_res (\<lambda>o'. CHR '' '' # o') (decode_plus s)
      else if c = CHR ''%'' then
        (case s of
           a # b # s' \<Rightarrow>
             if get_hex_digit a < 0 \<or> get_hex_digit b < 0 then Inl (Parse_error ''Invalid percent encoding'')
             else map_res (\<lambda>o'. char_of (nat (get_hex_digit a * 16 + get_hex_digit b)) # o') (decode_plus s')
         | _ \<Rightarrow> Inl (Parse_error ''Invalid percent encoding''))
      else map_res (\<lambda>o'. c # o') (decode_plus s))"

text \<open>
  \<open>"0123456789ABCDEF"[c >> 4]\<close>: \<open>c\<close> is promoted to \<open>int\<close> with its sign, so the index is negative for a
  byte above 127.
\<close>

definition hex_chars :: bytes where
  "hex_chars = ''0123456789ABCDEF''"

definition percent :: "char \<Rightarrow> url_error + bytes" where
  "percent c =
     (if sc c div 16 < 0 then Inl Undefined_behaviour
      else Inr [CHR ''%'', hex_chars ! nat (sc c div 16), hex_chars ! nat (sc c mod 16)])"

text \<open>What the loops of the three output operators write for a character.\<close>

definition encode_char :: "u8 \<Rightarrow> char \<Rightarrow> url_error + bytes" where
  "encode_char msk c = (if is_char c msk then Inr [c] else percent c)"

definition encode_query_key_char :: "u8 \<Rightarrow> char \<Rightarrow> url_error + bytes" where
  "encode_query_key_char msk c =
     (if c = CHR '' '' then Inr ''+''
      else if c = CHR ''+'' then Inr ''%2B''
      else if c = CHR ''='' then Inr ''%3D''
      else if c = CHR ''&'' then Inr ''%26''
      else if c = CHR '';'' then Inr ''%3B''
      else if is_char c msk then Inr [c]
      else percent c)"

definition encode_query_val_char :: "u8 \<Rightarrow> char \<Rightarrow> url_error + bytes" where
  "encode_query_val_char msk c =
     (if c = CHR '' '' then Inr ''+''
      else if c = CHR ''+'' then Inr ''%2B''
      else if c = CHR ''&'' then Inr ''%26''
      else if c = CHR '';'' then Inr ''%3B''
      else if is_char c msk then Inr [c]
      else percent c)"

fun write_all :: "(char \<Rightarrow> url_error + bytes) \<Rightarrow> bytes \<Rightarrow> url_error + bytes" where
  "write_all f [] = Inr []"
| "write_all f (c # s) =
     (case f c of Inl e \<Rightarrow> Inl e | Inr x \<Rightarrow> map_res (\<lambda>o'. x @ o') (write_all f s))"

definition encode :: "bytes \<Rightarrow> u8 \<Rightarrow> url_error + bytes" where
  "encode s msk = write_all (encode_char msk) s"

definition encode_query_key :: "bytes \<Rightarrow> u8 \<Rightarrow> url_error + bytes" where
  "encode_query_key s msk = write_all (encode_query_key_char msk) s"

definition encode_query_val :: "bytes \<Rightarrow> u8 \<Rightarrow> url_error + bytes" where
  "encode_query_val s msk = write_all (encode_query_val_char msk) s"

section \<open>Paths\<close>

text \<open>\<open>std::getline (si, elem, '/')\<close>: the element, and what is left after the separator, or \<open>None\<close> at the end.\<close>

fun getline :: "char \<Rightarrow> bytes \<Rightarrow> bytes \<times> bytes option" where
  "getline d [] = ([], None)"
| "getline d (c # s) = (if c = d then ([], Some s) else map_prod ((#) c) id (getline d s))"

lemma getline_length: "getline d s = (l, Some r) \<Longrightarrow> length r < length s"
  by (induction d s arbitrary: l r rule: getline.induct) (auto simp: map_prod_def split: if_splits prod.splits)

definition path_push :: "bytes list \<Rightarrow> bytes \<Rightarrow> bytes list" where
  "path_push elems elem =
     (if elem = '''' \<or> elem = ''.'' then elems
      else if elem = ''..'' then (if elems \<noteq> [] then butlast elems else elems)
      else elems @ [elem])"

definition path_last :: "bytes list \<Rightarrow> bytes \<Rightarrow> bytes list" where
  "path_last elems elem =
     (if elem = ''.'' then elems @ ['''']
      else if elem = ''..'' then (if elems \<noteq> [] then butlast elems else elems)
      else elems @ [elem])"

function path_elems :: "bytes list \<Rightarrow> bytes \<Rightarrow> bytes list" where
  "path_elems elems s =
     (case getline (CHR ''/'') s of
        (elem, Some rest) \<Rightarrow> path_elems (path_push elems elem) rest
      | (elem, None) \<Rightarrow> path_last elems elem)"
  by pat_completeness auto
termination
  by (relation "measure (\<lambda>(elems, s). length s)") (auto dest: getline_length [OF sym])

declare path_elems.simps [simp del]

fun path_join :: "bytes list \<Rightarrow> bytes" where
  "path_join [] = []"
| "path_join [x] = x"
| "path_join (x # y # xs) = x @ ''/'' @ path_join (y # xs)"

definition normalize_path :: "bytes \<Rightarrow> bytes" where
  "normalize_path s =
     (if s = [] then s
      else (if hd s = CHR ''/'' then ''/'' else []) @ path_join (path_elems [] s))"

section \<open>Facts about single characters\<close>

definition ascii :: "bytes \<Rightarrow> bool" where
  "ascii s \<longleftrightarrow> list_all (\<lambda>c. sc c \<ge> 0) s"

lemma ascii_simps [simp]: "ascii []" "ascii (c # s) \<longleftrightarrow> sc c \<ge> 0 \<and> ascii s" "ascii (s @ t) \<longleftrightarrow> ascii s \<and> ascii t"
  by (simp_all add: ascii_def)

lemma is_char_ascii: "is_char c msk \<Longrightarrow> sc c \<ge> 0"
proof (rule ccontr)
  assume c: "is_char c msk" and "\<not> sc c \<ge> 0"
  then have n: "\<not> of_char c < (128 :: nat)" by (auto simp: sc_def split: if_splits)
  have "of_char c - 128 < (128 :: nat)" using nat_of_char_less_256 [of c] by linarith
  with n have "tbl ! of_char c = 0" by (simp add: tbl_def nth_append)
  with c show False by (simp add: is_char_def)
qed

lemma is_char_mono: "is_char c msk \<Longrightarrow> msk AND msk' = msk \<Longrightarrow> is_char c msk'"
proof -
  assume "is_char c msk" and m: "msk AND msk' = msk"
  then have "tbl ! of_char c AND (msk AND msk') \<noteq> 0" by (simp only: m is_char_def) simp
  then show "is_char c msk'" unfolding is_char_def by (metis and.commute and.left_commute and_zero_eq)
qed

lemma hex_chars_facts:
  "\<forall>k \<in> set [0..<16]. is_hexdigit (hex_chars ! k) \<and> get_hex_digit (hex_chars ! k) = int k \<and> is_char (hex_chars ! k) 1"
  by code_simp

lemma reserved_chars:
  "list_all (\<lambda>(c, m). \<not> is_char c m)
     [(CHR ''%'', 0x1F), (CHR ''#'', 0x3F), (CHR ''?'', 0x2F), (CHR ''/'', 0x27), (CHR '':'', 0x2B), (CHR ''@'', 0x25),
      (CHR ''['', 0xFF), (CHR '']'', 0xFF), (CHR '' '', 0xFF)]"
  by code_simp

lemma sc_cases: "(of_char c < (128 :: nat) \<and> sc c = int (of_char c)) \<or> (128 \<le> (of_char c :: nat) \<and> (of_char c :: nat) < 256 \<and> sc c = int (of_char c) - 256)"
  using nat_of_char_less_256 [of c] by (cases "of_char c < (128 :: nat)") (simp_all add: sc_def)

lemma sc_bounds: "-128 \<le> sc c" "sc c < 128"
  using sc_cases [of c] by linarith+

lemma sc_nonneg: "sc c \<ge> 0 \<longleftrightarrow> of_char c < (128 :: nat)"
  using sc_cases [of c] by linarith

lemma char_of_sc: "sc c \<ge> 0 \<Longrightarrow> char_of (nat (sc c)) = c"
  using sc_cases [of c] by (auto simp: sc_nonneg)

lemma percent_ascii:
  assumes "sc c \<ge> 0"
  obtains a b where "percent c = Inr [CHR ''%'', a, b]" "is_hexdigit a" "is_hexdigit b" "is_char a 1" "is_char b 1"
    "get_hex_digit a \<ge> 0" "get_hex_digit b \<ge> 0" "char_of (nat (get_hex_digit a * 16 + get_hex_digit b)) = c"
proof -
  define i j where "i = nat (sc c div 16)" and "j = nat (sc c mod 16)"
  have b: "i \<in> set [0..<16]" "j \<in> set [0..<16]" using assms sc_bounds [of c] by (auto simp: i_def j_def nat_less_iff pos_imp_zdiv_nonneg_iff)
  have e: "int i * 16 + int j = sc c" using assms by (simp add: i_def j_def pos_imp_zdiv_nonneg_iff)
  show ?thesis
  proof (rule that [of "hex_chars ! i" "hex_chars ! j"])
    show "percent c = Inr [CHR ''%'', hex_chars ! i, hex_chars ! j]"
      using assms sc_bounds [of c] by (simp add: percent_def i_def j_def)
    have g: "get_hex_digit (hex_chars ! i) = int i" "get_hex_digit (hex_chars ! j) = int j"
      using b hex_chars_facts by blast+
    show "char_of (nat (get_hex_digit (hex_chars ! i) * 16 + get_hex_digit (hex_chars ! j))) = c"
      unfolding g e by (rule char_of_sc [OF assms])
    show "get_hex_digit (hex_chars ! i) \<ge> 0" "get_hex_digit (hex_chars ! j) \<ge> 0" unfolding g by simp_all
  qed (use b hex_chars_facts in blast)+
qed

lemma percent_not_ascii: "\<not> sc c \<ge> 0 \<Longrightarrow> percent c = Inl Undefined_behaviour"
  by (simp add: percent_def)

section \<open>Percent encoding and decoding\<close>

lemma write_all_chars:
  assumes "write_all f s = Inr y" and "\<And>c x. f c = Inr x \<Longrightarrow> list_all P x"
  shows "list_all P y"
  using assms
proof (induction s arbitrary: y)
  case (Cons c s)
  then obtain x y' where "f c = Inr x" "write_all f s = Inr y'" "y = x @ y'"
    by (auto split: sum.splits)
  with Cons show ?case by auto
qed simp

lemma write_all_ok: "(\<forall>c \<in> set s. \<exists>x. f c = Inr x) \<Longrightarrow> \<exists>y. write_all f s = Inr y"
  by (induction s) (fastforce split: sum.splits)+

lemma write_all_ub:
  assumes "\<And>c. f c = Inl e \<or> (\<exists>x. f c = Inr x)" "c \<in> set s" "f c = Inl e"
  shows "write_all f s = Inl e"
  using assms(2)
proof (induction s)
  case (Cons d s)
  show ?case
  proof (cases "f d = Inl e")
    case False
    with Cons assms(3) have "write_all f s = Inl e" by auto
    with False assms(1) [of d] show ?thesis by auto
  qed simp
qed simp

text \<open>
  What an encoder and a decoder promise each other: the decoder undoes what the encoder writes for one
  character, whatever follows. Then it undoes what is written for a whole string.
\<close>

locale codec =
  fixes enc :: "char \<Rightarrow> url_error + bytes" and dec :: "bytes \<Rightarrow> url_error + bytes"
  assumes enc_ascii: "sc c \<ge> 0 \<Longrightarrow> \<exists>x. enc c = Inr x"
    and enc_not_ascii: "\<not> sc c \<ge> 0 \<Longrightarrow> enc c = Inl Undefined_behaviour"
    and dec_nil: "dec [] = Inr []"
    and dec_enc: "enc c = Inr x \<Longrightarrow> dec (x @ r) = map_res ((#) c) (dec r)"
begin

lemma roundtrip: "write_all enc s = Inr y \<Longrightarrow> dec y = Inr s"
proof (induction s arbitrary: y)
  case (Cons c s)
  then obtain x y' where "enc c = Inr x" "write_all enc s = Inr y'" "y = x @ y'" by (auto split: sum.splits)
  with Cons.IH dec_enc show ?case by auto
qed (simp add: dec_nil)

lemma total: "ascii s \<Longrightarrow> \<exists>y. write_all enc s = Inr y \<and> dec y = Inr s"
  using write_all_ok [of s enc] roundtrip enc_ascii by (fastforce simp: ascii_def list_all_iff)

lemma undefined: "\<not> ascii s \<Longrightarrow> write_all enc s = Inl Undefined_behaviour"
  using write_all_ub [of enc Undefined_behaviour _ s] enc_ascii enc_not_ascii
  by (auto simp: ascii_def list_all_iff)

end

lemma decode_percent:
  assumes "percent c = Inr x"
  shows "decode (x @ r) = map_res ((#) c) (decode r)" and "decode_plus (x @ r) = map_res ((#) c) (decode_plus r)"
proof -
  have "sc c \<ge> 0" using assms percent_not_ascii [of c] by (metis Inl_Inr_False)
  from percent_ascii [OF this] assms obtain a b where "x = [CHR ''%'', a, b]" "get_hex_digit a \<ge> 0"
    "get_hex_digit b \<ge> 0" "char_of (nat (get_hex_digit a * 16 + get_hex_digit b)) = c" by (metis sum.inject(2))
  then show "decode (x @ r) = map_res ((#) c) (decode r)" "decode_plus (x @ r) = map_res ((#) c) (decode_plus r)"
    by simp_all
qed

lemma percent_total: "sc c \<ge> 0 \<Longrightarrow> \<exists>x. percent c = Inr x"
  by (rule percent_ascii) auto

lemma not_percent_char: "is_char (CHR ''%'') m \<Longrightarrow> m AND 0x1F = m \<Longrightarrow> False"
  using reserved_chars is_char_mono [of "CHR ''%''" m "0x1F"] by simp

lemma codec_plain:
  assumes "m AND 0x1F = m"
  shows "codec (encode_char m) decode"
proof
  fix c x r
  show "sc c \<ge> 0 \<Longrightarrow> \<exists>x. encode_char m c = Inr x" by (simp add: encode_char_def percent_total)
  show "\<not> sc c \<ge> 0 \<Longrightarrow> encode_char m c = Inl Undefined_behaviour"
    using is_char_ascii [of c m] by (auto simp: encode_char_def percent_not_ascii)
  show "encode_char m c = Inr x \<Longrightarrow> decode (x @ r) = map_res ((#) c) (decode r)"
    using not_percent_char [of m] assms by (auto simp: encode_char_def decode_percent split: if_splits)
qed simp

interpretation user_codec: codec "encode_char 0x05" decode
  by (rule codec_plain) simp

interpretation path_codec: codec "encode_char 0x0F" decode
  by (rule codec_plain) simp

interpretation fragment_codec: codec "encode_char 0x1F" decode
  by (rule codec_plain) simp

text \<open>The encoders of queries treat some characters apart, in the way of percent encoding.\<close>

lemma query_specials:
  "Inr ''%2B'' = percent (CHR ''+'')" "Inr ''%3D'' = percent (CHR ''='')" "Inr ''%26'' = percent (CHR ''&'')"
  "Inr ''%3B'' = percent (CHR '';'')"
  by code_simp+

lemma encode_query_key_char_alt:
  "encode_query_key_char m c =
     (if c = CHR '' '' then Inr ''+'' else if c \<in> set ''+=&;'' then percent c else encode_char m c)"
  by (simp add: encode_query_key_char_def encode_char_def query_specials)

lemma encode_query_val_char_alt:
  "encode_query_val_char m c =
     (if c = CHR '' '' then Inr ''+'' else if c \<in> set ''+&;'' then percent c else encode_char m c)"
  by (simp add: encode_query_val_char_def encode_char_def query_specials)

lemma codec_query:
  assumes e: "\<And>c. enc c = (if c = CHR '' '' then Inr ''+'' else if c \<in> S then percent c else encode_char 0x1F c)"
    and S: "CHR ''+'' \<in> S"
  shows "codec enc decode_plus"
proof
  fix c x r
  show "sc c \<ge> 0 \<Longrightarrow> \<exists>x. enc c = Inr x" by (simp add: e encode_char_def percent_total)
  show "\<not> sc c \<ge> 0 \<Longrightarrow> enc c = Inl Undefined_behaviour"
    using is_char_ascii [of c "0x1F"] by (auto simp: e encode_char_def percent_not_ascii sc_def)
  assume x: "enc c = Inr x"
  then consider "c = CHR '' ''" "x = ''+''" | "percent c = Inr x" | "is_char c 0x1F" "c \<noteq> CHR ''+''" "x = [c]"
    using S e [of c] by (cases "c = CHR '' ''"; cases "c \<in> S"; cases "is_char c 0x1F") (simp_all add: encode_char_def, metis)
  then show "decode_plus (x @ r) = map_res ((#) c) (decode_plus r)"
  proof cases
    case 2
    then show ?thesis by (rule decode_percent)
  next
    case 3
    then show ?thesis using not_percent_char [of "0x1F"] by auto
  qed simp
qed simp

interpretation key_codec: codec "encode_query_key_char 0x1F" decode_plus
  by (rule codec_query [OF encode_query_key_char_alt]) simp

interpretation val_codec: codec "encode_query_val_char 0x1F" decode_plus
  by (rule codec_query [OF encode_query_val_char_alt]) simp

text \<open>What an encoder writes are characters of its class, hexadecimal digits and percent signs.\<close>

lemma percent_class: "percent c = Inr x \<Longrightarrow> list_all (\<lambda>d. is_char d 0x21) x"
proof -
  assume x: "percent c = Inr x"
  have "sc c \<ge> 0" using x percent_not_ascii [of c] by (metis Inl_Inr_False)
  from percent_ascii [OF this] x obtain a b where "x = [CHR ''%'', a, b]" "is_char a 1" "is_char b 1"
    by (metis sum.inject(2))
  moreover have "is_char (CHR ''%'') 0x21" by code_simp
  ultimately show ?thesis using is_char_mono [of _ 1 "0x21"] by simp
qed

lemma encode_char_class:
  assumes "m AND m' = m" "0x21 AND m' = 0x21" "encode_char m c = Inr x"
  shows "list_all (\<lambda>d. is_char d m') x"
proof (cases "is_char c m")
  case True
  with assms is_char_mono [OF True assms(1)] show ?thesis by (auto simp: encode_char_def)
next
  case False
  with assms percent_class [of c x] show ?thesis
    by (auto simp: encode_char_def list_all_iff intro: is_char_mono)
qed

lemma encode_class:
  "m AND m' = m \<Longrightarrow> 0x21 AND m' = 0x21 \<Longrightarrow> write_all (encode_char m) s = Inr y \<Longrightarrow> is_chars y m'"
  unfolding is_chars_def by (erule write_all_chars) (rule encode_char_class)

lemma percent_no_separator: "percent c = Inr x \<Longrightarrow> list_all (\<lambda>d. d \<notin> set ''=&;'') x"
proof -
  assume x: "percent c = Inr x"
  have "sc c \<ge> 0" using x percent_not_ascii [of c] by (metis Inl_Inr_False)
  from percent_ascii [OF this] x obtain a b where "x = [CHR ''%'', a, b]" "is_hexdigit a" "is_hexdigit b"
    by (metis sum.inject(2))
  moreover have "d \<notin> set ''=&;''" if "is_hexdigit d" for d
    using that by (auto simp: is_hexdigit_def is_num_def sc_def)
  ultimately show ?thesis by simp
qed

lemma query_char_class:
  assumes e: "\<And>c. enc c = (if c = CHR '' '' then Inr ''+'' else if c \<in> S then percent c else encode_char 0x1F c)"
    and S: "S \<inter> set ''=&;'' = T" and x: "enc c = Inr x"
  shows "list_all (\<lambda>d. is_char d 0x3F \<and> d \<notin> T) x"
proof -
  consider "c = CHR '' ''" "x = ''+''" | "percent c = Inr x" | "c \<notin> S" "is_char c 0x1F" "x = [c]"
    using e [of c] x by (cases "c = CHR '' ''"; cases "c \<in> S"; cases "is_char c 0x1F") (auto simp: encode_char_def)
  then show ?thesis
  proof cases
    case 1
    have "is_char (CHR ''+'') 0x3F" by code_simp
    with 1 S show ?thesis by auto
  next
    case 2
    with percent_class [OF 2] percent_no_separator [OF 2] S show ?thesis
      by (fastforce simp: list_all_iff intro: is_char_mono [of _ "0x21"])
  next
    case 3
    with S is_char_mono [OF 3(2), of "0x3F"] show ?thesis by auto
  qed
qed

lemma encode_query_key_class:
  "write_all (encode_query_key_char 0x1F) s = Inr y \<Longrightarrow> list_all (\<lambda>d. is_char d 0x3F \<and> d \<notin> set ''=&;'') y"
  by (erule write_all_chars) (rule query_char_class [OF encode_query_key_char_alt], auto)

lemma encode_query_val_class:
  "write_all (encode_query_val_char 0x1F) s = Inr y \<Longrightarrow> list_all (\<lambda>d. is_char d 0x3F \<and> d \<notin> set ''&;'') y"
  by (erule write_all_chars) (rule query_char_class [OF encode_query_val_char_alt], auto)

section \<open>Segments of a path\<close>

fun split_on :: "char \<Rightarrow> bytes \<Rightarrow> bytes list" where
  "split_on d [] = [[]]"
| "split_on d (c # s) = (if c = d then [] # split_on d s else (c # hd (split_on d s)) # tl (split_on d s))"

lemma split_on_not_Nil [simp]: "split_on d s \<noteq> []"
  by (induction s) auto

lemma split_on_no_separator: "x \<in> set (split_on d s) \<Longrightarrow> d \<notin> set x"
proof (induction s arbitrary: x)
  case (Cons c s)
  have "hd (split_on d s) \<in> set (split_on d s)" by simp
  moreover have "set (tl (split_on d s)) \<subseteq> set (split_on d s)" by (cases "split_on d s") auto
  ultimately show ?case using Cons by (auto split: if_splits)
qed simp

lemma split_on_append: "d \<notin> set x \<Longrightarrow> split_on d (x @ d # s) = x # split_on d s"
  by (induction x) auto

lemma split_on_single: "d \<notin> set x \<Longrightarrow> split_on d x = [x]"
  by (induction x) auto

lemma split_on_snoc: "split_on d (x @ [d]) = split_on d x @ [[]]"
  by (induction x) auto

fun join_on :: "char \<Rightarrow> bytes list \<Rightarrow> bytes" where
  "join_on d [] = []"
| "join_on d [x] = x"
| "join_on d (x # y # xs) = x @ d # join_on d (y # xs)"

lemma path_join_join_on: "path_join xs = join_on (CHR ''/'') xs"
  by (induction xs rule: path_join.induct) simp_all

lemma join_split_on [simp]: "join_on d (split_on d s) = s"
proof (induction s)
  case (Cons c s)
  then show ?case by (cases "split_on d s" rule: path_join.cases) auto
qed simp

lemma last_split_on: "s \<noteq> [] \<Longrightarrow> last (split_on d s) = [] \<longleftrightarrow> last s = d"
proof (induction s)
  case (Cons c s)
  obtain g gs where g: "split_on d s = g # gs" by (cases "split_on d s") auto
  show ?case
  proof (cases "s = []")
    case False
    then have "split_on d s \<noteq> [[]]" using join_split_on [of d s] by force
    with False Cons.IH g show ?thesis by (cases gs) auto
  qed simp
qed simp

lemma join_on_nth:
  "join_on d (a @ g # b) = concat (map (\<lambda>x. x @ [d]) a) @ g @ concat (map (\<lambda>x. d # x) b)"
proof (induction a)
  case Nil
  show ?case by (induction b arbitrary: g) simp_all
next
  case (Cons x a)
  then show ?case by (cases "a @ g # b") auto
qed

lemma split_join_on: "es \<noteq> [] \<Longrightarrow> \<forall>x \<in> set es. d \<notin> set x \<Longrightarrow> split_on d (join_on d es) = es"
  by (induction es rule: path_join.induct) (simp_all add: split_on_append split_on_single)

abbreviation segments :: "bytes \<Rightarrow> bytes list" where
  "segments \<equiv> split_on (CHR ''/'')"

lemma getline_segments:
  "getline (CHR ''/'') s =
     (hd (segments s), if tl (segments s) = [] then None else Some (path_join (tl (segments s)))) \<and>
   segments (path_join (tl (segments s))) = (if tl (segments s) = [] then [[]] else tl (segments s))"
proof (induction s)
  case (Cons c s)
  show ?case using Cons by (auto simp: path_join_join_on)
qed simp

lemma path_elems_segments:
  "path_elems es s = path_last (foldl path_push es (butlast (segments s))) (last (segments s))"
proof (induction es s rule: path_elems.induct)
  case (1 es s)
  show ?case
  proof (cases "tl (segments s) = []")
    case True
    then obtain x where "segments s = [x]" by (cases "segments s") auto
    with getline_segments [of s] show ?thesis by (subst path_elems.simps) simp
  next
    case False
    let ?r = "path_join (tl (segments s))"
    have g: "getline (CHR ''/'') s = (hd (segments s), Some ?r)" "segments ?r = tl (segments s)"
      using getline_segments [of s] False by auto
    from 1 [OF g(1) [symmetric] refl] have "path_elems (path_push es (hd (segments s))) ?r =
        path_last (foldl path_push (path_push es (hd (segments s))) (butlast (tl (segments s)))) (last (tl (segments s)))"
      unfolding g(2) .
    with g False show ?thesis
      by (subst path_elems.simps) (cases "segments s"; simp)
  qed
qed

text \<open>
  The elements that \<open>normalize_path\<close> joins: none has a separator or is a dot segment, and only the last
  may be empty.
\<close>

definition plain_segment :: "bytes \<Rightarrow> bool" where
  "plain_segment x \<longleftrightarrow> CHR ''/'' \<notin> set x \<and> x \<noteq> ''.'' \<and> x \<noteq> ''..''"

definition normal_elems :: "bytes list \<Rightarrow> bool" where
  "normal_elems es \<longleftrightarrow> list_all plain_segment es \<and> [] \<notin> set (butlast es)"

lemma list_all_butlast: "list_all P es \<Longrightarrow> list_all P (butlast es)"
  by (auto simp: list_all_iff dest: in_set_butlastD)

lemma path_push_normal:
  assumes "list_all plain_segment es" "[] \<notin> set es" "CHR ''/'' \<notin> set x"
  shows "list_all plain_segment (path_push es x)" "[] \<notin> set (path_push es x)"
  using assms by (auto simp: path_push_def plain_segment_def list_all_butlast dest: in_set_butlastD)

lemma foldl_path_push_normal:
  assumes "list_all plain_segment es" "[] \<notin> set es" "\<forall>x \<in> set xs. CHR ''/'' \<notin> set x"
  shows "list_all plain_segment (foldl path_push es xs) \<and> [] \<notin> set (foldl path_push es xs)"
  using assms by (induction xs arbitrary: es) (auto simp: path_push_normal)

lemma path_elems_normal: "normal_elems (path_elems [] s)"
proof -
  let ?es = "foldl path_push [] (butlast (segments s))" and ?x = "last (segments s)"
  have es: "list_all plain_segment ?es" "[] \<notin> set ?es"
    using foldl_path_push_normal [of "[]" "butlast (segments s)"] split_on_no_separator [of _ "CHR ''/''" s]
    by (auto dest: in_set_butlastD)
  moreover have "CHR ''/'' \<notin> set ?x" using split_on_no_separator [of ?x "CHR ''/''" s] by simp
  ultimately show ?thesis unfolding path_elems_segments path_last_def normal_elems_def
    by (auto simp: plain_segment_def list_all_butlast dest: in_set_butlastD)
qed

lemma segments_path_join: "es \<noteq> [] \<Longrightarrow> list_all plain_segment es \<Longrightarrow> segments (path_join es) = es"
  unfolding path_join_join_on by (rule split_join_on) (auto simp: list_all_iff plain_segment_def)

lemma foldl_path_push_id:
  "list_all plain_segment xs \<Longrightarrow> [] \<notin> set xs \<Longrightarrow> foldl path_push es xs = es @ xs"
  by (induction xs arbitrary: es) (auto simp: path_push_def plain_segment_def)

lemma path_elems_join:
  assumes "normal_elems es" "es \<noteq> []"
  shows "path_elems [] (path_join es) = es" "path_elems [] (CHR ''/'' # path_join es) = es"
proof -
  have s: "segments (path_join es) = es" using assms by (simp add: segments_path_join normal_elems_def)
  have b: "foldl path_push [] (butlast es) = butlast es"
    using foldl_path_push_id [of "butlast es" "[]"] assms by (simp add: normal_elems_def list_all_butlast)
  have l: "path_last (butlast es) (last es) = es"
  proof -
    have "plain_segment (last es)" using assms by (simp add: normal_elems_def list_all_iff)
    then show ?thesis using assms(2) by (simp add: path_last_def plain_segment_def)
  qed
  show "path_elems [] (path_join es) = es" unfolding path_elems_segments s b l ..
  show "path_elems [] (CHR ''/'' # path_join es) = es"
    using assms(2) by (simp add: path_elems_segments s path_push_def b l)
qed

lemma hd_path_join:
  assumes "normal_elems es" "path_join es \<noteq> []"
  shows "hd (path_join es) \<noteq> CHR ''/''"
  using assms
  by (cases es rule: path_join.cases) (auto simp: normal_elems_def plain_segment_def hd_append dest: hd_in_set)

text \<open>A normalised path: what \<open>normalize_path\<close> produces.\<close>

definition normal_path :: "bytes \<Rightarrow> bool" where
  "normal_path s \<longleftrightarrow> normalize_path s = s"

lemma normalize_path_idem: "normalize_path (normalize_path s) = normalize_path s"
proof (cases "s = []")
  case False
  define es where "es = path_elems [] s"
  have n: "normal_elems es" unfolding es_def by (rule path_elems_normal)
  show ?thesis
  proof (cases "hd s = CHR ''/''")
    case True
    then have "normalize_path s = CHR ''/'' # path_join es" using False by (simp add: normalize_path_def es_def)
    moreover have "path_join (path_elems [] (CHR ''/'' # path_join es)) = path_join es"
    proof (cases "es = []")
      case True
      have "path_elems [] ''/'' = [[]]" by (simp add: path_elems_segments path_push_def path_last_def)
      with True show ?thesis by simp
    qed (simp add: path_elems_join n)
    ultimately show ?thesis by (simp add: normalize_path_def)
  next
    case False
    with \<open>s \<noteq> []\<close> have "normalize_path s = path_join es" by (simp add: normalize_path_def es_def)
    moreover have "es \<noteq> []" if "path_join es \<noteq> []" using that by auto
    moreover have "normalize_path [] = []" by (simp add: normalize_path_def)
    ultimately show ?thesis using path_elems_join [OF n] hd_path_join [OF n]
      by (cases "path_join es = []") (simp_all add: normalize_path_def [of "path_join es"])
  qed
qed (simp add: normalize_path_def)

lemma segments_normalize_path:
  "segments (normalize_path s) =
     (let es = path_elems [] s; es = (if es = [] then [[]] else es)
      in if take 1 s = ''/'' then [] # es else if s = [] then [[]] else es)"
proof (cases s)
  case (Cons c t)
  have "segments (path_join (path_elems [] s)) = (if path_elems [] s = [] then [[]] else path_elems [] s)"
    using segments_path_join [of "path_elems [] s"] path_elems_normal [of s] by (auto simp: normal_elems_def)
  with Cons show ?thesis by (auto simp: normalize_path_def Let_def)
qed (simp add: normalize_path_def)

section \<open>Numbers\<close>

lemma sc_digits: "sc (CHR ''0'') = 48" "sc (CHR ''9'') = 57"
  by code_simp+

lemma is_num_digit: "is_num c \<longleftrightarrow> 48 \<le> (of_char c :: nat) \<and> (of_char c :: nat) \<le> 57"
  unfolding is_num_def sc_digits using sc_cases [of c] by linarith

lemma digit_value: "is_num c \<Longrightarrow> sc c - sc (CHR ''0'') = int (of_char c - 48)"
  unfolding is_num_digit sc_digits using sc_cases [of c] by linarith

lemma uint_loop_value:
  "uint_loop (of_nat v) s = (of_nat (digits_from v (takeWhile is_num s)), dropWhile is_num s)"
proof (induction s arbitrary: v)
  case (Cons c s)
  show ?case
  proof (cases "is_num c")
    case True
    have "(of_nat v * 10 + of_int (int (of_char c - 48)) :: u32) = of_nat (v * 10 + (of_char c - 48))"
      by (simp only: of_int_of_nat_eq of_nat_add of_nat_mult of_nat_numeral)
    with Cons.IH [of "v * 10 + (of_char c - 48)"] True show ?thesis
      by (simp only: uint_loop.simps digit_value [OF True] if_True takeWhile.simps dropWhile.simps digits_from_simps)
  qed simp
qed simp

lemma decimal_is_num: "decimal s \<longleftrightarrow> list_all is_num s"
  by (auto simp: decimal_def is_num_digit list_all_iff)

text \<open>\<open>is_uint\<close> accepts a decimal number without leading zeros, but compares its value modulo \<open>2 ^ 32\<close>.\<close>

lemma is_uint_eq:
  "is_uint s m =
     (let d = takeWhile is_num s
      in if d = [] then None
         else if hd d = CHR ''0'' then Some (tl s)
         else if of_nat (string_value d) \<le> m then Some (dropWhile is_num s) else None)"
proof (cases s)
  case (Cons c t)
  show ?thesis
  proof (cases "is_num c")
    case True
    define v where "v = (of_char c :: nat) - 48"
    have v: "(of_int (sc c - sc (CHR ''0'')) :: u32) = of_nat v" 
      by (simp only: digit_value [OF True] v_def of_int_of_nat_eq)
    have z: "(of_nat v :: u32) = 0 \<longleftrightarrow> c = CHR ''0''"
    proof -
      have "v < 10" using True by (auto simp: v_def is_num_digit)
      then have "(of_nat v :: u32) = 0 \<longleftrightarrow> v = 0" by (auto simp: word_of_nat_eq_0_iff dest: dvd_imp_le)
      also have "\<dots> \<longleftrightarrow> (of_char c :: nat) = of_char (CHR ''0'')" using True by (auto simp: v_def is_num_digit)
      also have "\<dots> \<longleftrightarrow> c = CHR ''0''" by (metis char_of_char)
      finally show ?thesis .
    qed
    show ?thesis unfolding Cons is_uint_def list.case v
      using True z by (auto simp: uint_loop_value string_value_def Let_def v_def not_le)
  qed (simp add: Cons is_uint_def)
qed (simp add: is_uint_def)

lemma is_port_eq:
  "is_port s \<longleftrightarrow> s = ''0'' \<or> (decimal s \<and> s \<noteq> [] \<and> hd s \<noteq> CHR ''0'' \<and> of_nat (string_value s) \<le> (65535 :: u32))"
proof (cases s)
  case (Cons c t)
  have z: "is_num (CHR ''0'')" by code_simp
  consider "\<not> is_num c" | "c = CHR ''0''" | "is_num c" "c \<noteq> CHR ''0''" by blast
  then show ?thesis
  proof cases
    case 1
    with z Cons show ?thesis by (auto simp: is_port_def is_uint_eq decimal_is_num)
  next
    case 2
    with z Cons show ?thesis by (auto simp: is_port_def is_uint_eq)
  next
    case 3
    show ?thesis
    proof (cases "list_all is_num t")
      case True
      then have w: "takeWhile is_num t = t" "dropWhile is_num t = []"
        by (simp_all add: takeWhile_eq_all_conv dropWhile_eq_Nil_conv list_all_iff)
      show ?thesis using 3 True Cons by (simp add: is_port_def is_uint_eq decimal_is_num Let_def w)
    next
      case False
      then have "dropWhile is_num t \<noteq> []" by (simp add: dropWhile_eq_Nil_conv list_all_iff)
      with 3 False Cons show ?thesis by (auto simp: is_port_def is_uint_eq decimal_is_num Let_def)
    qed
  qed
qed (simp add: is_port_def is_uint_def)

lemma port_nat_string:
  assumes "n \<le> 65535"
  shows "is_port (nat_string n)"
proof (cases "hd (nat_string n) = CHR ''0''")
  case False
  have "unat (of_nat n :: u32) = n" using assms by (simp add: unat_of_nat)
  with False assms show ?thesis unfolding is_port_eq
    by (simp add: word_le_nat_alt nat_string_digits nat_string_value)
next
  case True
  then have "n < 10" using nat_string_hd [of n] by (cases "n < 10") auto
  with True show ?thesis unfolding is_port_eq by (auto simp: nat_string.simps [of n])
qed

lemma port_value:
  assumes "length s \<le> 9"
  shows "is_port s \<longleftrightarrow> (\<exists>n \<le> 65535. s = nat_string n)"
proof
  assume p: "is_port s"
  have s: "decimal s" "s \<noteq> []" "hd s \<noteq> CHR ''0'' \<or> s = ''0''"
    using p unfolding is_port_eq by (auto simp: decimal_def)
  have "string_value s < 10 ^ length s" using digits_from_bound [OF s(1), of 0] by (simp add: string_value_def)
  also have "\<dots> \<le> 10 ^ 9" using assms by (intro power_increasing) auto
  finally have "unat (of_nat (string_value s) :: u32) = string_value s" by (simp add: unat_of_nat)
  then have "string_value s \<le> 65535"
    using p unfolding is_port_eq by (auto simp: word_le_nat_alt string_value_def)
  with nat_string_string_value [OF s] show "\<exists>n \<le> 65535. s = nat_string n" by metis
qed (auto intro: port_nat_string)

section \<open>Properties\<close>

text \<open>
  (C36) Percent encoding loses nothing: for a string of ASCII characters each of the encoders gives a string
  of its class of characters that the matching decoder turns back, and what is written for a key or a
  value of a query has none of the separators of queries. For a string with any other character, each
  encoder reads outside its table of digits.
\<close>

theorem percent_roundtrip:
  "if ascii s
   then (\<exists>y. encode s 0x05 = Inr y \<and> decode y = Inr s \<and> is_chars y 0x25) \<and>
        (\<exists>y. encode s 0x0F = Inr y \<and> decode y = Inr s \<and> is_chars y 0x2F) \<and>
        (\<exists>y. encode s 0x1F = Inr y \<and> decode y = Inr s \<and> is_chars y 0x3F) \<and>
        (\<exists>y. encode_query_key s 0x1F = Inr y \<and> decode_plus y = Inr s \<and> is_chars y 0x3F \<and> set y \<inter> set ''=&;'' = {}) \<and>
        (\<exists>y. encode_query_val s 0x1F = Inr y \<and> decode_plus y = Inr s \<and> is_chars y 0x3F \<and> set y \<inter> set ''&;'' = {})
   else encode s 0x05 = Inl Undefined_behaviour \<and> encode s 0x0F = Inl Undefined_behaviour \<and>
        encode s 0x1F = Inl Undefined_behaviour \<and> encode_query_key s 0x1F = Inl Undefined_behaviour \<and>
        encode_query_val s 0x1F = Inl Undefined_behaviour"
proof (cases "ascii s")
  case True
  have "\<exists>y. encode s 0x05 = Inr y \<and> decode y = Inr s \<and> is_chars y 0x25"
    using user_codec.total [OF True] encode_class [of "0x05" "0x25" s] unfolding encode_def by fastforce
  moreover have "\<exists>y. encode s 0x0F = Inr y \<and> decode y = Inr s \<and> is_chars y 0x2F"
    using path_codec.total [OF True] encode_class [of "0x0F" "0x2F" s] unfolding encode_def by fastforce
  moreover have "\<exists>y. encode s 0x1F = Inr y \<and> decode y = Inr s \<and> is_chars y 0x3F"
    using fragment_codec.total [OF True] encode_class [of "0x1F" "0x3F" s] unfolding encode_def by fastforce
  moreover have "\<exists>y. encode_query_key s 0x1F = Inr y \<and> decode_plus y = Inr s \<and> is_chars y 0x3F \<and> set y \<inter> set ''=&;'' = {}"
    using key_codec.total [OF True] encode_query_key_class [of s]
    unfolding encode_query_key_def is_chars_def list_all_iff by fastforce
  moreover have "\<exists>y. encode_query_val s 0x1F = Inr y \<and> decode_plus y = Inr s \<and> is_chars y 0x3F \<and> set y \<inter> set ''&;'' = {}"
    using val_codec.total [OF True] encode_query_val_class [of s]
    unfolding encode_query_val_def is_chars_def list_all_iff by fastforce
  ultimately show ?thesis using True by (simp only: if_True)
next
  case False
  then show ?thesis
    by (simp add: encode_def encode_query_key_def encode_query_val_def user_codec.undefined path_codec.undefined
        fragment_codec.undefined key_codec.undefined val_codec.undefined)
qed

text \<open>
  (C32) A normalised path cannot climb: \<open>normalize_path\<close> is idempotent, its result has no segment \<open>.\<close> or \<open>..\<close>
  and no empty segment but the first and the last, and it is absolute exactly when its argument is.
\<close>

theorem normalize_path_normal:
  "normalize_path (normalize_path s) = normalize_path s \<and>
   ''.'' \<notin> set (segments (normalize_path s)) \<and> ''..'' \<notin> set (segments (normalize_path s)) \<and>
   [] \<notin> set (butlast (tl (segments (normalize_path s)))) \<and>
   (take 1 (normalize_path s) = ''/'' \<longleftrightarrow> take 1 s = ''/'')"
proof (intro conjI)
  have n: "list_all plain_segment (path_elems [] s)" "[] \<notin> set (butlast (path_elems [] s))"
    using path_elems_normal [of s] by (simp_all add: normal_elems_def)
  have p: "x \<notin> set (path_elems [] s)" if "x = ''.'' \<or> x = ''..''" for x
    using n(1) that by (auto simp: list_all_iff plain_segment_def)
  show "normalize_path (normalize_path s) = normalize_path s" by (rule normalize_path_idem)
  show "''.'' \<notin> set (segments (normalize_path s))" "''..'' \<notin> set (segments (normalize_path s))"
    using p by (simp_all add: segments_normalize_path Let_def)
  have "set (butlast (tl es)) \<subseteq> set (butlast es)" for es :: "bytes list" by (cases es) auto
  with n(2) show "[] \<notin> set (butlast (tl (segments (normalize_path s))))"
    by (auto simp: segments_normalize_path Let_def)
  show "take 1 (normalize_path s) = ''/'' \<longleftrightarrow> take 1 s = ''/''"
    using hd_path_join [OF path_elems_normal, of s]
    by (cases s; cases "path_join (path_elems [] s)") (auto simp: normalize_path_def)
qed

text \<open>
  \<open>is_port\<close> accepts exactly the decimal notations of the numbers up to 65535, among strings of up to
  nine characters; a longer one is compared modulo \<open>2 ^ 32\<close> and may be accepted whatever its value.
\<close>

theorem is_port_value:
  "(length s \<le> 9 \<longrightarrow> is_port s = (\<exists>n \<le> 65535. s = nat_string n)) \<and> is_port ''4294967376''"
proof
  show "length s \<le> 9 \<longrightarrow> is_port s = (\<exists>n \<le> 65535. s = nat_string n)" using port_value by blast
  show "is_port ''4294967376''" by code_simp
qed

theorem is_port_value_witness: "is_port (nat_string 80)"
proof -
  have "length (nat_string 80) \<le> 9" by code_simp
  moreover have "\<exists>n \<le> 65535. nat_string 80 = nat_string n" by (rule exI [of _ 80]) simp
  ultimately show ?thesis using is_port_value [of "nat_string 80"] by blast
qed

end
