(* ===== verification/Http_Url_Ip.thy ===== *)
theory Http_Url_Ip
  imports Http_Url_Text "HOL-Library.Monad_Syntax"
begin

text \<open>
  The addresses of src/include/http/http\_url.h: the two recognisers of each version, one that only looks
  at the characters and one that checks the syntax, and \<open>normalize_IPv6\<close>. Its arrays \<open>tokens\<close> and
  \<open>fields\<close> have fixed sizes; an access outside them, or to an element that was not written, is
  \<open>Undefined_behaviour\<close>.
\<close>

section \<open>Version 4\<close>

definition is_ipv4 :: "bytes \<Rightarrow> bool" where
  "is_ipv4 s \<longleftrightarrow> 7 \<le> length s \<and> length s \<le> 254 \<and> list_all (\<lambda>c. c = CHR ''.'' \<or> is_num c) s"

text \<open>\<open>s != e && *s++ == '.'\<close>\<close>

definition skip_dot :: "bytes \<Rightarrow> bytes option" where
  "skip_dot s = (case s of [] \<Rightarrow> None | c # t \<Rightarrow> if c = CHR ''.'' then Some t else None)"

definition is_valid_ipv4 :: "bytes \<Rightarrow> bool" where
  "is_valid_ipv4 s \<longleftrightarrow>
     do { s \<leftarrow> is_uint s 255; s \<leftarrow> skip_dot s; s \<leftarrow> is_uint s 255; s \<leftarrow> skip_dot s;
          s \<leftarrow> is_uint s 255; s \<leftarrow> skip_dot s; is_uint s 255 } = Some []"

section \<open>Version 6\<close>

definition is_ipv6 :: "bytes \<Rightarrow> bool" where
  "is_ipv6 s \<longleftrightarrow> 2 \<le> length s \<and> length s \<le> 254 \<and> list_all (\<lambda>c. c = CHR '':'' \<or> c = CHR ''.'' \<or> is_hexdigit c) s"

text \<open>
  The loop of \<open>is_valid_ipv6\<close>: \<open>b\<close> starts at the current field and \<open>p\<close> is what is left. \<open>Inl\<close> is an early
  return, \<open>Inr\<close> the state behind the loop.
\<close>

fun ipv6_loop :: "bool \<Rightarrow> nat \<Rightarrow> nat \<Rightarrow> bytes \<Rightarrow> bytes \<Rightarrow> bool + bool \<times> nat \<times> nat" where
  "ipv6_loop null_field nfields ndigits b [] = Inr (null_field, nfields, ndigits)"
| "ipv6_loop null_field nfields ndigits b (c # p) =
     (if c = CHR ''.'' then
        Inl (((\<not> null_field \<and> nfields = 6) \<or> (null_field \<and> nfields < 7)) \<and> is_valid_ipv4 b)
      else if c = CHR '':'' then
        if ndigits = 0 then
          if null_field then Inl False else ipv6_loop True nfields ndigits p p
        else ipv6_loop null_field (nfields + 1) 0 p p
      else if ndigits + 1 > 4 \<or> \<not> is_hexdigit c then Inl False
      else ipv6_loop null_field nfields (ndigits + 1) b p)"

definition ipv6_end :: "bytes \<Rightarrow> bool + bool \<times> nat \<times> nat \<Rightarrow> bool" where
  "ipv6_end s r =
     (case r of
        Inl res \<Rightarrow> res
      | Inr (null_field, nfields, ndigits) \<Rightarrow>
          if ndigits > 0 then
            (\<not> null_field \<and> nfields + 1 = 8) \<or> (null_field \<and> nfields + 1 < 8)
          else if s ! (length s - 1) = CHR '':'' then
            s ! (length s - 2) = CHR '':'' \<and> nfields < 8
          else (\<not> null_field \<and> nfields = 8) \<or> (null_field \<and> nfields < 8))"

definition is_valid_ipv6 :: "bytes \<Rightarrow> bool" where
  "is_valid_ipv6 s =
     (if length s > 39 \<or> length s < 2 then False
      else if s ! 0 = CHR '':'' then
        if s ! 1 \<noteq> CHR '':'' then False
        else
          let p = drop 2 s
          in if p = [] then True else ipv6_end s (ipv6_loop True 0 0 p p)
      else ipv6_end s (ipv6_loop False 0 0 s s))"

subsection \<open>Normalisation\<close>

text \<open>The loop that splits at colons, with \<open>tokens[10]\<close>.\<close>

function split_tokens :: "bytes \<Rightarrow> nat \<Rightarrow> nat \<Rightarrow> nat \<Rightarrow> nat list \<Rightarrow> url_error + nat list \<times> nat" where
  "split_tokens s e p b tokens =
     (if p < e then
        if s ! p = CHR '':'' then
          if length tokens < 10 then split_tokens s e (p + 1) (p + 1) (tokens @ [b]) else Inl Undefined_behaviour
        else split_tokens s e (p + 1) b tokens
      else Inr (tokens, b))"
  by pat_completeness auto
termination
  by (relation "measure (\<lambda>(s, e, p, b, tokens). e - p)") auto

declare split_tokens.simps [simp del]

text \<open>All the tokens and the end that follows them.\<close>

definition ipv6_tokens :: "bytes \<Rightarrow> url_error + nat list" where
  "ipv6_tokens s =
     (let p = (if s ! 0 = CHR '':'' then 1 else 0);
          e = (if s ! (length s - 1) = CHR '':'' then length s - 1 else length s)
      in case split_tokens s e p p [] of
           Inl err \<Rightarrow> Inl err
         | Inr (tokens, b) \<Rightarrow>
             let tokens = (if length tokens < 8 then tokens @ [b] else tokens)
             in if length tokens < 10 then Inr (tokens @ [e]) else Inl Undefined_behaviour)"

text \<open>\<open>field = (field << 4) | get_hex_digit(*p++)\<close> on a \<open>uint16_t\<close>, from \<open>p\<close> to the end \<open>q\<close> of the token.\<close>

function hex_field :: "bytes \<Rightarrow> nat \<Rightarrow> nat \<Rightarrow> u16 \<Rightarrow> u16" where
  "hex_field s p q field =
     (if p < q \<and> s ! p \<noteq> CHR '':'' then hex_field s (p + 1) q (push_bit 4 field OR of_int (get_hex_digit (s ! p)))
      else field)"
  by pat_completeness auto
termination
  by (relation "measure (\<lambda>(s, p, q, field). q - p)") auto

declare hex_field.simps [simp del]

fun decode_fields :: "bytes \<Rightarrow> nat list \<Rightarrow> nat list \<Rightarrow> u16 list \<times> nat \<Rightarrow> url_error + u16 list \<times> nat" where
  "decode_fields s tokens [] st = Inr st"
| "decode_fields s tokens (i # is) (fields, null_pos) =
     (let p = tokens ! i; q = tokens ! (i + 1)
      in if p = q \<or> s ! p = CHR '':'' then decode_fields s tokens is (fields, i)
         else if length fields < 8 then
           decode_fields s tokens is
             (fields @ [hex_field s (p + 1) q (of_int (get_hex_digit (s ! p)))], null_pos)
         else Inl Undefined_behaviour)"

text \<open>
  The two loops that make room for the omitted fields. The array holds \<open>None\<close> where nothing was written;
  an index that would fall below 0 wraps and is out of range.
\<close>

fun shift_fields :: "u16 option list \<Rightarrow> nat \<Rightarrow> nat \<Rightarrow> nat \<Rightarrow> url_error + u16 option list \<times> nat" where
  "shift_fields fields 0 lst null_pos = Inl Undefined_behaviour"
| "shift_fields fields (Suc i) lst null_pos =
     (if lst = 0 \<or> length fields < lst \<or> length fields \<le> i then Inl Undefined_behaviour
      else case fields ! i of
        None \<Rightarrow> Inl Undefined_behaviour
      | Some f \<Rightarrow>
          let fields = fields[lst - 1 := Some f]
          in if i = null_pos then Inr (fields, lst - 1) else shift_fields fields i (lst - 1) null_pos)"

fun zero_fields :: "u16 option list \<Rightarrow> nat \<Rightarrow> nat \<Rightarrow> url_error + u16 option list" where
  "zero_fields fields 0 null_pos = Inl Undefined_behaviour"
| "zero_fields fields (Suc lst) null_pos =
     (let fields = fields[lst := Some 0]
      in if lst = null_pos then Inr fields else zero_fields fields lst null_pos)"

definition fill_fields :: "u16 list \<Rightarrow> nat \<Rightarrow> nat \<Rightarrow> url_error + u16 list" where
  "fill_fields fields nfields null_pos =
     (let i = length fields;
          arr = map Some fields @ replicate (8 - i) None;
          filled =
            (if i < nfields then
               (case (if i \<noteq> null_pos then shift_fields arr i nfields null_pos else Inr (arr, nfields)) of
                  Inl err \<Rightarrow> Inl err
                | Inr (arr, lst) \<Rightarrow> zero_fields arr lst null_pos)
             else Inr arr)
      in case filled of
           Inl err \<Rightarrow> Inl err
         | Inr arr \<Rightarrow>
             if list_all (\<lambda>f. f \<noteq> None) (take nfields arr) then Inr (map the (take nfields arr))
             else Inl Undefined_behaviour)"

text \<open>The first longest sequence of zeros: position and length.\<close>

definition skip :: "(u16 \<Rightarrow> bool) \<Rightarrow> u16 list \<Rightarrow> nat \<Rightarrow> nat" where
  "skip P fields i = i + length (takeWhile P (drop i fields))"

lemma skip_progress:
  assumes "\<not> length fields \<le> skip (\<lambda>f. f \<noteq> 0) fields i"
  shows "i < skip (\<lambda>f. f = 0) fields (skip (\<lambda>f. f \<noteq> 0) fields i)"
proof -
  let ?j = "skip (\<lambda>f. f \<noteq> 0) fields i"
  have "drop ?j fields = dropWhile (\<lambda>f. f \<noteq> 0) (drop i fields)"
    by (simp add: skip_def dropWhile_eq_drop add.commute)
  with assms have "fields ! ?j = 0"
    by (metis (mono_tags, lifting) Cons_nth_drop_Suc dropWhile_eq_Cons_conv not_le)
  with assms have "?j < skip (\<lambda>f. f = 0) fields ?j"
    by (simp add: skip_def [of "\<lambda>f. f = 0"] Cons_nth_drop_Suc [symmetric])
  then show ?thesis by (simp add: skip_def)
qed

function zero_run :: "u16 list \<Rightarrow> nat \<Rightarrow> nat \<Rightarrow> nat \<Rightarrow> nat \<times> nat" where
  "zero_run fields i null_pos null_len =
     (let first = skip (\<lambda>f. f \<noteq> 0) fields i
      in if first \<ge> length fields then (null_pos, null_len)
         else
           let i = skip (\<lambda>f. f = 0) fields first;
               (null_pos, null_len) = (if i - first > null_len then (first, i - first) else (null_pos, null_len))
           in if i \<ge> length fields then (null_pos, null_len) else zero_run fields i null_pos null_len)"
  by pat_completeness auto
termination
  by (relation "measure (\<lambda>(fields, i, null_pos, null_len). length fields - i)")
    (auto dest!: skip_progress)

declare zero_run.simps [simp del]

text \<open>A number in hexadecimal, without leading zeros, in lower case, as a stream in hexadecimal mode writes it.\<close>

definition hex_lower :: bytes where
  "hex_lower = ''0123456789abcdef''"

fun hex_string :: "nat \<Rightarrow> bytes" where
  "hex_string n = (if n < 16 then [hex_lower ! n] else hex_string (n div 16) @ [hex_lower ! (n mod 16)])"

declare hex_string.simps [simp del]

definition colon_fields :: "u16 list \<Rightarrow> bytes" where
  "colon_fields fs = concat (map (\<lambda>f. CHR '':'' # hex_string (unat f)) fs)"

definition encode_fields :: "u16 list \<Rightarrow> bytes \<Rightarrow> bytes" where
  "encode_fields fields ipv4 =
     (let nfields = length fields;
          (null_pos, null_len) = zero_run fields 0 nfields 0;
          (null_pos, null_len) = (if null_len = 1 then (nfields, 1) else (null_pos, null_len));
          (str, i) =
            (if null_pos = 0 then ('':'', null_len)
             else
               let str = hex_string (unat (hd fields)) @ colon_fields (take (null_pos - 1) (drop 1 fields));
                   i = null_pos;
                   str = (if i < nfields then str @ '':'' else str);
                   i = i + null_len
               in (if i = 8 \<and> null_len \<noteq> 0 then str @ '':'' else str, i))
      in str @ colon_fields (drop i fields) @ (if ipv4 \<noteq> [] then '':'' @ ipv4 else []))"

definition normalize_IPv6 :: "bytes \<Rightarrow> url_error + bytes" where
  "normalize_IPv6 s =
     (if \<not> is_ipv6 s then Inl (Parse_error (''IPv6 ['' @ s @ ''] is invalid''))
      else if s = ''::'' then Inr s
      else
        case ipv6_tokens s of
          Inl err \<Rightarrow> Inl err
        | Inr tokens \<Rightarrow>
            let ntokens = length tokens - 1;
                has_ipv4 = tokens ! ntokens - tokens ! (ntokens - 1) > 5;
                ipv4 = (if has_ipv4 then slice s (tokens ! (ntokens - 1)) (tokens ! ntokens - tokens ! (ntokens - 1)) else []);
                ntokens = (if has_ipv4 then ntokens - 1 else ntokens)
            in case decode_fields s tokens [0..<ntokens] ([], 8) of
                 Inl err \<Rightarrow> Inl err
               | Inr (fields, null_pos) \<Rightarrow>
                   (case fill_fields fields (if has_ipv4 then 6 else 8) null_pos of
                      Inl err \<Rightarrow> Inl err
                    | Inr fields \<Rightarrow> Inr (encode_fields fields ipv4)))"

abbreviation groups :: "bytes \<Rightarrow> bytes list" where
  "groups \<equiv> split_on (CHR '':'')"

section \<open>Valid addresses of version 4\<close>

lemma is_uint_suffix:
  assumes "is_uint s m = Some t"
  obtains d where "s = d @ t" "d \<noteq> []" "list_all is_num d"
proof -
  let ?d = "takeWhile is_num s"
  from assms have d: "?d \<noteq> []" by (auto simp: is_uint_eq Let_def split: if_splits)
  then obtain c u where s: "s = c # u" "is_num c" by (cases s) (auto split: if_splits)
  from assms consider "t = tl s" | "t = dropWhile is_num s" by (auto simp: is_uint_eq Let_def split: if_splits)
  then show ?thesis
  proof cases
    case 1
    with s show ?thesis by (intro that [of "[c]"]) auto
  next
    case 2
    with d show ?thesis by (intro that [of ?d]) (auto simp: list_all_iff dest: set_takeWhileD)
  qed
qed

lemma skip_dot_Some: "skip_dot s = Some t \<longleftrightarrow> s = CHR ''.'' # t"
  by (auto simp: skip_dot_def split: list.splits if_splits)

lemma valid_ipv4_chars:
  assumes "is_valid_ipv4 s"
  shows "list_all (\<lambda>c. c = CHR ''.'' \<or> is_num c) s \<and> 7 \<le> length s"
proof -
  from assms obtain t1 t2 t3 where
    u: "is_uint s 255 = Some (CHR ''.'' # t1)" "is_uint t1 255 = Some (CHR ''.'' # t2)"
       "is_uint t2 255 = Some (CHR ''.'' # t3)" "is_uint t3 255 = Some []"
    unfolding is_valid_ipv4_def by (auto simp: bind_eq_Some_conv skip_dot_Some)
  obtain d1 where d1: "s = d1 @ ''.'' @ t1" "d1 \<noteq> []" "list_all is_num d1" using is_uint_suffix [OF u(1)] by auto
  obtain d2 where d2: "t1 = d2 @ ''.'' @ t2" "d2 \<noteq> []" "list_all is_num d2" using is_uint_suffix [OF u(2)] by auto
  obtain d3 where d3: "t2 = d3 @ ''.'' @ t3" "d3 \<noteq> []" "list_all is_num d3" using is_uint_suffix [OF u(3)] by auto
  obtain d4 where d4: "t3 = d4" "d4 \<noteq> []" "list_all is_num d4" using is_uint_suffix [OF u(4)] by auto
  note d = d1 d2 d3 d4
  have "0 < length d1" "0 < length d2" "0 < length d3" "0 < length d4" using d by (simp_all only: length_greater_0_conv not_False_eq_True)
  then have "7 \<le> length s" unfolding d(1,4,7,10) length_append list.size by linarith
  moreover have "list_all (\<lambda>c. c = CHR ''.'' \<or> is_num c) d" if "list_all is_num d" for d using that by (simp add: list_all_iff)
  ultimately show ?thesis unfolding d(1,4,7,10) using d(3,6,9,12) by (simp only: list_all_append list.pred_inject simp_thms)
qed

lemma not_num_colon: "\<not> is_num (CHR '':'')"
  by code_simp

lemma valid_ipv4_no_colon: "is_valid_ipv4 s \<Longrightarrow> CHR '':'' \<notin> set s"
proof
  assume "is_valid_ipv4 s" and c: "CHR '':'' \<in> set s"
  then have "\<forall>c \<in> set s. c = CHR ''.'' \<or> is_num c" using valid_ipv4_chars [of s] by (simp add: list_all_iff)
  from bspec [OF this c] not_num_colon show False by simp
qed

section \<open>What the loop of the recogniser has read\<close>

definition hex_group :: "bytes \<Rightarrow> bool" where
  "hex_group g \<longleftrightarrow> length g \<le> 4 \<and> list_all is_hexdigit g"

lemma hexdigit_no_colon: "is_hexdigit c \<Longrightarrow> c \<noteq> CHR '':'' \<and> c \<noteq> CHR ''.''"
  by (auto simp: is_hexdigit_def is_num_def sc_def)

lemma hex_group_no_colon: "hex_group g \<Longrightarrow> CHR '':'' \<notin> set g"
  using hexdigit_no_colon by (auto simp: hex_group_def list_all_iff)

text \<open>
  \<open>groups_read n0 e0 gs n e\<close>: the groups \<open>gs\<close> are hexadecimal, bring the number of fields from \<open>n0\<close> to \<open>n\<close>,
  and at most one group is empty, counting the earlier one that \<open>e0\<close> reports.
\<close>

definition groups_read :: "nat \<Rightarrow> bool \<Rightarrow> bytes list \<Rightarrow> nat \<Rightarrow> bool \<Rightarrow> bool" where
  "groups_read n0 e0 gs n e \<longleftrightarrow>
     list_all hex_group gs \<and> n = n0 + length (filter (\<lambda>g. g \<noteq> []) gs) \<and>
     of_bool e = (of_bool e0 + length (filter (\<lambda>g. g = []) gs) :: nat)"

lemma groups_read_Nil: "groups_read n e [] n e"
  by (simp add: groups_read_def)

lemma groups_read_Cons:
  "groups_read n0 e0 (g # gs) n e \<longleftrightarrow>
     hex_group g \<and> (if g = [] then \<not> e0 \<and> groups_read n0 True gs n e else groups_read (Suc n0) e0 gs n e)"
  by (auto simp: groups_read_def)

lemma ipv6_loop_groups:
  assumes "hex_group cur"
  shows "case ipv6_loop e0 n0 (length cur) (cur @ p) p of
      Inr (e, n, d) \<Rightarrow>
        groups_read n0 e0 (butlast (groups (cur @ p))) n e \<and> hex_group (last (groups (cur @ p))) \<and>
        d = length (last (groups (cur @ p)))
    | Inl res \<Rightarrow> res \<longrightarrow>
        (\<exists>n e. groups_read n0 e0 (butlast (groups (cur @ p))) n e \<and> is_valid_ipv4 (last (groups (cur @ p))) \<and>
           (if e then n < 7 else n = 6))"
  using assms
proof (induction p arbitrary: cur e0 n0)
  case Nil
  then show ?case by (simp add: split_on_single hex_group_no_colon groups_read_Nil)
next
  case (Cons c p)
  consider "c = CHR ''.''" | "c = CHR '':''" "cur = []" "e0" | "c = CHR '':''" "cur = []" "\<not> e0"
    | "c = CHR '':''" "cur \<noteq> []" | "c \<noteq> CHR ''.''" "c \<noteq> CHR '':''" "length cur + 1 > 4 \<or> \<not> is_hexdigit c"
    | "c \<noteq> CHR ''.''" "c \<noteq> CHR '':''" "length cur + 1 \<le> 4" "is_hexdigit c" by linarith
  then show ?case
  proof cases
    case 1
    have "split_on (CHR '':'') (cur @ c # p) = [cur @ c # p]" if "is_valid_ipv4 (cur @ c # p)"
      by (rule split_on_single) (rule valid_ipv4_no_colon [OF that])
    with 1 show ?thesis by (auto intro!: exI [of _ n0] exI [of _ e0] groups_read_Nil)
  next
    case 3
    then have l: "ipv6_loop e0 n0 (length cur) (cur @ c # p) (c # p) = ipv6_loop True n0 0 p p"
      "butlast (groups (cur @ c # p)) = [] # butlast (groups p)"
      "last (groups (cur @ c # p)) = last (groups p)" by simp_all
    have "hex_group []" by (simp add: hex_group_def)
    from Cons.IH [OF this, of n0 True] show ?thesis unfolding l groups_read_Cons
      using 3(3) \<open>hex_group []\<close> by (cases "ipv6_loop True n0 0 p p") auto
  next
    case 4
    then have l: "ipv6_loop e0 n0 (length cur) (cur @ c # p) (c # p) = ipv6_loop e0 (Suc n0) 0 p p"
      "butlast (groups (cur @ c # p)) = cur # butlast (groups p)"
      "last (groups (cur @ c # p)) = last (groups p)"
      using split_on_append [OF hex_group_no_colon [OF Cons.prems]] by simp_all
    have "hex_group []" by (simp add: hex_group_def)
    from Cons.IH [OF this, of "Suc n0" e0] show ?thesis unfolding l groups_read_Cons
      using 4(2) Cons.prems by (cases "ipv6_loop e0 (Suc n0) 0 p p") auto
  next
    case 6
    with Cons.prems have "hex_group (cur @ [c])" by (simp add: hex_group_def)
    moreover have "cur @ c # p = (cur @ [c]) @ p" by simp
    moreover have "ipv6_loop e0 n0 (length cur) (cur @ c # p) (c # p) = ipv6_loop e0 n0 (length (cur @ [c])) (cur @ c # p) p"
      using 6 by simp
    ultimately show ?thesis using Cons.IH [of "cur @ [c]" n0 e0] by (simp only:)
  qed simp_all
qed

section \<open>The shape of a valid address\<close>

text \<open>
  The text without the colon of a leading or trailing double colon, and its groups: those in hexadecimal,
  of which one is empty where a double colon stands, and possibly an address of version 4.
\<close>

definition ipv6_body :: "bytes \<Rightarrow> bytes" where
  "ipv6_body s =
     (let t = (if last s = CHR '':'' then butlast s else s) in if hd s = CHR '':'' then tl t else t)"

definition ipv6_shape :: "bytes list \<Rightarrow> bytes \<Rightarrow> bool" where
  "ipv6_shape hs v4 \<longleftrightarrow>
     list_all hex_group hs \<and> (v4 = [] \<or> is_valid_ipv4 v4) \<and>
     (let k = length (filter (\<lambda>g. g \<noteq> []) hs); z = length (filter (\<lambda>g. g = []) hs)
      in (z = 0 \<and> k = (if v4 = [] then 8 else 6)) \<or> (z = 1 \<and> k < (if v4 = [] then 8 else 7)))"

lemma groups_read_last:
  "groups_read n0 e0 (butlast gs) n e \<Longrightarrow> gs \<noteq> [] \<Longrightarrow> hex_group (last gs) \<Longrightarrow> last gs \<noteq> [] \<Longrightarrow> groups_read n0 e0 gs (Suc n) e"
  by (cases gs rule: rev_cases) (auto simp: groups_read_def)

lemma shape_read:
  assumes "groups_read 0 False hs n e" "v4 = [] \<or> is_valid_ipv4 v4"
    "(\<not> e \<and> n = (if v4 = [] then 8 else 6)) \<or> (e \<and> n < (if v4 = [] then 8 else 7))"
  shows "ipv6_shape hs v4"
  using assms by (cases e) (auto simp: groups_read_def ipv6_shape_def Let_def)

lemma ipv6_end_groups:
  assumes "ipv6_end s (ipv6_loop e0 0 0 p p)" "p \<noteq> []" "s = u @ p"
  shows "\<exists>hs v4 n e. groups (if last p = CHR '':'' then butlast p else p) = hs @ (if v4 = [] then [] else [v4]) \<and>
    groups_read 0 e0 hs n e \<and> (v4 = [] \<or> is_valid_ipv4 v4) \<and>
    ((\<not> e \<and> n = (if v4 = [] then 8 else 6)) \<or> (e \<and> n < (if v4 = [] then 8 else 7)))"
proof -
  have g: "hex_group []" by (simp add: hex_group_def)
  note L = ipv6_loop_groups [OF g, of 0 e0 p, simplified]
  have l: "groups p = butlast (groups p) @ [last (groups p)]" by simp
  show ?thesis
  proof (cases "ipv6_loop e0 0 0 p p")
    case (Inl res)
    with assms(1) L obtain n e where r: "groups_read 0 e0 (butlast (groups p)) n e" "is_valid_ipv4 (last (groups p))"
      "if e then n < 7 else n = 6" by (auto simp: ipv6_end_def)
    have v: "last (groups p) \<noteq> []" using valid_ipv4_chars [OF r(2)] by auto
    then have "last p \<noteq> CHR '':''" using last_split_on [OF assms(2)] by simp
    with r v l show ?thesis
      by (intro exI [of _ "butlast (groups p)"] exI [of _ "last (groups p)"] exI [of _ n] exI [of _ e]) (auto split: if_splits)
  next
    case (Inr x)
    obtain e n d where x: "x = (e, n, d)" by (cases x)
    with Inr L have r: "groups_read 0 e0 (butlast (groups p)) n e" "hex_group (last (groups p))"
      "d = length (last (groups p))" by auto
    show ?thesis
    proof (cases "last p = CHR '':''")
      case True
      then obtain q where q: "p = q @ '':''" using assms(2) by (metis append_butlast_last_id)
      then have gq: "groups p = groups q @ [[]]" by (simp add: split_on_snoc)
      have "d = 0" using r(3) gq by simp
      moreover have "s ! (length s - 1) = CHR '':''" using assms(3) q by (simp add: nth_append)
      ultimately have n: "s ! (length s - 2) = CHR '':''" "n < 8"
        using assms(1) Inr x by (auto simp: ipv6_end_def split: if_splits)
      have "last (groups q) = []"
      proof (cases "q = []")
        case False
        then have "s ! (length s - 2) = last q" using assms(3) q by (cases q rule: rev_cases) (simp_all add: nth_append)
        with n(1) have "last q = CHR '':''" by simp
        with False show ?thesis by (simp add: last_split_on)
      qed simp
      then have "filter (\<lambda>g. g = []) (groups q) \<noteq> []"
        by (metis (mono_tags, lifting) filter_empty_conv last_in_set split_on_not_Nil)
      then have "e" using r(1) gq by (cases e) (auto simp: groups_read_def)
      with r(1) gq n(2) q True show ?thesis
        by (intro exI [of _ "groups q"] exI [of _ "[]"] exI [of _ n] exI [of _ e]) simp
    next
      case False
      then have "last (groups p) \<noteq> []" using last_split_on [OF assms(2)] by simp
      with r have "groups_read 0 e0 (groups p) (Suc n) e" by (intro groups_read_last) auto
      moreover have "(\<not> e \<and> Suc n = 8) \<or> (e \<and> Suc n < 8)"
        using assms(1) Inr x r(3) \<open>last (groups p) \<noteq> []\<close> by (auto simp: ipv6_end_def)
      ultimately show ?thesis using False by (intro exI [of _ "groups p"] exI [of _ "[]"] exI [of _ "Suc n"] exI [of _ e]) auto
    qed
  qed
qed

lemma valid_ipv6_shape:
  assumes "is_valid_ipv6 s" "s \<noteq> ''::''"
  obtains hs v4 where "ipv6_shape hs v4" "groups (ipv6_body s) = hs @ (if v4 = [] then [] else [v4])"
proof (cases "s ! 0 = CHR '':''")
  case True
  with assms(1) obtain p where s: "s = ''::'' @ p"
    by (cases s; cases "tl s") (auto simp: is_valid_ipv6_def split: if_splits)
  with assms have p: "p \<noteq> []" "ipv6_end s (ipv6_loop True 0 0 p p)" by (auto simp: is_valid_ipv6_def split: if_splits)
  from ipv6_end_groups [OF p(2,1) s] obtain hs v4 n e where
    g: "groups (if last p = CHR '':'' then butlast p else p) = hs @ (if v4 = [] then [] else [v4])"
    "groups_read 0 True hs n e" "v4 = [] \<or> is_valid_ipv4 v4"
    "(\<not> e \<and> n = (if v4 = [] then 8 else 6)) \<or> (e \<and> n < (if v4 = [] then 8 else 7))" by blast
  have "ipv6_body s = CHR '':'' # (if last p = CHR '':'' then butlast p else p)"
    using p(1) s by (simp add: ipv6_body_def)
  then have "groups (ipv6_body s) = ([] # hs) @ (if v4 = [] then [] else [v4])" using g(1) by simp
  moreover have "groups_read 0 False ([] # hs) n e" using g(2) by (simp add: groups_read_Cons hex_group_def)
  ultimately show ?thesis using that shape_read [OF _ g(3,4)] by blast
next
  case False
  with assms(1) have p: "s \<noteq> []" "ipv6_end s (ipv6_loop False 0 0 s s)" "hd s \<noteq> CHR '':''"
    by (cases s; auto simp: is_valid_ipv6_def split: if_splits)+
  from ipv6_end_groups [OF p(2,1), of "[]"] obtain hs v4 n e where
    g: "groups (ipv6_body s) = hs @ (if v4 = [] then [] else [v4])"
    "groups_read 0 False hs n e" "v4 = [] \<or> is_valid_ipv4 v4"
    "(\<not> e \<and> n = (if v4 = [] then 8 else 6)) \<or> (e \<and> n < (if v4 = [] then 8 else 7))"
    unfolding ipv6_body_def Let_def using p(3) by auto
  with that shape_read [OF g(2,3,4)] show ?thesis by blast
qed

section \<open>Tokens\<close>

text \<open>The positions at which the groups start.\<close>

fun starts :: "nat \<Rightarrow> bytes list \<Rightarrow> nat list" where
  "starts o' [] = []"
| "starts o' (g # gs) = o' # starts (o' + length g + 1) gs"

lemma length_starts [simp]: "length (starts n gs) = length gs"
  by (induction gs arbitrary: n) auto

lemma starts_not_Nil [simp]: "starts n gs = [] \<longleftrightarrow> gs = []"
  by (cases gs) auto

lemma starts_nth:
  "i < length gs \<Longrightarrow> starts n gs ! i = n + length (concat (map (\<lambda>g. g @ [d]) (take i gs)))"
  by (induction gs arbitrary: n i) (auto simp: nth_Cons split: nat.splits)

lemma split_tokens_starts:
  assumes "CHR '':'' \<notin> set cur" "length tokens + length (groups (cur @ p)) \<le> 10"
  shows "split_tokens (pre @ cur @ p @ post) (length pre + length cur + length p) (length pre + length cur) (length pre) tokens =
    Inr (tokens @ butlast (starts (length pre) (groups (cur @ p))), last (starts (length pre) (groups (cur @ p))))"
  using assms
proof (induction p arbitrary: pre cur tokens)
  case Nil
  then show ?case by (subst split_tokens.simps) (simp add: split_on_single)
next
  case (Cons c p)
  show ?case
  proof (cases "c = CHR '':''")
    case True
    have g: "groups (cur @ c # p) = cur # groups p" using Cons.prems True by (simp add: split_on_append)
    have "length tokens < 10" using Cons.prems g by (cases "groups p") auto
    then have "split_tokens (pre @ cur @ (c # p) @ post) (length pre + length cur + length (c # p)) (length pre + length cur) (length pre) tokens =
      split_tokens ((pre @ cur @ [c]) @ p @ post) (length (pre @ cur @ [c]) + length p)
        (length (pre @ cur @ [c])) (length (pre @ cur @ [c])) (tokens @ [length pre])"
      using True by (subst split_tokens.simps) (simp add: nth_append)
    also have "\<dots> = Inr (tokens @ butlast (starts (length pre) (groups (cur @ c # p))), last (starts (length pre) (groups (cur @ c # p))))"
      using Cons.IH [of "[]" "tokens @ [length pre]" "pre @ cur @ [c]"] Cons.prems g by simp
    finally show ?thesis .
  next
    case False
    have "split_tokens (pre @ cur @ (c # p) @ post) (length pre + length cur + length (c # p)) (length pre + length cur) (length pre) tokens =
      split_tokens (pre @ (cur @ [c]) @ p @ post) (length pre + length (cur @ [c]) + length p)
        (length pre + length (cur @ [c])) (length pre) tokens"
      using False by (subst split_tokens.simps) (simp add: nth_append)
    with Cons.IH [of "cur @ [c]" tokens pre] Cons.prems False show ?thesis by simp
  qed
qed

lemma ipv6_body_context:
  assumes "2 \<le> length s" "s \<noteq> ''::''"
  obtains pre post where "s = pre @ ipv6_body s @ post" "set pre \<subseteq> {CHR '':''}" "set post \<subseteq> {CHR '':''}"
    "length pre = (if s ! 0 = CHR '':'' then 1 else 0)"
    "length pre + length (ipv6_body s) = (if s ! (length s - 1) = CHR '':'' then length s - 1 else length s)"
proof -
  from assms(1) obtain a m z where s: "s = a # m @ [z]"
    by (cases s; cases "tl s" rule: rev_cases) auto
  have n: "s ! 0 = a" "s ! (length s - 1) = z" by (simp_all add: s nth_append)
  show ?thesis
    by (rule that [of "if a = CHR '':'' then [a] else []" "if z = CHR '':'' then [z] else []"])
      (unfold n, auto simp: s ipv6_body_def)
qed

lemma ipv6_tokens_starts:
  assumes "2 \<le> length s" "s \<noteq> ''::''" "length (groups (ipv6_body s)) \<le> 8"
  obtains pre post where "s = pre @ ipv6_body s @ post"
    "ipv6_tokens s = Inr (starts (length pre) (groups (ipv6_body s)) @ [length pre + length (ipv6_body s)])"
proof -
  obtain pre post where c: "s = pre @ ipv6_body s @ post" "length pre = (if s ! 0 = CHR '':'' then 1 else 0)"
    "length pre + length (ipv6_body s) = (if s ! (length s - 1) = CHR '':'' then length s - 1 else length s)"
    using ipv6_body_context [OF assms(1,2)] by metis
  define gs where "gs = groups (ipv6_body s)"
  have "split_tokens s (length pre + length (ipv6_body s)) (length pre) (length pre) [] =
      Inr (butlast (starts (length pre) gs), last (starts (length pre) gs))"
    using split_tokens_starts [of "[]" "[]" "ipv6_body s" pre post] assms(3) c(1) by (simp add: gs_def)
  moreover have "length (butlast (starts (length pre) gs)) < 8" "starts (length pre) gs \<noteq> []"
    using assms(3) by (auto simp: gs_def)
  ultimately have "ipv6_tokens s = Inr (starts (length pre) gs @ [length pre + length (ipv6_body s)])"
    unfolding ipv6_tokens_def Let_def c(2,3) [symmetric] using assms(3) by (simp add: gs_def)
  then show ?thesis using that c(1) unfolding gs_def by blast
qed

section \<open>Fields\<close>

definition hex_from :: "nat \<Rightarrow> bytes \<Rightarrow> nat" where
  "hex_from n g = foldl (\<lambda>n c. n * 16 + nat (get_hex_digit c)) n g"

definition group_value :: "bytes \<Rightarrow> u16" where
  "group_value g = of_nat (hex_from 0 g)"

lemma hexdigit_value: "is_hexdigit c \<Longrightarrow> 0 \<le> get_hex_digit c \<and> get_hex_digit c < 16"
proof -
  have "sc (CHR ''A'') = 65" "sc (CHR ''F'') = 70" "sc (CHR ''a'') = 97" "sc (CHR ''f'') = 102" by code_simp+
  then show "is_hexdigit c \<Longrightarrow> ?thesis"
    unfolding is_hexdigit_def is_num_def get_hex_digit_def sc_digits by auto
qed

lemma push_or_digit:
  assumes "0 \<le> d" "d < 16"
  shows "push_bit 4 (of_nat n) OR of_int d = (of_nat (n * 16 + nat d) :: u16)"
proof -
  have "take_bit 4 d = d" using assms by (simp add: take_bit_int_eq_self_iff)
  then have d: "\<not> bit d k" if "4 \<le> k" for k using that by (metis bit_take_bit_iff not_le)
  have "push_bit 4 (of_nat n :: u16) AND of_int d = 0"
    by (rule bit_eqI) (use d in \<open>auto simp: bit_simps\<close>)
  then have "push_bit 4 (of_nat n :: u16) OR of_int d = push_bit 4 (of_nat n) + of_int d"
    by (rule disjunctive_add_eq_or [symmetric])
  also have "\<dots> = of_nat (n * 16) + of_int d" by (simp add: push_bit_eq_mult)
  finally show ?thesis using assms(1) by simp
qed

lemma hex_field_value:
  assumes "list_all is_hexdigit g" "length pre + length g \<le> q"
    "q = length pre + length g \<or> (pre @ g @ post) ! (length pre + length g) = CHR '':''"
  shows "hex_field (pre @ g @ post) (length pre) q (of_nat n) = of_nat (hex_from n g)"
  using assms
proof (induction g arbitrary: pre n)
  case Nil
  then show ?case by (subst hex_field.simps) (auto simp: hex_from_def)
next
  case (Cons c g)
  have c: "c \<noteq> CHR '':''" "is_hexdigit c" using Cons.prems(1) hexdigit_no_colon [of c] by auto
  have "hex_field (pre @ (c # g) @ post) (length pre) q (of_nat n) =
      hex_field ((pre @ [c]) @ g @ post) (length (pre @ [c])) q (of_nat (n * 16 + nat (get_hex_digit c)))"
    using Cons.prems(2) c push_or_digit hexdigit_value [OF c(2)]
    by (subst hex_field.simps) (simp add: nth_append)
  also have "\<dots> = of_nat (hex_from (n * 16 + nat (get_hex_digit c)) g)"
    using Cons.prems by (intro Cons.IH) (auto simp: nth_append)
  finally show ?case by (simp add: hex_from_def)
qed

text \<open>What the decoding loop sees of a token from \<open>p\<close> to \<open>q\<close> that holds the group \<open>g\<close>.\<close>

definition token_of :: "bytes \<Rightarrow> nat \<Rightarrow> nat \<Rightarrow> bytes \<Rightarrow> bool" where
  "token_of s p q g \<longleftrightarrow>
     (p = q \<or> s ! p = CHR '':'' \<longleftrightarrow> g = []) \<and>
     (g \<noteq> [] \<longrightarrow> hex_field s (p + 1) q (of_int (get_hex_digit (s ! p))) = group_value g)"

lemma token_ofI:
  assumes "list_all is_hexdigit g" "s = pre @ g @ post" "p = length pre"
    "q = length pre + length g \<and> post = post' \<or> q = length pre + length g + 1 \<and> post = CHR '':'' # post'"
  shows "token_of s p q g"
proof (cases g)
  case Nil
  with assms show ?thesis by (auto simp: token_of_def nth_append)
next
  case (Cons c h)
  have c: "is_hexdigit c" "c \<noteq> CHR '':''" using assms(1) Cons hexdigit_no_colon [of c] by auto
  have "hex_field ((pre @ [c]) @ h @ post) (length (pre @ [c])) q (of_nat (nat (get_hex_digit c))) =
      of_nat (hex_from (nat (get_hex_digit c)) h)"
    using assms Cons by (intro hex_field_value) (auto simp: nth_append)
  moreover have "of_nat (nat (get_hex_digit c)) = (of_int (get_hex_digit c) :: u16)"
    using hexdigit_value [OF c(1)] by simp
  ultimately show ?thesis
    using Cons assms c by (auto simp: token_of_def nth_append group_value_def hex_from_def)
qed

lemma decode_fields_tokens:
  assumes "\<forall>i \<in> set is. token_of s (tokens ! i) (tokens ! (i + 1)) (gs ! i)"
    "length fields + length (filter (\<lambda>i. gs ! i \<noteq> []) is) \<le> 8"
  shows "decode_fields s tokens is (fields, null_pos) =
    Inr (fields @ map (\<lambda>i. group_value (gs ! i)) (filter (\<lambda>i. gs ! i \<noteq> []) is),
      last (null_pos # filter (\<lambda>i. gs ! i = []) is))"
  using assms
proof (induction "is" arbitrary: fields null_pos)
  case (Cons i "is")
  then have t: "token_of s (tokens ! i) (tokens ! (i + 1)) (gs ! i)" by simp
  show ?case
  proof (cases "gs ! i = []")
    case True
    with t Cons show ?thesis by (simp add: token_of_def Let_def)
  next
    case False
    with t Cons.prems Cons.IH [of "fields @ [group_value (gs ! i)]" null_pos] show ?thesis
      by (simp add: token_of_def Let_def)
  qed
qed simp

lemma shift_fields_moves:
  assumes "j < i" "i < l" "l \<le> length arr" "\<forall>x < i. arr ! x \<noteq> None"
  shows "shift_fields arr i l j = Inr (take (l - (i - j)) arr @ drop j (take i arr) @ drop l arr, l - (i - j))"
  using assms
proof (induction i arbitrary: arr l)
  case (Suc i)
  obtain f where f: "arr ! i = Some f" using Suc.prems(4) by auto
  define arr1 where "arr1 = arr[l - 1 := Some f]"
  have d: "drop (l - 1) arr1 = Some f # drop l arr"
    using Suc.prems by (cases l) (simp_all add: arr1_def drop_update_swap Cons_nth_drop_Suc [symmetric])
  have step: "shift_fields arr (Suc i) l j = (if i = j then Inr (arr1, l - 1) else shift_fields arr1 i (l - 1) j)"
    using Suc.prems f by (simp add: arr1_def)
  show ?case
  proof (cases "i = j")
    case True
    have "arr1 = take (l - 1) arr @ Some f # drop l arr"
      using append_take_drop_id [of "l - 1" arr1] d by (simp add: arr1_def)
    moreover have "drop j (take (Suc i) arr) = [Some f]"
      using True Suc.prems f by (simp add: take_Suc_conv_app_nth)
    ultimately show ?thesis using step True by simp
  next
    case False
    with Suc.prems have p: "j < i" "i < l - 1" "l - 1 \<le> length arr1" "\<forall>x < i. arr1 ! x \<noteq> None"
      by (auto simp: arr1_def nth_list_update)
    have t: "take (l - 1 - (i - j)) arr1 = take (l - (Suc i - j)) arr" "take i arr1 = take i arr"
      using p by (simp_all add: arr1_def)
    have "drop j (take (Suc i) arr) = drop j (take i arr) @ [Some f]"
      using p(1) Suc.prems f by (simp add: take_Suc_conv_app_nth)
    with step False Suc.IH [OF p] t d p show ?thesis by simp
  qed
qed simp

lemma zero_fields_fills:
  "j < l \<Longrightarrow> l \<le> length arr \<Longrightarrow> zero_fields arr l j = Inr (take j arr @ replicate (l - j) (Some 0) @ drop l arr)"
proof (induction l arbitrary: arr)
  case (Suc l)
  have d: "drop l (arr[l := Some 0]) = Some 0 # drop (Suc l) arr"
    using Suc.prems by (simp add: drop_update_swap Cons_nth_drop_Suc [symmetric])
  show ?case
  proof (cases "l = j")
    case True
    then have "arr[l := Some 0] = take j arr @ [Some 0] @ drop (Suc l) arr"
      using append_take_drop_id [of l "arr[l := Some 0]"] d by simp
    with True show ?thesis by simp
  next
    case False
    with Suc.prems have "j < l" by simp
    moreover from this have "replicate (Suc l - j) (Some 0) = replicate (l - j) (Some 0) @ [Some (0 :: u16)]"
      by (simp add: Suc_diff_le replicate_append_same)
    ultimately show ?thesis using Suc.IH [of "arr[l := Some 0]"] Suc.prems False d by simp
  qed
qed simp

lemma fill_fields_full: "length fs = m \<Longrightarrow> m \<le> 8 \<Longrightarrow> fill_fields fs m j = Inr fs"
  by (auto simp: fill_fields_def Let_def list_all_iff)

lemma fill_fields_expand:
  assumes "j \<le> length fs" "length fs < m" "m \<le> 8"
  shows "fill_fields fs m j = Inr (take j fs @ replicate (m - length fs) 0 @ drop j fs)"
proof -
  define arr where "arr = map Some fs @ replicate (8 - length fs) None"
  have arr: "length arr = 8" "\<forall>x < length fs. arr ! x \<noteq> None" "take j arr = map Some (take j fs)"
    "drop j (take (length fs) arr) = map Some (drop j fs)"
    using assms by (auto simp: arr_def nth_append take_map drop_map)
  define l where "l = m - (length fs - j)"
  have l: "j < l" "l \<le> 8" using assms by (auto simp: l_def)
  define arr2 where "arr2 = take l arr @ map Some (drop j fs) @ drop m arr"
  have len2: "length arr2 = 8" using assms arr(1) l by (simp add: arr2_def l_def)
  have sh: "(if length fs \<noteq> j then shift_fields arr (length fs) m j else Inr (arr, m)) = Inr (arr2, l)"
  proof (cases "length fs = j")
    case True
    then show ?thesis using arr by (simp add: arr2_def l_def)
  next
    case False
    with assms have "j < length fs" by simp
    from shift_fields_moves [OF this assms(2), of arr] arr assms False show ?thesis
      by (simp add: arr2_def l_def)
  qed
  have "zero_fields arr2 l j = Inr (take j arr2 @ replicate (l - j) (Some 0) @ drop l arr2)"
    using zero_fields_fills [OF l(1)] len2 l by simp
  also have "take j arr2 = map Some (take j fs)" using l arr by (simp add: arr2_def min_def)
  also have "drop l arr2 = map Some (drop j fs) @ drop m arr" using l arr(1) by (simp add: arr2_def)
  also have "l - j = m - length fs" using assms by (simp add: l_def)
  finally have z: "zero_fields arr2 l j = Inr (map Some (take j fs @ replicate (m - length fs) 0 @ drop j fs) @ drop m arr)"
    by simp
  define res where "res = take j fs @ replicate (m - length fs) 0 @ drop j fs"
  have "length res = m" using assms by (simp add: res_def)
  then have t: "take m (map Some res @ drop m arr) = map Some res" by simp
  have "list_all (\<lambda>f. f \<noteq> None) (map Some res)" "map the (map Some res) = res" by (simp_all add: list_all_iff)
  then show ?thesis unfolding fill_fields_def Let_def arr_def [symmetric] using assms(2)
    by (simp only: sh z sum.case prod.case if_True res_def [symmetric] t)
qed

text \<open>The fields an address stands for: at the empty group as many zeros as are missing.\<close>

definition expand :: "nat \<Rightarrow> bytes list \<Rightarrow> u16 list" where
  "expand m hs =
     (let front = takeWhile (\<lambda>g. g \<noteq> []) hs; back = tl (dropWhile (\<lambda>g. g \<noteq> []) hs)
      in map group_value front @ replicate (m - (length front + length back)) 0 @ map group_value back)"

lemma one_empty_group:
  assumes "length (filter (\<lambda>g. g = []) hs) = 1"
  obtains a b where "hs = a @ [] # b" "[] \<notin> set a" "[] \<notin> set b"
proof -
  have "[] \<in> set hs"
  proof (rule ccontr)
    assume "[] \<notin> set hs"
    then have "filter (\<lambda>g. g = []) hs = []" by (auto simp: filter_empty_conv)
    with assms show False by simp
  qed
  then obtain a b where h: "hs = a @ [] # b" "[] \<notin> set a" by (meson split_list_first)
  from assms have "length (filter (\<lambda>g. g = []) a) + Suc (length (filter (\<lambda>g. g = []) b)) = 1" by (simp add: h(1))
  then have "filter (\<lambda>g. g = []) b = []" by simp
  then have "[] \<notin> set b" by (auto simp: filter_empty_conv)
  with h show ?thesis by (rule that)
qed

lemma filter_nth_upt: "map (\<lambda>i. f (xs ! i)) (filter (\<lambda>i. P (xs ! i)) [0..<length xs]) = map f (filter P xs)"
proof -
  have "filter P (map ((!) xs) [0..<length xs]) = map ((!) xs) (filter (\<lambda>i. P (xs ! i)) [0..<length xs])"
    by (simp add: filter_map o_def)
  then show ?thesis by (simp add: map_nth) 
qed

lemma fill_fields_shape:
  assumes "ipv6_shape hs v4" "m = (if v4 = [] then 8 else 6)"
  shows "fill_fields (map group_value (filter (\<lambda>g. g \<noteq> []) hs)) m (last (8 # filter (\<lambda>i. hs ! i = []) [0..<length hs])) =
    Inr (expand m hs)"
proof (cases "length (filter (\<lambda>g. g = []) hs) = 0")
  case True
  then have f: "filter (\<lambda>g. g \<noteq> []) hs = hs" by (auto simp: filter_id_conv filter_empty_conv)
  with assms True have "length hs = m" by (auto simp: ipv6_shape_def Let_def split: if_splits)
  moreover have w: "takeWhile (\<lambda>g. g \<noteq> []) hs = hs" "dropWhile (\<lambda>g. g \<noteq> []) hs = []"
    using f by (auto simp: filter_id_conv takeWhile_eq_all_conv)
  moreover have "m \<le> 8" using assms(2) by simp
  ultimately show ?thesis unfolding f expand_def w Let_def by (simp add: fill_fields_full)
next
  case False
  with assms(1) have "length (filter (\<lambda>g. g = []) hs) = 1" and k: "length (filter (\<lambda>g. g \<noteq> []) hs) \<le> m"
    using assms(2) by (auto simp: ipv6_shape_def Let_def split: if_splits)
  then obtain a b where h: "hs = a @ [] # b" "[] \<notin> set a" "[] \<notin> set b" by (rule_tac one_empty_group)
  have ab: "filter (\<lambda>g. g \<noteq> []) a = a" "filter (\<lambda>g. g \<noteq> []) b = b" using h by (auto simp: filter_id_conv)
  have t: "takeWhile (\<lambda>g. g \<noteq> []) hs = a" "dropWhile (\<lambda>g. g \<noteq> []) hs = [] # b"
    using h by (auto simp: takeWhile_append dropWhile_append intro: takeWhile_eq_all_conv [THEN iffD2])
  have "[0..<length hs] = [0..<length a] @ length a # [Suc (length a)..<length hs]"
    using upt_add_eq_append [of 0 "length a" "Suc (length b)"] upt_conv_Cons [of "length a" "length a + Suc (length b)"]
    by (simp add: h(1) del: upt_Suc)
  moreover have "filter (\<lambda>i. hs ! i = []) [0..<length a] = []"
    using h(2) by (auto simp: h(1) filter_empty_conv nth_append; metis nth_mem)
  moreover have "filter (\<lambda>i. hs ! i = []) [Suc (length a)..<length hs] = []"
  proof -
    have "hs ! i \<noteq> []" if "i \<in> set [Suc (length a)..<length hs]" for i
    proof -
      from that obtain k where "i = Suc (length a) + k" "k < length b"
        by (auto simp: h(1) dest!: le_Suc_ex)
      then have "hs ! i \<in> set b" by (simp add: h(1) nth_append)
      with h(3) show ?thesis by metis
    qed
    then show ?thesis by (simp add: filter_empty_conv)
  qed
  ultimately have n: "last (8 # filter (\<lambda>i. hs ! i = []) [0..<length hs]) = length a" by (simp add: h(1))
  have f: "filter (\<lambda>g. g \<noteq> []) hs = a @ b" using ab by (simp add: h(1))
  have m: "m \<le> 8" "length a + length b \<le> m" using assms(2) k f by simp_all
  show ?thesis
  proof (cases "length a + length b = m")
    case True
    then show ?thesis unfolding n f expand_def t Let_def using m by (simp add: fill_fields_full)
  next
    case False
    then show ?thesis unfolding n f expand_def t Let_def using m by (simp add: fill_fields_expand)
  qed
qed

section \<open>Normalisation of valid addresses\<close>

lemma shape_length:
  assumes "ipv6_shape hs v4"
  shows "length (hs @ (if v4 = [] then [] else [v4])) \<le> 8" "length (filter (\<lambda>g. g \<noteq> []) hs) \<le> 8"
  using assms sum_length_filter_compl [of "\<lambda>g. g = []" hs]
  by (auto simp: ipv6_shape_def Let_def split: if_splits)

lemma group_position:
  assumes i: "i < length (groups y)"
  shows "\<exists>u v. y = u @ groups y ! i @ v \<and> starts n (groups y) ! i = n + length u \<and>
    (if Suc i < length (groups y)
     then (\<exists>w. v = CHR '':'' # w) \<and> starts n (groups y) ! Suc i = n + length u + length (groups y ! i) + 1 else v = [])"
proof -
  let ?gs = "groups y"
  define u where "u = concat (map (\<lambda>x. x @ '':'') (take i ?gs))"
  define v where "v = concat (map (\<lambda>x. CHR '':'' # x) (drop (Suc i) ?gs))"
  have y: "y = u @ ?gs ! i @ v"
    using join_on_nth [of "CHR '':''" "take i ?gs" "?gs ! i" "drop (Suc i) ?gs"] i
    by (simp add: u_def v_def Cons_nth_drop_Suc)
  have st: "starts n ?gs ! i = n + length u"
    using starts_nth [OF i, of n "CHR '':''"] by (simp add: u_def)
  have "(\<exists>w. v = CHR '':'' # w) \<and> starts n ?gs ! Suc i = n + length u + length (?gs ! i) + 1" if "Suc i < length ?gs"
    using starts_nth [OF that, of n "CHR '':''"] i that
    by (simp add: u_def v_def take_Suc_conv_app_nth Cons_nth_drop_Suc [symmetric])
  moreover have "v = []" if "\<not> Suc i < length ?gs" using that i by (simp add: v_def)
  ultimately show ?thesis using y st by (intro exI [of _ u] exI [of _ v]) auto
qed

lemma set_join_on: "set (join_on d gs) \<subseteq> insert d (\<Union>x \<in> set gs. set x)"
  by (induction gs rule: path_join.induct) auto

lemma shape_tokens:
  assumes "ipv6_shape hs v4" "groups y = hs @ (if v4 = [] then [] else [v4])" "s = pre @ y @ post" "i < length hs"
  shows "token_of s ((starts (length pre) (groups y) @ [length pre + length y]) ! i)
    ((starts (length pre) (groups y) @ [length pre + length y]) ! (i + 1)) (groups y ! i)"
proof -
  let ?gs = "groups y"
  have i: "i < length ?gs" using assms(2,4) by simp
  have "?gs ! i \<in> set hs" using assms(2,4) by (simp add: nth_append)
  then have hex: "list_all is_hexdigit (?gs ! i)"
    using assms(1) by (auto simp: ipv6_shape_def list_all_iff hex_group_def)
  obtain u v where y: "y = u @ ?gs ! i @ v" "starts (length pre) ?gs ! i = length pre + length u"
    "if Suc i < length ?gs then (\<exists>w. v = CHR '':'' # w) \<and> starts (length pre) ?gs ! Suc i = length pre + length u + length (?gs ! i) + 1
     else v = []" using group_position [OF i] by blast
  have ly: "length y = length u + length (?gs ! i) + length v" using arg_cong [OF y(1), of length] by simp
  show ?thesis
  proof (cases "Suc i < length ?gs")
    case True
    with y(3) obtain w where "v = CHR '':'' # w" by auto
    with True i y assms(3) show ?thesis
      by (intro token_ofI [OF hex, of _ "pre @ u" "v @ post"]) (auto simp: nth_append)
  next
    case False
    with y(3) i have "v = []" "i = length ?gs - 1" by simp_all
    with i y(1,2) ly assms(3) show ?thesis
      by (intro token_ofI [OF hex, of _ "pre @ u" "v @ post"]) (auto simp: nth_append)
  qed
qed

lemma valid_is_ipv6:
  assumes "is_valid_ipv6 s"
  shows "is_ipv6 s"
proof (cases "s = ''::''")
  case False
  let ?ok = "\<lambda>c. c = CHR '':'' \<or> c = CHR ''.'' \<or> is_hexdigit c"
  have len: "2 \<le> length s" "length s \<le> 39" using assms by (auto simp: is_valid_ipv6_def split: if_splits)
  obtain hs v4 where sh: "ipv6_shape hs v4" and g: "groups (ipv6_body s) = hs @ (if v4 = [] then [] else [v4])"
    using valid_ipv6_shape [OF assms False] by blast
  obtain pre post where s: "s = pre @ ipv6_body s @ post" "set pre \<subseteq> {CHR '':''}" "set post \<subseteq> {CHR '':''}"
    using ipv6_body_context [OF len(1) False] by metis
  have num: "is_num c \<Longrightarrow> is_hexdigit c" for c by (simp add: is_hexdigit_def)
  have "?ok c" if "x \<in> set (groups (ipv6_body s))" "c \<in> set x" for x c
  proof (cases "x \<in> set hs")
    case True
    then have "list_all is_hexdigit x" using sh by (simp add: ipv6_shape_def hex_group_def list_all_iff)
    with that(2) show ?thesis by (simp add: list_all_iff)
  next
    case False
    with that(1) have "x = v4" "v4 \<noteq> []" unfolding g by (simp_all split: if_splits)
    then have "is_valid_ipv4 x" using sh by (simp add: ipv6_shape_def)
    then have "list_all (\<lambda>c. c = CHR ''.'' \<or> is_num c) x" using valid_ipv4_chars by blast
    then have "c = CHR ''.'' \<or> is_num c" using that(2) unfolding list_all_iff by (rule bspec)
    with num show ?thesis by blast
  qed
  moreover have "set (ipv6_body s) \<subseteq> insert (CHR '':'') (\<Union>x \<in> set (groups (ipv6_body s)). set x)"
    using set_join_on [of "CHR '':''" "groups (ipv6_body s)"] by simp
  ultimately have "\<forall>c \<in> set (ipv6_body s). ?ok c" by blast
  moreover have "\<forall>c \<in> set pre \<union> set post. ?ok c" using s(2,3) by blast
  ultimately have "\<forall>c \<in> set (pre @ ipv6_body s @ post). ?ok c" unfolding set_append by blast
  then have "\<forall>c \<in> set s. ?ok c" using s(1) by simp
  with len show ?thesis by (simp add: is_ipv6_def list_all_iff)
qed (simp add: is_ipv6_def)

lemma normalize_valid:
  assumes "is_valid_ipv6 s" "s \<noteq> ''::''"
  obtains hs v4 where "ipv6_shape hs v4" "groups (ipv6_body s) = hs @ (if v4 = [] then [] else [v4])"
    "normalize_IPv6 s = Inr (encode_fields (expand (if v4 = [] then 8 else 6) hs) v4)"
proof -
  obtain hs v4 where sh: "ipv6_shape hs v4" and g: "groups (ipv6_body s) = hs @ (if v4 = [] then [] else [v4])"
    using valid_ipv6_shape [OF assms] by blast
  define gs where "gs = groups (ipv6_body s)"
  have len: "2 \<le> length s" using assms(1) by (auto simp: is_valid_ipv6_def split: if_splits)
  obtain pre post where s: "s = pre @ ipv6_body s @ post" and
    t: "ipv6_tokens s = Inr (starts (length pre) gs @ [length pre + length (ipv6_body s)])"
    using ipv6_tokens_starts [OF len assms(2)] shape_length(1) [OF sh] g unfolding gs_def by metis
  define toks where "toks = starts (length pre) gs @ [length pre + length (ipv6_body s)]"
  define n where "n = length gs"
  have n: "length toks - 1 = n" "n = length hs + (if v4 = [] then 0 else 1)" "0 < n"
    using g by (auto simp: toks_def n_def gs_def)
  obtain u where u: "ipv6_body s = u @ gs ! (n - 1)" "starts (length pre) gs ! (n - 1) = length pre + length u"
    using group_position [of "n - 1" "ipv6_body s" "length pre"] n(3) by (auto simp: n_def gs_def)
  have e: "toks ! n = length pre + length (ipv6_body s)" "toks ! (n - 1) = length pre + length u"
    using u(2) n(3) by (simp_all add: toks_def n_def nth_append)
  have v: "toks ! n - toks ! (n - 1) = length (gs ! (n - 1))" using e arg_cong [OF u(1), of length] by simp
  have has: "(toks ! n - toks ! (n - 1) > 5) = (v4 \<noteq> [])"
  proof (cases "v4 = []")
    case True
    then have "gs ! (n - 1) \<in> set hs" using n g by (simp add: gs_def)
    then have "length (gs ! (n - 1)) \<le> 4" using sh by (auto simp: ipv6_shape_def list_all_iff hex_group_def)
    with True v show ?thesis by simp
  next
    case False
    then have "gs ! (n - 1) = v4" using n g by (simp add: gs_def)
    moreover have "7 \<le> length v4" using sh False valid_ipv4_chars by (auto simp: ipv6_shape_def)
    ultimately show ?thesis using False v by simp
  qed
  have v4: "(if v4 \<noteq> [] then slice s (toks ! (n - 1)) (toks ! n - toks ! (n - 1)) else []) = v4"
  proof (cases "v4 = []")
    case False
    then have "gs ! (n - 1) = v4" using n g by (simp add: gs_def)
    with u(1) s have "s = (pre @ u) @ v4 @ post" by simp
    then have "slice s (length (pre @ u)) (length v4) = v4" by (simp add: slice_def)
    with False v e \<open>gs ! (n - 1) = v4\<close> show ?thesis by simp
  qed simp
  have nt: "(if v4 \<noteq> [] then n - 1 else n) = length hs" using n by simp
  have eq: "gs ! i = hs ! i" if "i < length hs" for i using that g by (simp add: gs_def nth_append)
  have "decode_fields s toks [0..<length hs] ([], 8) =
      Inr (map (\<lambda>i. group_value (hs ! i)) (filter (\<lambda>i. hs ! i \<noteq> []) [0..<length hs]),
        last (8 # filter (\<lambda>i. hs ! i = []) [0..<length hs]))"
  proof -
    have "token_of s (toks ! i) (toks ! (i + 1)) (hs ! i)" if "i \<in> set [0..<length hs]" for i
      using shape_tokens [OF sh g s, of i] that eq [of i] by (simp add: toks_def gs_def)
    moreover have "length (filter (\<lambda>i. hs ! i \<noteq> []) [0..<length hs]) \<le> 8"
      using shape_length(2) [OF sh] filter_nth_upt [of id hs "\<lambda>g. g \<noteq> []"] by (metis length_map)
    ultimately show ?thesis using decode_fields_tokens [of "[0..<length hs]" s toks hs "[]" 8] by simp
  qed
  then have d: "decode_fields s toks [0..<length hs] ([], 8) =
      Inr (map group_value (filter (\<lambda>g. g \<noteq> []) hs), last (8 # filter (\<lambda>i. hs ! i = []) [0..<length hs]))"
    by (simp only: filter_nth_upt [of group_value hs "\<lambda>g. g \<noteq> []"])
  have fl: "fill_fields (map group_value (filter (\<lambda>g. g \<noteq> []) hs)) (if v4 \<noteq> [] then 6 else 8)
      (last (8 # filter (\<lambda>i. hs ! i = []) [0..<length hs])) = Inr (expand (if v4 = [] then 8 else 6) hs)"
    using fill_fields_shape [OF sh refl] by (cases "v4 = []") (simp_all only: simp_thms if_True if_False)
  have "normalize_IPv6 s = Inr (encode_fields (expand (if v4 = [] then 8 else 6) hs) v4)"
    using valid_is_ipv6 [OF assms(1)] assms(2) unfolding normalize_IPv6_def Let_def
    by (simp only: t toks_def [symmetric] sum.case n(1) has v4 nt d prod.case simp_thms if_False fl)
  then show ?thesis using that sh g by blast
qed

section \<open>Reading a normalised address back\<close>

lemma hex_lower_facts:
  "\<forall>k \<in> set [0..<16]. is_hexdigit (hex_lower ! k) \<and> get_hex_digit (hex_lower ! k) = int k"
  by code_simp

lemma hex_string_digits: "list_all is_hexdigit (hex_string n)"
proof (induction n rule: hex_string.induct)
  case (1 n)
  have "is_hexdigit (hex_lower ! k)" if "k < 16" for k using hex_lower_facts that by simp
  with 1 show ?case by (subst hex_string.simps) simp
qed

lemma hex_string_value: "hex_from 0 (hex_string n) = n"
proof (induction n rule: hex_string.induct)
  case (1 n)
  have d: "get_hex_digit (hex_lower ! k) = int k" if "k < 16" for k using hex_lower_facts that by simp
  show ?case
  proof (cases "n < 16")
    case True
    with d show ?thesis by (subst hex_string.simps) (simp add: hex_from_def)
  next
    case False
    with 1 d [of "n mod 16"] show ?thesis by (subst hex_string.simps) (simp add: hex_from_def)
  qed
qed

lemma hex_string_not_Nil [simp]: "hex_string n \<noteq> []"
  by (subst hex_string.simps) simp

definition hex_text :: "u16 \<Rightarrow> bytes" where
  "hex_text f = hex_string (unat f)"

lemma hex_text_value [simp]: "group_value (hex_text f) = f"
  by (simp add: group_value_def hex_text_def hex_string_value)

lemma hex_text_chars: "hex_text f \<noteq> []" "CHR '':'' \<notin> set (hex_text f)" "CHR ''.'' \<notin> set (hex_text f)"
  using hex_string_digits [of "unat f"] hexdigit_no_colon by (auto simp: hex_text_def list_all_iff)

text \<open>The address a text stands for: its fields, and the part in the notation of version 4.\<close>

definition ipv6_address :: "bytes \<Rightarrow> u16 list \<times> bytes" where
  "ipv6_address s =
     (let gs = groups (ipv6_body s)
      in if CHR ''.'' \<in> set (last gs) then (expand 6 (butlast gs), last gs) else (expand 8 gs, []))"

lemma zero_run_zeros:
  assumes "i \<le> length fs" "null_len = 0 \<and> null_pos = length fs \<or>
    0 < null_len \<and> null_pos + null_len \<le> length fs \<and> (\<forall>x. null_pos \<le> x \<and> x < null_pos + null_len \<longrightarrow> fs ! x = 0)"
  shows "case zero_run fs i null_pos null_len of (p, l) \<Rightarrow> l = 0 \<and> p = length fs \<or>
    0 < l \<and> p + l \<le> length fs \<and> (\<forall>x. p \<le> x \<and> x < p + l \<longrightarrow> fs ! x = 0)"
  using assms
proof (induction fs i null_pos null_len rule: zero_run.induct)
  case (1 fs i np nl)
  define first where "first = skip (\<lambda>f. f \<noteq> 0) fs i"
  define j where "j = skip (\<lambda>f. f = 0) fs first"
  define st where "st = (if j - first > nl then (first, j - first) else (np, nl))"
  have z: "zero_run fs i np nl = (if first \<ge> length fs then (np, nl)
      else if j \<ge> length fs then st else zero_run fs j (fst st) (snd st))"
    by (subst zero_run.simps) (auto simp: first_def j_def st_def Let_def split_def)
  have jl: "j \<le> length fs" if "first < length fs"
    using that length_takeWhile_le [of "\<lambda>f. f = 0" "drop first fs"] by (auto simp: j_def skip_def)
  have zeros: "fs ! x = 0" if "first \<le> x" "x < j" "first < length fs" for x
  proof -
    from that have x: "x - first < length (takeWhile (\<lambda>f. f = 0) (drop first fs))" by (simp add: j_def skip_def)
    then have "takeWhile (\<lambda>f. f = 0) (drop first fs) ! (x - first) = 0"
      using set_takeWhileD [OF nth_mem [OF x]] by simp
    with x that show ?thesis by (simp add: takeWhile_nth)
  qed
  have inv: "snd st = 0 \<and> fst st = length fs \<or> 0 < snd st \<and> fst st + snd st \<le> length fs \<and>
      (\<forall>x. fst st \<le> x \<and> x < fst st + snd st \<longrightarrow> fs ! x = 0)" if "first < length fs"
    using 1(3) that jl zeros by (auto simp: st_def)
  show ?case
  proof (cases "first < length fs \<and> j < length fs")
    case True
    then have "zero_run fs i np nl = zero_run fs j (fst st) (snd st)" using z by simp
    moreover have "case zero_run fs j (fst st) (snd st) of (p, l) \<Rightarrow> l = 0 \<and> p = length fs \<or>
        0 < l \<and> p + l \<le> length fs \<and> (\<forall>x. p \<le> x \<and> x < p + l \<longrightarrow> fs ! x = 0)"
      using True inv by (intro 1(1) [OF first_def _ j_def]) (auto simp: st_def)
    ultimately show ?thesis by simp
  next
    case False
    with z inv 1(3) show ?thesis by (auto simp: split_def)
  qed
qed

lemma colon_fields_text: "colon_fields fs = concat (map (\<lambda>x. CHR '':'' # x) (map hex_text fs))"
  by (simp add: colon_fields_def hex_text_def o_def)

lemma hex_colon_shift:
  "fs \<noteq> [] \<Longrightarrow> hex_text (hd fs) @ colon_fields (tl fs) @ '':'' = concat (map (\<lambda>x. x @ '':'') (map hex_text fs))"
proof (induction fs)
  case (Cons f fs)
  then show ?case by (cases fs) (simp_all add: colon_fields_text)
qed simp

text \<open>The text without a run of zeros to omit, and the text with one.\<close>

lemma encode_fields_cases:
  assumes fs: "length fs = (if v4 = [] then 8 else 6)" and nz: "v4 = [] \<Longrightarrow> fs \<noteq> replicate 8 0"
  shows "encode_fields fs v4 = join_on (CHR '':'') (map hex_text fs @ (if v4 = [] then [] else [v4])) \<or>
    (\<exists>a k b. fs = a @ replicate k 0 @ b \<and> \<not> (a = [] \<and> b = [] \<and> v4 = []) \<and>
      encode_fields fs v4 = (if a = [] then '':'' else []) @
        join_on (CHR '':'') (map hex_text a @ [] # map hex_text b @ (if v4 = [] then [] else [v4])) @
        (if b = [] \<and> v4 = [] then '':'' else []))"
proof -
  obtain p l where z: "zero_run fs 0 (length fs) 0 = (p, l)" by fastforce
  have pl: "l = 0 \<and> p = length fs \<or> 0 < l \<and> p + l \<le> length fs \<and> (\<forall>x. p \<le> x \<and> x < p + l \<longrightarrow> fs ! x = 0)"
    using zero_run_zeros [of 0 fs 0 "length fs"] z by simp
  have ne: "fs \<noteq> []" "0 < length fs" using fs by (auto split: if_splits)
  have v: "(if v4 \<noteq> [] then '':'' @ v4 else []) = concat (map (\<lambda>x. CHR '':'' # x) (if v4 = [] then [] else [v4]))"
    by simp
  show ?thesis
  proof (cases "l \<le> 1")
    case True
    have "take (length fs - 1) (drop 1 fs) = tl fs" using ne by (simp add: drop_Suc)
    with True z pl ne have "encode_fields fs v4 = hex_text (hd fs) @ colon_fields (tl fs) @ (if v4 \<noteq> [] then '':'' @ v4 else [])"
      using fs by (auto simp: encode_fields_def hex_text_def colon_fields_def)
    also have "\<dots> = join_on (CHR '':'') ([] @ hex_text (hd fs) # (map hex_text (tl fs) @ (if v4 = [] then [] else [v4])))"
      unfolding v join_on_nth colon_fields_text by simp
    also have "[] @ hex_text (hd fs) # (map hex_text (tl fs) @ (if v4 = [] then [] else [v4])) =
        map hex_text fs @ (if v4 = [] then [] else [v4])" using ne by (cases fs) auto
    finally show ?thesis by simp
  next
    case False
    define a b where "a = take p fs" and "b = drop (p + l) fs"
    from False pl have l: "2 \<le> l" "p + l \<le> length fs" "\<forall>x. p \<le> x \<and> x < p + l \<longrightarrow> fs ! x = 0" by auto
    have "take l (drop p fs) = replicate l 0" using l by (intro nth_equalityI) auto
    then have f: "fs = a @ replicate l 0 @ b"
      unfolding a_def b_def by (metis add.commute append_take_drop_id drop_drop)
    have len: "length a = p" "length b = length fs - (p + l)" using l by (simp_all add: a_def b_def)
    have "\<not> (a = [] \<and> b = [] \<and> v4 = [])" using nz fs f by auto
    moreover have "encode_fields fs v4 = (if a = [] then '':'' else []) @
        join_on (CHR '':'') (map hex_text a @ [] # map hex_text b @ (if v4 = [] then [] else [v4])) @
        (if b = [] \<and> v4 = [] then '':'' else [])"
    proof (cases "p = 0")
      case True
      with len have "a = []" by simp
      with True z l \<open>\<not> (a = [] \<and> b = [] \<and> v4 = [])\<close> show ?thesis
        unfolding encode_fields_def join_on_nth b_def by (simp add: colon_fields_text)
    next
      case False
      with len have an: "a \<noteq> []" by auto
      have ha: "hd fs = hd a" using hd_append2 [OF an, of "replicate l 0 @ b"] f by simp
      have ta: "take (p - 1) (drop 1 fs) = tl a" by (simp add: a_def tl_take drop_Suc)
      have e: "(p + l = 8 \<and> l \<noteq> 0) = (b = [] \<and> v4 = [])" using fs l len by (auto simp: b_def)
      have "encode_fields fs v4 = (hex_text (hd a) @ colon_fields (tl a) @ '':'') @ (if b = [] \<and> v4 = [] then '':'' else []) @
          colon_fields b @ (if v4 \<noteq> [] then '':'' @ v4 else [])"
        using z l False ha ta e unfolding encode_fields_def by (auto simp: b_def hex_text_def)
      also have "\<dots> = (if a = [] then '':'' else []) @
        join_on (CHR '':'') (map hex_text a @ [] # map hex_text b @ (if v4 = [] then [] else [v4])) @
        (if b = [] \<and> v4 = [] then '':'' else [])"
        unfolding hex_colon_shift [OF an] v join_on_nth using an by (auto simp: colon_fields_text)
      finally show ?thesis .
    qed
    ultimately show ?thesis using f by blast
  qed
qed

lemma read_back:
  assumes gs: "gs \<noteq> []" "\<forall>g \<in> set gs. CHR '':'' \<notin> set g"
    and pre: "pre = [] \<and> hd gs \<noteq> [] \<or> pre = '':'' \<and> hd gs = []"
    and post: "post = [] \<and> last gs \<noteq> [] \<or> post = '':'' \<and> last gs = [] \<and> hd gs \<noteq> []"
  shows "groups (ipv6_body (pre @ join_on (CHR '':'') gs @ post)) = gs"
proof -
  let ?j = "join_on (CHR '':'') gs" and ?r = "pre @ join_on (CHR '':'') gs @ post"
  have h: "hd ?j = hd (hd gs)" "?j \<noteq> []" if "hd gs \<noteq> []"
    using that gs(1) join_on_nth [of "CHR '':''" "[]" "hd gs" "tl gs"] by simp_all
  have l: "last ?j = last (last gs)" "?j \<noteq> []" if "last gs \<noteq> []"
    using that gs(1) join_on_nth [of "CHR '':''" "butlast gs" "last gs" "[]"] by simp_all
  have nc: "hd gs \<noteq> [] \<Longrightarrow> hd (hd gs) \<noteq> CHR '':''" "last gs \<noteq> [] \<Longrightarrow> last (last gs) \<noteq> CHR '':''"
    using gs by (metis hd_in_set, metis last_in_set)
  have "ipv6_body ?r = ?j"
    using pre post h l nc by (auto simp: ipv6_body_def Let_def butlast_append)
  then show ?thesis using split_join_on [OF gs] by simp
qed

lemma expand_text: "length fs = m \<Longrightarrow> expand m (map hex_text fs) = fs"
proof -
  assume m: "length fs = m"
  have "\<forall>g \<in> set (map hex_text fs). g \<noteq> []" by (auto simp: hex_text_chars)
  then have "takeWhile (\<lambda>g. g \<noteq> []) (map hex_text fs) = map hex_text fs" "dropWhile (\<lambda>g. g \<noteq> []) (map hex_text fs) = []"
    by (simp_all only: takeWhile_eq_all_conv dropWhile_eq_Nil_conv)
  then show ?thesis unfolding expand_def by (simp only:) (simp add: m o_def)
qed

lemma expand_run:
  "length a + k + length b = m \<Longrightarrow> expand m (map hex_text a @ [] # map hex_text b) = a @ replicate k 0 @ b"
proof -
  assume m: "length a + k + length b = m"
  have "takeWhile (\<lambda>g. g \<noteq> []) (map hex_text a @ [] # map hex_text b) = map hex_text a"
    "dropWhile (\<lambda>g. g \<noteq> []) (map hex_text a @ [] # map hex_text b) = [] # map hex_text b"
    by (induction a) (simp_all add: hex_text_chars)
  moreover have "m - (length a + length b) = k" using m by simp
  ultimately show ?thesis unfolding expand_def by (simp only:) (simp add: o_def)
qed

lemma encode_fields_address:
  assumes fs: "length fs = (if v4 = [] then 8 else 6)" and nz: "v4 = [] \<Longrightarrow> fs \<noteq> replicate 8 0"
    and v4: "v4 = [] \<or> CHR ''.'' \<in> set v4 \<and> CHR '':'' \<notin> set v4"
  shows "ipv6_address (encode_fields fs v4) = (fs, v4)"
proof -
  define V where "V = (if v4 = [] then [] else [v4])"
  have V: "\<forall>g \<in> set V. g \<noteq> [] \<and> CHR '':'' \<notin> set g" using v4 by (auto simp: V_def)
  have T: "\<forall>g \<in> set (map hex_text xs). g \<noteq> [] \<and> CHR '':'' \<notin> set g" for xs using hex_text_chars by auto
  have ad: "ipv6_address r = (expand (if v4 = [] then 8 else 6) hs, v4)"
    if "groups (ipv6_body r) = hs @ V" "v4 = [] \<Longrightarrow> CHR ''.'' \<notin> set (last hs)" for r hs
    using that v4 by (auto simp: ipv6_address_def V_def Let_def)
  have nodot: "CHR ''.'' \<notin> set g" if "g \<in> set (map hex_text xs) \<union> {[]}" for g xs
    using that hex_text_chars by auto
  consider "encode_fields fs v4 = join_on (CHR '':'') (map hex_text fs @ V)"
    | a k b where "fs = a @ replicate k 0 @ b" "\<not> (a = [] \<and> b = [] \<and> v4 = [])"
      "encode_fields fs v4 = (if a = [] then '':'' else []) @
        join_on (CHR '':'') (map hex_text a @ [] # map hex_text b @ V) @ (if b = [] \<and> v4 = [] then '':'' else [])"
    using encode_fields_cases [OF fs nz] unfolding V_def by blast
  then show ?thesis
  proof cases
    case 1
    have ne: "fs \<noteq> []" using fs by (auto split: if_splits)
    have "groups (ipv6_body ([] @ join_on (CHR '':'') (map hex_text fs @ V) @ [])) = map hex_text fs @ V"
    proof (rule read_back)
      show "\<forall>g \<in> set (map hex_text fs @ V). CHR '':'' \<notin> set g" using T [of fs] V by auto
      have "hd (map hex_text fs @ V) \<in> set (map hex_text fs)" using ne by (cases fs) auto
      with T show "[] = [] \<and> hd (map hex_text fs @ V) \<noteq> [] \<or> [] = '':'' \<and> hd (map hex_text fs @ V) = []" by blast
      have "last (map hex_text fs @ V) \<in> set (map hex_text fs) \<union> set V"
        using ne last_in_set [of "map hex_text fs @ V"] by auto
      with T V show "[] = [] \<and> last (map hex_text fs @ V) \<noteq> [] \<or>
        [] = '':'' \<and> last (map hex_text fs @ V) = [] \<and> hd (map hex_text fs @ V) \<noteq> []" by blast
    qed (use ne in simp)
    moreover have "CHR ''.'' \<notin> set (last (map hex_text fs))" using ne hex_text_chars by (simp add: last_map)
    ultimately show ?thesis using ad [of "encode_fields fs v4" "map hex_text fs"] 1 expand_text [OF fs] by simp
  next
    case (2 a k b)
    let ?gs = "map hex_text a @ [] # map hex_text b @ V"
    have "groups (ipv6_body ((if a = [] then '':'' else []) @ join_on (CHR '':'') ?gs @
        (if b = [] \<and> v4 = [] then '':'' else []))) = ?gs"
    proof (rule read_back)
      show "\<forall>g \<in> set ?gs. CHR '':'' \<notin> set g" using T [of a] T [of b] V by auto
      have h: "hd ?gs = (if a = [] then [] else hex_text (hd a))" by (cases a) auto
      then show "(if a = [] then '':'' else []) = [] \<and> hd ?gs \<noteq> [] \<or> (if a = [] then '':'' else []) = '':'' \<and> hd ?gs = []"
        using hex_text_chars by simp
      show "(if b = [] \<and> v4 = [] then '':'' else []) = [] \<and> last ?gs \<noteq> [] \<or>
        (if b = [] \<and> v4 = [] then '':'' else []) = '':'' \<and> last ?gs = [] \<and> hd ?gs \<noteq> []"
      proof (cases "b = [] \<and> v4 = []")
        case True
        with 2(2) h hex_text_chars show ?thesis by (simp add: V_def)
      next
        case False
        then have "last ?gs \<in> set (map hex_text b) \<union> set V"
          using last_in_set [of "map hex_text b @ V"] by (auto simp: V_def)
        then have "last ?gs \<noteq> []" using T [of b] V by blast
        with False show ?thesis by auto
      qed
    qed simp
    then have "groups (ipv6_body (encode_fields fs v4)) = (map hex_text a @ [] # map hex_text b) @ V"
      unfolding 2(3) by simp
    moreover have "CHR ''.'' \<notin> set (last (map hex_text a @ [] # map hex_text b))"
      using nodot [of "last ([] # map hex_text b)" b] last_in_set [of "[] # map hex_text b"] by auto
    moreover have "expand (if v4 = [] then 8 else 6) (map hex_text a @ [] # map hex_text b) = fs"
    proof -
      have "length a + k + length b = (if v4 = [] then 8 else 6)" using fs 2(1) by simp
      from expand_run [OF this] 2(1) show ?thesis by simp
    qed
    ultimately show ?thesis using ad by simp
  qed
qed

lemma valid_ipv4_dot: "is_valid_ipv4 s \<Longrightarrow> CHR ''.'' \<in> set s"
proof -
  assume "is_valid_ipv4 s"
  then obtain t where "is_uint s 255 = Some (CHR ''.'' # t)"
    unfolding is_valid_ipv4_def by (auto simp: bind_eq_Some_conv skip_dot_Some)
  then obtain d where "s = d @ CHR ''.'' # t" by (rule is_uint_suffix)
  then show ?thesis by simp
qed

lemma expand_length:
  assumes "ipv6_shape hs v4"
  shows "length (expand (if v4 = [] then 8 else 6) hs) = (if v4 = [] then 8 else 6)"
proof -
  let ?m = "if v4 = [] then 8 else 6 :: nat" and ?f = "takeWhile (\<lambda>g. g \<noteq> []) hs" and ?d = "dropWhile (\<lambda>g. g \<noteq> []) hs"
  have n: "length ?f + length ?d = length hs"
    by (metis length_append takeWhile_dropWhile_id)
  have c: "length (filter (\<lambda>g. g = []) hs) + length (filter (\<lambda>g. g \<noteq> []) hs) = length hs"
    by (rule sum_length_filter_compl)
  have "length ?f + length (tl ?d) \<le> ?m"
  proof (cases "?d = []")
    case True
    then have "filter (\<lambda>g. g = []) hs = []" by (auto simp: filter_empty_conv)
    with True n c assms show ?thesis by (auto simp: ipv6_shape_def Let_def split: if_splits)
  next
    case False
    then have "[] \<in> set hs" by (auto simp: dropWhile_eq_Nil_conv)
    then have "filter (\<lambda>g. g = []) hs \<noteq> []" by (auto simp: filter_empty_conv)
    moreover from False have "length (tl ?d) = length ?d - 1" "0 < length ?d" by simp_all
    ultimately have "length ?f + length (tl ?d) = length hs - 1" using n by linarith
    with \<open>filter (\<lambda>g. g = []) hs \<noteq> []\<close> c assms show ?thesis
      by (auto simp: ipv6_shape_def Let_def split: if_splits simp del: length_tl)
  qed
  then show ?thesis by (simp add: expand_def Let_def)
qed

section \<open>Properties\<close>

text \<open>
  (C37) \<open>normalize_IPv6\<close> is right on valid addresses: it stays within its arrays, and the text it gives stands
  for the same address as its argument, read by a reference definition that expands a double colon,
  unless that address is all zeros. The address of all zeros becomes a single colon.
\<close>

theorem normalize_IPv6_valid:
  assumes "is_valid_ipv6 s" "s \<noteq> ''::''"
  shows "\<exists>r. normalize_IPv6 s = Inr r \<and>
    (if ipv6_address s = (replicate 8 0, []) then r = '':'' else ipv6_address r = ipv6_address s)"
proof -
  obtain hs v4 where sh: "ipv6_shape hs v4" and g: "groups (ipv6_body s) = hs @ (if v4 = [] then [] else [v4])" and
    n: "normalize_IPv6 s = Inr (encode_fields (expand (if v4 = [] then 8 else 6) hs) v4)"
    using normalize_valid [OF assms] by blast
  define fs where "fs = expand (if v4 = [] then 8 else 6) hs"
  have v4: "v4 = [] \<or> CHR ''.'' \<in> set v4 \<and> CHR '':'' \<notin> set v4"
    using sh valid_ipv4_dot valid_ipv4_no_colon by (auto simp: ipv6_shape_def)
  have "CHR ''.'' \<notin> set (last hs)" if "v4 = []"
    using sh g that split_on_not_Nil [of "CHR '':''" "ipv6_body s"] hexdigit_no_colon
    by (fastforce simp: ipv6_shape_def hex_group_def list_all_iff dest: last_in_set)
  then have a: "ipv6_address s = (fs, v4)" using g v4 by (auto simp: ipv6_address_def fs_def Let_def)
  have z: "encode_fields (replicate 8 0) [] = '':''" by code_simp
  show ?thesis
  proof (cases "fs = replicate 8 0 \<and> v4 = []")
    case True
    with a n [folded fs_def] z show ?thesis by simp
  next
    case False
    then have "ipv6_address (encode_fields fs v4) = (fs, v4)"
      using expand_length [OF sh] v4 by (intro encode_fields_address) (auto simp: fs_def)
    with a n [folded fs_def] False show ?thesis by auto
  qed
qed

theorem normalize_IPv6_valid_witness:
  "normalize_IPv6 ''1:0::2'' = Inr ''1::2'' \<and> normalize_IPv6 ''0::'' = Inr '':''"
proof
  have v: "is_valid_ipv6 ''1:0::2''" "is_valid_ipv6 ''0::''" by code_simp+
  have "normalize_IPv6 ''1:0::2'' = Inr ''1::2''" by code_simp
  with normalize_IPv6_valid [OF v(1)] show "normalize_IPv6 ''1:0::2'' = Inr ''1::2''" by simp
  have "ipv6_address ''0::'' = (replicate 8 0, [])" by code_simp
  with normalize_IPv6_valid [OF v(2)] show "normalize_IPv6 ''0::'' = Inr '':''" by simp
qed

text \<open>
  On addresses that only have the right characters, \<open>normalize_IPv6\<close> leaves its arrays: with fewer than
  eight fields and no double colon it reads before the start of \<open>fields\<close>, and with more than eight fields it
  writes behind their end.
\<close>

theorem normalize_IPv6_out_of_bounds:
  "is_ipv6 ''1:2'' \<and> normalize_IPv6 ''1:2'' = Inl Undefined_behaviour \<and>
   is_ipv6 ''1:2:3:4:5:6:7:8:9:a'' \<and> normalize_IPv6 ''1:2:3:4:5:6:7:8:9:a'' = Inl Undefined_behaviour \<and>
   is_ipv6 ''1.2.3.4'' \<and> normalize_IPv6 ''1.2.3.4'' = Inl Undefined_behaviour"
  by code_simp

end
