(* ===== verification/Http_Url.thy ===== *)
theory Http_Url
  imports Http_Url_Ip
begin

text \<open>
  The class \<open>HttpUrl\<close> of src/include/http/http\_url.h. An object keeps the text of a URL and its components
  and converts between them on demand: \<open>parse_url\<close> and \<open>build_url\<close>. Pointers into the text are offsets; the
  byte behind the text is the terminating zero of \<open>std::string\<close>. An operation takes the object and returns
  the object after it together with its result or the exception it throws.
\<close>

type_synonym KeyVal = "bytes \<times> bytes"

record HttpUrl =
  m_scheme :: bytes
  m_user :: bytes
  m_host :: bytes
  m_port :: bytes
  m_path :: bytes
  m_query :: "KeyVal list"
  m_fragment :: bytes
  m_url :: bytes
  m_parse :: bool
  m_built :: bool
  m_ip_v :: u8

definition HttpUrl_default :: HttpUrl where
  "HttpUrl_default = \<lparr>m_scheme = [], m_user = [], m_host = [], m_port = [], m_path = [], m_query = [],
     m_fragment = [], m_url = [], m_parse = True, m_built = True, m_ip_v = -1\<rparr>"

definition HttpUrl_string :: "bytes \<Rightarrow> HttpUrl" where
  "HttpUrl_string url_str = HttpUrl_default\<lparr>m_url := url_str, m_parse := False, m_built := False\<rparr>"

definition clear :: "HttpUrl \<Rightarrow> HttpUrl" where
  "clear u = u\<lparr>m_url := [], m_scheme := [], m_user := [], m_host := [], m_port := [], m_path := [],
     m_query := [], m_fragment := [], m_ip_v := -1, m_built := True, m_parse := True\<rparr>"

definition assign :: "HttpUrl \<Rightarrow> HttpUrl \<Rightarrow> HttpUrl" where
  "assign url u =
     (let u = u\<lparr>m_parse := m_parse url, m_built := m_built url\<rparr>;
          u = (if m_parse u
               then u\<lparr>m_scheme := m_scheme url, m_user := m_user url, m_host := m_host url, m_ip_v := m_ip_v url,
                      m_port := m_port url, m_path := m_path url, m_query := m_query url, m_fragment := m_fragment url\<rparr>
               else u)
      in if \<not> m_parse u \<or> m_built u then u\<lparr>m_url := m_url url\<rparr> else u)"

definition HttpUrl_copy :: "HttpUrl \<Rightarrow> HttpUrl" where
  "HttpUrl_copy url = assign url (HttpUrl_default\<lparr>m_ip_v := -1\<rparr>)"

section \<open>Parsing\<close>

definition char_at :: "bytes \<Rightarrow> nat \<Rightarrow> char" where
  "char_at u i = (if i < length u then u ! i else CHR 0x00)"

definition sub :: "bytes \<Rightarrow> nat \<Rightarrow> nat \<Rightarrow> bytes" where
  "sub u b e = slice u b (e - b)"

definition quoted :: "bytes \<Rightarrow> bytes" where
  "quoted s = [CHR 0x27] @ s @ [CHR 0x27]"

text \<open>The pointers \<open>scheme_b\<close>, \<open>scheme_e\<close> and so on, both null or both set, and \<open>ip_v\<close>.\<close>

type_synonym range = "(nat \<times> nat) option"

record url_parts =
  r_scheme :: range
  r_user :: range
  r_host :: range
  r_port :: range
  r_path :: range
  r_query :: range
  r_fragment :: range
  r_ip_v :: u8

definition no_parts :: url_parts where
  "no_parts = \<lparr>r_scheme = None, r_user = None, r_host = None, r_port = None, r_path = None, r_query = None,
     r_fragment = None, r_ip_v = -1\<rparr>"

text \<open>The version of an IPvFuture literal, from behind the letter: \<open>ip_v\<close> and the new position.\<close>

definition future_version :: "bytes \<Rightarrow> nat \<Rightarrow> u8 \<times> nat" where
  "future_version u b =
     (if is_hexdigit (char_at u b) then
        let ip_v = of_int (get_hex_digit (char_at u b)); b = b + 1
        in if is_hexdigit (char_at u b) then (push_bit 8 ip_v OR of_int (get_hex_digit (char_at u b)), b) else (ip_v, b)
      else (-1, b))"

definition host_error :: "bytes \<Rightarrow> url_error" where
  "host_error u = Parse_error (''Host address in '' @ quoted u @ '' is invalid'')"

text \<open>The host that starts at \<open>b\<close> in an authority that ends at \<open>ea\<close>: its range, \<open>ip_v\<close> and the position behind it.\<close>

definition parse_host :: "bytes \<Rightarrow> nat \<Rightarrow> nat \<Rightarrow> url_error + (nat \<times> nat) \<times> u8 \<times> nat" where
  "parse_host u b ea =
     (if char_at u b = CHR ''['' then
        let b = b + 1; p = find_char u b ea (CHR '']'')
        in if char_at u p \<noteq> CHR '']'' then Inl (Parse_error (''Missing ] in '' @ quoted u))
           else if char_at u b = CHR ''v'' then
             let (ip_v, b) = future_version u (b + 1)
             in if ip_v = -1 \<or> char_at u b \<noteq> CHR ''.'' \<or> \<not> is_chars (sub u (b + 1) p) 0x05 then Inl (host_error u)
                else Inr ((b + 1, p), ip_v, p + 1)
           else if is_ipv6 (sub u b p) then Inr ((b, p), 6, p + 1)
           else Inl (host_error u)
      else
        let p = find_char u b ea (CHR '':'')
        in if is_ipv4 (sub u b p) then Inr ((b, p), 4, p)
           else if is_reg_name (sub u b p) then Inr ((b, p), 0, p)
           else Inl (host_error u))"

definition parse_port :: "bytes \<Rightarrow> nat \<Rightarrow> nat \<Rightarrow> url_error + range" where
  "parse_port u b ea =
     (if b \<noteq> ea \<and> char_at u b = CHR '':'' then
        let b = b + 1
        in if \<not> is_port (sub u b ea)
           then Inl (Parse_error (''Port '' @ quoted (sub u b ea) @ '' in '' @ quoted u @ '' is invalid''))
           else Inr (Some (b, ea))
      else Inr None)"

text \<open>The authority that starts at \<open>b\<close>, behind the two slashes: the position of its end and the parts with it.\<close>

definition parse_authority :: "bytes \<Rightarrow> nat \<Rightarrow> url_parts \<Rightarrow> url_error + nat \<times> url_parts" where
  "parse_authority u b r =
     (let ea = find_first_of u b (length u) ''/?#'';
          p = find_char u b ea (CHR ''@'')
      in if p \<noteq> ea \<and> \<not> is_chars (sub u b p) 0x05
         then Inl (Parse_error (''User info in '' @ quoted u @ '' is invalid''))
         else
           let (r, b) = (if p \<noteq> ea then (r\<lparr>r_user := Some (b, p)\<rparr>, p + 1) else (r, b))
           in case parse_host u b ea of
                Inl err \<Rightarrow> Inl err
              | Inr (host, ip_v, b) \<Rightarrow>
                  (case parse_port u b ea of
                     Inl err \<Rightarrow> Inl err
                   | Inr port \<Rightarrow> Inr (ea, r\<lparr>r_host := Some host, r_ip_v := ip_v, r_port := port\<rparr>)))"

text \<open>Path, query and fragment, from \<open>b\<close> on.\<close>

definition path_error :: "bytes \<Rightarrow> nat \<Rightarrow> nat \<Rightarrow> url_error" where
  "path_error u b p = Parse_error (''Path '' @ quoted (sub u b p) @ '' in '' @ quoted u @ '' is invalid'')"

definition parse_tail :: "bytes \<Rightarrow> nat \<Rightarrow> url_parts \<Rightarrow> url_error + url_parts" where
  "parse_tail u b r =
     (let e = length u; p = find_first_of u b e ''?#''
      in if \<not> is_chars (sub u b p) 0x2F then Inl (path_error u b p)
         else
           let r = r\<lparr>r_path := Some (b, p)\<rparr>;
               (r, p) =
                 (if p \<noteq> e \<and> char_at u p = CHR ''?''
                  then let b = p + 1; p = find_char u b e (CHR ''#'') in (r\<lparr>r_query := Some (b, p)\<rparr>, p)
                  else (r, p))
           in if p \<noteq> e \<and> char_at u p = CHR ''#'' then
                if \<not> is_chars (sub u (p + 1) e) 0x3F
                then Inl (Parse_error (''Fragment '' @ quoted (sub u (p + 1) e) @ '' in '' @ quoted u @ '' is invalid''))
                else Inr (r\<lparr>r_fragment := Some (p + 1, e)\<rparr>)
              else Inr r)"

definition locate_parts :: "bytes \<Rightarrow> url_error + url_parts" where
  "locate_parts u =
     (let e = length u; b = 0; p = find_first_of u b e '':/?#''
      in if p = e then
           if \<not> is_chars (sub u b p) 0x2F then Inl (path_error u b p)
           else Inr (no_parts\<lparr>r_path := Some (b, e)\<rparr>)
         else if char_at u p = CHR '':'' \<and> \<not> is_scheme (sub u b p)
         then Inl (Parse_error (''Scheme in '' @ quoted u @ '' is invalid''))
         else
           let (r, b, p) =
                 (if char_at u p = CHR '':'' then (no_parts\<lparr>r_scheme := Some (b, p)\<rparr>, p + 1, find_first_of u (p + 1) e ''/?#'')
                  else (no_parts, b, p))
           in if p \<noteq> e \<and> char_at u p = CHR ''/'' \<and> e - b > 1 \<and> char_at u b = CHR ''/'' \<and> char_at u (b + 1) = CHR ''/'' then
                (case parse_authority u (b + 2) r of Inl err \<Rightarrow> Inl err | Inr (b, r) \<Rightarrow> parse_tail u b r)
              else parse_tail u b r)"

text \<open>The loop over the query from \<open>b\<close> to \<open>qe\<close>; it goes on while a separator was found.\<close>

lemma find_first_of_ge: "b \<le> e \<Longrightarrow> b \<le> find_first_of u b e q \<and> find_first_of u b e q \<le> e"
  by (induction u b e q rule: find_first_of.induct) (subst (1 2) find_first_of.simps, auto)

lemma find_first_of_stop: "e \<le> b \<Longrightarrow> find_first_of u b e q = e"
  by (subst find_first_of.simps) simp

function query_loop :: "bytes \<Rightarrow> nat \<Rightarrow> nat \<Rightarrow> KeyVal list \<Rightarrow> url_error + KeyVal list" where
  "query_loop u b qe query_v =
     (let p = find_first_of u b qe ''=;&''
      in if \<not> is_chars (sub u b p) 0x3F
         then Inl (Parse_error (''Query key '' @ quoted (sub u b p) @ '' in '' @ quoted u @ '' is invalid''))
         else
           case decode_plus (sub u b p) of
             Inl err \<Rightarrow> Inl err
           | Inr key \<Rightarrow>
               if p \<noteq> qe \<and> char_at u p = CHR ''='' then
                 let b = p + 1; p = find_first_of u b qe '';&''
                 in if \<not> is_chars (sub u b p) 0x3F
                    then Inl (Parse_error (''Query value '' @ quoted (sub u b p) @ '' in '' @ quoted u @ '' is invalid''))
                    else
                      case decode_plus (sub u b p) of
                        Inl err \<Rightarrow> Inl err
                      | Inr val \<Rightarrow>
                          if p \<noteq> qe then query_loop u (p + 1) qe (query_v @ [(key, val)]) else Inr (query_v @ [(key, val)])
               else if p \<noteq> qe then query_loop u (p + 1) qe (query_v @ [(key, [])])
               else Inr (query_v @ [(key, [])]))"
  by pat_completeness auto
termination
proof (relation "measure (\<lambda>(u, b, qe, query_v). qe - b)", goal_cases)
  case (2 u b qe query_v p key x)
  then show ?case using find_first_of_ge [of b qe u "''=;&''"] find_first_of_stop [of qe b u "''=;&''"]
      find_first_of_ge [of "Suc (find_first_of u b qe ''=;&'')" qe u "'';&''"]
      find_first_of_stop [of qe "Suc (find_first_of u b qe ''=;&'')" u "'';&''"]
    by (cases "b \<le> qe"; cases "Suc (find_first_of u b qe ''=;&'') \<le> qe") auto
next
  case (3 u b qe query_v p key)
  then show ?case using find_first_of_ge [of b qe u "''=;&''"] find_first_of_stop [of qe b u "''=;&''"]
    by (cases "b \<le> qe") auto
qed simp

declare query_loop.simps [simp del]

text \<open>\<open>bind_res\<close> passes the result on and stops at the first error.\<close>

definition bind_res :: "'e + 'a \<Rightarrow> ('a \<Rightarrow> 'e + 'b) \<Rightarrow> 'e + 'b" where
  "bind_res r f = (case r of Inl err \<Rightarrow> Inl err | Inr x \<Rightarrow> f x)"

lemma bind_res_simps [simp]: "bind_res (Inl err) f = Inl err" "bind_res (Inr x) f = f x"
  by (simp_all add: bind_res_def)

lemma bind_res_Inr: "bind_res r f = Inr y \<longleftrightarrow> (\<exists>x. r = Inr x \<and> f x = Inr y)"
  by (cases r) auto

definition range_text :: "bytes \<Rightarrow> range \<Rightarrow> bytes" where
  "range_text u r = (case r of None \<Rightarrow> [] | Some (b, e) \<Rightarrow> sub u b e)"

definition decode_host :: "bytes \<Rightarrow> url_parts \<Rightarrow> url_error + bytes" where
  "decode_host u r =
     (case r_host r of
        None \<Rightarrow> Inr []
      | Some (b, e) \<Rightarrow>
          bind_res (decode (sub u b e)) (\<lambda>host.
            if r_ip_v r = 0 then Inr (normalize_reg_name host)
            else if r_ip_v r = 6 then normalize_IPv6 host
            else Inr host))"

definition decode_query :: "bytes \<Rightarrow> url_parts \<Rightarrow> url_error + KeyVal list" where
  "decode_query u r =
     (case r_query r of None \<Rightarrow> Inr [] | Some (b, e) \<Rightarrow> if b \<noteq> e then query_loop u b e [] else Inr [])"

definition decode_parts :: "bytes \<Rightarrow> url_parts \<Rightarrow> HttpUrl \<Rightarrow> url_error + HttpUrl" where
  "decode_parts u r o' =
     bind_res (decode (range_text u (r_user r))) (\<lambda>user.
     bind_res (decode_host u r) (\<lambda>host.
     bind_res (decode (range_text u (r_path r))) (\<lambda>path.
     bind_res (decode_query u r) (\<lambda>query_v.
     bind_res (decode (range_text u (r_fragment r))) (\<lambda>fragment.
       Inr (o'\<lparr>m_scheme := normalize_scheme (range_text u (r_scheme r)), m_user := user, m_host := host,
            m_ip_v := r_ip_v r, m_port := range_text u (r_port r), m_path := normalize_path path,
            m_query := query_v, m_fragment := fragment, m_parse := True, m_built := False\<rparr>))))))"

definition parse_url :: "HttpUrl \<Rightarrow> url_error + HttpUrl" where
  "parse_url o' =
     (if m_url o' = [] then Inr (clear o')
      else if length (m_url o') > 8000 then Inl (Parse_error ''URI is longer than 8000 characters'')
      else bind_res (locate_parts (m_url o')) (\<lambda>r. decode_parts (m_url o') r o'))"

section \<open>Building\<close>

definition default_port :: "bytes \<Rightarrow> bytes \<Rightarrow> bool" where
  "default_port scheme port \<longleftrightarrow> (scheme = ''http'' \<and> port = ''80'') \<or> (scheme = ''https'' \<and> port = ''443'')"

definition host_text :: "HttpUrl \<Rightarrow> bytes" where
  "host_text u =
     (if m_ip_v u = 0 \<or> m_ip_v u = 4 then m_host u
      else if m_ip_v u = 6 then ''['' @ m_host u @ '']''
      else ''[v'' @ hex_string (unat (signed (m_ip_v u) :: u32)) @ ''.'' @ m_host u @ '']'')"

definition build_authority :: "HttpUrl \<Rightarrow> url_error + bytes" where
  "build_authority u =
     (if m_host u \<noteq> [] then
        bind_res (if m_user u \<noteq> [] then map_res (\<lambda>x. x @ ''@'') (encode (m_user u) 0x05) else Inr []) (\<lambda>user.
          Inr (''//'' @ user @ host_text u @
            (if m_port u \<noteq> [] \<and> \<not> default_port (m_scheme u) (m_port u) then '':'' @ m_port u else [])))
      else if m_user u \<noteq> [] then Inl (Build_error ''User info defined, but host is empty'')
      else if m_port u \<noteq> [] then Inl (Build_error ''Port defined, but host is empty'')
      else
        let p = find_first_of (m_path u) 0 (length (m_path u)) '':/''
        in if m_path u \<noteq> [] \<and> p \<noteq> length (m_path u) \<and> m_path u ! p = CHR '':''
           then Inl (Build_error (''The first segment of the relative path can'' @ [CHR 0x27] @ ''t contain '' @ quoted '':''))
           else Inr [])"

definition build_path :: "HttpUrl \<Rightarrow> url_error + bytes" where
  "build_path u =
     (if m_path u \<noteq> [] then
        if hd (m_path u) \<noteq> CHR ''/'' \<and> m_host u \<noteq> []
        then Inl (Build_error (''Path must start with '' @ quoted ''/'' @ '' when host is not empty''))
        else encode (m_path u) 0x0F
      else Inr [])"

definition query_entry :: "KeyVal \<Rightarrow> url_error + bytes" where
  "query_entry kv =
     bind_res (encode_query_key (fst kv) 0x1F) (\<lambda>k.
       if snd kv \<noteq> [] then map_res (\<lambda>v. k @ ''='' @ v) (encode_query_val (snd kv) 0x1F) else Inr k)"

fun build_rest :: "KeyVal list \<Rightarrow> url_error + bytes" where
  "build_rest [] = Inr []"
| "build_rest (kv # q) =
     (if fst kv = [] then Inl (Build_error ''A query entry has no key'')
      else bind_res (query_entry kv) (\<lambda>x. map_res (\<lambda>y. ''&'' @ x @ y) (build_rest q)))"

definition build_query :: "KeyVal list \<Rightarrow> url_error + bytes" where
  "build_query query =
     (case query of
        [] \<Rightarrow> Inr []
      | kv # q \<Rightarrow>
          if fst kv = [] then Inl (Build_error ''First query entry has no key'')
          else bind_res (query_entry kv) (\<lambda>x. map_res (\<lambda>y. ''?'' @ x @ y) (build_rest q)))"

definition build_text :: "HttpUrl \<Rightarrow> url_error + bytes" where
  "build_text u =
     bind_res (build_authority u) (\<lambda>authority.
     bind_res (build_path u) (\<lambda>path.
     bind_res (build_query (m_query u)) (\<lambda>query.
     bind_res (if m_fragment u \<noteq> [] then map_res (\<lambda>x. ''#'' @ x) (encode (m_fragment u) 0x1F) else Inr []) (\<lambda>fragment.
       Inr ((if m_scheme u \<noteq> [] then m_scheme u @ '':'' else []) @ authority @ path @ query @ fragment)))))"

section \<open>Operations\<close>

type_synonym 'a action = "HttpUrl \<Rightarrow> (url_error + 'a) \<times> HttpUrl"

definition ret :: "'a \<Rightarrow> 'a action" where
  "ret x u = (Inr x, u)"

definition throw :: "url_error \<Rightarrow> 'a action" where
  "throw err u = (Inl err, u)"

definition seq :: "'a action \<Rightarrow> ('a \<Rightarrow> 'b action) \<Rightarrow> 'b action" where
  "seq m f u = (case m u of (Inl err, u) \<Rightarrow> (Inl err, u) | (Inr x, u) \<Rightarrow> f x u)"

definition gets :: "(HttpUrl \<Rightarrow> 'a) \<Rightarrow> 'a action" where
  "gets f u = (Inr (f u), u)"

definition update :: "(HttpUrl \<Rightarrow> HttpUrl) \<Rightarrow> unit action" where
  "update f u = (Inr (), f u)"

definition lazy_parse :: "unit action" where
  "lazy_parse u =
     (if m_parse u then (Inr (), u)
      else case parse_url u of Inl err \<Rightarrow> (Inl err, u) | Inr u \<Rightarrow> (Inr (), u))"

definition build_url :: "unit action" where
  "build_url =
     seq lazy_parse (\<lambda>_ u.
       case build_text u of
         Inl err \<Rightarrow> (Inl err, u)
       | Inr url \<Rightarrow> (Inr (), u\<lparr>m_built := False, m_url := url\<rparr>))"

definition str :: "bytes action" where
  "str u = (if \<not> m_built u then seq build_url (\<lambda>_. gets m_url) u else (Inr (m_url u), u))"

definition set_str :: "bytes \<Rightarrow> unit action" where
  "set_str url_str = update (\<lambda>u. u\<lparr>m_url := url_str, m_built := False, m_parse := False\<rparr>)"

text \<open>The readers of the components.\<close>

definition scheme :: "bytes action" where "scheme = seq lazy_parse (\<lambda>_. gets m_scheme)"
definition user_info :: "bytes action" where "user_info = seq lazy_parse (\<lambda>_. gets m_user)"
definition host :: "bytes action" where "host = seq lazy_parse (\<lambda>_. gets m_host)"
definition ip_version :: "u8 action" where "ip_version = seq lazy_parse (\<lambda>_. gets m_ip_v)"
definition path :: "bytes action" where "path = seq lazy_parse (\<lambda>_. gets m_path)"
definition query :: "KeyVal list action" where "query = seq lazy_parse (\<lambda>_. gets m_query)"
definition fragment :: "bytes action" where "fragment = seq lazy_parse (\<lambda>_. gets m_fragment)"

text \<open>\<open>std::stoi\<close> on a decimal string: an \<open>int\<close>, or the exception.\<close>

definition stoi :: "bytes \<Rightarrow> url_error + u32" where
  "stoi s = (if string_value s \<le> 2147483647 then Inr (of_nat (string_value s)) else Inl (Out_of_range ''stoi''))"

definition port :: "u32 action" where
  "port = seq lazy_parse (\<lambda>_ u. if m_port u = [] then (Inr 80, u) else (stoi (m_port u), u))"

definition index_error :: "nat \<Rightarrow> url_error" where
  "index_error i = Out_of_range (''Invalid HttpUrl query index ('' @ nat_string i @ '')'')"

definition query_at :: "nat \<Rightarrow> KeyVal action" where
  "query_at i = seq lazy_parse (\<lambda>_ u. if i \<ge> length (m_query u) then throw (index_error i) u else ret (m_query u ! i) u)"

text \<open>The writers.\<close>

definition set_scheme :: "bytes \<Rightarrow> unit action" where
  "set_scheme s =
     (if \<not> is_scheme s then throw (Parse_error (''Invalid scheme '' @ quoted s))
      else seq lazy_parse (\<lambda>_. update (\<lambda>u.
        let o' = to_lower s
        in if o' \<noteq> m_scheme u then
             let u = u\<lparr>m_scheme := o', m_built := False\<rparr>
             in if default_port (m_scheme u) (m_port u) then u\<lparr>m_port := []\<rparr> else u
           else u)))"

definition set_user_info :: "bytes \<Rightarrow> unit action" where
  "set_user_info s =
     (if length s > 256 then throw (Parse_error (''User info is longer than 256 characters '' @ quoted s))
      else seq lazy_parse (\<lambda>_. update (\<lambda>u. if m_user u \<noteq> s then u\<lparr>m_user := s, m_built := False\<rparr> else u)))"

definition host_value :: "bytes \<Rightarrow> u8 \<Rightarrow> url_error + bytes \<times> u8" where
  "host_value h ip_v =
     (if h = [] then Inr ([], -1)
      else if is_ipv4 h then
        if \<not> is_valid_ipv4 h then Inl (Parse_error (''Invalid IPv4 address '' @ quoted h)) else Inr (h, 4)
      else if ip_v \<noteq> 0 \<and> ip_v \<noteq> 4 \<and> ip_v \<noteq> 6 then
        if \<not> is_ipv6 h then Inl (Parse_error (''Invalid IPvFuture address '' @ quoted h)) else Inr (h, ip_v)
      else if is_ipv6 h then
        if \<not> is_valid_ipv6 h then Inl (Parse_error (''Invalid IPv6 address '' @ quoted h))
        else map_res (\<lambda>o'. (o', 6)) (normalize_IPv6 h)
      else if is_reg_name h then Inr (normalize_reg_name h, 0)
      else Inl (Parse_error (''Invalid host '' @ quoted h)))"

text \<open>\<open>m_ip_v\<close> is signed and \<open>ip_v\<close> is not: \<open>m_ip_v != ip_v\<close> compares their values as \<open>int\<close>.\<close>

definition set_host :: "bytes \<Rightarrow> u8 \<Rightarrow> unit action" where
  "set_host h ip_v =
     (if length h > 253 then throw (Parse_error (''Host is longer than 253 characters '' @ quoted h))
      else seq lazy_parse (\<lambda>_ u.
        case host_value h ip_v of
          Inl err \<Rightarrow> (Inl err, u)
        | Inr (o', ip_v) \<Rightarrow>
            (Inr (), if m_host u \<noteq> o' \<or> sint (m_ip_v u) \<noteq> uint ip_v
                     then u\<lparr>m_host := o', m_ip_v := ip_v, m_built := False\<rparr> else u)))"

definition set_port :: "bytes \<Rightarrow> unit action" where
  "set_port p =
     (if \<not> is_port p then throw (Parse_error (''Invalid port '' @ quoted p))
      else seq lazy_parse (\<lambda>_. update (\<lambda>u.
        let o' = (if default_port (m_scheme u) p then [] else p)
        in if m_port u \<noteq> o' then u\<lparr>m_port := o', m_built := False\<rparr> else u)))"

definition set_port_num :: "u16 \<Rightarrow> unit action" where
  "set_port_num num = set_port (nat_string (unat num))"

definition set_path :: "bytes \<Rightarrow> unit action" where
  "set_path p =
     (if length p > 8000 then throw (Parse_error (''Path is longer than 8000 characters '' @ quoted p))
      else seq lazy_parse (\<lambda>_. update (\<lambda>u.
        let o' = normalize_path p in if m_path u \<noteq> o' then u\<lparr>m_path := o', m_built := False\<rparr> else u)))"

text \<open>\<open>set_query ()\<close> and \<open>set_query (i)\<close> return a reference; \<open>f\<close> is what the caller does through it.\<close>

definition set_query_ref :: "(KeyVal list \<Rightarrow> KeyVal list) \<Rightarrow> unit action" where
  "set_query_ref f = seq lazy_parse (\<lambda>_. update (\<lambda>u. let u = u\<lparr>m_built := False\<rparr> in u\<lparr>m_query := f (m_query u)\<rparr>))"

definition set_query_at :: "nat \<Rightarrow> (KeyVal \<Rightarrow> KeyVal) \<Rightarrow> unit action" where
  "set_query_at i f =
     seq lazy_parse (\<lambda>_ u.
       if i \<ge> length (m_query u) then throw (index_error i) u
       else update (\<lambda>u. let u = u\<lparr>m_built := False\<rparr> in u\<lparr>m_query := (m_query u)[i := f (m_query u ! i)]\<rparr>) u)"

definition set_query :: "KeyVal list \<Rightarrow> unit action" where
  "set_query q = seq lazy_parse (\<lambda>_. update (\<lambda>u. if q \<noteq> m_query u then u\<lparr>m_query := q, m_built := False\<rparr> else u))"

definition add_query :: "KeyVal \<Rightarrow> unit action" where
  "add_query kv = seq lazy_parse (\<lambda>_. update (\<lambda>u. u\<lparr>m_built := False, m_query := m_query u @ [kv]\<rparr>))"

definition set_fragment :: "bytes \<Rightarrow> unit action" where
  "set_fragment f =
     (if length f > 256 then throw (Parse_error (''Fragment is longer than 256 characters '' @ quoted f))
      else seq lazy_parse (\<lambda>_. update (\<lambda>u. if m_fragment u \<noteq> f then u\<lparr>m_fragment := f, m_built := False\<rparr> else u)))"

section \<open>Searching in a text that is given by its pieces\<close>

lemma find_first_of_pieces:
  assumes "set y \<inter> set q = {}" "z = [] \<or> hd z \<in> set q"
  shows "find_first_of (x @ y @ z @ w) (length x) (length x + length y + length z) q = length x + length y"
  using assms(1)
proof (induction y arbitrary: x)
  case Nil
  with assms(2) show ?case
    by (subst find_first_of.simps) (cases z; simp add: nth_append)
next
  case (Cons c y)
  from Cons.IH [of "x @ [c]"] Cons.prems show ?case
    by (subst find_first_of.simps) (simp add: nth_append)
qed

lemma find_char_pieces:
  assumes "c \<notin> set y" "z = [] \<or> hd z = c"
  shows "find_char (x @ y @ z @ w) (length x) (length x + length y + length z) c = length x + length y"
  using assms(1)
proof (induction y arbitrary: x)
  case Nil
  with assms(2) show ?case by (subst find_char.simps) (cases z; simp add: nth_append)
next
  case (Cons d y)
  from Cons.IH [of "x @ [d]"] Cons.prems show ?case
    by (subst find_char.simps) (auto simp: nth_append)
qed

lemma sub_pieces [simp]: "sub (x @ y @ z) (length x) (length x + length y) = y"
  by (simp add: sub_def slice_def)

lemma char_at_pieces: "char_at (x @ c # z) (length x) = c"
  by (simp add: char_at_def)

lemma find_char_bounds:
  "b \<le> e \<Longrightarrow> b \<le> find_char u b e c \<and> find_char u b e c \<le> e \<and> (find_char u b e c < e \<longrightarrow> u ! find_char u b e c = c)"
  by (induction u b e c rule: find_char.induct) (subst (1 2 3 4) find_char.simps, auto)

section \<open>Positions stay within the text\<close>

definition range_ok :: "bytes \<Rightarrow> range \<Rightarrow> bool" where
  "range_ok u r = (case r of None \<Rightarrow> True | Some (b, e) \<Rightarrow> b \<le> e \<and> e \<le> length u)"

definition parts_ok :: "bytes \<Rightarrow> url_parts \<Rightarrow> bool" where
  "parts_ok u r \<longleftrightarrow> range_ok u (r_scheme r) \<and> range_ok u (r_user r) \<and> range_ok u (r_host r) \<and> range_ok u (r_port r) \<and>
     range_ok u (r_path r) \<and> range_ok u (r_query r) \<and> range_ok u (r_fragment r)"

lemma char_at_bound: "char_at u b = c \<Longrightarrow> c \<noteq> CHR 0x00 \<Longrightarrow> b < length u"
  by (auto simp: char_at_def split: if_splits)

lemma future_version_pos:
  assumes "future_version u b = (v, b')"
  shows "b \<le> b' \<and> (\<forall>x. b \<le> x \<and> x < b' \<longrightarrow> is_hexdigit (char_at u x))"
  using assms by (auto simp: future_version_def Let_def less_Suc_eq split: if_splits)

lemma hexdigit_not_bracket: "\<not> is_hexdigit (CHR '']'')"
  by code_simp

lemma parse_host_bounds:
  assumes "parse_host u b ea = Inr ((hb, he), v, b')" "b \<le> ea" "ea \<le> length u" "ea = length u \<or> u ! ea \<in> set ''/?#''"
  shows "hb \<le> he \<and> he \<le> ea \<and> b' \<le> ea"
proof (cases "char_at u b = CHR ''[''")
  case True
  have ea: "char_at u ea \<noteq> c" if "c \<in> set ''[].v''" for c
    using assms(3,4) that by (auto simp: char_at_def)
  then have b: "b < ea" using True assms(2) by (cases "b = ea") auto
  define p where "p = find_char u (b + 1) ea (CHR '']'')"
  have p: "b + 1 \<le> p" "p \<le> ea" using find_char_bounds [of "b + 1" ea u "CHR '']''"] b by (auto simp: p_def)
  have close: "char_at u p = CHR '']''" using assms(1) True by (auto simp: parse_host_def Let_def p_def split: if_splits)
  then have "p < ea" using p ea [of "CHR '']''"] by (cases "p = ea") auto
  show ?thesis
  proof (cases "char_at u (b + 1) = CHR ''v''")
    case v: True
    obtain w c where f: "future_version u (b + 2) = (w, c)" by fastforce
    have dot: "char_at u c = CHR ''.''" and r: "hb = c + 1" "he = p" "b' = p + 1"
      using assms(1) True v f close by (auto simp: parse_host_def Let_def p_def split: if_splits)
    have "p \<noteq> x" if "b + 1 \<le> x" "x \<le> c" for x
    proof -
      have "char_at u x \<noteq> CHR '']''"
      proof (cases "x = b + 1 \<or> x = c")
        case False
        with that have "is_hexdigit (char_at u x)" using future_version_pos [OF f] by auto
        with hexdigit_not_bracket show ?thesis by metis
      qed (use v dot in auto)
      with close show ?thesis by metis
    qed
    with p have "c < p" by (metis not_le)
    with r \<open>p < ea\<close> show ?thesis by simp
  next
    case False
    with assms(1) True close p \<open>p < ea\<close> show ?thesis by (auto simp: parse_host_def Let_def p_def split: if_splits)
  qed
next
  case False
  with assms(1,2) find_char_bounds [of b ea u "CHR '':''"] show ?thesis
    by (auto simp: parse_host_def Let_def split: if_splits)
qed

lemma find_first_of_hit: "find_first_of u b e q \<noteq> e \<Longrightarrow> u ! find_first_of u b e q \<in> set q"
proof (induction u b e q rule: find_first_of.induct)
  case (1 u b e q)
  then show ?case by (subst find_first_of.simps; subst (asm) (3) find_first_of.simps) (auto split: if_splits)
qed

lemma parse_port_bounds:
  "parse_port u b ea = Inr r \<Longrightarrow> b \<le> ea \<Longrightarrow> ea \<le> length u \<Longrightarrow> range_ok u r"
  by (auto simp: parse_port_def range_ok_def Let_def split: if_splits)

lemma parse_authority_bounds:
  assumes "parse_authority u b r = Inr (b', r')" "b \<le> length u" "parts_ok u r"
  shows "b \<le> b' \<and> b' \<le> length u \<and> parts_ok u r'"
proof -
  define ea where "ea = find_first_of u b (length u) ''/?#''"
  define p where "p = find_char u b ea (CHR ''@'')"
  have ea: "b \<le> ea" "ea \<le> length u" "ea = length u \<or> u ! ea \<in> set ''/?#''"
    using find_first_of_ge [OF assms(2), of u "''/?#''"] find_first_of_hit [of u b "length u" "''/?#''"]
    by (auto simp flip: ea_def)
  have p: "b \<le> p" "p \<le> ea" using find_char_bounds [OF ea(1)] by (auto simp: p_def)
  define r1 b1 where "r1 = (if p \<noteq> ea then r\<lparr>r_user := Some (b, p)\<rparr> else r)" and "b1 = (if p \<noteq> ea then p + 1 else b)"
  have b1: "b1 \<le> ea" using p ea(1) by (auto simp: b1_def)
  from assms(1) obtain host v b2 port where
    h: "parse_host u b1 ea = Inr (host, v, b2)" and q: "parse_port u b2 ea = Inr port" and
    r': "b' = ea" "r' = r1\<lparr>r_host := Some host, r_ip_v := v, r_port := port\<rparr>"
    unfolding parse_authority_def Let_def
    by (auto simp flip: ea_def p_def simp: r1_def b1_def split: if_splits sum.splits)
  obtain hb he where host: "host = (hb, he)" by fastforce
  have "hb \<le> he \<and> he \<le> ea \<and> b2 \<le> ea"
    using parse_host_bounds [OF _ b1 ea(2,3)] h host by blast
  moreover from this have "range_ok u port" using parse_port_bounds [OF q] ea(2) by blast
  moreover have "parts_ok u r1" using assms(3) p ea by (auto simp: r1_def parts_ok_def range_ok_def)
  ultimately show ?thesis using ea r' host by (auto simp: parts_ok_def range_ok_def)
qed

lemma parse_tail_bounds:
  assumes "parse_tail u b r = Inr r'" "b \<le> length u" "parts_ok u r"
  shows "parts_ok u r'"
proof -
  define p where "p = find_first_of u b (length u) ''?#''"
  have p: "b \<le> p" "p \<le> length u" using find_first_of_ge [OF assms(2)] by (auto simp: p_def)
  define h where "h = find_char u (Suc p) (length u) (CHR ''#'')"
  have h: "Suc p \<le> h" "h \<le> length u" if "p \<noteq> length u"
    using find_char_bounds [of "Suc p" "length u" u "CHR ''#''"] that p by (auto simp: h_def)
  show ?thesis
    using assms(1,3) p h unfolding parse_tail_def Let_def
    by (auto simp flip: p_def h_def simp: parts_ok_def range_ok_def split: if_splits)
qed

lemma locate_parts_bounds:
  assumes "locate_parts u = Inr r"
  shows "parts_ok u r"
proof -
  define p where "p = find_first_of u 0 (length u) '':/?#''"
  have p: "p \<le> length u" using find_first_of_ge [of 0 "length u"] by (simp add: p_def)
  have 0: "parts_ok u no_parts" by (simp add: parts_ok_def range_ok_def no_parts_def)
  show ?thesis
  proof (cases "p = length u")
    case True
    with assms 0 show ?thesis unfolding locate_parts_def Let_def
      by (auto simp flip: p_def simp: parts_ok_def range_ok_def split: if_splits)
  next
    case False
    define c where "c = (char_at u p = CHR '':'')"
    define r1 b1 p1 where "r1 = (if c then no_parts\<lparr>r_scheme := Some (0, p)\<rparr> else no_parts)"
      and "b1 = (if c then p + 1 else 0)" and "p1 = (if c then find_first_of u (p + 1) (length u) ''/?#'' else p)"
    have b1: "b1 \<le> length u" using False p by (simp add: b1_def)
    have r1: "parts_ok u r1" using 0 p by (simp add: r1_def parts_ok_def range_ok_def)
    define auth where "auth \<longleftrightarrow> p1 \<noteq> length u \<and> char_at u p1 = CHR ''/'' \<and> length u - b1 > 1 \<and>
      char_at u b1 = CHR ''/'' \<and> char_at u (b1 + 1) = CHR ''/''"
    have "(if auth then case parse_authority u (b1 + 2) r1 of Inl err \<Rightarrow> Inl err | Inr (b, r) \<Rightarrow> parse_tail u b r
        else parse_tail u b1 r1) = Inr r"
      using assms False unfolding locate_parts_def Let_def
      by (auto simp flip: p_def c_def simp: r1_def b1_def p1_def auth_def split: if_splits)
    then show ?thesis
      using parse_tail_bounds [OF _ b1 r1] parse_authority_bounds [of u "b1 + 2" r1] parse_tail_bounds r1
      by (auto simp: auth_def split: if_splits sum.splits)
  qed
qed

section \<open>Parsing what was built\<close>

lemma class_excludes:
  assumes "is_chars y m" "\<not> is_char c m'" "m AND m' = m"
  shows "c \<notin> set y"
  using assms is_char_mono [of c m m'] by (auto simp: is_chars_def list_all_iff)

lemmas reserved = reserved_chars [simplified]

lemma path_class: "is_chars y 0x2F \<Longrightarrow> CHR ''?'' \<notin> set y \<and> CHR ''#'' \<notin> set y"
  using class_excludes [of y "0x2F" "CHR ''?''" "0x2F"] class_excludes [of y "0x2F" "CHR ''#''" "0x3F"] reserved by simp

lemma query_class: "is_chars y 0x3F \<Longrightarrow> CHR ''#'' \<notin> set y"
  using class_excludes [of y "0x3F" "CHR ''#''" "0x3F"] reserved by simp

lemma user_class: "is_chars y 0x05 \<Longrightarrow> set y \<inter> set ''/?#@%[]'' = {}"
  using class_excludes [of y "0x05" "CHR ''?''" "0x2F"] class_excludes [of y "0x05" "CHR ''#''" "0x3F"]
    class_excludes [of y "0x05" "CHR ''/''" "0x27"] class_excludes [of y "0x05" "CHR ''@''" "0x25"]
    class_excludes [of y "0x05" "CHR ''%''" "0x1F"] class_excludes [of y "0x05" "CHR ''[''" "0xFF"]
    class_excludes [of y "0x05" "CHR '']''" "0xFF"] reserved by auto

lemma reg_name_class: "is_chars y 0x01 \<Longrightarrow> set y \<inter> set ''/?#@%[]:'' = {}"
  using user_class [of y] class_excludes [of y "0x01" "CHR '':''" "0x2B"] reserved is_char_mono [of _ "0x01" "0x05"]
  by (auto simp: is_chars_def list_all_iff)

lemma decode_plain: "CHR ''%'' \<notin> set s \<Longrightarrow> decode s = Inr s"
  by (induction s) auto

text \<open>Path, query and fragment, each empty or introduced by its character.\<close>

definition tail_ok :: "bytes \<Rightarrow> bytes \<Rightarrow> bytes \<Rightarrow> bool" where
  "tail_ok P Q F \<longleftrightarrow> is_chars P 0x2F \<and> (Q = [] \<or> hd Q = CHR ''?'' \<and> CHR ''#'' \<notin> set Q) \<and>
     (F = [] \<or> hd F = CHR ''#'' \<and> is_chars (tl F) 0x3F)"

definition piece :: "nat \<Rightarrow> bytes \<Rightarrow> range" where
  "piece n s = (if s = [] then None else Some (n + 1, n + length s))"

lemma parse_tail_pieces:
  assumes "tail_ok P Q F" "r_query r = None" "r_fragment r = None"
  shows "parse_tail (x @ P @ Q @ F) (length x) r =
    Inr (r\<lparr>r_path := Some (length x, length x + length P), r_query := piece (length x + length P) Q,
      r_fragment := piece (length x + length P + length Q) F\<rparr>)"
proof -
  let ?u = "x @ P @ Q @ F" and ?p = "length x + length P"
  have "set P \<inter> set ''?#'' = {}" using path_class [of P] assms(1) by (auto simp: tail_ok_def)
  moreover have "Q @ F = [] \<or> hd (Q @ F) \<in> set ''?#''" using assms(1) by (cases Q) (auto simp: tail_ok_def)
  ultimately have p: "find_first_of ?u (length x) (length ?u) ''?#'' = ?p"
    using find_first_of_pieces [of P "''?#''" "Q @ F" x "[]"] by (simp add: add.assoc)
  have P: "is_chars (sub ?u (length x) ?p) 0x2F" using assms(1) by (simp add: tail_ok_def)
  have F: "F \<noteq> [] \<Longrightarrow> char_at ?u (?p + length Q) = CHR ''#'' \<and> sub ?u (?p + length Q + 1) (length ?u) = tl F \<and> is_chars (tl F) 0x3F"
    using assms(1) by (cases F) (auto simp: tail_ok_def char_at_def nth_append sub_def slice_def)
  show ?thesis
  proof (cases Q)
    case Nil
    with p P F assms(2,3) show ?thesis unfolding parse_tail_def Let_def p
      by (cases F) (auto simp: piece_def tail_ok_def char_at_def nth_append simp del: sub_pieces)
  next
    case (Cons c q)
    with assms(1) have c: "c = CHR ''?''" "CHR ''#'' \<notin> set q" by (auto simp: tail_ok_def)
    have h: "find_char ?u (Suc ?p) (length ?u) (CHR ''#'') = ?p + length Q"
      using find_char_pieces [OF c(2), of F "x @ P @ [c]" "[]"] assms(1) Cons by (auto simp: tail_ok_def add.assoc)
    have "char_at ?u ?p = CHR ''?''" "?p \<noteq> length ?u" using Cons c by (auto simp: char_at_def nth_append)
    with p P F h Cons assms(3) show ?thesis unfolding parse_tail_def Let_def p
      by (cases F) (auto simp: piece_def add.assoc simp del: sub_pieces)
  qed
qed

text \<open>A host as the class keeps it: a name in lower case, an address of version 4 or a normalised one of version 6.\<close>

definition host_ok :: "bytes \<Rightarrow> u8 \<Rightarrow> bool" where
  "host_ok h v \<longleftrightarrow> h \<noteq> [] \<and>
     (v = 0 \<and> is_reg_name h \<and> \<not> is_ipv4 h \<and> to_lower h = h \<or>
      v = 4 \<and> is_reg_name h \<and> is_ipv4 h \<or>
      v = 6 \<and> is_ipv6 h \<and> normalize_IPv6 h = Inr h)"

definition bracketed :: "u8 \<Rightarrow> bytes \<Rightarrow> bytes" where
  "bracketed v h = (if v = 6 then ''['' @ h @ '']'' else h)"

lemma ipv6_chars: "is_ipv6 h \<Longrightarrow> set h \<inter> set ''/?#@%[]v'' = {}"
proof -
  have "\<not> is_hexdigit c" if "c \<in> set ''/?#@%[]v''" for c
    using that by (auto simp: is_hexdigit_def is_num_def sc_def)
  then show "is_ipv6 h \<Longrightarrow> ?thesis" unfolding is_ipv6_def list_all_iff by fastforce
qed

lemma host_chars: "host_ok h v \<Longrightarrow> set (bracketed v h) \<inter> set ''/?#@'' = {} \<and> bracketed v h \<noteq> []"
  using reg_name_class [of h] ipv6_chars [of h] by (auto simp: host_ok_def bracketed_def is_reg_name_def)

lemma parse_host_pieces:
  assumes "host_ok h v" "T = [] \<or> hd T = CHR '':''"
  shows "parse_host (x @ bracketed v h @ T @ w) (length x) (length x + length (bracketed v h) + length T) =
    Inr ((length x + of_bool (v = 6), length x + of_bool (v = 6) + length h), v, length x + length (bracketed v h))"
proof (cases "v = 6")
  case True
  then have h: "is_ipv6 h" "h \<noteq> []" using assms(1) by (auto simp: host_ok_def)
  let ?u = "x @ bracketed v h @ T @ w"
  have u: "?u = (x @ ''['') @ h @ ('']'' @ T) @ w" using True by (simp add: bracketed_def)
  have f: "find_char ?u (Suc (length x)) (length x + length (bracketed v h) + length T) (CHR '']'') = length x + 1 + length h"
    using find_char_pieces [of "CHR '']''" h "'']'' @ T" "x @ ''[''" w] ipv6_chars [OF h(1)] True
    by (simp add: bracketed_def add.assoc)
  have c: "char_at ?u (length x) = CHR ''[''" "char_at ?u (length x + 1 + length h) = CHR '']''" "char_at ?u (Suc (length x)) \<noteq> CHR ''v''"
    using ipv6_chars [OF h(1)] h(2) True by (cases h; auto simp: char_at_def bracketed_def nth_append)+
  have s: "sub ?u (Suc (length x)) (length x + 1 + length h) = h"
    using sub_pieces [of "x @ ''[''" h "('']'' @ T) @ w"] unfolding u by simp
  show ?thesis using True h c s f by (simp add: parse_host_def Let_def bracketed_def)
next
  case False
  then have b: "bracketed v h = h" "is_reg_name h" "h \<noteq> []" "v = (if is_ipv4 h then 4 else 0)"
    using assms(1) by (auto simp: host_ok_def bracketed_def)
  have c: "set h \<inter> set ''/?#@%[]:'' = {}" using reg_name_class [of h] b(2) by (simp add: is_reg_name_def)
  have "char_at (x @ h @ T @ w) (length x) \<noteq> CHR ''[''" using c b(3) by (cases h) (auto simp: char_at_def nth_append)
  moreover have "find_char (x @ h @ T @ w) (length x) (length x + length h + length T) (CHR '':'') = length x + length h"
    using find_char_pieces [of "CHR '':''" h T x w] c assms(2) by auto
  ultimately show ?thesis using b False by (simp add: parse_host_def Let_def)
qed

definition port_ok :: "bytes \<Rightarrow> bool" where
  "port_ok T \<longleftrightarrow> T = [] \<or> hd T = CHR '':'' \<and> is_port (tl T)"

definition user_ok :: "bytes \<Rightarrow> bool" where
  "user_ok U \<longleftrightarrow> U = [] \<or> last U = CHR ''@'' \<and> is_chars (butlast U) 0x05"

lemma port_chars: "port_ok T \<Longrightarrow> set T \<inter> set ''/?#@'' = {}"
proof -
  have "decimal s \<Longrightarrow> set s \<inter> set ''/?#@'' = {}" for s by (auto simp: decimal_def list_all_iff)
  moreover have "decimal s" if "is_port s" for s using that unfolding is_port_eq by (auto simp: decimal_def)
  ultimately show "port_ok T \<Longrightarrow> ?thesis" by (cases T) (fastforce simp: port_ok_def)+
qed

lemma parse_port_pieces:
  assumes "port_ok T"
  shows "parse_port (x @ T @ w) (length x) (length x + length T) = Inr (piece (length x) T)"
proof (cases T)
  case Nil
  then show ?thesis by (simp add: parse_port_def piece_def)
next
  case (Cons c p)
  have "sub (x @ T @ w) (Suc (length x)) (length x + length T) = p"
    using sub_pieces [of "x @ [c]" p w] Cons by simp
  with assms Cons show ?thesis by (simp add: parse_port_def port_ok_def piece_def char_at_pieces Let_def)
qed

definition user_range :: "nat \<Rightarrow> bytes \<Rightarrow> range" where
  "user_range n U = (if U = [] then None else Some (n, n + length U - 1))"

lemma parse_authority_pieces:
  assumes U: "user_ok U" and H: "host_ok h v" and T: "port_ok T" and w: "w = [] \<or> hd w \<in> set ''/?#''"
    and r: "r_user r = None"
  shows "parse_authority (x @ U @ bracketed v h @ T @ w) (length x) r =
    Inr (length x + length U + length (bracketed v h) + length T,
      r\<lparr>r_user := user_range (length x) U,
        r_host := Some (length x + length U + of_bool (v = 6), length x + length U + of_bool (v = 6) + length h),
        r_ip_v := v, r_port := piece (length x + length U + length (bracketed v h)) T\<rparr>)"
proof -
  let ?B = "bracketed v h"
  let ?u = "x @ U @ ?B @ T @ w"
  let ?ea = "length x + length U + length ?B + length T"
  have uc: "set U \<inter> set ''/?#'' = {}" "U \<noteq> [] \<Longrightarrow> CHR ''@'' \<notin> set (butlast U)"
    using U user_class [of "butlast U"] by (cases U rule: rev_cases; auto simp: user_ok_def)+
  have ch: "set (?B @ T) \<inter> set ''/?#@'' = {}" using host_chars [OF H] port_chars [OF T] by auto
  have ea: "find_first_of ?u (length x) (length ?u) ''/?#'' = ?ea"
    using find_first_of_pieces [of "U @ ?B @ T" "''/?#''" w x "[]"] uc(1) ch w by (auto simp: add.assoc)
  have host: "parse_host ?u (length x + length U) ?ea =
      Inr ((length x + length U + of_bool (v = 6), length x + length U + of_bool (v = 6) + length h), v, length x + length U + length ?B)"
    using parse_host_pieces [OF H, of T "x @ U" w] T by (auto simp: port_ok_def add.assoc)
  have port: "parse_port ?u (length x + length U + length ?B) ?ea = Inr (piece (length x + length U + length ?B) T)"
    using parse_port_pieces [OF T, of "x @ U @ ?B" w] by (simp add: add.assoc)
  show ?thesis
  proof (cases "U = []")
    case True
    have "find_char ?u (length x) ?ea (CHR ''@'') = ?ea"
      using find_char_pieces [of "CHR ''@''" "?B @ T" "[]" x w] ch True by (auto simp: add.assoc)
    with True host port r show ?thesis unfolding parse_authority_def Let_def ea
      by (simp add: user_range_def)
  next
    case False
    then obtain n where n: "U = n @ ''@''" "is_chars n 0x05" using U by (cases U rule: rev_cases) (auto simp: user_ok_def)
    have f: "find_char ?u (length x) ?ea (CHR ''@'') = length x + length n"
      using find_char_pieces [of "CHR ''@''" n "''@'' @ ?B @ T" x w] uc(2) n by (simp add: add.assoc)
    moreover have "sub ?u (length x) (length x + length n) = n" using n by simp
    moreover have "length x + length n \<noteq> ?ea" using n by simp
    ultimately show ?thesis using host port n unfolding parse_authority_def Let_def ea
      by (simp add: user_range_def)
  qed
qed

section \<open>Queries\<close>

lemma query_entry_pieces:
  assumes "query_entry kv = Inr t" "z = [] \<or> hd z = CHR ''&''"
  shows "query_loop (x @ t @ z @ w) (length x) (length x + length t + length z) acc =
    (if z = [] then Inr (acc @ [kv])
     else query_loop (x @ t @ z @ w) (length x + length t + 1) (length x + length t + length z) (acc @ [kv]))"
proof -
  obtain k v where kv: "kv = (k, v)" by fastforce
  from assms(1) kv obtain k' where k: "encode_query_key k 0x1F = Inr k'" and
    t: "v = [] \<and> t = k' \<or> (\<exists>v'. v \<noteq> [] \<and> encode_query_val v 0x1F = Inr v' \<and> t = k' @ ''='' @ v')"
    by (auto simp: query_entry_def bind_res_Inr split: if_splits)
  let ?u = "x @ t @ z @ w" and ?qe = "length x + length t + length z"
  have k': "decode_plus k' = Inr k" "is_chars k' 0x3F" "set k' \<inter> set ''=;&'' = {}"
    using key_codec.roundtrip k encode_query_key_class [of k k'] by (auto simp: encode_query_key_def is_chars_def list_all_iff)
  show ?thesis
  proof (cases "v = []")
    case True
    then have t': "t = k'" using t by auto
    have f: "find_first_of ?u (length x) ?qe ''=;&'' = length x + length t"
      using find_first_of_pieces [of k' "''=;&''" z x w] k'(3) assms(2) t' by auto
    have "z \<noteq> [] \<Longrightarrow> char_at ?u (length x + length t) = CHR ''&''" using assms(2) by (cases z) (auto simp: char_at_def nth_append)
    with f k' t' True kv show ?thesis by (subst query_loop.simps) (simp add: Let_def)
  next
    case False
    with t obtain v' where v: "encode_query_val v 0x1F = Inr v'" and t': "t = k' @ ''='' @ v'" by auto
    have v': "decode_plus v' = Inr v" "is_chars v' 0x3F" "set v' \<inter> set '';&'' = {}"
      using val_codec.roundtrip v encode_query_val_class [of v v'] by (auto simp: encode_query_val_def is_chars_def list_all_iff)
    have f: "find_first_of ?u (length x) ?qe ''=;&'' = length x + length k'"
      using find_first_of_pieces [of k' "''=;&''" "''='' @ v' @ z" x w] k'(3) t' by (simp add: add.assoc)
    have c: "char_at ?u (length x + length k') = CHR ''=''" "sub ?u (length x) (length x + length k') = k'"
      using t' by (auto simp: char_at_def nth_append)
    have f2: "find_first_of ?u (Suc (length x + length k')) ?qe '';&'' = length x + length t"
      using find_first_of_pieces [of v' "'';&''" z "x @ k' @ ''=''" w] v'(3) assms(2) t' by (auto simp: add.assoc)
    have s2: "sub ?u (Suc (length x + length k')) (length x + length t) = v'"
      using sub_pieces [of "x @ k' @ ''=''" v' "z @ w"] t' by (simp add: add.assoc)
    show ?thesis using f f2 c s2 k' v' t' kv by (subst query_loop.simps) (simp add: Let_def)
  qed
qed

lemma build_rest_form: "build_rest q = Inr z \<Longrightarrow> (z = [] \<longleftrightarrow> q = []) \<and> (z = [] \<or> hd z = CHR ''&'')"
  by (cases q) (auto simp: bind_res_Inr split: if_splits)

lemma query_rest_pieces:
  "build_rest q = Inr z \<Longrightarrow> z \<noteq> [] \<Longrightarrow> query_loop (x @ z @ w) (length x + 1) (length x + length z) acc = Inr (acc @ q)"
proof (induction q arbitrary: x z acc)
  case (Cons kv q)
  then obtain t y where t: "query_entry kv = Inr t" and y: "build_rest q = Inr y" and z: "z = ''&'' @ t @ y"
    by (auto simp: bind_res_Inr split: if_splits)
  have "query_loop (x @ z @ w) (length x + 1) (length x + length z) acc =
      (if y = [] then Inr (acc @ [kv]) else query_loop (x @ z @ w) (length x + length t + 2) (length x + length z) (acc @ [kv]))"
    using query_entry_pieces [OF t build_rest_form [OF y, THEN conjunct2], of "x @ ''&''" w acc] z by (simp add: add.assoc)
  also have "\<dots> = Inr (acc @ kv # q)"
  proof (cases "y = []")
    case True
    with build_rest_form [OF y] show ?thesis by simp
  next
    case False
    from Cons.IH [OF y False, of "x @ ''&'' @ t" "acc @ [kv]"] False z show ?thesis by (simp add: add.assoc)
  qed
  finally show ?case .
qed simp

lemma query_entry_class: "query_entry kv = Inr t \<Longrightarrow> CHR ''#'' \<notin> set t"
proof -
  have k: "encode_query_key k 0x1F = Inr k' \<Longrightarrow> is_chars k' 0x3F" for k k'
    using encode_query_key_class [of k k'] by (auto simp: encode_query_key_def is_chars_def list_all_iff)
  have v: "encode_query_val k 0x1F = Inr k' \<Longrightarrow> is_chars k' 0x3F" for k k'
    using encode_query_val_class [of k k'] by (auto simp: encode_query_val_def is_chars_def list_all_iff)
  show "query_entry kv = Inr t \<Longrightarrow> ?thesis"
    using query_class k v by (auto simp: query_entry_def bind_res_Inr split: if_splits)
qed

lemma build_rest_class: "build_rest q = Inr z \<Longrightarrow> CHR ''#'' \<notin> set z"
  using query_entry_class by (induction q arbitrary: z) (auto simp: bind_res_Inr split: if_splits)

lemma build_query_form:
  assumes "build_query q = Inr Q"
  shows "(Q = [] \<longleftrightarrow> q = []) \<and> (Q = [] \<or> hd Q = CHR ''?'' \<and> CHR ''#'' \<notin> set Q)"
  using assms query_entry_class build_rest_class
  by (cases q) (auto simp: build_query_def bind_res_Inr split: if_splits)

lemma decode_query_pieces:
  assumes "build_query q = Inr Q" "r_query r = piece (length x) Q"
  shows "decode_query (x @ Q @ w) r = Inr q"
proof (cases q)
  case Nil
  then show ?thesis using assms by (simp add: build_query_def decode_query_def piece_def)
next
  case (Cons kv q')
  with assms(1) obtain t z where t: "query_entry kv = Inr t" and z: "build_rest q' = Inr z" and Q: "Q = ''?'' @ t @ z" and
    ne: "fst kv \<noteq> []" by (auto simp: build_query_def bind_res_Inr split: if_splits)
  have "t \<noteq> []"
  proof
    assume "t = []"
    with t have "encode_query_key (fst kv) 0x1F = Inr []" by (auto simp: query_entry_def bind_res_Inr split: if_splits)
    then have "fst kv = []" using key_codec.roundtrip [of "fst kv" "[]"] by (simp add: encode_query_key_def)
    with ne show False ..
  qed
  have "query_loop (x @ Q @ w) (length x + 1) (length x + length Q) [] =
      (if z = [] then Inr [kv] else query_loop (x @ Q @ w) (length x + length t + 2) (length x + length Q) [kv])"
    using query_entry_pieces [OF t build_rest_form [OF z, THEN conjunct2], of "x @ ''?''" w "[]"] Q by (simp add: add.assoc)
  also have "\<dots> = Inr q"
    using query_rest_pieces [OF z, of "x @ ''?'' @ t" w "[kv]"] build_rest_form [OF z] Q Cons by (auto simp: add.assoc)
  finally show ?thesis using assms(2) Q \<open>t \<noteq> []\<close> by (simp add: decode_query_def piece_def)
qed

section \<open>The whole URL\<close>

lemma scheme_chars: "is_scheme s \<Longrightarrow> set s \<inter> set '':/?#'' = {}"
proof -
  have n: "\<not> is_alnum c \<and> \<not> is_alpha c \<and> c \<noteq> CHR ''+'' \<and> c \<noteq> CHR ''-'' \<and> c \<noteq> CHR ''.''" if "c \<in> set '':/?#''" for c
    using that by (auto simp: is_alnum_def is_alpha_def is_num_def sc_def)
  show "is_scheme s \<Longrightarrow> ?thesis" unfolding is_scheme_def list_all_iff using n by (fastforce split: list.splits)
qed

definition scheme_range :: "bytes \<Rightarrow> range" where
  "scheme_range S = (if S = [] then None else Some (0, length S - 1))"

lemma locate_parts_pieces:
  assumes S: "S = [] \<and> B = y @ z \<and> set y \<inter> set '':/?#'' = {} \<and> (z = [] \<or> hd z \<in> set ''/?#'') \<or> S = s @ '':'' \<and> is_scheme s"
  shows "locate_parts (S @ B) =
    (let r = no_parts\<lparr>r_scheme := scheme_range S\<rparr>
     in if take 2 B = ''//'' then
          (case parse_authority (S @ B) (length S + 2) r of Inl err \<Rightarrow> Inl err | Inr (b, r) \<Rightarrow> parse_tail (S @ B) b r)
        else parse_tail (S @ B) (length S) r)"
proof -
  let ?u = "S @ B" and ?e = "length (S @ B)"
  have two: "take 2 B = ''//'' \<longleftrightarrow> ?e - length S > 1 \<and> char_at ?u (length S) = CHR ''/'' \<and> char_at ?u (length S + 1) = CHR ''/''"
    by (cases B; cases "tl B") (auto simp: char_at_def nth_append)
  have slash: "find_first_of ?u (length S) ?e q = length S" if "take 2 B = ''//''" "CHR ''/'' \<in> set q" for q
    using find_first_of_pieces [of "[]" q B S "[]"] that by (cases B) auto
  show ?thesis
  proof (cases "S = []")
    case True
    then have y: "B = y @ z" "set y \<inter> set '':/?#'' = {}" "z = [] \<or> hd z \<in> set ''/?#''" using S by auto
    have p: "find_first_of ?u 0 ?e '':/?#'' = length y"
      using find_first_of_pieces [of y "'':/?#''" z "[]" "[]"] y True by auto
    show ?thesis
    proof (cases "z = []")
      case z: True
      have "find_first_of ?u 0 ?e ''?#'' = length y"
        using find_first_of_pieces [of y "''?#''" "[]" "[]" "[]"] y True z by auto
      moreover have "take 2 B \<noteq> ''//''" using y(1,2) z by (cases y; cases "tl y") auto
      ultimately show ?thesis using p True z y(1)
        by (simp add: locate_parts_def parse_tail_def Let_def scheme_range_def no_parts_def)
    next
      case False
      then have "char_at ?u (length y) \<noteq> CHR '':''" using y True by (cases z) (auto simp: char_at_def nth_append)
      moreover have "length y \<noteq> ?e" using False y(1) by simp
      moreover have "char_at ?u (length y) = CHR ''/''" if "take 2 B = ''//''"
        using slash [OF that, of "'':/?#''"] two that p True by simp
      ultimately show ?thesis using p two True
        by (auto simp: locate_parts_def Let_def scheme_range_def no_parts_def split: sum.split)
    qed
  next
    case False
    then have s: "S = s @ '':''" "is_scheme s" using S by auto
    have p: "find_first_of ?u 0 ?e '':/?#'' = length s"
      using find_first_of_pieces [of s "'':/?#''" "'':'' @ B" "[]" "[]"] scheme_chars [OF s(2)] s(1) by simp
    have c: "char_at ?u (length s) = CHR '':''" "sub ?u 0 (length s) = s" "length s \<noteq> ?e"
      using s(1) sub_pieces [of "[]" s "'':'' @ B"] by (simp_all add: char_at_def nth_append)
    have l: "Suc (length s) = length S" "scheme_range S = Some (0, length s)" using s(1) by (simp_all add: scheme_range_def)
    have sch: "is_scheme (sub ?u 0 (length s))" using c(2) s(2) by simp
    show ?thesis
    proof (cases "take 2 B = ''//''")
      case True
      have "find_first_of ?u (Suc (length s)) ?e ''/?#'' = length S" using slash [OF True] l by simp
      moreover have "length S \<noteq> ?e"
      proof -
        have "1 < ?e - length S" using two True by blast
        then show ?thesis by linarith
      qed
      ultimately show ?thesis using sch c(1,3) two True unfolding locate_parts_def Let_def p
        by (simp add: l del: length_append)
    next
      case ntwo: False
      then show ?thesis using sch c(1,3) two unfolding locate_parts_def Let_def p
        by (auto simp: l simp del: length_append)
    qed
  qed
qed

text \<open>The encoded path starts like the path, up to its first colon or slash.\<close>

lemma encode_char_id: "is_char c m \<Longrightarrow> encode_char m c = Inr [c]"
  by (simp add: encode_char_def)

lemma encode_id: "is_chars s m \<Longrightarrow> encode s m = Inr s"
  unfolding encode_def is_chars_def by (induction s) (simp_all add: encode_char_id)

lemma write_all_Cons_Inr:
  "write_all f (c # s) = Inr y \<longleftrightarrow> (\<exists>x z. f c = Inr x \<and> write_all f s = Inr z \<and> y = x @ z)"
  by (auto split: sum.splits)

lemma encode_char_separators:
  assumes "encode_char 0x0F c = Inr x" "c \<notin> set '':/''"
  shows "set x \<inter> set '':/'' = {} \<and> x \<noteq> []"
proof (cases "is_char c 0x0F")
  case True
  with assms show ?thesis by (auto simp: encode_char_def)
next
  case False
  with assms have p: "percent c = Inr x" by (simp add: encode_char_def)
  then have "sc c \<ge> 0" using percent_not_ascii [of c] by (metis Inl_Inr_False)
  from percent_ascii [OF this] p obtain a b where "x = [CHR ''%'', a, b]" "is_hexdigit a" "is_hexdigit b"
    by (metis sum.inject(2))
  moreover have "d \<notin> set '':/''" if "is_hexdigit d" for d
    using that by (auto simp: is_hexdigit_def is_num_def sc_def)
  ultimately show ?thesis by auto
qed

lemma encode_path_start:
  assumes "encode s 0x0F = Inr P"
  shows "\<exists>y z. P = y @ z \<and> set y \<inter> set '':/'' = {} \<and> (y = [] \<longleftrightarrow> s = [] \<or> hd s \<in> set '':/'') \<and>
    (if dropWhile (\<lambda>c. c \<notin> set '':/'') s = [] then z = []
     else z \<noteq> [] \<and> hd z = hd (dropWhile (\<lambda>c. c \<notin> set '':/'') s))"
  using assms unfolding encode_def
proof (induction s arbitrary: P)
  case (Cons c s)
  then obtain x P' where x: "encode_char 0x0F c = Inr x" and P': "write_all (encode_char 0x0F) s = Inr P'" and P: "P = x @ P'"
    unfolding write_all_Cons_Inr by blast
  have sep: "is_char (CHR '':'') 0x0F" "is_char (CHR ''/'') 0x0F" by code_simp+
  show ?case
  proof (cases "c \<in> set '':/''")
    case True
    then have "x = [c]" using x sep by (auto simp: encode_char_def)
    with True P show ?thesis by (intro exI [of _ "[]"] exI [of _ P]) auto
  next
    case False
    from Cons.IH [OF P'] obtain y z where yz: "P' = y @ z" "set y \<inter> set '':/'' = {}"
      "if dropWhile (\<lambda>c. c \<notin> set '':/'') s = [] then z = []
       else z \<noteq> [] \<and> hd z = hd (dropWhile (\<lambda>c. c \<notin> set '':/'') s)" by blast
    have "(dropWhile (\<lambda>c. c \<notin> set '':/'') (c # s)) = dropWhile (\<lambda>c. c \<notin> set '':/'') s" using False by simp
    with encode_char_separators [OF x False] yz P False show ?thesis
      by (intro exI [of _ "x @ y"] exI [of _ z] conjI) (auto simp del: dropWhile.simps dropWhile_eq_Nil_conv)
  qed
qed auto

lemma find_first_of_dropWhile:
  "find_first_of s 0 (length s) q \<noteq> length s \<Longrightarrow>
     dropWhile (\<lambda>c. c \<notin> set q) s \<noteq> [] \<and> hd (dropWhile (\<lambda>c. c \<notin> set q) s) = s ! find_first_of s 0 (length s) q"
  "find_first_of s 0 (length s) q = length s \<Longrightarrow> dropWhile (\<lambda>c. c \<notin> set q) s = []"
proof -
  define y z where "y = takeWhile (\<lambda>c. c \<notin> set q) s" and "z = dropWhile (\<lambda>c. c \<notin> set q) s"
  have s: "s = y @ z" by (simp add: y_def z_def)
  have "z = [] \<or> hd z \<in> set q" using hd_dropWhile [of "\<lambda>c. c \<notin> set q" s] unfolding z_def by blast
  moreover have "set y \<inter> set q = {}" by (auto simp: y_def dest: set_takeWhileD)
  ultimately have f: "find_first_of s 0 (length s) q = length y"
    using find_first_of_pieces [of y q z "[]" "[]"] s by simp
  show "find_first_of s 0 (length s) q \<noteq> length s \<Longrightarrow>
     dropWhile (\<lambda>c. c \<notin> set q) s \<noteq> [] \<and> hd (dropWhile (\<lambda>c. c \<notin> set q) s) = s ! find_first_of s 0 (length s) q"
    unfolding f z_def [symmetric] by (cases z) (simp_all add: s)
  show "find_first_of s 0 (length s) q = length s \<Longrightarrow> dropWhile (\<lambda>c. c \<notin> set q) s = []"
    unfolding f z_def [symmetric] by (simp add: s)
qed

lemma normal_path_no_double_slash:
  assumes "normal_path s"
  shows "take 2 s \<noteq> ''//''"
proof
  assume t: "take 2 s = ''//''"
  then obtain r where s: "s = ''//'' @ r" by (metis append_take_drop_id)
  have e: "normal_elems (path_elems [] s)" by (rule path_elems_normal)
  have "segments s = [] # [] # segments r" using s by simp
  moreover have "segments s = [] # (if path_elems [] s = [] then [[]] else path_elems [] s)"
    using segments_normalize_path [of s] assms s by (simp add: normal_path_def Let_def)
  ultimately have "(if path_elems [] s = [] then [[]] else path_elems [] s) = [] # segments r" by (simp only: list.inject simp_thms)
  then have "path_elems [] s = [] # segments r"
    using split_on_not_Nil [of "CHR ''/''" r] by (cases "path_elems [] s = []") (simp_all del: split_on_not_Nil)
  with e show False by (simp add: normal_elems_def)
qed

text \<open>
  The components of an object as the class keeps them; what \<open>build_url\<close> checks itself (keys that are not
  empty, an absolute path behind a host) is left to it.
\<close>

definition canonical :: "HttpUrl \<Rightarrow> bool" where
  "canonical u \<longleftrightarrow> m_parse u \<and>
     (m_scheme u = [] \<or> is_scheme (m_scheme u) \<and> to_lower (m_scheme u) = m_scheme u) \<and>
     (if m_host u = [] then m_ip_v u = -1 \<and> m_user u = [] \<and> m_port u = []
      else host_ok (m_host u) (m_ip_v u) \<and> is_chars (m_user u) 0x05 \<and>
        (m_port u = [] \<or> is_port (m_port u) \<and> \<not> default_port (m_scheme u) (m_port u))) \<and>
     normal_path (m_path u)"

lemma authority_pieces:
  assumes "canonical u" "m_host u \<noteq> []" "build_authority u = Inr A"
  obtains U T where "A = ''//'' @ U @ bracketed (m_ip_v u) (m_host u) @ T" "user_ok U" "port_ok T"
    "m_user u = butlast U" "m_port u = tl T"
proof -
  have c: "host_ok (m_host u) (m_ip_v u)" "is_chars (m_user u) 0x05"
    "m_port u = [] \<or> is_port (m_port u) \<and> \<not> default_port (m_scheme u) (m_port u)"
    using assms(1,2) by (simp_all add: canonical_def)
  define U where "U = (if m_user u = [] then [] else m_user u @ ''@'')"
  define T where "T = (if m_port u = [] then [] else '':'' @ m_port u)"
  have h: "host_text u = bracketed (m_ip_v u) (m_host u)"
    using c(1) by (auto simp: host_ok_def host_text_def bracketed_def)
  have "A = ''//'' @ U @ bracketed (m_ip_v u) (m_host u) @ T"
    using assms(2,3) c(3) encode_id [OF c(2)] by (auto simp: build_authority_def h U_def T_def split: if_splits)
  moreover have "user_ok U" "port_ok T" "m_user u = butlast U" "m_port u = tl T"
    using c by (auto simp: U_def T_def user_ok_def port_ok_def)
  ultimately show ?thesis by (rule that)
qed

lemma path_pieces:
  assumes "build_path u = Inr P" "normal_path (m_path u)"
  shows "is_chars P 0x2F" "decode P = Inr (m_path u)" "take 2 P \<noteq> ''//''"
    "m_host u \<noteq> [] \<Longrightarrow> P = [] \<or> hd P = CHR ''/''"
    "m_host u = [] \<Longrightarrow> build_authority u = Inr A \<Longrightarrow>
      \<exists>y z. P = y @ z \<and> set y \<inter> set '':/?#'' = {} \<and> (z = [] \<or> hd z = CHR ''/'')"
proof -
  have e: "encode (m_path u) 0x0F = Inr P"
    using assms(1) by (auto simp: build_path_def encode_def split: if_splits)
  show cl: "is_chars P 0x2F" using encode_class [of "0x0F" "0x2F" "m_path u" P] e by (simp add: encode_def)
  show "decode P = Inr (m_path u)" using path_codec.roundtrip e by (simp add: encode_def)
  obtain y z where yz: "P = y @ z" "set y \<inter> set '':/'' = {}" "y = [] \<longleftrightarrow> m_path u = [] \<or> hd (m_path u) \<in> set '':/''"
    "if dropWhile (\<lambda>c. c \<notin> set '':/'') (m_path u) = [] then z = []
     else z \<noteq> [] \<and> hd z = hd (dropWhile (\<lambda>c. c \<notin> set '':/'') (m_path u))"
    using encode_path_start [OF e] by blast
  have sl: "is_char (CHR ''/'') 0x0F" by code_simp
  show "m_host u \<noteq> [] \<Longrightarrow> P = [] \<or> hd P = CHR ''/''"
  proof -
    assume "m_host u \<noteq> []"
    show ?thesis
    proof (cases "m_path u")
      case (Cons c s)
      with assms(1) \<open>m_host u \<noteq> []\<close> have "c = CHR ''/''" by (auto simp: build_path_def split: if_splits)
      with e Cons sl show ?thesis by (auto simp: encode_def encode_char_def split: sum.splits)
    qed (use e in \<open>simp add: encode_def\<close>)
  qed
  show "take 2 P \<noteq> ''//''"
  proof
    assume t: "take 2 P = ''//''"
    have first: "hd s = CHR ''/''" if "encode s 0x0F = Inr Y" "Y \<noteq> []" "hd Y = CHR ''/''" for s Y
    proof (cases s)
      case (Cons c s')
      with that(1) obtain x Y' where x: "encode_char 0x0F c = Inr x" "Y = x @ Y'"
        unfolding encode_def write_all_Cons_Inr by (metis list.inject write_all_Cons_Inr)
      show ?thesis
      proof (cases "c \<in> set '':/''")
        case True
        have "is_char (CHR '':'') 0x0F" by code_simp
        with x True sl that(3) Cons show ?thesis by (auto simp: encode_char_def)
      next
        case False
        with encode_char_separators [OF x(1)] x(2) that(3) show ?thesis by (cases x) auto
      qed
    qed (use that in \<open>simp add: encode_def\<close>)
    have "hd (m_path u) = CHR ''/''" using first [OF e] t by (cases P) auto
    moreover have "m_path u \<noteq> []" using e t by (auto simp: encode_def)
    ultimately obtain s where s: "m_path u = CHR ''/'' # s" by (cases "m_path u") auto
    with e sl obtain Y where Y: "encode s 0x0F = Inr Y" "P = CHR ''/'' # Y"
      by (auto simp: encode_def encode_char_def)
    then have "hd s = CHR ''/''" using first [OF Y(1)] t by (cases Y) auto
    moreover have "s \<noteq> []" using Y t by (auto simp: encode_def)
    ultimately have "take 2 (m_path u) = ''//''" using s by (cases s) auto
    with normal_path_no_double_slash [OF assms(2)] show False ..
  qed
  show "\<exists>y z. P = y @ z \<and> set y \<inter> set '':/?#'' = {} \<and> (z = [] \<or> hd z = CHR ''/'')"
    if "m_host u = []" "build_authority u = Inr A"
  proof -
    have "z = [] \<or> hd z = CHR ''/''"
    proof (cases "dropWhile (\<lambda>c. c \<notin> set '':/'') (m_path u)")
      case Nil
      then have "z = []" using yz(4) by (simp only: if_True)
      then show ?thesis ..
    next
      case (Cons c s')
      then have "hd z = c" using yz(4) by (simp only: list.sel(1) list.distinct if_False)
      have "c \<in> set '':/''" using hd_dropWhile [of "\<lambda>c. c \<notin> set '':/''" "m_path u"] unfolding Cons list.sel(1) by blast
      moreover have "c \<noteq> CHR '':''"
      proof -
        let ?p = "find_first_of (m_path u) 0 (length (m_path u)) '':/''"
        have "?p \<noteq> length (m_path u)" using find_first_of_dropWhile(2) [of "m_path u" "'':/''"] unfolding Cons by blast
        moreover from find_first_of_dropWhile(1) [OF this] have "m_path u ! ?p = c" unfolding Cons list.sel(1) by blast
        moreover have "m_path u \<noteq> []" using Cons by (cases "m_path u") simp_all
        ultimately show ?thesis using that by (auto simp: build_authority_def Let_def split: if_splits)
      qed
      ultimately show ?thesis using \<open>hd z = c\<close> by auto
    qed
    moreover have "set y \<inter> set '':/?#'' = {}" using yz(1,2) path_class [OF cl] by auto
    ultimately show ?thesis using yz(1) by blast
  qed
qed

lemma range_piece: "range_text (x @ T @ w) (piece (length x) T) = tl T"
proof (cases T)
  case (Cons c t)
  then show ?thesis using sub_pieces [of "x @ [c]" t w] by (simp add: range_text_def piece_def)
qed (simp add: range_text_def piece_def)

lemma range_user: "range_text (x @ U @ w) (user_range (length x) U) = butlast U"
proof (cases U rule: rev_cases)
  case (snoc n c)
  then show ?thesis using sub_pieces [of x n "c # w"] by (simp add: range_text_def user_range_def)
qed (simp add: range_text_def user_range_def)

lemma range_scheme: "range_text (S @ w) (scheme_range S) = butlast S"
proof (cases S rule: rev_cases)
  case (snoc n c)
  then show ?thesis using sub_pieces [of "[]" n "c # w"] by (simp add: range_text_def scheme_range_def)
qed (simp add: range_text_def scheme_range_def)

text \<open>What \<open>locate_parts\<close> finds in a text that was built.\<close>

lemma locate_built:
  assumes c: "canonical u" and b: "build_authority u = Inr A" "build_path u = Inr P" "build_query (m_query u) = Inr Q"
    and F: "F = [] \<or> hd F = CHR ''#'' \<and> is_chars (tl F) 0x3F"
    and S: "S = (if m_scheme u = [] then [] else m_scheme u @ '':'')"
  shows "\<exists>r. locate_parts (S @ A @ P @ Q @ F) = Inr r \<and>
    r_scheme r = scheme_range S \<and> range_text (S @ A @ P @ Q @ F) (r_user r) = m_user u \<and>
    (if m_host u = [] then r_host r = None \<and> A = []
     else \<exists>x w. S @ A @ P @ Q @ F = x @ m_host u @ w \<and> r_host r = Some (length x, length x + length (m_host u))) \<and>
    r_ip_v r = m_ip_v u \<and> range_text (S @ A @ P @ Q @ F) (r_port r) = m_port u \<and>
    r_path r = Some (length (S @ A), length (S @ A) + length P) \<and> r_query r = piece (length (S @ A @ P)) Q \<and>
    r_fragment r = piece (length (S @ A @ P @ Q)) F"
proof -
  let ?u = "S @ A @ P @ Q @ F" and ?B = "A @ P @ Q @ F"
  let ?r0 = "no_parts\<lparr>r_scheme := scheme_range S\<rparr>"
  have np: "normal_path (m_path u)" using c by (simp add: canonical_def)
  have t: "tail_ok P Q F" using path_pieces(1) [OF b(2) np] build_query_form [OF b(3), THEN conjunct2] F by (simp add: tail_ok_def)
  have qf: "Q @ F = [] \<or> hd (Q @ F) \<in> set ''?#''" using t by (cases Q) (auto simp: tail_ok_def)
  have r0: "r_query ?r0 = None" "r_fragment ?r0 = None" "r_user ?r0 = None" "r_host ?r0 = None" "r_port ?r0 = None"
    "r_ip_v ?r0 = -1" by (simp_all add: no_parts_def)
  have sc: "S \<noteq> [] \<Longrightarrow> S = m_scheme u @ '':'' \<and> is_scheme (m_scheme u)" using c S by (auto simp: canonical_def split: if_splits)
  show ?thesis
  proof (cases "m_host u = []")
    case True
    then have A: "A = []" using b(1) by (auto simp: build_authority_def Let_def split: if_splits)
    obtain y z where yz: "P = y @ z" "set y \<inter> set '':/?#'' = {}" "z = [] \<or> hd z = CHR ''/''"
      using path_pieces(5) [OF b(2) np True b(1)] by blast
    have "z @ Q @ F = [] \<or> hd (z @ Q @ F) \<in> set ''/?#''" using yz(3) qf by (cases z) auto
    then have pre: "S = [] \<and> ?B = y @ (z @ Q @ F) \<and> set y \<inter> set '':/?#'' = {} \<and> (z @ Q @ F = [] \<or> hd (z @ Q @ F) \<in> set ''/?#'') \<or>
        S = m_scheme u @ '':'' \<and> is_scheme (m_scheme u)" using sc yz A by (cases "S = []") auto
    have "take 2 ?B \<noteq> ''//''"
    proof
      assume "take 2 ?B = ''//''"
      then have two: "take 2 (P @ Q @ F) = ''//''" using A by simp
      have "take 2 P = ''//''"
      proof (cases P)
        case Nil
        with two qf show ?thesis by (cases "Q @ F") auto
      next
        case (Cons a P')
        with two qf show ?thesis by (cases P'; cases "Q @ F") auto
      qed
      with path_pieces(3) [OF b(2) np] show False ..
    qed
    then have "locate_parts ?u = parse_tail ?u (length S) ?r0"
      using locate_parts_pieces [OF pre] by (simp add: Let_def)
    also have "\<dots> = Inr (?r0\<lparr>r_path := Some (length S, length S + length P), r_query := piece (length S + length P) Q,
        r_fragment := piece (length S + length P + length Q) F\<rparr>)"
      using parse_tail_pieces [OF t r0(1,2), of S] A by simp
    finally show ?thesis using A True c r0 by (simp add: canonical_def range_text_def add.assoc)
  next
    case False
    then obtain U T where A: "A = ''//'' @ U @ bracketed (m_ip_v u) (m_host u) @ T" "user_ok U" "port_ok T"
      "m_user u = butlast U" "m_port u = tl T" using authority_pieces [OF c _ b(1)] by blast
    have h: "host_ok (m_host u) (m_ip_v u)" using c False by (simp add: canonical_def)
    have w: "P @ Q @ F = [] \<or> hd (P @ Q @ F) \<in> set ''/?#''" using path_pieces(4) [OF b(2) np False] qf by (cases P) auto
    have pre: "S = [] \<and> ?B = [] @ ?B \<and> set [] \<inter> set '':/?#'' = {} \<and> (?B = [] \<or> hd ?B \<in> set ''/?#'') \<or>
        S = m_scheme u @ '':'' \<and> is_scheme (m_scheme u)" using sc A(1) by (cases "S = []") auto
    let ?x = "S @ ''//''" and ?H = "bracketed (m_ip_v u) (m_host u)"
    let ?r1 = "?r0\<lparr>r_user := user_range (length ?x) U,
        r_host := Some (length ?x + length U + of_bool (m_ip_v u = 6), length ?x + length U + of_bool (m_ip_v u = 6) + length (m_host u)),
        r_ip_v := m_ip_v u, r_port := piece (length ?x + length U + length ?H) T\<rparr>"
    have u: "?u = ?x @ U @ ?H @ T @ P @ Q @ F" using A(1) by simp
    have la: "length ?x + length U + length ?H + length T = length (S @ A)" using A(1) by simp
    have "take 2 ?B = ''//''" using A(1) by simp
    then have "locate_parts ?u = (case parse_authority ?u (length S + 2) ?r0 of Inl err \<Rightarrow> Inl err | Inr (b, r) \<Rightarrow> parse_tail ?u b r)"
      using locate_parts_pieces [OF pre] by (simp add: Let_def)
    also have "parse_authority ?u (length S + 2) ?r0 = Inr (length (S @ A), ?r1)"
      using parse_authority_pieces [OF A(2) h A(3) w r0(3), of ?x] unfolding u [symmetric] la by simp
    also have "(case Inr (length (S @ A), ?r1) of Inl err \<Rightarrow> Inl err | Inr (b, r) \<Rightarrow> parse_tail ?u b r) =
        parse_tail ((S @ A) @ P @ Q @ F) (length (S @ A)) ?r1" by simp
    also have "\<dots> = Inr (?r1\<lparr>r_path := Some (length (S @ A), length (S @ A) + length P),
        r_query := piece (length (S @ A) + length P) Q, r_fragment := piece (length (S @ A) + length P + length Q) F\<rparr>)"
      using t by (rule parse_tail_pieces) (simp_all add: no_parts_def)
    finally have l: "locate_parts ?u = \<dots>" .
    have hx: "\<exists>x w. ?u = x @ m_host u @ w \<and> length x = length ?x + length U + of_bool (m_ip_v u = 6)"
      unfolding u
      by (cases "m_ip_v u = 6")
        (rule exI [of _ "?x @ U @ ''[''"] exI [of _ "?x @ U"], rule exI [of _ "'']'' @ T @ P @ Q @ F"] exI [of _ "T @ P @ Q @ F"],
         simp add: bracketed_def)+
    have "range_text ?u (user_range (length ?x) U) = m_user u" "range_text ?u (piece (length ?x + length U + length ?H) T) = m_port u"
      using range_user [of ?x U "?H @ T @ P @ Q @ F"] range_piece [of "?x @ U @ ?H" T "P @ Q @ F"] A(4,5) unfolding u
      by (simp_all add: add.assoc)
    with l hx False show ?thesis by (auto simp: add.assoc simp del: append_assoc)
  qed
qed

lemma host_no_percent: "host_ok h v \<Longrightarrow> CHR ''%'' \<notin> set h"
  using reg_name_class [of h] ipv6_chars [of h] by (auto simp: host_ok_def is_reg_name_def)

lemma decode_host_built:
  assumes "host_ok h v" "r_host r = Some (length x, length x + length h)" "r_ip_v r = v"
  shows "decode_host (x @ h @ w) r = Inr h"
  using assms host_no_percent [OF assms(1)]
  by (auto simp: decode_host_def decode_plain host_ok_def normalize_reg_name_def)

lemma parse_built:
  assumes c: "canonical u" and t: "build_text u = Inr t" "t \<noteq> []" "length t \<le> 8000" and o': "m_url o' = t"
  shows "parse_url o' = Inr (u\<lparr>m_url := t, m_built := False\<rparr>)"
proof -
  from t(1) obtain A P Q F where b: "build_authority u = Inr A" "build_path u = Inr P" "build_query (m_query u) = Inr Q"
    and f: "(if m_fragment u \<noteq> [] then map_res (\<lambda>x. ''#'' @ x) (encode (m_fragment u) 0x1F) else Inr []) = Inr F"
    and t': "t = (if m_scheme u \<noteq> [] then m_scheme u @ '':'' else []) @ A @ P @ Q @ F"
    by (auto simp: build_text_def bind_res_Inr simp del: map_res_Inr)
  define S where "S = (if m_scheme u = [] then [] else m_scheme u @ '':'')"
  have t'': "t = S @ A @ P @ Q @ F" using t' by (simp add: S_def)
  have F: "F = [] \<or> hd F = CHR ''#'' \<and> is_chars (tl F) 0x3F" and Fd: "decode (tl F) = Inr (m_fragment u)"
    using f encode_class [of "0x1F" "0x3F" "m_fragment u"] fragment_codec.roundtrip [of "m_fragment u"]
    by (auto simp: encode_def split: if_splits)
  obtain r where l: "locate_parts t = Inr r" and r: "r_scheme r = scheme_range S" "range_text t (r_user r) = m_user u"
    "if m_host u = [] then r_host r = None \<and> A = []
     else \<exists>x w. t = x @ m_host u @ w \<and> r_host r = Some (length x, length x + length (m_host u))"
    "r_ip_v r = m_ip_v u" "range_text t (r_port r) = m_port u"
    "r_path r = Some (length (S @ A), length (S @ A) + length P)" "r_query r = piece (length (S @ A @ P)) Q"
    "r_fragment r = piece (length (S @ A @ P @ Q)) F"
    using locate_built [OF c b F S_def] unfolding t'' [symmetric] by blast
  have np: "normal_path (m_path u)" using c by (simp add: canonical_def)
  have user: "decode (range_text t (r_user r)) = Inr (m_user u)"
    using c r(2) user_class [of "m_user u"] by (auto simp: canonical_def decode_plain split: if_splits)
  have host: "decode_host t r = Inr (m_host u)"
  proof (cases "m_host u = []")
    case True
    with r(3) show ?thesis by (simp add: decode_host_def)
  next
    case False
    with r(3) obtain x w where "t = x @ m_host u @ w" "r_host r = Some (length x, length x + length (m_host u))" by auto
    moreover have "host_ok (m_host u) (m_ip_v u)" using c False by (simp add: canonical_def)
    ultimately show ?thesis using decode_host_built r(4) by simp
  qed
  have "range_text t (r_path r) = P" using sub_pieces [of "S @ A" P "Q @ F"] r(6) t'' by (simp add: range_text_def)
  then have path: "decode (range_text t (r_path r)) = Inr (m_path u)" using path_pieces(2) [OF b(2) np] by simp
  have query: "decode_query t r = Inr (m_query u)"
    using decode_query_pieces [OF b(3), of r "S @ A @ P" F] r(7) t'' by simp
  have fragment: "decode (range_text t (r_fragment r)) = Inr (m_fragment u)"
    using range_piece [of "S @ A @ P @ Q" F "[]"] Fd r(8) t'' by simp
  have scheme: "normalize_scheme (range_text t (r_scheme r)) = m_scheme u"
    using range_scheme [of S "A @ P @ Q @ F"] r(1) t'' c by (auto simp: normalize_scheme_def S_def canonical_def to_lower_def)
  have "decode_parts t r o' = Inr (u\<lparr>m_url := t, m_built := False\<rparr>)"
    unfolding decode_parts_def user host path query fragment scheme bind_res_simps r(4,5)
    using np c o' by (simp add: normal_path_def canonical_def)
  then show ?thesis using t(2,3) o' l by (simp add: parse_url_def)
qed

section \<open>Properties\<close>

text \<open>
  (C27) What an object writes, another reads back: when \<open>str\<close> of an object with canonical components
  succeeds with a text of at most 8000 bytes, an object set to this text is parsed to exactly these
  components.
\<close>

theorem url_build_parse:
  assumes "canonical u" "\<not> m_built u" "str u = (Inr t, u')" "t \<noteq> []" "length t \<le> 8000"
  shows "lazy_parse (snd (set_str t v)) = (Inr (), u\<lparr>m_url := t, m_built := False\<rparr>)"
proof -
  have p: "m_parse u" using assms(1) by (simp add: canonical_def)
  have "build_text u = Inr t"
    using assms(2,3) p by (auto simp: str_def build_url_def seq_def lazy_parse_def gets_def split: sum.splits)
  from parse_built [OF assms(1) this assms(4,5), of "snd (set_str t v)"] show ?thesis
    by (simp add: lazy_parse_def set_str_def update_def)
qed

definition sample_url :: HttpUrl where
  "sample_url = HttpUrl_default\<lparr>m_scheme := ''http'', m_user := ''me'', m_host := ''h.org'', m_ip_v := 0, m_port := ''8'',
     m_path := ''/a b/c'', m_query := [(''k'', ''x&y''), (''f'', [])], m_fragment := ''z'', m_built := False\<rparr>"

theorem url_build_parse_witness:
  "lazy_parse (HttpUrl_string ''http://me@h.org:8/a%20b/c?k=x%26y&f#z'') =
     (Inr (), sample_url\<lparr>m_url := ''http://me@h.org:8/a%20b/c?k=x%26y&f#z''\<rparr>)"
proof -
  have c: "canonical sample_url" by code_simp
  have s: "map_prod id (\<lambda>_. ()) (str sample_url) = (Inr ''http://me@h.org:8/a%20b/c?k=x%26y&f#z'', ())" by code_simp
  then obtain u' where s: "str sample_url = (Inr ''http://me@h.org:8/a%20b/c?k=x%26y&f#z'', u')"
    by (cases "str sample_url") auto
  show ?thesis using url_build_parse [OF c _ s, of "HttpUrl_default"]
    by (simp add: sample_url_def set_str_def update_def HttpUrl_string_def HttpUrl_default_def)
qed

text \<open>
  Parsing stays within the text: every range that is found for a component lies in it, whatever follows
  the brackets of an address or the version of an IPvFuture literal.
\<close>

theorem locate_parts_within:
  assumes "locate_parts u = Inr r"
  shows "range_ok u (r_scheme r) \<and> range_ok u (r_user r) \<and> range_ok u (r_host r) \<and> range_ok u (r_port r) \<and>
    range_ok u (r_path r) \<and> range_ok u (r_query r) \<and> range_ok u (r_fragment r)"
  using locate_parts_bounds [OF assms] by (simp only: parts_ok_def)

theorem locate_parts_within_witness:
  "\<exists>r. locate_parts ''//[v1.h]:8'' = Inr r \<and> r_host r = Some (6, 7) \<and> range_ok ''//[v1.h]:8'' (r_host r)"
proof -
  have l: "map_res (\<lambda>r. r_host r) (locate_parts ''//[v1.h]:8'') = Inr (Some (6, 7))" by code_simp
  then obtain r where r: "locate_parts ''//[v1.h]:8'' = Inr r" "r_host r = Some (6, 7)" by auto
  with locate_parts_within [OF r(1)] show ?thesis by auto
qed

end
