(* ===== verification/Http_Url_Calls.thy ===== *)
theory Http_Url_Calls
  imports Http_Url
begin

text \<open>
  What a client of \<open>HttpUrl\<close> may rely on: a value that is set is read back, setting it twice is setting it
  once, a call that throws leaves the object as it was or only parsed, and the invariant of the object
  over every sequence of calls. The contract that the setters share is the locale \<open>component\<close>.
\<close>

section \<open>Actions\<close>

lemma seq_simps [simp]:
  "seq (throw err) f = throw err" "seq (ret x) f = f x" "seq (update g) k u = k () (g u)" "seq (gets h) f' u = f' (h u) u"
  by (auto simp: seq_def throw_def ret_def update_def gets_def)

lemma action_simps [simp]:
  "throw err u = (Inl err, u)" "ret x u = (Inr x, u)" "gets g u = (Inr (g u), u)" "update h u = (Inr (), h u)"
  by (simp_all add: throw_def ret_def gets_def update_def)

lemma seq_assoc: "seq (seq m f) g = seq m (\<lambda>x. seq (f x) g)"
  by (rule ext) (auto simp: seq_def split: prod.splits sum.splits)

lemma parse_url_flags: "parse_url u = Inr p \<Longrightarrow> m_parse p"
  by (auto simp: parse_url_def clear_def bind_res_Inr decode_parts_def split: if_splits)

lemma lazy_parse_parsed: "lazy_parse u = (Inr (), p) \<Longrightarrow> m_parse p"
  by (auto simp: lazy_parse_def dest: parse_url_flags split: if_splits sum.splits)

lemma lazy_parse_id [simp]: "m_parse u \<Longrightarrow> lazy_parse u = (Inr (), u)"
  by (simp add: lazy_parse_def)

lemma lazy_parse_cases:
  obtains (ok) p where "lazy_parse u = (Inr (), p)" "m_parse p"
  | (err) err where "lazy_parse u = (Inl err, u)"
proof (cases "m_parse u")
  case True
  then have "lazy_parse u = (Inr (), u)" by (simp add: lazy_parse_def)
  with True ok show ?thesis by blast
next
  case False
  show ?thesis
  proof (cases "parse_url u")
    case (Inl err)
    with False have "lazy_parse u = (Inl err, u)" by (simp add: lazy_parse_def)
    with err show ?thesis by blast
  next
    case (Inr p)
    with False have "lazy_parse u = (Inr (), p)" by (simp add: lazy_parse_def)
    with ok lazy_parse_parsed show ?thesis by blast
  qed
qed

section \<open>The contract of a setter\<close>

text \<open>
  \<open>op\<close> checks its argument by \<open>guard\<close>, parses, and \<open>put\<close>s the value \<open>norm v u\<close> that \<open>proj\<close> reads.
\<close>

locale component =
  fixes op :: "'v \<Rightarrow> unit action" and guard :: "'v \<Rightarrow> bool" and put :: "'v \<Rightarrow> HttpUrl \<Rightarrow> HttpUrl"
    and proj :: "HttpUrl \<Rightarrow> 'w" and norm :: "'v \<Rightarrow> HttpUrl \<Rightarrow> 'w"
  assumes op_guard: "guard v \<Longrightarrow> op v = seq lazy_parse (\<lambda>_. update (put v))"
    and op_error: "\<not> guard v \<Longrightarrow> \<exists>err. op v = throw (Parse_error err)"
    and put_flag: "m_parse (put v u) = m_parse u"
    and put_proj: "proj (put v u) = norm v u"
    and put_same: "proj u = norm v u \<Longrightarrow> put v u = u"
    and norm_put: "norm v (put v u) = norm v u"
begin

lemma set_get:
  assumes "guard v" "lazy_parse u = (Inr (), p)"
  shows "seq (op v) (\<lambda>_. seq lazy_parse (\<lambda>_. gets proj)) u = (Inr (norm v p), put v p)"
  using assms lazy_parse_parsed [OF assms(2)] by (simp add: op_guard seq_def put_flag put_proj)

lemma put_twice: "put v (put v u) = put v u"
  by (rule put_same) (simp add: put_proj norm_put)

lemma set_twice: "seq (op v) (\<lambda>_. op v) = op v"
proof (cases "guard v")
  case True
  show ?thesis
  proof (rule ext)
    fix u
    show "seq (op v) (\<lambda>_. op v) u = op v u"
      by (cases u rule: lazy_parse_cases) (simp_all add: op_guard [OF True] seq_def put_twice put_flag)
  qed
next
  case False
  then show ?thesis using op_error by fastforce
qed

lemma error_unchanged:
  assumes "fst (op v u) = Inl err"
  shows "snd (op v u) = u"
proof (cases "guard v")
  case True
  with assms show ?thesis by (cases u rule: lazy_parse_cases) (simp_all add: op_guard seq_def)
next
  case False
  then show ?thesis using op_error by fastforce
qed

end

definition put_scheme :: "bytes \<Rightarrow> HttpUrl \<Rightarrow> HttpUrl" where
  "put_scheme s u =
     (let o' = to_lower s
      in if o' \<noteq> m_scheme u then
           let u = u\<lparr>m_scheme := o', m_built := False\<rparr>
           in if default_port (m_scheme u) (m_port u) then u\<lparr>m_port := []\<rparr> else u
         else u)"

interpretation scheme_part: component set_scheme is_scheme put_scheme m_scheme "\<lambda>s _. to_lower s"
  by unfold_locales (auto simp: set_scheme_def put_scheme_def [abs_def] Let_def)

interpretation user_part: component set_user_info "\<lambda>s. length s \<le> 256"
    "\<lambda>s u. if m_user u \<noteq> s then u\<lparr>m_user := s, m_built := False\<rparr> else u" m_user "\<lambda>s _. s"
  by unfold_locales (auto simp: set_user_info_def)

interpretation port_part: component set_port is_port
    "\<lambda>p u. let o' = (if default_port (m_scheme u) p then [] else p) in if m_port u \<noteq> o' then u\<lparr>m_port := o', m_built := False\<rparr> else u"
    m_port "\<lambda>p u. if default_port (m_scheme u) p then [] else p"
  by unfold_locales (auto simp: set_port_def Let_def)

interpretation path_part: component set_path "\<lambda>p. length p \<le> 8000"
    "\<lambda>p u. let o' = normalize_path p in if m_path u \<noteq> o' then u\<lparr>m_path := o', m_built := False\<rparr> else u"
    m_path "\<lambda>p _. normalize_path p"
  by unfold_locales (auto simp: set_path_def Let_def)

interpretation query_part: component set_query "\<lambda>_. True"
    "\<lambda>q u. if q \<noteq> m_query u then u\<lparr>m_query := q, m_built := False\<rparr> else u" m_query "\<lambda>q _. q"
  by unfold_locales (auto simp: set_query_def)

interpretation fragment_part: component set_fragment "\<lambda>f. length f \<le> 256"
    "\<lambda>f u. if m_fragment u \<noteq> f then u\<lparr>m_fragment := f, m_built := False\<rparr> else u" m_fragment "\<lambda>f _. f"
  by unfold_locales (auto simp: set_fragment_def)

section \<open>Calls\<close>

datatype url_call =
  Call_assign HttpUrl | Call_clear | Call_set_str bytes | Call_str | Call_read
| Call_scheme bytes | Call_user_info bytes | Call_host bytes u8 | Call_port bytes | Call_port_num u16
| Call_path bytes | Call_query "KeyVal list" | Call_query_at nat KeyVal | Call_add_query KeyVal | Call_fragment bytes

fun run_call :: "url_call \<Rightarrow> unit action" where
  "run_call (Call_assign v) = update (assign v)"
| "run_call Call_clear = update clear"
| "run_call (Call_set_str s) = set_str s"
| "run_call Call_str = seq str (\<lambda>_. ret ())"
| "run_call Call_read = lazy_parse"
| "run_call (Call_scheme s) = set_scheme s"
| "run_call (Call_user_info s) = set_user_info s"
| "run_call (Call_host h v) = set_host h v"
| "run_call (Call_port p) = set_port p"
| "run_call (Call_port_num n) = set_port_num n"
| "run_call (Call_path p) = set_path p"
| "run_call (Call_query q) = set_query q"
| "run_call (Call_query_at i kv) = set_query_at i (\<lambda>_. kv)"
| "run_call (Call_add_query kv) = add_query kv"
| "run_call (Call_fragment f) = set_fragment f"

text \<open>The object after a sequence of calls, whatever each of them returned or threw.\<close>

definition url_calls :: "url_call list \<Rightarrow> HttpUrl \<Rightarrow> HttpUrl" where
  "url_calls cs u = fold (\<lambda>c u. snd (run_call c u)) cs u"

lemma set_host_error:
  assumes "fst (set_host h v u) = Inl err"
  shows "snd (set_host h v u) = u \<or> lazy_parse u = (Inr (), snd (set_host h v u))"
  using assms by (cases u rule: lazy_parse_cases) (auto simp: set_host_def seq_def split: sum.splits if_splits)

lemma str_error:
  assumes "fst (str u) = Inl err"
  shows "snd (str u) = u \<or> lazy_parse u = (Inr (), snd (str u))"
  using assms by (cases u rule: lazy_parse_cases) (auto simp: str_def build_url_def seq_def split: sum.splits if_splits)

lemma call_error:
  assumes "fst (run_call c u) = Inl err"
  shows "snd (run_call c u) = u \<or> lazy_parse u = (Inr (), snd (run_call c u))"
proof (cases c)
  case Call_str
  with assms have "fst (str u) = Inl err" by (auto simp: seq_def split: prod.splits sum.splits)
  with str_error [OF this] Call_str show ?thesis by (auto simp: seq_def split: prod.splits sum.splits)
next
  case (Call_host h v)
  with assms set_host_error [of h v u] show ?thesis by simp
next
  case Call_read
  with assms show ?thesis by (cases u rule: lazy_parse_cases) auto
next
  case (Call_query_at i kv)
  with assms show ?thesis by (cases u rule: lazy_parse_cases) (auto simp: set_query_at_def seq_def)
next
  case (Call_add_query kv)
  with assms show ?thesis by (cases u rule: lazy_parse_cases) (auto simp: add_query_def seq_def)
qed (use assms scheme_part.error_unchanged user_part.error_unchanged port_part.error_unchanged path_part.error_unchanged
      query_part.error_unchanged fragment_part.error_unchanged in \<open>auto simp: set_str_def set_port_num_def\<close>)

section \<open>The invariant\<close>

definition url_inv :: "HttpUrl \<Rightarrow> bool" where
  "url_inv u \<longleftrightarrow>
     (m_scheme u = [] \<or> is_scheme (m_scheme u) \<and> to_lower (m_scheme u) = m_scheme u) \<and>
     (m_port u = [] \<or> is_port (m_port u)) \<and> normal_path (m_path u) \<and> (m_built u \<longrightarrow> u = HttpUrl_default)"

lemma clear_default: "clear u = HttpUrl_default"
  by (simp add: clear_def HttpUrl_default_def)

lemma or_32: "(65 :: nat) \<le> n \<Longrightarrow> n \<le> 90 \<Longrightarrow> n OR 32 = n + 32"
proof -
  assume "65 \<le> n" "n \<le> 90"
  then have "n \<in> set [65..<91]" unfolding set_upt by simp
  moreover have "list_all (\<lambda>n :: nat. n OR 32 = n + 32) [65..<91]" by (simp add: upt_rec_numeral)
  ultimately show ?thesis unfolding list_all_iff by blast
qed

lemma sc_letters: "sc (CHR ''A'') = 65" "sc (CHR ''Z'') = 90" "sc (CHR ''a'') = 97" "sc (CHR ''z'') = 122"
  by (simp_all add: sc_def)

lemma sc_lower:
  assumes "65 \<le> sc c" "sc c \<le> 90"
  shows "sc (lower_char c) = sc c + 32"
proof -
  have "of_char c < (128 :: nat)" "sc c = int (of_char c)" using sc_cases [of c] assms by linarith+
  with assms or_32 [of "of_char c"] show ?thesis by (simp add: lower_char_def sc_letters) (simp add: sc_def)
qed

lemma lower_char_facts:
  "lower_char (lower_char c) = lower_char c" "is_alpha c \<Longrightarrow> is_alpha (lower_char c)"
  "lower_char c = c \<or> is_alpha (lower_char c)"
proof -
  have "(sc c < 65 \<or> 90 < sc c) \<and> lower_char c = c \<or> 97 \<le> sc (lower_char c) \<and> sc (lower_char c) \<le> 122"
    using sc_lower [of c] by (cases "65 \<le> sc c \<and> sc c \<le> 90") (auto simp: lower_char_def [of c] sc_letters)
  then show "lower_char (lower_char c) = lower_char c" "is_alpha c \<Longrightarrow> is_alpha (lower_char c)"
    "lower_char c = c \<or> is_alpha (lower_char c)"
    by (auto simp: is_alpha_def lower_char_def [of "lower_char c"] sc_letters)
qed

lemma to_lower_idem [simp]: "to_lower (to_lower s) = to_lower s"
  by (simp add: to_lower_def lower_char_facts(1))

lemma is_scheme_to_lower: "is_scheme s \<Longrightarrow> is_scheme (to_lower s)"
proof (cases s)
  case (Cons c t)
  assume "is_scheme s"
  moreover have "is_alnum (lower_char d) \<or> lower_char d = x \<or> lower_char d = y \<or> lower_char d = z"
    if "is_alnum d \<or> d = x \<or> d = y \<or> d = z" for d x y z
    using that lower_char_facts(3) [of d] by (auto simp: is_alnum_def)
  ultimately show ?thesis using Cons lower_char_facts(2) [of c]
    by (auto simp: is_scheme_def to_lower_def list.pred_map elim!: list.pred_mono_strong)
qed (simp add: is_scheme_def)

lemma parse_tail_keeps: "parse_tail u b r = Inr r' \<Longrightarrow> r_scheme r' = r_scheme r \<and> r_port r' = r_port r"
  by (auto simp: parse_tail_def Let_def split: if_splits)

lemma parse_authority_valid:
  "parse_authority u b r = Inr (b', r') \<Longrightarrow> r_scheme r' = r_scheme r \<and> (range_text u (r_port r') = [] \<or> is_port (range_text u (r_port r')))"
  by (auto simp: parse_authority_def parse_port_def range_text_def Let_def split: if_splits sum.splits)

lemma locate_parts_valid:
  assumes "locate_parts u = Inr r"
  shows "(range_text u (r_scheme r) = [] \<or> is_scheme (range_text u (r_scheme r))) \<and>
    (range_text u (r_port r) = [] \<or> is_port (range_text u (r_port r)))"
proof -
  have n: "r_scheme no_parts = None" "r_port no_parts = None" "range_text u None = []" "range_text u (Some (0, p)) = sub u 0 p" for p
    by (simp_all add: no_parts_def range_text_def)
  show ?thesis
    using assms unfolding locate_parts_def Let_def
    by (auto simp: n dest!: parse_tail_keeps parse_authority_valid split: if_splits sum.splits)
qed

lemma default_inv: "url_inv HttpUrl_default"
  by (simp add: url_inv_def HttpUrl_default_def normal_path_def normalize_path_def)

lemma parse_url_inv:
  assumes "parse_url u = Inr p"
  shows "url_inv p"
proof (cases "m_url u = []")
  case True
  with assms have "p = HttpUrl_default" by (simp add: parse_url_def clear_default)
  then show ?thesis using default_inv by (simp only:)
next
  case False
  with assms obtain r where r: "locate_parts (m_url u) = Inr r" "decode_parts (m_url u) r u = Inr p"
    by (auto simp: parse_url_def bind_res_Inr split: if_splits)
  from r(2) obtain path where "m_scheme p = to_lower (range_text (m_url u) (r_scheme r))" "m_port p = range_text (m_url u) (r_port r)"
    "m_path p = normalize_path path" "\<not> m_built p"
    by (auto simp: decode_parts_def bind_res_Inr normalize_scheme_def)
  with locate_parts_valid [OF r(1)] show ?thesis
    by (auto simp: url_inv_def normal_path_def normalize_path_idem is_scheme_to_lower to_lower_def [of "[]"])
qed

lemma lazy_parse_inv: "url_inv u \<Longrightarrow> url_inv (snd (lazy_parse u))"
  by (auto simp: lazy_parse_def parse_url_inv split: sum.splits)

text \<open>An action that parses and then changes a parsed object keeps what its second part keeps.\<close>

lemma seq_lazy_inv:
  assumes "url_inv u" "\<And>p. url_inv p \<Longrightarrow> url_inv (snd (f () p))"
  shows "url_inv (snd (seq lazy_parse f u))"
  using lazy_parse_inv [OF assms(1)] assms by (cases u rule: lazy_parse_cases) (auto simp: seq_def)

lemma guarded_inv:
  assumes "url_inv u" "\<And>p. \<not> g \<Longrightarrow> url_inv p \<Longrightarrow> url_inv (f p)"
  shows "url_inv (snd ((if g then throw err else seq lazy_parse (\<lambda>_. update f)) u))"
  using seq_lazy_inv [OF assms(1), of "\<lambda>_. update f"] assms by simp

lemma url_inv_keep:
  "url_inv p \<Longrightarrow> m_scheme q = m_scheme p \<Longrightarrow> m_port q = m_port p \<Longrightarrow> m_path q = m_path p \<Longrightarrow> \<not> m_built q \<Longrightarrow> url_inv q"
  by (simp add: url_inv_def)

lemma assign_inv:
  assumes "url_inv u" "url_inv v"
  shows "url_inv (assign v u)"
proof (cases "m_built v")
  case True
  with assms(2) have "v = HttpUrl_default" by (simp only: url_inv_def)
  then have "assign v u = HttpUrl_default" by (simp add: assign_def HttpUrl_default_def)
  then show ?thesis using default_inv by (simp only:)
next
  case False
  with assms show ?thesis by (cases "m_parse v") (simp_all add: assign_def url_inv_def Let_def)
qed

lemma set_port_inv: "url_inv u \<Longrightarrow> url_inv (snd (set_port p u))"
  unfolding set_port_def by (rule guarded_inv) (simp_all add: url_inv_def Let_def)

fun call_ok :: "url_call \<Rightarrow> bool" where
  "call_ok (Call_assign v) = url_inv v"
| "call_ok _ = True"

lemma call_inv:
  assumes u: "url_inv u" and c: "call_ok c"
  shows "url_inv (snd (run_call c u))"
proof (cases c)
  case (Call_assign v)
  with u c assign_inv [of u v] show ?thesis by simp
next
  case Call_clear
  then show ?thesis by (simp add: clear_default default_inv)
next
  case (Call_set_str s)
  with u show ?thesis by (simp add: set_str_def url_inv_def)
next
  case Call_str
  have "url_inv (snd (build_url u))" unfolding build_url_def
    by (rule seq_lazy_inv [OF u]) (auto simp: url_inv_def split: sum.split)
  with Call_str u show ?thesis by (auto simp: str_def seq_def split: prod.splits sum.splits if_splits)
next
  case Call_read
  with lazy_parse_inv [OF u] show ?thesis by simp
next
  case (Call_scheme s)
  have "url_inv (snd (set_scheme s u))" if "is_scheme s"
    unfolding scheme_part.op_guard [OF that]
    by (rule seq_lazy_inv [OF u]) (use is_scheme_to_lower [OF that] in \<open>auto simp: put_scheme_def url_inv_def Let_def\<close>)
  with Call_scheme u show ?thesis by (cases "is_scheme s") (simp_all add: set_scheme_def)
next
  case (Call_user_info s)
  show ?thesis unfolding Call_user_info run_call.simps set_user_info_def
    by (rule guarded_inv [OF u]) (simp add: url_inv_keep)
next
  case (Call_host h v)
  have "url_inv (snd (seq lazy_parse (\<lambda>_ u. case host_value h v of Inl err \<Rightarrow> (Inl err, u)
      | Inr (o', ip_v) \<Rightarrow> (Inr (), if m_host u \<noteq> o' \<or> sint (m_ip_v u) \<noteq> uint ip_v
                           then u\<lparr>m_host := o', m_ip_v := ip_v, m_built := False\<rparr> else u)) u))"
    by (rule seq_lazy_inv [OF u]) (auto simp: url_inv_keep split: sum.split)
  with u show ?thesis unfolding Call_host run_call.simps set_host_def by simp
next
  case (Call_port p)
  with set_port_inv [OF u] show ?thesis by simp
next
  case (Call_port_num n)
  with set_port_inv [OF u] show ?thesis by (simp add: set_port_num_def)
next
  case (Call_path p)
  show ?thesis unfolding Call_path run_call.simps set_path_def
    by (rule guarded_inv [OF u]) (simp add: url_inv_def Let_def normal_path_def normalize_path_idem)
next
  case (Call_query q)
  show ?thesis unfolding Call_query run_call.simps set_query_def
    by (rule seq_lazy_inv [OF u]) (simp add: url_inv_keep)
next
  case (Call_query_at i kv)
  show ?thesis unfolding Call_query_at run_call.simps set_query_at_def
    by (rule seq_lazy_inv [OF u]) (simp add: url_inv_keep Let_def)
next
  case (Call_add_query kv)
  show ?thesis unfolding Call_add_query run_call.simps add_query_def
    by (rule seq_lazy_inv [OF u]) (simp add: url_inv_keep)
next
  case (Call_fragment f)
  show ?thesis unfolding Call_fragment run_call.simps set_fragment_def
    by (rule guarded_inv [OF u]) (simp add: url_inv_keep)
qed

lemma calls_inv: "url_inv u \<Longrightarrow> list_all call_ok cs \<Longrightarrow> url_inv (url_calls cs u)"
  by (induction cs arbitrary: u) (simp_all add: url_calls_def call_inv)

section \<open>The port as a number\<close>

lemma stoi_nat_string: "n \<le> 65535 \<Longrightarrow> stoi (nat_string n) = Inr (of_nat n)"
  by (simp add: stoi_def nat_string_value)

lemma nat_string_eq [simp]: "nat_string n = nat_string m \<longleftrightarrow> n = m"
  using nat_string_value by metis

lemma default_port_num: "default_port s (nat_string k) \<longleftrightarrow> s = ''http'' \<and> k = 80 \<or> s = ''https'' \<and> k = 443"
proof -
  have "''80'' = nat_string 80" "''443'' = nat_string 443" by code_simp+
  then show ?thesis by (simp only: default_port_def nat_string_eq)
qed

lemma set_port_num_then_port:
  assumes "lazy_parse u = (Inr (), p)"
  shows "fst (seq (set_port_num n) (\<lambda>_. port) u) =
    Inr (if m_scheme p = ''https'' \<and> n = 443 then 80 else ucast n)"
proof -
  define k where "k = unat n"
  have "unat n < 2 ^ LENGTH(16)" by (rule unsigned_less)
  then have k: "k \<le> 65535" by (simp add: k_def)
  have n: "n = 443 \<longleftrightarrow> k = 443" "ucast n = (of_nat k :: u32)"
    by (auto simp: k_def word_unat_eq_iff)
  have g: "is_port (nat_string k)" using port_nat_string [OF k] .
  show ?thesis
    unfolding set_port_num_def k_def [symmetric] port_def
    using lazy_parse_parsed [OF assms] n stoi_nat_string [OF k]
    by (auto simp: port_part.op_guard [OF g] seq_def assms Let_def default_port_num)
qed

section \<open>Properties\<close>

text \<open>
  A value that is set is read back: after a successful setter the reader returns the value in its normal
  form, whatever the object held before, as long as its text can be parsed.
\<close>

theorem url_set_get:
  assumes "lazy_parse u = (Inr (), p)"
  shows "(is_scheme s \<longrightarrow> fst (seq (set_scheme s) (\<lambda>_. scheme) u) = Inr (to_lower s)) \<and>
    (length s \<le> 256 \<longrightarrow> fst (seq (set_user_info s) (\<lambda>_. user_info) u) = Inr s) \<and>
    (length s \<le> 8000 \<longrightarrow> fst (seq (set_path s) (\<lambda>_. path) u) = Inr (normalize_path s)) \<and>
    fst (seq (set_query q) (\<lambda>_. query) u) = Inr q \<and>
    (length s \<le> 256 \<longrightarrow> fst (seq (set_fragment s) (\<lambda>_. fragment) u) = Inr s)"
  unfolding scheme_def user_info_def path_def query_def fragment_def
  using scheme_part.set_get [OF _ assms] user_part.set_get [OF _ assms] path_part.set_get [OF _ assms]
    query_part.set_get [OF _ assms] fragment_part.set_get [OF _ assms] by (simp del: action_simps)

theorem url_set_get_witness:
  "fst (seq (set_path ''/a/../b'') (\<lambda>_. path) (HttpUrl_string ''http://h/x'')) = Inr ''/b''"
proof -
  have "fst (lazy_parse (HttpUrl_string ''http://h/x'')) = Inr ()" by code_simp
  then obtain p where p: "lazy_parse (HttpUrl_string ''http://h/x'') = (Inr (), p)"
    by (cases "lazy_parse (HttpUrl_string ''http://h/x'')") simp
  have "normalize_path ''/a/../b'' = ''/b''" by code_simp
  with url_set_get [OF p, of "''/a/../b''"] show ?thesis by simp
qed

text \<open>
  The port that is set as a number is read back, except for 443 under the scheme \<open>https\<close>: as the default
  port it is dropped, and the reader then returns 80.
\<close>

theorem set_port_num_port:
  assumes "lazy_parse u = (Inr (), p)"
  shows "fst (seq (set_port_num n) (\<lambda>_. port) u) =
    Inr (if m_scheme p = ''https'' \<and> n = 443 then 80 else ucast n)"
  by (rule set_port_num_then_port [OF assms])

theorem set_port_num_port_witness:
  "fst (seq (set_port_num 8) (\<lambda>_. port) HttpUrl_default) = Inr 8 \<and>
   fst (seq (set_port_num 443) (\<lambda>_. port) (HttpUrl_default\<lparr>m_scheme := ''https''\<rparr>)) = Inr 80"
proof
  show "fst (seq (set_port_num 8) (\<lambda>_. port) HttpUrl_default) = Inr 8"
    using set_port_num_port [of HttpUrl_default HttpUrl_default 8] by (simp add: HttpUrl_default_def)
  show "fst (seq (set_port_num 443) (\<lambda>_. port) (HttpUrl_default\<lparr>m_scheme := ''https''\<rparr>)) = Inr 80"
    using set_port_num_port [of "HttpUrl_default\<lparr>m_scheme := ''https''\<rparr>" "HttpUrl_default\<lparr>m_scheme := ''https''\<rparr>" 443]
    by (simp add: HttpUrl_default_def)
qed

text \<open>
  (C38) A call that throws leaves the object as it was, or only parsed: no call stops half way.
\<close>

theorem url_call_error:
  assumes "fst (run_call c u) = Inl err"
  shows "snd (run_call c u) = u \<or> lazy_parse u = (Inr (), snd (run_call c u))"
  by (rule call_error [OF assms])

theorem url_call_error_witness:
  "snd (run_call (Call_scheme ''1a'') HttpUrl_default) = HttpUrl_default"
proof -
  have e: "run_call (Call_scheme ''1a'') HttpUrl_default = (Inl (Parse_error (''Invalid scheme '' @ quoted ''1a'')), HttpUrl_default)"
  proof -
    have "\<not> is_scheme ''1a''" by code_simp
    then show ?thesis by (simp add: set_scheme_def)
  qed
  have "fst (run_call (Call_scheme ''1a'') HttpUrl_default) = Inl (Parse_error (''Invalid scheme '' @ quoted ''1a''))"
    unfolding e by simp
  from url_call_error [OF this] show ?thesis using lazy_parse_id [of HttpUrl_default] by (auto simp: HttpUrl_default_def)
qed

text \<open>
  (C31) The invariant of an object, over every sequence of calls on an object made from a string, with the
  results and the exceptions of the calls as they come: its scheme is empty or a valid one in lower case, its port is
  empty or accepted by \<open>is_port\<close>, its path is normal; and only the empty object counts as built, so
  that \<open>str\<close> writes the text of any other object again at each call.
\<close>

theorem url_calls_invariant:
  assumes "list_all call_ok cs"
  shows "url_inv (url_calls cs (HttpUrl_string s))"
proof -
  have "url_inv (HttpUrl_string s)"
    by (rule url_inv_keep [OF default_inv]) (simp_all add: HttpUrl_string_def)
  then show ?thesis using calls_inv assms by blast
qed

theorem url_calls_invariant_witness:
  "url_inv (url_calls [Call_read, Call_port ''8'', Call_str] (HttpUrl_string ''http://h/x''))"
  by (rule url_calls_invariant) simp

definition blank_user :: HttpUrl where
  "blank_user = HttpUrl_default\<lparr>m_host := ''h'', m_ip_v := 0, m_user := ''a b'', m_built := False\<rparr>"

text \<open>
  What a client can set but no parser reads back: a user name with a blank is written with an escape
  that \<open>parse_url\<close> rejects, and a query with a final separator gives an entry without key that
  \<open>build_url\<close> rejects. An address that \<open>is_ipv6\<close> accepts but \<open>normalize_IPv6\<close> cannot expand is an access
  outside its array.
\<close>

theorem url_text_rejected:
  "fst (str blank_user) = Inr ''//a%20b@h'' \<and>
   fst (lazy_parse (HttpUrl_string ''//a%20b@h'')) = Inl (Parse_error (''User info in '' @ quoted ''//a%20b@h'' @ '' is invalid'')) \<and>
   fst (str (HttpUrl_string ''/?a&'')) = Inl (Build_error ''A query entry has no key'') \<and>
   fst (lazy_parse (HttpUrl_string ''http://[1:2]/'')) = Inl Undefined_behaviour"
  by code_simp

end
