(* ===== verification/Net_Url.thy ===== *)
theory Net_Url
  imports Snet_Prelude
begin

text \<open>
  The URL of an endpoint (src/include/utils/net\_url.h) and the options read from it (src/include/snet.h).
  The map of parameters is an \<open>std::unordered_map\<close>: where the code iterates over it, the order is an
  argument, a list of the entries (\<open>iteration\<close>). A thrown exception is a value of \<open>net_error\<close>, returned with
  the object as the exception leaves it; \<open>Loops_forever\<close> stands for a loop that does not end.
\<close>

datatype net_error = Invalid_argument | Out_of_int | Loops_forever

record NetUrl =
  protocol :: bytes
  host :: bytes
  port :: u16
  params :: "bytes \<rightharpoonup> bytes"

definition NetUrl_empty :: NetUrl where
  "NetUrl_empty = \<lparr>protocol = [], host = [], port = 0, params = Map.empty\<rparr>"

definition NetUrl_make :: "bytes \<Rightarrow> bytes \<Rightarrow> u16 \<Rightarrow> NetUrl" where
  "NetUrl_make proto h p = NetUrl_empty\<lparr>protocol := proto, host := h, port := p\<rparr>"

definition reset :: "NetUrl \<Rightarrow> NetUrl" where
  "reset u = u\<lparr>params := Map.empty, protocol := [], host := [], port := 0\<rparr>"

text \<open>\<open>std::string::find\<close>, for the part of the string from position \<open>i\<close> on.\<close>

fun find_str :: "bytes \<Rightarrow> bytes \<Rightarrow> nat \<Rightarrow> nat option" where
  "find_str q [] i = (if q = [] then Some i else None)"
| "find_str q (c # s) i = (if take (length q) (c # s) = q then Some i else find_str q s (i + 1))"

definition isspace :: "char \<Rightarrow> bool" where
  "isspace c \<longleftrightarrow> c \<in> {CHR '' '', CHR 0x09, CHR 0x0A, CHR 0x0B, CHR 0x0C, CHR 0x0D}"

definition isdigit :: "char \<Rightarrow> bool" where
  "isdigit c \<longleftrightarrow> 48 \<le> (of_char c :: nat) \<and> (of_char c :: nat) \<le> 57"

text \<open>An optional sign: whether it is a minus, and what follows.\<close>

definition sign :: "bytes \<Rightarrow> bool \<times> bytes" where
  "sign s =
     (case s of
        c # t \<Rightarrow> if c = CHR ''-'' then (True, t) else if c = CHR ''+'' then (False, t) else (False, s)
      | [] \<Rightarrow> (False, s))"

text \<open>\<open>std::stoi\<close>: blanks, a sign and digits; what follows them is ignored.\<close>

definition std_stoi :: "bytes \<Rightarrow> net_error + int" where
  "std_stoi s =
     (let (neg, s) = sign (dropWhile isspace s); d = takeWhile isdigit s;
          n = (if neg then - int (string_value d) else int (string_value d))
      in if d = [] then Inl Invalid_argument
         else if n < -2147483648 \<or> n > 2147483647 then Inl Out_of_int
         else Inr n)"

text \<open>The loop over the characters of the parameters.\<close>

fun param_loop :: "bytes \<Rightarrow> bool \<Rightarrow> bytes \<Rightarrow> bytes \<Rightarrow> (bytes \<rightharpoonup> bytes) \<Rightarrow> (bytes \<rightharpoonup> bytes)" where
  "param_loop [] is_key key val m = (if key \<noteq> [] then m(key \<mapsto> val) else m)"
| "param_loop (c # s) is_key key val m =
     (if c = CHR ''='' then param_loop s (\<not> is_key) key val m
      else if c = CHR ''&'' then param_loop s (\<not> is_key) [] [] (m(key \<mapsto> val))
      else if is_key then param_loop s is_key (key @ [c]) val m
      else param_loop s is_key key (val @ [c]) m)"

text \<open>
  The index of the loop is a \<open>uint32_t\<close> that is compared with a length of 64 bits: it wraps around before it reaches a
  length of \<open>2 ^ 32\<close> or more.
\<close>

definition parse_params :: "bytes \<Rightarrow> nat \<Rightarrow> NetUrl \<Rightarrow> (net_error + bool) \<times> NetUrl" where
  "parse_params channel pPos u =
     (if length channel \<ge> 2 ^ 32 then (Inl Loops_forever, u)
      else (Inr True, u\<lparr>params := param_loop (drop (pPos + 1) channel) True [] [] (params u)\<rparr>))"

definition parse :: "bytes \<Rightarrow> NetUrl \<Rightarrow> (net_error + bool) \<times> NetUrl" where
  "parse channel u =
     (let u = reset u
      in case find_str ''://'' channel 0 of
           None \<Rightarrow> (Inr False, u)
         | Some pos \<Rightarrow>
             let u = u\<lparr>protocol := take pos channel\<rparr>;
                 pos = pos + 2;
                 pPos = (case find_str ''?'' (drop pos channel) pos of None \<Rightarrow> length channel | Some p \<Rightarrow> p);
                 hostInfo = slice channel (pos + 1) (pPos - (pos + 1))
             in case find_str '':'' hostInfo 0 of
                  None \<Rightarrow> parse_params channel pPos (u\<lparr>host := hostInfo\<rparr>)
                | Some cPos \<Rightarrow>
                    let u = u\<lparr>host := take cPos hostInfo\<rparr>; p = drop (cPos + 1) hostInfo
                    in if p \<noteq> [] then
                         case std_stoi p of
                           Inl err \<Rightarrow> (Inl err, u)
                         | Inr n \<Rightarrow> parse_params channel pPos (u\<lparr>port := of_int n\<rparr>)
                       else parse_params channel pPos u)"

definition NetUrl_string :: "bytes \<Rightarrow> net_error + NetUrl" where
  "NetUrl_string url = (case parse url NetUrl_empty of (Inl err, _) \<Rightarrow> Inl err | (Inr _, u) \<Rightarrow> Inr u)"

text \<open>The entries in the order of an iteration over the map.\<close>

definition iteration :: "(bytes \<times> bytes) list \<Rightarrow> (bytes \<rightharpoonup> bytes) \<Rightarrow> bool" where
  "iteration ps m \<longleftrightarrow> distinct (map fst ps) \<and> map_of ps = m"

definition encode :: "NetUrl \<Rightarrow> (bytes \<times> bytes) list \<Rightarrow> bytes" where
  "encode u ps =
     protocol u @ ''://'' @ host u @ (if port u > 0 then '':'' @ nat_string (unat (port u)) else []) @
     (if ps \<noteq> [] then ''?'' @ concat (map (\<lambda>(k, v). k @ ''='' @ v @ ''&'') ps) else [])"

definition dump :: "NetUrl \<Rightarrow> (bytes \<times> bytes) list \<Rightarrow> bytes" where
  "dump u ps =
     ''protocol : '' @ protocol u @ [CHR 0x0A] @ ''host : '' @ host u @ [CHR 0x0A] @
     ''port : '' @ nat_string (unat (port u)) @ [CHR 0x0A] @
     concat (map (\<lambda>(k, v). k @ '' : '' @ v @ [CHR 0x0A]) ps)"

definition has :: "NetUrl \<Rightarrow> bytes \<Rightarrow> bool" where
  "has u key \<longleftrightarrow> params u key \<noteq> None"

definition set_param :: "bytes \<Rightarrow> bytes \<Rightarrow> NetUrl \<Rightarrow> NetUrl" where
  "set_param key val u = u\<lparr>params := (params u)(key \<mapsto> val)\<rparr>"

definition get_param :: "NetUrl \<Rightarrow> bytes \<Rightarrow> bytes \<Rightarrow> bytes" where
  "get_param u key dft = (case params u key of Some v \<Rightarrow> v | None \<Rightarrow> dft)"

text \<open>\<open>get<T>\<close> with the caster of the type.\<close>

definition get_as :: "(bytes \<Rightarrow> 'a) \<Rightarrow> NetUrl \<Rightarrow> bytes \<Rightarrow> 'a \<Rightarrow> 'a" where
  "get_as cast u key dft = (case params u key of Some v \<Rightarrow> cast v | None \<Rightarrow> dft)"

text \<open>
  \<open>TypeCaster<uint32_t>\<close>: the stream reads blanks, a sign and digits, fails without digits and on a number
  that is too large, and negates after a minus; then nothing may follow.
\<close>

definition cast_uint32 :: "bytes \<Rightarrow> u32" where
  "cast_uint32 v =
     (let (neg, s) = sign (dropWhile isspace v); d = takeWhile isdigit s; n = string_value d
      in if d = [] \<or> n > 4294967295 \<or> dropWhile isdigit s \<noteq> [] then 0
         else if neg then - of_nat n else of_nat n)"

definition cast_bool :: "bytes \<Rightarrow> bool" where
  "cast_bool v = (if v = ''false'' \<or> v = ''0'' \<or> v = ''no'' then False else True)"

section \<open>Options\<close>

record NetOptions =
  tcp_delay :: bool
  sync :: bool
  reuse :: bool
  backlogs :: u32
  workers :: u32
  send_buffer_size :: u32
  recv_buffer_size :: u32
  sync_mode :: u32
  sync_accept_threads :: u32
  encryption :: bytes
  chain_file :: bytes
  dh_file :: bytes

text \<open>The number of processors is an argument.\<close>

definition NetOptions_default :: "u32 \<Rightarrow> NetOptions" where
  "NetOptions_default hardware_concurrency =
     \<lparr>tcp_delay = False, sync = False, reuse = True, backlogs = 128, workers = hardware_concurrency,
      send_buffer_size = 2 * 1024 * 1024, recv_buffer_size = 2 * 1024 * 1024, sync_mode = 0, sync_accept_threads = 0,
      encryption = [], chain_file = ''cert/server.pem'', dh_file = ''cert/dh2048.pem''\<rparr>"

definition options_from_url :: "u32 \<Rightarrow> NetUrl \<Rightarrow> NetOptions" where
  "options_from_url hardware_concurrency urlInfo =
     (let opts = NetOptions_default hardware_concurrency;
          opts = opts\<lparr>tcp_delay := get_as cast_bool urlInfo ''tcp_delay'' (tcp_delay opts)\<rparr>;
          opts = opts\<lparr>sync := get_as cast_bool urlInfo ''sync'' (sync opts)\<rparr>;
          opts = opts\<lparr>reuse := get_as cast_bool urlInfo ''reuse'' (reuse opts)\<rparr>;
          opts = opts\<lparr>backlogs := get_as cast_uint32 urlInfo ''backlogs'' (backlogs opts)\<rparr>;
          opts = opts\<lparr>send_buffer_size := get_as cast_uint32 urlInfo ''sbuf_size'' (send_buffer_size opts)\<rparr>;
          opts = opts\<lparr>recv_buffer_size := get_as cast_uint32 urlInfo ''rbuf_size'' (recv_buffer_size opts)\<rparr>;
          opts = opts\<lparr>encryption := get_param urlInfo ''encryption'' (encryption opts)\<rparr>;
          opts = opts\<lparr>chain_file := get_param urlInfo ''cert'' (chain_file opts)\<rparr>;
          opts = opts\<lparr>dh_file := get_param urlInfo ''cert_key'' (dh_file opts)\<rparr>
      in opts)"

definition options_from_text :: "u32 \<Rightarrow> bytes \<Rightarrow> net_error + NetOptions" where
  "options_from_text hardware_concurrency url =
     (case NetUrl_string url of Inl err \<Rightarrow> Inl err | Inr urlInfo \<Rightarrow> Inr (options_from_url hardware_concurrency urlInfo))"

section \<open>Searching\<close>

text \<open>A separator is found where it was put when the text before it does not contain it.\<close>

lemma find_str_char: "c \<notin> set s \<Longrightarrow> find_str [c] (s @ t) i = find_str [c] t (i + length s)"
  by (induction s arbitrary: i) auto

lemma find_str_protocol:
  assumes "find_str ''://'' s j = None"
  shows "find_str ''://'' (s @ ''://'' @ t) i = Some (i + length s)"
  using assms
proof (induction s arbitrary: i j)
  case (Cons c s)
  then have IH: "find_str ''://'' (s @ ''://'' @ t) (Suc i) = Some (Suc i + length s)" by (auto split: if_splits)
  have "take 3 (c # s @ ''://'' @ t) \<noteq> ''://''"
  proof
    assume p: "take 3 (c # s @ ''://'' @ t) = ''://''"
    obtain a b r where s: "s = [] \<or> s = [a] \<or> s = a # b # r" by (metis neq_Nil_conv)
    from s p Cons.prems show False by (auto simp: numeral_3_eq_3 split: if_splits)
  qed
  with IH show ?case by (simp add: numeral_3_eq_3)
qed simp

lemma param_loop_word:
  assumes "CHR ''='' \<notin> set w" "CHR ''&'' \<notin> set w"
  shows "param_loop (w @ t) b key val m = param_loop t b (if b then key @ w else key) (if b then val else val @ w) m"
  using assms by (induction w arbitrary: key val) auto

definition plain_entry :: "bytes \<times> bytes \<Rightarrow> bool" where
  "plain_entry kv \<longleftrightarrow> CHR ''='' \<notin> set (fst kv @ snd kv) \<and> CHR ''&'' \<notin> set (fst kv @ snd kv)"

lemma param_loop_entries:
  assumes "list_all plain_entry ps" "distinct (map fst ps)"
  shows "param_loop (concat (map (\<lambda>(k, v). k @ ''='' @ v @ ''&'') ps)) True [] [] m = m ++ map_of ps"
  using assms
proof (induction ps arbitrary: m)
  case (Cons kv ps)
  obtain k v where kv: "kv = (k, v)" by fastforce
  have "param_loop (concat (map (\<lambda>(k, v). k @ ''='' @ v @ ''&'') (kv # ps))) True [] [] m =
      param_loop (concat (map (\<lambda>(k, v). k @ ''='' @ v @ ''&'') ps)) True [] [] (m(k \<mapsto> v))"
    using Cons.prems(1) kv by (simp add: plain_entry_def param_loop_word)
  also have "\<dots> = m(k \<mapsto> v) ++ map_of ps" using Cons by simp
  also have "\<dots> = m ++ map_of (kv # ps)"
    using Cons.prems(2) kv by (simp add: map_add_upd_left dom_map_of_conv_image_fst)
  finally show ?case .
qed simp

lemma takeWhile_digits: "decimal s \<Longrightarrow> takeWhile isdigit s = s"
  unfolding takeWhile_eq_all_conv decimal_def list_all_iff isdigit_def by blast

lemma std_stoi_nat_string:
  "std_stoi (nat_string n) = (if n \<le> 2147483647 then Inr (int n) else Inl Out_of_int)"
proof -
  obtain c s where cs: "nat_string n = c # s" by (cases "nat_string n") auto
  then have c: "48 \<le> (of_char c :: nat)" "(of_char c :: nat) \<le> 57" using nat_string_digits [of n] by (auto simp: decimal_def)
  have sp: "c \<noteq> d" if "(of_char d :: nat) < 48" for d using c that by auto
  have "\<not> isspace c" unfolding isspace_def using sp by simp
  then have "sign (dropWhile isspace (nat_string n)) = (False, nat_string n)"
    using cs sp [of "CHR ''-''"] sp [of "CHR ''+''"] by (simp add: sign_def)
  then show ?thesis
    by (auto simp: std_stoi_def Let_def takeWhile_digits [OF nat_string_digits] nat_string_value)
qed

section \<open>Parsing a text that is given by its pieces\<close>

text \<open>The text behind the host: empty, or a question mark and the parameters.\<close>

lemma parse_pieces:
  assumes pr: "find_str ''://'' pr 0 = None" and hi: "CHR ''?'' \<notin> set hi" and q: "q = [] \<or> hd q = CHR ''?''"
  shows "parse (pr @ ''://'' @ hi @ q) u =
    (let channel = pr @ ''://'' @ hi @ q; pPos = length pr + 3 + length hi; u = (reset u)\<lparr>protocol := pr\<rparr>
     in case find_str '':'' hi 0 of
          None \<Rightarrow> parse_params channel pPos (u\<lparr>host := hi\<rparr>)
        | Some cPos \<Rightarrow>
            let u = u\<lparr>host := take cPos hi\<rparr>; p = drop (cPos + 1) hi
            in if p \<noteq> [] then
                 case std_stoi p of Inl err \<Rightarrow> (Inl err, u) | Inr n \<Rightarrow> parse_params channel pPos (u\<lparr>port := of_int n\<rparr>)
               else parse_params channel pPos u)"
proof -
  let ?c = "pr @ ''://'' @ hi @ q" and ?n = "length pr"
  have p: "find_str ''://'' ?c 0 = Some ?n" using find_str_protocol [OF pr, of "hi @ q" 0] by simp
  have d: "drop (?n + 2) ?c = CHR ''/'' # hi @ q" by simp
  have "find_str ''?'' (drop (?n + 2) ?c) (?n + 2) = find_str ''?'' q (?n + 3 + length hi)"
    unfolding d using find_str_char [OF hi, of q "?n + 3"] by (simp add: numeral_2_eq_2 numeral_3_eq_3)
  also have "\<dots> = (if q = [] then None else Some (?n + 3 + length hi))" using q by (cases q) auto
  finally have q': "(case find_str ''?'' (drop (?n + 2) ?c) (?n + 2) of None \<Rightarrow> length ?c | Some p \<Rightarrow> p) = ?n + 3 + length hi"
    by (cases "q = []") simp_all
  have h: "slice ?c (?n + 2 + 1) (?n + 3 + length hi - (?n + 2 + 1)) = hi" by (simp add: slice_def)
  have t: "take ?n ?c = pr" by simp
  show ?thesis unfolding parse_def Let_def p option.case q' h t ..
qed

lemma parse_params_pieces:
  assumes "length (x @ q) < 2 ^ 32"
  shows "parse_params (x @ q) (length x) u = (Inr True, u\<lparr>params := param_loop (drop 1 q) True [] [] (params u)\<rparr>)"
  using assms by (simp add: parse_params_def)

lemma digits_free: "c \<notin> set (nat_string n)" if "(of_char c :: nat) < 48 \<or> 57 < (of_char c :: nat)"
  using that nat_string_digits [of n] by (auto simp: decimal_def list_all_iff)

text \<open>Host, port and parameters of a text with a port in decimal notation, or without port.\<close>

lemma parse_endpoint:
  assumes pr: "find_str ''://'' pr 0 = None" and h: "CHR ''?'' \<notin> set h" "CHR '':'' \<notin> set h" and q: "q = [] \<or> hd q = CHR ''?''"
    and po: "po = (case n of None \<Rightarrow> [] | Some n \<Rightarrow> '':'' @ nat_string n)" and len: "length (pr @ ''://'' @ h @ po @ q) < 2 ^ 32"
  shows "parse (pr @ ''://'' @ h @ po @ q) v =
    (if \<exists>m. n = Some m \<and> m > 2147483647 then (Inl Out_of_int, NetUrl_make pr h 0)
     else (Inr True, (NetUrl_make pr h (case n of None \<Rightarrow> 0 | Some n \<Rightarrow> of_nat n))
       \<lparr>params := param_loop (drop 1 q) True [] [] Map.empty\<rparr>))"
proof -
  have hp: "CHR ''?'' \<notin> set (h @ po)" using h(1) digits_free [of "CHR ''?''"] po by (auto split: option.split)
  have pp: "parse_params (pr @ ''://'' @ (h @ po) @ q) (length pr + 3 + length (h @ po)) w =
      (Inr True, w\<lparr>params := param_loop (drop 1 q) True [] [] (params w)\<rparr>)" for w
    using parse_params_pieces [of "pr @ ''://'' @ h @ po" q w] len by (simp add: numeral_3_eq_3)
  have c: "find_str '':'' (h @ po) 0 = (case n of None \<Rightarrow> None | Some m \<Rightarrow> Some (length h))"
    using find_str_char [OF h(2), of po 0] po by (simp split: option.split)
  have e: "pr @ ''://'' @ h @ po @ q = pr @ ''://'' @ (h @ po) @ q" by simp
  show ?thesis
  proof (cases n)
    case None
    then show ?thesis unfolding e parse_pieces [OF pr hp q] Let_def c option.case pp
      using po by (simp add: reset_def NetUrl_make_def NetUrl_empty_def)
  next
    case (Some m)
    then have "drop (length h + 1) (h @ po) = nat_string m" "take (length h) (h @ po) = h" using po by simp_all
    with Some show ?thesis unfolding e parse_pieces [OF pr hp q] Let_def c option.case pp
      by (simp add: reset_def NetUrl_make_def NetUrl_empty_def std_stoi_nat_string)
  qed
qed

section \<open>Properties\<close>



text \<open>
  The port of an endpoint in decimal notation is taken modulo \<open>2 ^ 16\<close>: no number that is too large for a port is
  rejected up to the largest \<open>int\<close>, and a larger one throws, with protocol and host already replaced.
\<close>

theorem net_url_port:
  assumes "find_str ''://'' pr 0 = None" "CHR ''?'' \<notin> set h" "CHR '':'' \<notin> set h" "length (pr @ ''://'' @ h @ '':'' @ nat_string n) < 2 ^ 32"
  shows "parse (pr @ ''://'' @ h @ '':'' @ nat_string n) v =
    (if n \<le> 2147483647 then (Inr True, NetUrl_make pr h (of_nat n)) else (Inl Out_of_int, NetUrl_make pr h 0))"
  using parse_endpoint [OF assms(1-3), of "[]" _ "Some n" v] assms(4)
  by (simp add: NetUrl_make_def NetUrl_empty_def)

theorem net_url_port_witness:
  "parse (''tcp'' @ ''://'' @ ''h'' @ '':'' @ nat_string 65616) NetUrl_empty = (Inr True, NetUrl_make ''tcp'' ''h'' 80)"
proof -
  have "length (nat_string 65616) \<le> 5" by (simp add: nat_string.simps)
  moreover have "find_str ''://'' ''tcp'' 0 = None" by code_simp
  moreover have w: "NetUrl_make ''tcp'' ''h'' 65616 = NetUrl_make ''tcp'' ''h'' 80" by (rule arg_cong) (simp add: word_unat_eq_iff)
  ultimately show ?thesis using net_url_port [of "''tcp''" "''h''" 65616 NetUrl_empty] by (simp add: w)
qed

text \<open>
  \<open>=\<close> and \<open>&\<close> both toggle whether a key or a value is read, so that a second \<open>=\<close> in a parameter, or a
  parameter without \<open>=\<close>, turns the keys and values of the rest around. And the caster of booleans compares the text it was given
  and not the one in lower case.
\<close>

theorem net_url_params_toggle:
  "param_loop ''k=a=b&c=d'' True [] [] Map.empty = [''kb'' \<mapsto> ''a'', ''d'' \<mapsto> ''c''] \<and>
   param_loop ''a&b=1'' True [] [] Map.empty = [''a'' \<mapsto> [], ''1'' \<mapsto> ''b''] \<and>
   cast_bool ''FALSE'' \<and> \<not> cast_bool ''false''"
  by (simp add: cast_bool_def)

section \<open>Who uses it\<close>

text \<open>
  \<open>HttpServer::start\<close> writes its host and port as a URL, and \<open>TcpListener::start\<close> (src/include/tcp/tcp\_listener.h)
  reads them back to listen on; so does \<open>TcpConnector::add_connection\<close> to connect.
\<close>

definition server_start_url :: "bytes \<Rightarrow> u16 \<Rightarrow> bytes" where
  "server_start_url h p = ''tcp://'' @ h @ '':'' @ nat_string (unat p)"

definition listener_start :: "bytes \<Rightarrow> net_error + u16 \<times> bytes" where
  "listener_start url = (case parse url NetUrl_empty of (Inl err, u) \<Rightarrow> Inl err | (Inr _, u) \<Rightarrow> Inr (port u, host u))"

definition connector_endpoint :: "bytes \<Rightarrow> net_error + bytes \<times> u16" where
  "connector_endpoint url = (case parse url NetUrl_empty of (Inl err, u) \<Rightarrow> Inl err | (Inr _, u) \<Rightarrow> Inr (host u, port u))"

text \<open>
  An HTTP server listens on exactly the host and the port it is started with, for every port and every host in which no colon and no
  question mark occurs (an IPv6 address is cut at its first colon).
\<close>

theorem http_server_endpoint:
  assumes "CHR ''?'' \<notin> set h" "CHR '':'' \<notin> set h" "length h < 2 ^ 31"
  shows "listener_start (server_start_url h p) = Inr (p, h)"
proof -
  have b: "unat p < 65536" using unsigned_less [of p, where 'a = nat] by simp
  have l: "length (nat_string n) \<le> Suc n" for n
  proof (induction n rule: nat_string.induct)
    case (1 n)
    show ?case
    proof (cases "n < 10")
      case True
      then show ?thesis by (subst nat_string.simps) simp
    next
      case False
      then have "Suc (n div 10) < Suc n" by simp
      with 1 [OF False] False show ?thesis by (subst nat_string.simps) simp
    qed
  qed
  have f: "find_str ''://'' ''tcp'' 0 = None" by code_simp
  have e: "server_start_url h p = ''tcp'' @ ''://'' @ h @ ('':'' @ nat_string (unat p)) @ []" by (simp add: server_start_url_def)
  have "length (''tcp'' @ ''://'' @ h @ ('':'' @ nat_string (unat p)) @ []) < 2 ^ 32" using assms(3) l [of "unat p"] b by simp
  from parse_endpoint [OF f assms(1,2) _ _ this, of "Some (unat p)" NetUrl_empty] b
  have "parse (server_start_url h p) NetUrl_empty = (Inr True, NetUrl_make ''tcp'' h p)"
    unfolding e by (simp add: NetUrl_make_def NetUrl_empty_def)
  then show ?thesis by (simp add: listener_start_def NetUrl_make_def NetUrl_empty_def)
qed

theorem http_server_endpoint_witness: "listener_start (server_start_url ''0.0.0.0'' 8888) = Inr (8888, ''0.0.0.0'')"
  by (rule http_server_endpoint) simp_all

end
