(* ===== verification/Socket_Setup.thy ===== *)
theory Socket_Setup
  imports Net_Url Tcp_Server
begin

text \<open>
  Setting up a listening socket: \<open>TcpListener::start\<close> and \<open>stop\<close> with their socket options
  (src/include/tcp/tcp\_listener.h), and starting and stopping a \<open>TcpConnector\<close>
  (src/include/tcp/tcp\_connector.h). The calls of the kernel are a parameter. A call of \<open>exit\<close> ends the
  program, which is a result of its own. Printing, and the handling of SIGPIPE, are left out.
\<close>

section \<open>Socket calls\<close>

record sockaddr =
  sa_host :: bytes
  sa_port :: u16

text \<open>Results are those of the C functions: a negative number is an error.\<close>

record 'w socket_calls =
  new_socket :: "'w \<Rightarrow> int \<times> 'w"
  reuse_address :: "int \<Rightarrow> 'w \<Rightarrow> int \<times> 'w"
  set_fionbio :: "int \<Rightarrow> 'w \<Rightarrow> int \<times> 'w"
  get_flags :: "int \<Rightarrow> 'w \<Rightarrow> int \<times> 'w"
  set_flags :: "int \<Rightarrow> u32 \<Rightarrow> 'w \<Rightarrow> int \<times> 'w"
  bind_socket :: "int \<Rightarrow> sockaddr \<Rightarrow> 'w \<Rightarrow> int \<times> 'w"
  listen_socket :: "int \<Rightarrow> nat \<Rightarrow> 'w \<Rightarrow> int \<times> 'w"
  close_socket :: "int \<Rightarrow> 'w \<Rightarrow> 'w"

datatype ('a, 'w) exit_result = Exited 'w | Running 'a 'w

fun then_run :: "('a, 'w) exit_result \<Rightarrow> ('a \<Rightarrow> 'w \<Rightarrow> ('b, 'w) exit_result) \<Rightarrow> ('b, 'w) exit_result" where
  "then_run (Exited w) f = Exited w"
| "then_run (Running x w) f = f x w"

text \<open>A failed call closes the socket and exits.\<close>

definition or_exit :: "'w socket_calls \<Rightarrow> int \<Rightarrow> int \<times> 'w \<Rightarrow> (unit, 'w) exit_result" where
  "or_exit k sd r = (let (rc, w) = r in if rc < 0 then Exited (close_socket k sd w) else Running () w)"

definition open_socket :: "'w socket_calls \<Rightarrow> 'w \<Rightarrow> (int, 'w) exit_result" where
  "open_socket k w = (let (sd, w) = new_socket k w in if sd < 0 then Exited w else Running sd w)"

definition set_reuse :: "'w socket_calls \<Rightarrow> int \<Rightarrow> 'w \<Rightarrow> (unit, 'w) exit_result" where
  "set_reuse k sd w = or_exit k sd (reuse_address k sd w)"

definition set_nonblocking :: "'w socket_calls \<Rightarrow> int \<Rightarrow> 'w \<Rightarrow> (unit, 'w) exit_result" where
  "set_nonblocking k sd w = or_exit k sd (set_fionbio k sd w)"

definition do_bind :: "'w socket_calls \<Rightarrow> int \<Rightarrow> u16 \<Rightarrow> bytes \<Rightarrow> 'w \<Rightarrow> (unit, 'w) exit_result" where
  "do_bind k sd p h w = or_exit k sd (bind_socket k sd \<lparr>sa_host = h, sa_port = p\<rparr> w)"

definition do_listen :: "'w socket_calls \<Rightarrow> int \<Rightarrow> 'w \<Rightarrow> (unit, 'w) exit_result" where
  "do_listen k sd w = or_exit k sd (listen_socket k sd 32 w)"

text \<open>The options of an accepted socket; \<open>O_NONBLOCK\<close> is 2048.\<close>

definition O_NONBLOCK :: u32 where "O_NONBLOCK = 0x800"

definition set_nodelay :: "'w socket_calls \<Rightarrow> int \<Rightarrow> 'w \<Rightarrow> 'w" where
  "set_nodelay k sock w =
     (let (opts, w) = get_flags k sock w in snd (set_flags k sock (of_int opts OR O_NONBLOCK) w))"

definition set_noblock :: "'w socket_calls \<Rightarrow> int \<Rightarrow> 'w \<Rightarrow> 'w" where
  "set_noblock k sock w =
     (let (opts, w) = get_flags k sock w
      in if opts < 0 then w else snd (set_flags k sock (of_int opts OR O_NONBLOCK) w))"

section \<open>The listener\<close>

text \<open>The members of \<open>TcpListener\<close> besides its workers; \<open>listener_addr\<close> is the address of its object.\<close>

record tcp_listener =
  listen_sd :: int
  listen_running :: bool
  listen_addr :: bytes
  listener_addr :: u64

definition TcpListener :: "u64 \<Rightarrow> tcp_listener" where
  "TcpListener a = \<lparr>listen_sd = -1, listen_running = False, listen_addr = [], listener_addr = a\<rparr>"

definition listener_start_port ::
    "'w socket_calls \<Rightarrow> 'w epoll_kernel \<Rightarrow> ('h, 't) epoll_worker \<Rightarrow> u16 \<Rightarrow> bytes \<Rightarrow> tcp_listener \<Rightarrow> 'w \<Rightarrow>
     (int \<times> tcp_listener, 'w) exit_result" where
  "listener_start_port k ek listenWorker p h l w =
     (let l = l\<lparr>listen_addr := h\<rparr> in
      then_run (open_socket k w) (\<lambda>sd w.
        let l = l\<lparr>listen_sd := sd\<rparr> in
        then_run (set_reuse k (listen_sd l) w) (\<lambda>_ w.
        then_run (do_bind k (listen_sd l) p h w) (\<lambda>_ w.
        then_run (do_listen k (listen_sd l) w) (\<lambda>_ w.
          let (_, w) = add_event ek listenWorker (listen_sd l) (listener_addr l) (EPOLLIN OR EPOLLERR) w
          in Running (0, l) w)))))"

definition listener_start_url ::
    "'w socket_calls \<Rightarrow> 'w epoll_kernel \<Rightarrow> ('h, 't) epoll_worker \<Rightarrow> bytes \<Rightarrow> tcp_listener \<Rightarrow> 'w \<Rightarrow>
     net_error + (int \<times> tcp_listener, 'w) exit_result" where
  "listener_start_url k ek listenWorker url l w =
     (case listener_start url of
        Inl err \<Rightarrow> Inl err
      | Inr (p, h) \<Rightarrow> Inr (listener_start_port k ek listenWorker p h l w))"

text \<open>\<open>stop\<close>; the first worker is the listener's own.\<close>

definition listener_stop ::
    "'w socket_calls \<Rightarrow> ('h, 't) epoll_worker \<Rightarrow> ('h, 't) epoll_worker list \<Rightarrow> tcp_listener \<Rightarrow> 'w \<Rightarrow>
     ('h, 't) epoll_worker \<times> ('h, 't) epoll_worker list \<times> tcp_listener \<times> 'w" where
  "listener_stop k listenWorker ws l w =
     (let (l, w) = (if listen_running l then (l\<lparr>listen_running := False\<rparr>, close_socket k (listen_sd l) w) else (l, w))
      in (stop listenWorker, map stop ws, l, w))"

text \<open>A timer of the listener is one of its worker.\<close>

definition listener_start_timer ::
    "('h, 't list \<times> 'w) timer_env \<Rightarrow> 'h \<Rightarrow> u32 \<Rightarrow> bool \<Rightarrow> ('h, 't) epoll_worker \<Rightarrow> 'w \<Rightarrow> u32 \<times> ('h, 't) epoll_worker \<times> 'w" where
  "listener_start_timer env hdl ival lp listenWorker w =
     (let (tid, (ts, w), t) = start_timer env hdl ival lp (tasks listenWorker, w) (timers listenWorker)
      in (tid, listenWorker\<lparr>timers := t, tasks := ts\<rparr>, w))"

text \<open>The constructors, which start the workers they make: \<open>fresh n\<close> is the started worker made as the \<open>n\<close>-th.\<close>

definition TcpListener_own :: "(nat \<Rightarrow> 'v) \<Rightarrow> 'v option \<Rightarrow> 'v list \<Rightarrow> 'v listener" where
  "TcpListener_own fresh lisWorker ws =
     \<lparr>worker_index = 0, listen_worker = (case lisWorker of None \<Rightarrow> fresh 0 | Some v \<Rightarrow> v), tcp_workers = ws\<rparr>"

definition TcpListener_workers :: "(nat \<Rightarrow> 'v) \<Rightarrow> 'v list \<Rightarrow> 'v listener" where
  "TcpListener_workers fresh ws = \<lparr>worker_index = 0, listen_worker = fresh 0, tcp_workers = ws\<rparr>"

definition TcpListener_count :: "(nat \<Rightarrow> 'v) \<Rightarrow> int \<Rightarrow> 'v listener" where
  "TcpListener_count fresh ws =
     \<lparr>worker_index = 0, listen_worker = fresh 0, tcp_workers = map (\<lambda>i. fresh (Suc i)) [0..<nat ws]\<rparr>"

section \<open>The connector\<close>

record 'v tcp_connector =
  connector_running :: bool
  connector_worker :: 'v
  default_worker :: "'v option"
  reconnect_flag :: bool

text \<open>\<open>fresh\<close> is the worker that the constructor makes, and \<open>started\<close> what starting does to it.\<close>

definition TcpConnector :: "'v \<Rightarrow> 'v option \<Rightarrow> 'v tcp_connector" where
  "TcpConnector fresh worker =
     (case worker of
        Some v \<Rightarrow> \<lparr>connector_running = False, connector_worker = v, default_worker = None, reconnect_flag = True\<rparr>
      | None \<Rightarrow> \<lparr>connector_running = False, connector_worker = fresh, default_worker = Some fresh, reconnect_flag = True\<rparr>)"

definition connector_start :: "('v \<Rightarrow> 'v) \<Rightarrow> 'v tcp_connector \<Rightarrow> bool \<times> 'v tcp_connector" where
  "connector_start started cn =
     (True,
      case default_worker cn of
        Some v \<Rightarrow> cn\<lparr>default_worker := Some (started v), connector_worker := started v\<rparr>
      | None \<Rightarrow> cn)"

definition connector_stop :: "'v tcp_connector \<Rightarrow> 'v tcp_connector" where
  "connector_stop cn = cn\<lparr>connector_running := False\<rparr>"

definition connector_reconnect :: "bool \<Rightarrow> 'v tcp_connector \<Rightarrow> 'v tcp_connector" where
  "connector_reconnect flag cn = cn\<lparr>reconnect_flag := flag\<rparr>"

section \<open>Descriptors\<close>

text \<open>
  The documented behaviour of the calls on the open descriptors \<open>fds\<close>: \<open>socket\<close> gives a new one or fails, closing
  removes one, and no other call changes them.
\<close>

definition sockets_ok :: "'w socket_calls \<Rightarrow> ('w \<Rightarrow> int set) \<Rightarrow> bool" where
  "sockets_ok k fds \<longleftrightarrow>
     (\<forall>w sd w'. new_socket k w = (sd, w') \<longrightarrow> (if sd < 0 then fds w' = fds w else sd \<notin> fds w \<and> fds w' = insert sd (fds w))) \<and>
     (\<forall>sd w. fds (snd (reuse_address k sd w)) = fds w) \<and> (\<forall>sd w. fds (snd (set_fionbio k sd w)) = fds w) \<and>
     (\<forall>sd a w. fds (snd (bind_socket k sd a w)) = fds w) \<and> (\<forall>sd n w. fds (snd (listen_socket k sd n w)) = fds w) \<and>
     (\<forall>sd w. fds (close_socket k sd w) = fds w - {sd})"

definition epoll_keeps :: "'w epoll_kernel \<Rightarrow> ('w \<Rightarrow> int set) \<Rightarrow> bool" where
  "epoll_keeps ek fds \<longleftrightarrow>
     (\<forall>epfd op sd ev w. fds (snd (sys_epoll_ctl ek epfd op sd ev w)) = fds w) \<and> (\<forall>sd w. fds (sys_close ek sd w) = fds w - {sd})"

text \<open>What holds when a part of the set-up exits, and when it goes on.\<close>

definition exit_holds :: "('w \<Rightarrow> bool) \<Rightarrow> ('a \<Rightarrow> 'w \<Rightarrow> bool) \<Rightarrow> ('a, 'w) exit_result \<Rightarrow> bool" where
  "exit_holds P Q r \<longleftrightarrow> (case r of Exited w \<Rightarrow> P w | Running x w \<Rightarrow> Q x w)"

lemma exit_holds_then: "exit_holds P Q r \<Longrightarrow> (\<And>x w. Q x w \<Longrightarrow> exit_holds P R (f x w)) \<Longrightarrow> exit_holds P R (then_run r f)"
  by (cases r) (simp_all add: exit_holds_def)

text \<open>Besides \<open>A\<close>, the socket \<open>sd\<close> is open.\<close>

definition socket_open :: "('w \<Rightarrow> int set) \<Rightarrow> int set \<Rightarrow> int \<Rightarrow> 'w \<Rightarrow> bool" where
  "socket_open fds A sd w \<longleftrightarrow> 0 \<le> sd \<and> sd \<notin> A \<and> fds w = insert sd A"

lemma open_socket_holds: "sockets_ok k fds \<Longrightarrow> exit_holds (\<lambda>w'. fds w' = fds w) (socket_open fds (fds w)) (open_socket k w)"
  unfolding sockets_ok_def socket_open_def
  by (cases "new_socket k w") (auto simp: open_socket_def exit_holds_def split: if_splits)

lemma or_exit_holds:
  assumes "sockets_ok k fds" "socket_open fds A sd (snd r)"
  shows "exit_holds (\<lambda>w'. fds w' = A) (\<lambda>_. socket_open fds A sd) (or_exit k sd r)"
  using assms unfolding sockets_ok_def socket_open_def by (cases r) (auto simp: or_exit_def exit_holds_def)

lemma set_up_holds:
  assumes k: "sockets_ok k fds" and w: "socket_open fds A sd w"
  shows "exit_holds (\<lambda>w'. fds w' = A) (\<lambda>_. socket_open fds A sd) (set_reuse k sd w)"
    "exit_holds (\<lambda>w'. fds w' = A) (\<lambda>_. socket_open fds A sd) (set_nonblocking k sd w)"
    "exit_holds (\<lambda>w'. fds w' = A) (\<lambda>_. socket_open fds A sd) (do_bind k sd p h w)"
    "exit_holds (\<lambda>w'. fds w' = A) (\<lambda>_. socket_open fds A sd) (do_listen k sd w)"
  unfolding set_reuse_def set_nonblocking_def do_bind_def do_listen_def
  by (rule or_exit_holds [OF k], use k w in \<open>simp add: sockets_ok_def socket_open_def\<close>)+

text \<open>
  (C40) Starting a listener leaks no descriptor: when it exits, the socket has been closed. When it returns 0, the listening socket is
  new, and it is open unless registering it failed: then it has been closed, and 0 is returned all the same. A
  listener that was started is never stopped: \<open>stop\<close> leaves the socket open.
\<close>

theorem listener_start_stop:
  assumes "sockets_ok k fds" "epoll_keeps ek fds" "\<not> listen_running l"
  shows "case listener_start_port k ek wk p h l w of
      Exited w' \<Rightarrow> fds w' = fds w
    | Running (rc, l') w' \<Rightarrow> rc = 0 \<and> 0 \<le> listen_sd l' \<and> listen_sd l' \<notin> fds w \<and>
        (\<exists>w1. fds w1 = insert (listen_sd l') (fds w) \<and>
          w' = snd (add_event ek wk (listen_sd l') (listener_addr l) (EPOLLIN OR EPOLLERR) w1) \<and>
          fds w' = (if fst (add_event ek wk (listen_sd l') (listener_addr l) (EPOLLIN OR EPOLLERR) w1) \<or> listen_sd l' = 0
                    then insert (listen_sd l') (fds w) else fds w)) \<and>
        listener_stop k wk ws l' w' = (stop wk, map stop ws, l', w')"
proof -
  let ?a = "\<lambda>sd w1. add_event ek wk sd (listener_addr l) (EPOLLIN OR EPOLLERR) w1"
  have a: "fds (snd (?a sd w1)) = (if fst (?a sd w1) \<or> sd = 0 then insert sd (fds w) else fds w)" if "socket_open fds (fds w) sd w1" for sd w1
    using that assms(2) unfolding epoll_keeps_def add_event_def socket_open_def by (auto simp: case_prod_beta Let_def)
  let ?R = "\<lambda>(rc, l') w'. rc = 0 \<and> 0 \<le> listen_sd l' \<and> listen_sd l' \<notin> fds w \<and>
        (\<exists>w1. fds w1 = insert (listen_sd l') (fds w) \<and> w' = snd (?a (listen_sd l') w1) \<and>
          fds w' = (if fst (?a (listen_sd l') w1) \<or> listen_sd l' = 0 then insert (listen_sd l') (fds w) else fds w)) \<and>
        listener_stop k wk ws l' w' = (stop wk, map stop ws, l', w')"
  have last: "exit_holds (\<lambda>w'. fds w' = fds w) ?R
      (let (_, w) = ?a sd w1 in Running (0, l\<lparr>listen_addr := h, listen_sd := sd\<rparr>) w)" if o: "socket_open fds (fds w) sd w1" for sd w1
    using a [OF o] o assms(3) unfolding exit_holds_def
    by (simp add: listener_stop_def case_prod_beta socket_open_def) blast
  have "exit_holds (\<lambda>w'. fds w' = fds w) ?R (listener_start_port k ek wk p h l w)"
    unfolding listener_start_port_def Let_def [of "l\<lparr>listen_addr := h\<rparr>"]
  proof (rule exit_holds_then [OF open_socket_holds [OF assms(1)]])
    fix sd w1
    assume o: "socket_open fds (fds w) sd w1"
    have sel: "listen_sd (l\<lparr>listen_addr := h, listen_sd := sd\<rparr>) = sd" "listener_addr (l\<lparr>listen_addr := h, listen_sd := sd\<rparr>) = listener_addr l"
      by simp_all
    show "exit_holds (\<lambda>w'. fds w' = fds w) ?R (let l = l\<lparr>listen_addr := h, listen_sd := sd\<rparr> in
        then_run (set_reuse k (listen_sd l) w1) (\<lambda>_ w. then_run (do_bind k (listen_sd l) p h w) (\<lambda>_ w.
        then_run (do_listen k (listen_sd l) w) (\<lambda>_ w.
          let (_, w) = add_event ek wk (listen_sd l) (listener_addr l) (EPOLLIN OR EPOLLERR) w in Running (0, l) w))))"
      unfolding Let_def [of "l\<lparr>listen_addr := h, listen_sd := sd\<rparr>"] sel
      by (rule exit_holds_then [OF set_up_holds(1) [OF assms(1) o]], rule exit_holds_then [OF set_up_holds(3) [OF assms(1)]], assumption,
          rule exit_holds_then [OF set_up_holds(4) [OF assms(1)]], assumption, rule last)
  qed
  then show ?thesis unfolding exit_holds_def by (auto split: exit_result.splits)
qed

text \<open>Kernels whose world is the set of the open descriptors: all calls succeed, except that only one socket can be made.\<close>

definition set_sockets :: "int set socket_calls" where
  "set_sockets =
     \<lparr>new_socket = (\<lambda>w. if 3 \<in> w then (-1, w) else (3, insert 3 w)), reuse_address = (\<lambda>sd w. (0, w)), set_fionbio = (\<lambda>sd w. (0, w)),
      get_flags = (\<lambda>sd w. (0, w)), set_flags = (\<lambda>sd fl w. (0, w)), bind_socket = (\<lambda>sd a w. (0, w)),
      listen_socket = (\<lambda>sd n w. (0, w)), close_socket = (\<lambda>sd w. w - {sd})\<rparr>"

definition set_epoll :: "int set epoll_kernel" where
  "set_epoll =
     \<lparr>sys_epoll_create = (\<lambda>w. (4, insert 4 w)), sys_cloexec = (\<lambda>fd w. (0, w)), sys_timerfd_create = (\<lambda>w. (5, insert 5 w)),
      sys_timerfd_settime = (\<lambda>fd t w. (0, w)), sys_epoll_ctl = (\<lambda>epfd op fd ev w. (if epfd = 4 then 0 else -1, w)),
      sys_epoll_wait = (\<lambda>epfd n w. (Wait_events [], w)), sys_close = (\<lambda>fd w. w - {fd})\<rparr>"

theorem listener_start_stop_witness:
  "case listener_start_port set_sockets set_epoll (EpollWorker :: (unit, unit) epoll_worker) 80 ''h'' (TcpListener 9) {0} of
     Exited w \<Rightarrow> False
   | Running (rc, l) w \<Rightarrow> rc = 0 \<and> listen_sd l = 3 \<and> w = {0} \<and> listener_stop set_sockets (EpollWorker :: (unit, unit) epoll_worker) [] l w = (stop EpollWorker, [], l, w)"
proof -
  have k: "sockets_ok set_sockets (\<lambda>w. w)" "epoll_keeps set_epoll (\<lambda>w. w)" "\<not> listen_running (TcpListener 9)"
    by (auto simp: sockets_ok_def set_sockets_def epoll_keeps_def set_epoll_def TcpListener_def split: if_splits)
  have "listener_start_port set_sockets set_epoll (EpollWorker :: (unit, unit) epoll_worker) 80 ''h'' (TcpListener 9) {0} =
      Running (0, (TcpListener 9)\<lparr>listen_addr := ''h'', listen_sd := 3\<rparr>) {0}"
    by (simp add: listener_start_port_def open_socket_def set_sockets_def set_reuse_def do_bind_def do_listen_def or_exit_def add_event_def
        set_epoll_def EpollWorker_def Let_def)
  with listener_start_stop [OF k, where wk = "EpollWorker :: (unit, unit) epoll_worker" and p = 80 and h = "''h''" and w = "{0}" and ws = "[]"] show ?thesis by simp
qed

end
