(* ===== verification/Select_Server.thy ===== *)
theory Select_Server
  imports Socket_Setup
begin

text \<open>
  The echo server of src/src/tcp\_server.cpp, a single \<open>main\<close> around \<open>select\<close>. The calls of the kernel are a
  parameter, on the state \<open>'w\<close> of everything outside. The loops are partial functions: \<open>None\<close> is a loop that does
  not return, or a use of an \<open>fd_set\<close> outside of its bounds. Printing is left out.
\<close>

section \<open>Sets of descriptors\<close>

definition FD_SETSIZE :: int where "FD_SETSIZE = 1024"

definition fd_valid :: "int \<Rightarrow> bool" where
  "fd_valid sd \<longleftrightarrow> 0 \<le> sd \<and> sd < FD_SETSIZE"

definition FD_SET :: "int \<Rightarrow> int set \<Rightarrow> int set option" where
  "FD_SET sd s = (if fd_valid sd then Some (insert sd s) else None)"

definition FD_CLR :: "int \<Rightarrow> int set \<Rightarrow> int set option" where
  "FD_CLR sd s = (if fd_valid sd then Some (s - {sd}) else None)"

definition FD_ISSET :: "int \<Rightarrow> int set \<Rightarrow> bool option" where
  "FD_ISSET sd s = (if fd_valid sd then Some (sd \<in> s) else None)"

section \<open>The program\<close>

datatype io_error = Would_block | Io_error

record timeval =
  tv_sec :: nat
  tv_usec :: nat

text \<open>
  \<open>select\<close> returns its result, the working set and the timeout, which it may change; the errors of the others come with
  whether \<open>errno\<close> is \<open>EWOULDBLOCK\<close>. \<open>recv\<close> gives the bytes it has received.
\<close>

record 'w select_calls = "'w socket_calls" +
  select_fds :: "int \<Rightarrow> int set \<Rightarrow> timeval \<Rightarrow> 'w \<Rightarrow> (int \<times> int set \<times> timeval) \<times> 'w"
  accept_fd :: "int \<Rightarrow> 'w \<Rightarrow> (io_error + int) \<times> 'w"
  recv_fd :: "int \<Rightarrow> nat \<Rightarrow> 'w \<Rightarrow> (io_error + bytes) \<times> 'w"
  send_fd :: "int \<Rightarrow> bytes \<Rightarrow> 'w \<Rightarrow> (io_error + nat) \<times> 'w"

record select_state =
  max_sd :: int
  master_set :: "int set"
  end_server :: bool
  timeout :: timeval

definition SERVER_PORT :: u16 where "SERVER_PORT = 12345"

text \<open>The address is \<open>in6addr_any\<close>.\<close>

definition server_setup :: "('w, 'z) select_calls_scheme \<Rightarrow> 'w \<Rightarrow> (int, 'w) exit_result" where
  "server_setup k w =
     (let s = socket_calls.truncate k in
      then_run (open_socket s w) (\<lambda>sd w.
      then_run (set_reuse s sd w) (\<lambda>_ w.
      then_run (set_nonblocking s sd w) (\<lambda>_ w.
      then_run (do_bind s sd SERVER_PORT ''::'' w) (\<lambda>_ w.
      then_run (do_listen s sd w) (\<lambda>_ w. Running sd w))))))"

text \<open>The state before the loop.\<close>

definition select_init :: "int \<Rightarrow> select_state option" where
  "select_init sd =
     map_option (\<lambda>s. \<lparr>max_sd = sd, master_set = s, end_server = False, timeout = \<lparr>tv_sec = 3 * 60, tv_usec = 0\<rparr>\<rparr>) (FD_SET sd {})"

text \<open>The listening socket is readable.\<close>

partial_function (option) accept_loop ::
    "('w, 'z) select_calls_scheme \<Rightarrow> int \<Rightarrow> select_state \<Rightarrow> 'w \<Rightarrow> (select_state \<times> 'w) option" where
  "accept_loop k sd st w =
     (case accept_fd k sd w of
        (Inl err, w) \<Rightarrow> Some (if err \<noteq> Would_block then st\<lparr>end_server := True\<rparr> else st, w)
      | (Inr new_sd, w) \<Rightarrow>
          Option.bind (FD_SET new_sd (master_set st)) (\<lambda>s.
            let st = st\<lparr>master_set := s\<rparr>;
                st = (if max_sd st < new_sd then st\<lparr>max_sd := new_sd\<rparr> else st)
            in accept_loop k sd st w))"

text \<open>A connection is readable: the loop returns \<open>close_conn\<close>.\<close>

partial_function (option) echo_loop :: "('w, 'z) select_calls_scheme \<Rightarrow> int \<Rightarrow> 'w \<Rightarrow> (bool \<times> 'w) option" where
  "echo_loop k i w =
     (case recv_fd k i 80 w of
        (Inl err, w) \<Rightarrow> Some (err \<noteq> Would_block, w)
      | (Inr data, w) \<Rightarrow>
          if data = [] then Some (True, w)
          else
            case send_fd k i data w of
              (Inl err, w) \<Rightarrow> Some (True, w)
            | (Inr n, w) \<Rightarrow> echo_loop k i w)"

partial_function (option) lower_max :: "int set \<Rightarrow> int \<Rightarrow> int option" where
  "lower_max s m = Option.bind (FD_ISSET m s) (\<lambda>b. if b then Some m else lower_max s (m - 1))"

definition close_conn :: "('w, 'z) select_calls_scheme \<Rightarrow> int \<Rightarrow> select_state \<Rightarrow> 'w \<Rightarrow> (select_state \<times> 'w) option" where
  "close_conn k i st w =
     (let w = close_socket k i w in
      Option.bind (FD_CLR i (master_set st)) (\<lambda>s.
        let st = st\<lparr>master_set := s\<rparr>
        in if i = max_sd st
           then map_option (\<lambda>m. (st\<lparr>max_sd := m\<rparr>, w)) (lower_max (master_set st) (max_sd st))
           else Some (st, w)))"

definition conn_readable :: "('w, 'z) select_calls_scheme \<Rightarrow> int \<Rightarrow> select_state \<Rightarrow> 'w \<Rightarrow> (select_state \<times> 'w) option" where
  "conn_readable k i st w =
     Option.bind (echo_loop k i w) (\<lambda>(close, w). if close then close_conn k i st w else Some (st, w))"

text \<open>The loop through the descriptors of the working set.\<close>

partial_function (option) scan_loop ::
    "('w, 'z) select_calls_scheme \<Rightarrow> int \<Rightarrow> int set \<Rightarrow> int \<Rightarrow> int \<Rightarrow> select_state \<Rightarrow> 'w \<Rightarrow> (select_state \<times> 'w) option" where
  "scan_loop k sd working_set i desc_ready st w =
     (if i \<le> max_sd st \<and> 0 < desc_ready then
        Option.bind (FD_ISSET i working_set) (\<lambda>b.
          if b then
            Option.bind (if i = sd then accept_loop k sd st w else conn_readable k i st w)
              (\<lambda>(st, w). scan_loop k sd working_set (i + 1) (desc_ready - 1) st w)
          else scan_loop k sd working_set (i + 1) desc_ready st w)
      else Some (st, w))"

text \<open>One pass of the main loop; the first component is whether it breaks out.\<close>

definition select_pass ::
    "('w, 'z) select_calls_scheme \<Rightarrow> int \<Rightarrow> select_state \<Rightarrow> 'w \<Rightarrow> (bool \<times> select_state \<times> 'w) option" where
  "select_pass k sd st w =
     (let ((rc, working_set, tv), w) = select_fds k (max_sd st + 1) (master_set st) (timeout st) w;
          st = st\<lparr>timeout := tv\<rparr>
      in if rc \<le> 0 then Some (True, st, w)
         else map_option (\<lambda>r. (False, r)) (scan_loop k sd working_set 0 rc st w))"

partial_function (option) select_loop ::
    "('w, 'z) select_calls_scheme \<Rightarrow> int \<Rightarrow> select_state \<Rightarrow> 'w \<Rightarrow> (select_state \<times> 'w) option" where
  "select_loop k sd st w =
     Option.bind (select_pass k sd st w) (\<lambda>(brk, st, w).
       if brk \<or> end_server st then Some (st, w) else select_loop k sd st w)"

text \<open>The final loop, which closes what is left.\<close>

fun close_all :: "('w, 'z) select_calls_scheme \<Rightarrow> int set \<Rightarrow> int list \<Rightarrow> 'w \<Rightarrow> 'w option" where
  "close_all k s [] w = Some w"
| "close_all k s (i # is') w =
     Option.bind (FD_ISSET i s) (\<lambda>b. close_all k s is' (if b then close_socket k i w else w))"

definition clean_up :: "('w, 'z) select_calls_scheme \<Rightarrow> select_state \<Rightarrow> 'w \<Rightarrow> 'w option" where
  "clean_up k st w = close_all k (master_set st) [0..max_sd st] w"

definition server_main :: "('w, 'z) select_calls_scheme \<Rightarrow> 'w \<Rightarrow> 'w option" where
  "server_main k w =
     (case server_setup k w of
        Exited w \<Rightarrow> Some w
      | Running sd w \<Rightarrow>
          Option.bind (select_init sd) (\<lambda>st. Option.bind (select_loop k sd st w) (\<lambda>(st, w). clean_up k st w)))"

lemmas select_code [code] = accept_loop.simps echo_loop.simps lower_max.simps scan_loop.simps select_loop.simps

section \<open>Descriptors\<close>

text \<open>
  The documented behaviour of the further calls: \<open>accept\<close> gives a descriptor that is not open, \<open>select\<close> reports
  descriptors of the set it was given, and only \<open>accept\<close> changes what is open. The limit on open files is that of an \<open>fd_set\<close>.
\<close>

definition select_ok :: "('w, 'z) select_calls_scheme \<Rightarrow> ('w \<Rightarrow> int set) \<Rightarrow> bool" where
  "select_ok k fds \<longleftrightarrow>
     sockets_ok (socket_calls.truncate k) fds \<and> (\<forall>w. fst (new_socket k w) < FD_SETSIZE) \<and>
     (\<forall>n s tv w rc ws tv' w'. select_fds k n s tv w = ((rc, ws, tv'), w') \<longrightarrow> ws \<subseteq> s \<and> fds w' = fds w) \<and>
     (\<forall>sd w fd w'. accept_fd k sd w = (Inr fd, w') \<longrightarrow> fd_valid fd \<and> fd \<notin> fds w \<and> fds w' = insert fd (fds w)) \<and>
     (\<forall>sd w err w'. accept_fd k sd w = (Inl err, w') \<longrightarrow> fds w' = fds w) \<and>
     (\<forall>i n w. fds (snd (recv_fd k i n w)) = fds w) \<and> (\<forall>i d w. fds (snd (send_fd k i d w)) = fds w)"

lemma select_okD:
  assumes "select_ok k fds"
  shows "sockets_ok (socket_calls.truncate k) fds" "fst (new_socket k w) < FD_SETSIZE"
    "select_fds k n s tv w = ((rc, ws, tv'), w') \<Longrightarrow> ws \<subseteq> s \<and> fds w' = fds w"
    "accept_fd k sd w = (Inr fd, w') \<Longrightarrow> fd_valid fd \<and> fd \<notin> fds w \<and> fds w' = insert fd (fds w)"
    "accept_fd k sd w = (Inl err, w') \<Longrightarrow> fds w' = fds w"
    "recv_fd k i m w = (ra, w') \<Longrightarrow> fds w' = fds w" "send_fd k i d w = (sa, w') \<Longrightarrow> fds w' = fds w"
    "fds (close_socket k i w) = fds w - {i}"
proof -
  from assms show s: "sockets_ok (socket_calls.truncate k) fds" and "fst (new_socket k w) < FD_SETSIZE"
    by (simp_all add: select_ok_def)
  from s show "fds (close_socket k i w) = fds w - {i}" by (simp add: sockets_ok_def socket_calls.defs)
  show "select_fds k n s tv w = ((rc, ws, tv'), w') \<Longrightarrow> ws \<subseteq> s \<and> fds w' = fds w"
    using assms unfolding select_ok_def by metis
  show "accept_fd k sd w = (Inr fd, w') \<Longrightarrow> fd_valid fd \<and> fd \<notin> fds w \<and> fds w' = insert fd (fds w)"
    "accept_fd k sd w = (Inl err, w') \<Longrightarrow> fds w' = fds w"
    using assms unfolding select_ok_def by metis+
  show "recv_fd k i m w = (ra, w') \<Longrightarrow> fds w' = fds w" "send_fd k i d w = (sa, w') \<Longrightarrow> fds w' = fds w"
    using assms unfolding select_ok_def by (metis snd_conv)+
qed

text \<open>Between two turns of any loop: \<open>A\<close> are the descriptors of others.\<close>

definition select_inv :: "('w \<Rightarrow> int set) \<Rightarrow> int set \<Rightarrow> int \<Rightarrow> select_state \<Rightarrow> 'w \<Rightarrow> bool" where
  "select_inv fds A sd st w \<longleftrightarrow>
     sd \<in> master_set st \<and> max_sd st \<in> master_set st \<and> (\<forall>x \<in> master_set st. fd_valid x \<and> x \<le> max_sd st) \<and>
     A \<inter> master_set st = {} \<and> fds w = A \<union> master_set st"

lemma select_invD:
  assumes "select_inv fds A sd st w"
  shows "fd_valid (max_sd st)" "fd_valid sd" "\<And>x. x \<in> master_set st \<Longrightarrow> fd_valid x \<and> x \<le> max_sd st"
  using assms by (auto simp: select_inv_def)

lemma accept_loop_inv:
  assumes k: "select_ok k fds" and r: "accept_loop k sd st w = Some (st', w')" and i: "select_inv fds A sd st w"
  shows "select_inv fds A sd st' w' \<and> master_set st \<subseteq> master_set st'"
proof -
  let ?Q = "\<lambda>k' sd' st w r. k' = k \<longrightarrow> sd' = sd \<longrightarrow> select_inv fds A sd st w \<longrightarrow>
      select_inv fds A sd (fst r) (snd r) \<and> master_set st \<subseteq> master_set (fst r)"
  have "?Q k sd st w (st', w')"
  proof (rule accept_loop.raw_induct [where P = ?Q, OF _ r])
    fix f k' sd' st w r
    assume IH: "\<And>k' sd' st w r. f k' sd' st w = Some r \<Longrightarrow> ?Q k' sd' st w r"
      and eq: "(case accept_fd k' sd' w of
          (Inl err, w) \<Rightarrow> Some (if err \<noteq> Would_block then st\<lparr>end_server := True\<rparr> else st, w)
        | (Inr new_sd, w) \<Rightarrow> Option.bind (FD_SET new_sd (master_set st)) (\<lambda>s.
            let st = st\<lparr>master_set := s\<rparr>; st = (if max_sd st < new_sd then st\<lparr>max_sd := new_sd\<rparr> else st)
            in f k' sd' st w)) = Some r"
    show "?Q k' sd' st w r"
    proof (intro impI)
      assume e: "k' = k" "sd' = sd" and inv: "select_inv fds A sd st w"
      obtain a w1 where a: "accept_fd k sd w = (a, w1)" by fastforce
      show "select_inv fds A sd (fst r) (snd r) \<and> master_set st \<subseteq> master_set (fst r)"
      proof (cases a)
        case (Inl err)
        from eq e a Inl have r: "r = (if err \<noteq> Would_block then st\<lparr>end_server := True\<rparr> else st, w1)" by simp
        from select_okD(5) [OF k a [unfolded Inl]] inv show ?thesis by (simp add: r select_inv_def)
      next
        case (Inr fd)
        define st1 where "st1 = (let st = st\<lparr>master_set := insert fd (master_set st)\<rparr> in if max_sd st < fd then st\<lparr>max_sd := fd\<rparr> else st)"
        from select_okD(4) [OF k a [unfolded Inr]] have fd: "fd_valid fd" "fd \<notin> fds w" "fds w1 = insert fd (fds w)" by blast+
        have "select_inv fds A sd st1 w1"
        proof (cases "max_sd st < fd")
          case True
          then have "st1 = st\<lparr>master_set := insert fd (master_set st), max_sd := fd\<rparr>" by (simp add: st1_def)
          with inv fd True show ?thesis by (fastforce simp: select_inv_def)
        next
          case False
          then have "st1 = st\<lparr>master_set := insert fd (master_set st)\<rparr>" by (simp add: st1_def)
          with inv fd False show ?thesis by (fastforce simp: select_inv_def)
        qed
        moreover have "f k sd st1 w1 = Some r"
          using eq e a Inr fd(1) by (simp add: FD_SET_def st1_def Let_def split: if_splits)
        moreover have "master_set st \<subseteq> master_set st1" by (auto simp: st1_def Let_def)
        ultimately show ?thesis using IH by blast
      qed
    qed
  qed
  with i show ?thesis by simp
qed

lemma echo_loop_keeps:
  assumes k: "select_ok k fds" and r: "echo_loop k i w = Some (b, w')"
  shows "fds w' = fds w"
proof -
  let ?Q = "\<lambda>k' i w r. k' = k \<longrightarrow> fds (snd r) = fds w"
  have "?Q k i w (b, w')"
  proof (rule echo_loop.raw_induct [where P = ?Q, OF _ r])
    fix f k' i w r
    assume IH: "\<And>k' i w r. f k' i w = Some r \<Longrightarrow> ?Q k' i w r"
      and eq: "(case recv_fd k' i 80 w of
          (Inl err, w) \<Rightarrow> Some (err \<noteq> Would_block, w)
        | (Inr data, w) \<Rightarrow> if data = [] then Some (True, w)
            else case send_fd k' i data w of (Inl err, w) \<Rightarrow> Some (True, w) | (Inr n, w) \<Rightarrow> f k' i w) = Some r"
    obtain a w1 where a: "recv_fd k i 80 w = (a, w1)" by fastforce
    have w1: "fds w1 = fds w" by (rule select_okD(6) [OF k a])
    then have s: "send_fd k i d w1 = (x, w2) \<Longrightarrow> fds w2 = fds w" for d x w2
      using select_okD(7) [OF k] by metis
    show "?Q k' i w r"
      using eq a w1 s IH by (auto split: sum.splits prod.splits if_splits)
  qed
  then show ?thesis by simp
qed

text \<open>The loop that looks for the new maximum stops at the listening socket at the latest.\<close>

lemma lower_max_returns:
  assumes "x \<in> s" "x \<le> m" "0 \<le> x" "m < FD_SETSIZE" "\<forall>y \<in> s. y \<le> m"
  shows "\<exists>m'. lower_max s m = Some m' \<and> m' \<in> s \<and> (\<forall>y \<in> s. y \<le> m')"
  using assms(2,4,5)
proof (induction "nat (m - x)" arbitrary: m rule: less_induct)
  case less
  have v: "fd_valid m" using less.prems assms(3) by (simp add: fd_valid_def)
  show ?case
  proof (cases "m \<in> s")
    case True
    with v less.prems show ?thesis by (subst lower_max.simps) (simp add: FD_ISSET_def)
  next
    case False
    with assms(1) less.prems have "x < m" "\<forall>y \<in> s. y \<le> m - 1" by (auto simp: order.order_iff_strict)
    with less.prems have "\<exists>m'. lower_max s (m - 1) = Some m' \<and> m' \<in> s \<and> (\<forall>y \<in> s. y \<le> m')" by (intro less.hyps) auto
    with False v show ?thesis by (subst lower_max.simps) (simp add: FD_ISSET_def)
  qed
qed

lemma close_conn_returns:
  assumes k: "select_ok k fds" and inv: "select_inv fds A sd st w" and i: "i \<in> master_set st" "i \<noteq> sd"
  shows "\<exists>st' w'. close_conn k i st w = Some (st', w') \<and> select_inv fds A sd st' w' \<and> master_set st' = master_set st - {i} \<and>
    w' = close_socket k i w"
proof -
  note w = select_okD(8) [OF k, of i w]
  have c: "FD_CLR i (master_set st) = Some (master_set st - {i})"
    using select_invD(3) [OF inv i(1)] by (simp add: FD_CLR_def)
  have sd: "sd \<in> master_set st - {i}" "sd \<le> max_sd st" "fd_valid sd" "fd_valid (max_sd st)" "\<forall>y \<in> master_set st - {i}. y \<le> max_sd st"
    using inv i select_invD [OF inv] by (auto simp: select_inv_def)
  obtain m where m: "lower_max (master_set st - {i}) (max_sd st) = Some m" "m \<in> master_set st - {i}" "\<forall>y \<in> master_set st - {i}. y \<le> m"
    using lower_max_returns [OF sd(1,2) _ _ sd(5)] sd(3,4) by (auto simp: fd_valid_def)
  show ?thesis
  proof (cases "i = max_sd st")
    case True
    with c m(1) have "close_conn k i st w = Some (st\<lparr>master_set := master_set st - {i}, max_sd := m\<rparr>, close_socket k i w)"
      by (simp add: close_conn_def)
    moreover have "select_inv fds A sd (st\<lparr>master_set := master_set st - {i}, max_sd := m\<rparr>) (close_socket k i w)"
      using inv m(2,3) sd(1) i w by (auto simp: select_inv_def)
    ultimately show ?thesis by simp
  next
    case False
    with c have "close_conn k i st w = Some (st\<lparr>master_set := master_set st - {i}\<rparr>, close_socket k i w)"
      by (simp add: close_conn_def)
    moreover have "select_inv fds A sd (st\<lparr>master_set := master_set st - {i}\<rparr>) (close_socket k i w)"
      using inv False i w by (auto simp: select_inv_def)
    ultimately show ?thesis by simp
  qed
qed

lemma conn_readable_inv:
  assumes k: "select_ok k fds" and r: "conn_readable k i st w = Some (st', w')"
    and inv: "select_inv fds A sd st w" and i: "i \<in> master_set st" "i \<noteq> sd"
  shows "select_inv fds A sd st' w' \<and> master_set st - {i} \<subseteq> master_set st'"
proof -
  obtain close w1 where e: "echo_loop k i w = Some (close, w1)" using r by (auto simp: conn_readable_def Option.bind_eq_Some_conv)
  have inv1: "select_inv fds A sd st w1" using inv echo_loop_keeps [OF k e] by (simp add: select_inv_def)
  show ?thesis
  proof (cases close)
    case True
    with r e have "close_conn k i st w1 = Some (st', w')" by (simp add: conn_readable_def)
    with close_conn_returns [OF k inv1 i] show ?thesis by auto
  next
    case False
    with r e inv1 show ?thesis by (auto simp: conn_readable_def)
  qed
qed

text \<open>One descriptor of the working set; those that are still to come stay in the master set.\<close>

definition ready_step ::
    "('w, 'z) select_calls_scheme \<Rightarrow> int \<Rightarrow> int \<Rightarrow> select_state \<Rightarrow> 'w \<Rightarrow> (select_state \<times> 'w) option" where
  "ready_step k sd i st w = (if i = sd then accept_loop k sd st w else conn_readable k i st w)"

lemma ready_step_inv:
  assumes k: "select_ok k fds" and r: "ready_step k sd i st w = Some (st', w')" and inv: "select_inv fds A sd st w"
    and i: "i \<in> master_set st"
  shows "select_inv fds A sd st' w' \<and> master_set st - {i} \<subseteq> master_set st'"
proof (cases "i = sd")
  case True
  then have "accept_loop k sd st w = Some (st', w')" using r by (simp add: ready_step_def)
  from accept_loop_inv [OF k this inv] show ?thesis by blast
next
  case False
  then have "conn_readable k i st w = Some (st', w')" using r by (simp add: ready_step_def)
  from conn_readable_inv [OF k this inv i False] show ?thesis .
qed

lemma scan_loop_ready: "scan_loop k sd ws i n st w =
    (if i \<le> max_sd st \<and> 0 < n then
       Option.bind (FD_ISSET i ws) (\<lambda>b.
         if b then Option.bind (ready_step k sd i st w) (\<lambda>(st, w). scan_loop k sd ws (i + 1) (n - 1) st w)
         else scan_loop k sd ws (i + 1) n st w)
     else Some (st, w))"
  unfolding ready_step_def by (rule scan_loop.simps)

text \<open>An induction over the turns of the loop, which are bounded by the size of an \<open>fd_set\<close>.\<close>

lemma scan_loop_inv:
  assumes k: "select_ok k fds"
  shows "scan_loop k sd ws i n st w = Some (st', w') \<Longrightarrow> select_inv fds A sd st w \<Longrightarrow> {j \<in> ws. i \<le> j} \<subseteq> master_set st \<Longrightarrow>
    select_inv fds A sd st' w'"
proof (induction "nat (FD_SETSIZE - i)" arbitrary: i n st w rule: less_induct)
  case less
  show ?case
  proof (cases "i \<le> max_sd st \<and> 0 < n")
    case False
    with less.prems show ?thesis by (subst (asm) (1) scan_loop.simps) simp
  next
    case True
    with select_invD(1) [OF less.prems(2)] have d: "nat (FD_SETSIZE - (i + 1)) < nat (FD_SETSIZE - i)" by (simp add: fd_valid_def)
    note e = less.prems(1) [unfolded scan_loop_ready [of k sd ws i n st w] if_P [OF True]]
    then have v: "FD_ISSET i ws = Some (i \<in> ws)" by (simp add: FD_ISSET_def split: if_splits)
    show ?thesis
    proof (cases "i \<in> ws")
      case False
      with e v have "scan_loop k sd ws (i + 1) n st w = Some (st', w')" by simp
      moreover have "{j \<in> ws. i + 1 \<le> j} \<subseteq> master_set st" using less.prems(3) by auto
      ultimately show ?thesis using less.hyps [OF d _ less.prems(2)] by blast
    next
      case True
      with e v obtain st1 w1 where s: "ready_step k sd i st w = Some (st1, w1)" "scan_loop k sd ws (i + 1) (n - 1) st1 w1 = Some (st', w')"
        by (auto simp: Option.bind_eq_Some_conv)
      have "i \<in> master_set st" using True less.prems(3) by auto
      moreover have "{j \<in> ws. i + 1 \<le> j} \<subseteq> {j \<in> ws. i \<le> j} - {i}" by auto
      ultimately have "select_inv fds A sd st1 w1" "{j \<in> ws. i + 1 \<le> j} \<subseteq> master_set st1"
        using ready_step_inv [OF k s(1) less.prems(2)] less.prems(3) by blast+
      with less.hyps [OF d s(2)] show ?thesis by blast
    qed
  qed
qed

lemma select_pass_inv:
  assumes k: "select_ok k fds" and r: "select_pass k sd st w = Some (brk, st', w')" and inv: "select_inv fds A sd st w"
  shows "select_inv fds A sd st' w'"
proof -
  obtain rc ws tv w1 where s: "select_fds k (max_sd st + 1) (master_set st) (timeout st) w = ((rc, ws, tv), w1)"
    by (metis prod.exhaust)
  note w1 = select_okD(3) [OF k s]
  then have inv1: "select_inv fds A sd (st\<lparr>timeout := tv\<rparr>) w1" using inv by (simp add: select_inv_def)
  show ?thesis
  proof (cases "rc \<le> 0")
    case True
    with r s inv1 show ?thesis by (auto simp: select_pass_def)
  next
    case False
    with r s have "scan_loop k sd ws 0 rc (st\<lparr>timeout := tv\<rparr>) w1 = Some (st', w')" by (auto simp: select_pass_def)
    from scan_loop_inv [OF k this inv1] w1 show ?thesis by auto
  qed
qed

lemma select_loop_inv:
  assumes k: "select_ok k fds" and r: "select_loop k sd st w = Some (st', w')" and i: "select_inv fds A sd st w"
  shows "select_inv fds A sd st' w'"
proof -
  let ?Q = "\<lambda>k' sd' st w r. k' = k \<longrightarrow> sd' = sd \<longrightarrow> select_inv fds A sd st w \<longrightarrow> select_inv fds A sd (fst r) (snd r)"
  have "?Q k sd st w (st', w')"
  proof (rule select_loop.raw_induct [where P = ?Q, OF _ r])
    fix f k' sd' st w r
    assume IH: "\<And>k' sd' st w r. f k' sd' st w = Some r \<Longrightarrow> ?Q k' sd' st w r"
      and eq: "Option.bind (select_pass k' sd' st w) (\<lambda>(brk, st, w).
          if brk \<or> end_server st then Some (st, w) else f k' sd' st w) = Some r"
    show "?Q k' sd' st w r"
    proof (intro impI)
      assume e: "k' = k" "sd' = sd" and inv: "select_inv fds A sd st w"
      from eq e obtain brk st1 w1 where p: "select_pass k sd st w = Some (brk, st1, w1)"
          "(if brk \<or> end_server st1 then Some (st1, w1) else f k sd st1 w1) = Some r"
        by (auto simp: Option.bind_eq_Some_conv)
      from select_pass_inv [OF k p(1) inv] p(2) IH show "select_inv fds A sd (fst r) (snd r)" by (auto split: if_splits)
    qed
  qed
  with i show ?thesis by simp
qed

lemma close_all_returns:
  assumes k: "select_ok k fds" and "\<forall>i \<in> set is'. fd_valid i"
  shows "\<exists>w'. close_all k s is' w = Some w' \<and> fds w' = fds w - s \<inter> set is'"
  using assms(2)
proof (induction is' arbitrary: w)
  case (Cons i is')
  obtain w' where "close_all k s is' (if i \<in> s then close_socket k i w else w) = Some w'"
      "fds w' = fds (if i \<in> s then close_socket k i w else w) - s \<inter> set is'"
    using Cons by fastforce
  with Cons.prems select_okD(8) [OF k, of i w] show ?case by (auto simp: FD_ISSET_def)
qed simp

lemma clean_up_returns:
  assumes k: "select_ok k fds" and inv: "select_inv fds A sd st w"
  shows "\<exists>w'. clean_up k st w = Some w' \<and> fds w' = A"
proof -
  have "\<forall>i \<in> set [0..max_sd st]. fd_valid i" using select_invD(1) [OF inv] by (auto simp: fd_valid_def)
  from close_all_returns [OF k this, of "master_set st" w]
  obtain w' where "clean_up k st w = Some w'" "fds w' = fds w - master_set st \<inter> set [0..max_sd st]" by (auto simp: clean_up_def)
  moreover have "master_set st \<inter> set [0..max_sd st] = master_set st" using select_invD(3) [OF inv] by (auto simp: fd_valid_def)
  moreover have "fds w - master_set st = A" using inv by (auto simp: select_inv_def)
  ultimately show ?thesis by auto
qed

lemma server_setup_holds:
  assumes k: "select_ok k fds"
  shows "exit_holds (\<lambda>w'. fds w' = fds w) (\<lambda>sd w'. fd_valid sd \<and> socket_open fds (fds w) sd w') (server_setup k w)"
proof -
  let ?s = "socket_calls.truncate k"
  let ?H = "\<lambda>Q r. exit_holds (\<lambda>w'. fds w' = fds w) Q r" and ?ok = "\<lambda>sd w'. fd_valid sd \<and> socket_open fds (fds w) sd w'"
  have "?H ?ok (open_socket ?s w)"
    using open_socket_holds [OF select_okD(1) [OF k], of w] select_okD(2) [OF k, of w]
    by (auto simp: exit_holds_def open_socket_def socket_calls.defs fd_valid_def socket_open_def split: prod.splits if_splits)
  then show ?thesis
    unfolding server_setup_def Let_def
  proof (rule exit_holds_then)
    fix sd w1
    assume o: "fd_valid sd \<and> socket_open fds (fds w) sd w1"
    note h = set_up_holds [OF select_okD(1) [OF k], where A = "fds w" and sd = sd]
    show "?H ?ok (then_run (set_reuse ?s sd w1) (\<lambda>_ w. then_run (set_nonblocking ?s sd w) (\<lambda>_ w.
        then_run (do_bind ?s sd SERVER_PORT ''::'' w) (\<lambda>_ w. then_run (do_listen ?s sd w) (\<lambda>_ w. Running sd w)))))"
      by (rule exit_holds_then [OF h(1) [OF conjunct2 [OF o]]], rule exit_holds_then [OF h(2)], assumption,
          rule exit_holds_then [OF h(3)], assumption, rule exit_holds_then [OF h(4)], assumption) (simp add: exit_holds_def o)
  qed
qed

lemma select_init_inv:
  assumes "fd_valid sd" "socket_open fds A sd w"
  obtains st where "select_init sd = Some st" "select_inv fds A sd st w"
  using assms by (auto simp: select_init_def FD_SET_def select_inv_def socket_open_def intro: that)

text \<open>
  (C25) The server gives back every descriptor it has opened, and no other: whether setting it up fails, \<open>select\<close> fails or times out, or
  accepting a connection fails, when \<open>main\<close> ends exactly the descriptors are open that were open before.
\<close>

theorem select_server_closes_all:
  assumes "select_ok k fds" "server_main k w = Some w'"
  shows "fds w' = fds w"
proof (cases "server_setup k w")
  case (Exited w1)
  with assms server_setup_holds [OF assms(1), of w] show ?thesis by (simp add: server_main_def exit_holds_def)
next
  case (Running sd w1)
  with server_setup_holds [OF assms(1), of w] have o: "fd_valid sd" "socket_open fds (fds w) sd w1" by (simp_all add: exit_holds_def)
  obtain st where st: "select_init sd = Some st" "select_inv fds (fds w) sd st w1" by (rule select_init_inv [OF o])
  from assms(2) Running st(1) obtain st2 w2 where l: "select_loop k sd st w1 = Some (st2, w2)" "clean_up k st2 w2 = Some w'"
    by (auto simp: server_main_def Option.bind_eq_Some_conv)
  from clean_up_returns [OF assms(1) select_loop_inv [OF assms(1) l(1) st(2)]] l(2) show ?thesis by simp
qed

section \<open>Termination\<close>

text \<open>
  What arrives until the next \<open>select\<close> is finite: \<open>arrivals w\<close> bounds the connections and pieces of data that are still to come
  before it. Without that, a client that sends fast enough keeps the server in the loop of its connection.
\<close>

definition arrivals_ok :: "('w, 'z) select_calls_scheme \<Rightarrow> ('w \<Rightarrow> nat) \<Rightarrow> bool" where
  "arrivals_ok k arrivals \<longleftrightarrow>
     (\<forall>sd w fd w'. accept_fd k sd w = (Inr fd, w') \<longrightarrow> arrivals w' < arrivals w) \<and>
     (\<forall>sd w err w'. accept_fd k sd w = (Inl err, w') \<longrightarrow> arrivals w' \<le> arrivals w) \<and>
     (\<forall>i n w data w'. recv_fd k i n w = (Inr data, w') \<longrightarrow> data \<noteq> [] \<longrightarrow> arrivals w' < arrivals w) \<and>
     (\<forall>i n w data w'. send_fd k i data w = (n, w') \<longrightarrow> arrivals w' \<le> arrivals w)"

lemma accept_loop_returns:
  assumes k: "select_ok k fds" "arrivals_ok k arrivals"
  shows "accept_loop k sd st w \<noteq> None"
proof (induction "arrivals w" arbitrary: st w rule: less_induct)
  case less
  obtain a w1 where a: "accept_fd k sd w = (a, w1)" by fastforce
  show ?case
  proof (cases a)
    case (Inl err)
    with a show ?thesis by (subst accept_loop.simps) simp
  next
    case (Inr fd)
    from select_okD(4) [OF k(1) a [unfolded Inr]] have fd: "fd_valid fd" by blast
    from k(2) a Inr have "arrivals w1 < arrivals w" unfolding arrivals_ok_def by blast
    note less [OF this]
    with a Inr fd show ?thesis by (subst accept_loop.simps) (simp add: FD_SET_def Let_def)
  qed
qed

lemma echo_loop_returns:
  assumes k: "arrivals_ok k arrivals"
  shows "echo_loop k i w \<noteq> None"
proof (induction "arrivals w" arbitrary: w rule: less_induct)
  case less
  obtain a w1 where a: "recv_fd k i 80 w = (a, w1)" by fastforce
  show ?case
  proof (cases "\<exists>data. a = Inr data \<and> data \<noteq> []")
    case False
    with a show ?thesis by (subst echo_loop.simps) (auto split: sum.split)
  next
    case True
    then obtain data where d: "a = Inr data" "data \<noteq> []" by blast
    obtain x w2 where x: "send_fd k i data w1 = (x, w2)" by fastforce
    have "arrivals w2 \<le> arrivals w1" "arrivals w1 < arrivals w" using k a d x unfolding arrivals_ok_def by blast+
    then have "echo_loop k i w2 \<noteq> None" using less by simp
    with a d x show ?thesis by (subst echo_loop.simps) (simp add: ex_bool_eq split: sum.split)
  qed
qed

lemma ready_step_returns:
  assumes k: "select_ok k fds" "arrivals_ok k arrivals" and inv: "select_inv fds A sd st w" and i: "i \<in> master_set st"
  shows "ready_step k sd i st w \<noteq> None"
proof (cases "i = sd")
  case True
  with accept_loop_returns [OF k] show ?thesis by (simp add: ready_step_def)
next
  case False
  obtain close w1 where e: "echo_loop k i w = Some (close, w1)" using echo_loop_returns [OF k(2), of i w] by auto
  have "select_inv fds A sd st w1" using inv echo_loop_keeps [OF k(1) e] by (simp add: select_inv_def)
  from close_conn_returns [OF k(1) this i False] e False show ?thesis by (auto simp: ready_step_def conn_readable_def)
qed

lemma scan_loop_returns:
  assumes k: "select_ok k fds" "arrivals_ok k arrivals"
  shows "0 \<le> i \<Longrightarrow> select_inv fds A sd st w \<Longrightarrow> {j \<in> ws. i \<le> j} \<subseteq> master_set st \<Longrightarrow> scan_loop k sd ws i n st w \<noteq> None"
proof (induction "nat (FD_SETSIZE - i)" arbitrary: i n st w rule: less_induct)
  case less
  show ?case
  proof (cases "i \<le> max_sd st \<and> 0 < n")
    case False
    then show ?thesis by (simp only: scan_loop_ready [of k sd ws i n st w] if_False) simp
  next
    case True
    with select_invD(1) [OF less.prems(2)] less.prems(1)
    have d: "nat (FD_SETSIZE - (i + 1)) < nat (FD_SETSIZE - i)" and v: "FD_ISSET i ws = Some (i \<in> ws)" and i: "0 \<le> i + 1"
      by (simp_all add: fd_valid_def FD_ISSET_def)
    note e = scan_loop_ready [of k sd ws i n st w, unfolded if_P [OF True]]
    show ?thesis
    proof (cases "i \<in> ws")
      case False
      have "{j \<in> ws. i + 1 \<le> j} \<subseteq> master_set st" using less.prems(3) by auto
      from less.hyps [OF d i less.prems(2) this] False show ?thesis by (simp add: e v)
    next
      case True
      then have m: "i \<in> master_set st" using less.prems(3) by auto
      obtain st1 w1 where s: "ready_step k sd i st w = Some (st1, w1)" using ready_step_returns [OF k less.prems(2) m] by auto
      have "{j \<in> ws. i + 1 \<le> j} \<subseteq> {j \<in> ws. i \<le> j} - {i}" by auto
      then have "select_inv fds A sd st1 w1" "{j \<in> ws. i + 1 \<le> j} \<subseteq> master_set st1"
        using ready_step_inv [OF k(1) s less.prems(2) m] less.prems(3) by blast+
      from less.hyps [OF d i this] True show ?thesis by (simp add: e v s)
    qed
  qed
qed

lemma select_pass_returns:
  assumes k: "select_ok k fds" "arrivals_ok k arrivals" and inv: "select_inv fds A sd st w"
  shows "select_pass k sd st w \<noteq> None"
proof -
  obtain rc ws tv w1 where s: "select_fds k (max_sd st + 1) (master_set st) (timeout st) w = ((rc, ws, tv), w1)"
    by (metis prod.exhaust)
  note w1 = select_okD(3) [OF k(1) s]
  then have "select_inv fds A sd (st\<lparr>timeout := tv\<rparr>) w1" using inv by (simp add: select_inv_def)
  from scan_loop_returns [OF k order_refl this, of ws rc] w1 have "scan_loop k sd ws 0 rc (st\<lparr>timeout := tv\<rparr>) w1 \<noteq> None" by auto
  with s show ?thesis by (simp add: select_pass_def Let_def ex_bool_eq)
qed

text \<open>\<open>n\<close> passes of the main loop, or as many as there are; whether it has ended.\<close>

fun run_passes ::
    "('w, 'z) select_calls_scheme \<Rightarrow> int \<Rightarrow> nat \<Rightarrow> select_state \<Rightarrow> 'w \<Rightarrow> (bool \<times> select_state \<times> 'w) option" where
  "run_passes k sd 0 st w = Some (False, st, w)"
| "run_passes k sd (Suc n) st w =
     Option.bind (select_pass k sd st w) (\<lambda>(brk, st, w).
       if brk \<or> end_server st then Some (True, st, w) else run_passes k sd n st w)"

lemma run_passes_returns:
  assumes k: "select_ok k fds" "arrivals_ok k arrivals"
  shows "select_inv fds A sd st w \<Longrightarrow> \<exists>ended st' w'. run_passes k sd n st w = Some (ended, st', w') \<and> select_inv fds A sd st' w' \<and>
    (ended \<longrightarrow> select_loop k sd st w = Some (st', w'))"
proof (induction n arbitrary: st w)
  case (Suc n)
  obtain brk st1 w1 where p: "select_pass k sd st w = Some (brk, st1, w1)" using select_pass_returns [OF k Suc.prems] by auto
  have inv: "select_inv fds A sd st1 w1" by (rule select_pass_inv [OF k(1) p Suc.prems])
  show ?case
  proof (cases "brk \<or> end_server st1")
    case True
    then have "select_loop k sd st w = Some (st1, w1)" using p by (subst select_loop.simps) simp
    then show ?thesis using True p inv by (intro exI [of _ True] exI [of _ st1] exI [of _ w1]) simp
  next
    case False
    then have "select_loop k sd st w = select_loop k sd st1 w1" using p by (subst select_loop.simps) simp
    with Suc.IH [OF inv] False p show ?thesis by simp
  qed
qed (simp add: ex_bool_eq)


text \<open>
  A kernel that has some descriptors open and follows a script: what \<open>select\<close> reports, the connections and the data that come.
  The world is the set of open descriptors, the connections that wait, what waits in each of them, and the bytes echoed.
\<close>

record script_world =
  open_fds :: "int set"
  clients :: "int list"
  inbox :: "(int \<times> bytes) list"
  echoed :: "(int \<times> bytes) list"

definition script_select :: "script_world select_calls" where
  "script_select =
     \<lparr>new_socket = (\<lambda>w. if 3 \<in> open_fds w then (-1, w) else (3, w\<lparr>open_fds := insert 3 (open_fds w)\<rparr>)),
      reuse_address = (\<lambda>sd w. (0, w)), set_fionbio = (\<lambda>sd w. (0, w)), get_flags = (\<lambda>sd w. (0, w)), set_flags = (\<lambda>sd fl w. (0, w)),
      bind_socket = (\<lambda>sd a w. (0, w)), listen_socket = (\<lambda>sd n w. (0, w)),
      close_socket = (\<lambda>sd w. w\<lparr>open_fds := open_fds w - {sd}\<rparr>),
      select_fds = (\<lambda>n s tv w. let ws = {x \<in> s. x \<in> fst ` set (inbox w) \<or> x = 3 \<and> clients w \<noteq> []}
         in ((int (card ws), ws, tv), w)),
      accept_fd = (\<lambda>sd w. case clients w of
           [] \<Rightarrow> (Inl Would_block, w)
         | fd # cs \<Rightarrow> if fd_valid fd \<and> fd \<notin> open_fds w
             then (Inr fd, w\<lparr>clients := cs, open_fds := insert fd (open_fds w)\<rparr>) else (Inl Io_error, w)),
      recv_fd = (\<lambda>i n w. case inbox w of
           [] \<Rightarrow> (Inl Would_block, w)
         | (fd, d) # ds \<Rightarrow> if fd = i then (Inr (take n d), w\<lparr>inbox := ds\<rparr>) else (Inl Would_block, w)),
      send_fd = (\<lambda>i d w. (Inr (length d), w\<lparr>echoed := echoed w @ [(i, d)]\<rparr>))\<rparr>"

lemma script_select_ok: "select_ok script_select open_fds" "arrivals_ok script_select (\<lambda>w. length (clients w) + length (inbox w))"
proof -
  show "select_ok script_select open_fds"
    unfolding select_ok_def sockets_ok_def
    by (auto simp: script_select_def socket_calls.defs FD_SETSIZE_def Let_def split: list.splits if_splits)
  show "arrivals_ok script_select (\<lambda>w. length (clients w) + length (inbox w))"
    unfolding arrivals_ok_def by (auto simp: script_select_def split: list.splits if_splits)
qed

abbreviation script_start :: script_world where
  "script_start \<equiv> \<lparr>open_fds = {0, 1, 2}, clients = [7, 5], inbox = [(7, ''ab''), (5, ''c''), (7, [])], echoed = []\<rparr>"

lemma script_runs:
  "map_option (\<lambda>w. (open_fds w = {0, 1, 2}, echoed w)) (server_main script_select script_start) = Some (True, [(7, ''ab''), (5, ''c'')])"
  by code_simp

theorem select_server_closes_all_witness:
  "\<exists>w'. server_main script_select script_start = Some w' \<and> open_fds w' = {0, 1, 2} \<and> echoed w' = [(7, ''ab''), (5, ''c'')]"
proof -
  from script_runs obtain w' where w: "server_main script_select script_start = Some w'" "echoed w' = [(7, ''ab''), (5, ''c'')]"
    unfolding map_option_eq_Some by (elim exE conjE) simp
  from select_server_closes_all [OF script_select_ok(1) w(1)] w show ?thesis by simp
qed


end
