(* ===== verification/Snet_Utils.thy ===== *)
theory Snet_Utils
  imports Tcp_Connection
begin

text \<open>
  The small parts: \<open>NotifyQueue\<close> (src/include/utils/notify\_queue.h), a set that is filled while the items
  of the last batch are processed; the logging front end (src/include/utils/snet\_log.h); and the messages of
  the events (src/include/tcp/snet\_handler.h). The formatting of log messages and the mutex of the queue are not
  modelled.
\<close>

section \<open>The queue of notifications\<close>

text \<open>\<open>std::set\<close>: the items in their order, each once.\<close>

fun emplace :: "'a::linorder \<Rightarrow> 'a list \<Rightarrow> 'a list" where
  "emplace x [] = [x]"
| "emplace x (y # ys) = (if x < y then x # y # ys else if y < x then y # emplace x ys else y # ys)"

record 'a notify_queue =
  m_data :: "'a list"
  m_cache :: "'a list"

definition NotifyQueue :: "'a notify_queue" where
  "NotifyQueue = \<lparr>m_data = [], m_cache = []\<rparr>"

definition nq_push :: "'a::linorder \<Rightarrow> 'a notify_queue \<Rightarrow> 'a notify_queue" where
  "nq_push item q = q\<lparr>m_data := emplace item (m_data q)\<rparr>"

definition nq_empty :: "'a notify_queue \<Rightarrow> bool" where
  "nq_empty q \<longleftrightarrow> m_data q = []"

definition nq_peek :: "'a notify_queue \<Rightarrow> bool" where
  "nq_peek q \<longleftrightarrow> m_data q \<noteq> []"

text \<open>The processor may change the world and push items: it gets and returns both.\<close>

fun process_items ::
    "('a \<Rightarrow> 'a notify_queue \<times> 'w \<Rightarrow> 'a notify_queue \<times> 'w) \<Rightarrow> 'a list \<Rightarrow> 'a notify_queue \<times> 'w \<Rightarrow> 'a notify_queue \<times> 'w" where
  "process_items processor [] s = s"
| "process_items processor (item # items) s = process_items processor items (processor item s)"

definition nq_process ::
    "('a \<Rightarrow> 'a notify_queue \<times> 'w \<Rightarrow> 'a notify_queue \<times> 'w) \<Rightarrow> 'a notify_queue \<times> 'w \<Rightarrow> 'a notify_queue \<times> 'w" where
  "nq_process processor s =
     (let (q, w) = s;
          q = (if m_cache q = [] then \<lparr>m_data = m_cache q, m_cache = m_data q\<rparr> else q);
          (q, w) = process_items processor (m_cache q) (q, w)
      in (q\<lparr>m_cache := []\<rparr>, w))"

definition nq_process_completion ::
    "('a \<Rightarrow> 'a notify_queue \<times> 'w \<Rightarrow> 'a notify_queue \<times> 'w) \<Rightarrow> ('a notify_queue \<times> 'w \<Rightarrow> 'a notify_queue \<times> 'w) \<Rightarrow>
     'a notify_queue \<times> 'w \<Rightarrow> 'a notify_queue \<times> 'w" where
  "nq_process_completion processor completion s = completion (nq_process processor s)"

lemma set_emplace [simp]: "set (emplace x xs) = insert x (set xs)"
  by (induction xs) auto

lemma sorted_emplace: "sorted_wrt (<) xs \<Longrightarrow> sorted_wrt (<) (emplace x xs)"
  by (induction xs) auto

lemma sorted_list_unique: "sorted_wrt (<) xs \<Longrightarrow> sorted_list_of_set (set xs) = xs" for xs :: "'a::linorder list"
  by (simp add: sorted_list_of_set.idem_if_sorted_distinct strict_sorted_iff)

text \<open>What a processor may do: push items, and change the world.\<close>

definition nq_pushes :: "'a::linorder list \<Rightarrow> 'a notify_queue \<Rightarrow> 'a notify_queue" where
  "nq_pushes items q = fold nq_push items q"

lemma nq_pushes_effect:
  "m_cache (nq_pushes items q) = m_cache q" "set (m_data (nq_pushes items q)) = set items \<union> set (m_data q)"
  "sorted_wrt (<) (m_data q) \<Longrightarrow> sorted_wrt (<) (m_data (nq_pushes items q))"
proof -
  have "m_cache (nq_pushes items q) = m_cache q \<and> set (m_data (nq_pushes items q)) = set items \<union> set (m_data q) \<and>
      (sorted_wrt (<) (m_data q) \<longrightarrow> sorted_wrt (<) (m_data (nq_pushes items q)))"
    unfolding nq_pushes_def
    by (induction items arbitrary: q) (auto simp: nq_push_def sorted_emplace)
  then show "m_cache (nq_pushes items q) = m_cache q" "set (m_data (nq_pushes items q)) = set items \<union> set (m_data q)"
    "sorted_wrt (<) (m_data q) \<Longrightarrow> sorted_wrt (<) (m_data (nq_pushes items q))" by blast+
qed

text \<open>The calls on a queue from outside: a push, and a pass whose processor records the items and pushes \<open>f item\<close>.\<close>

datatype 'a nq_call = Push 'a | Process "'a \<Rightarrow> 'a list"

definition recorder :: "('a \<Rightarrow> 'a::linorder list) \<Rightarrow> 'a \<Rightarrow> 'a notify_queue \<times> 'a list list \<Rightarrow> 'a notify_queue \<times> 'a list list" where
  "recorder f item s = (case s of (q, batches) \<Rightarrow> (nq_pushes (f item) q, butlast batches @ [last batches @ [item]]))"

fun nq_step :: "'a::linorder nq_call \<Rightarrow> 'a notify_queue \<times> 'a list list \<Rightarrow> 'a notify_queue \<times> 'a list list" where
  "nq_step (Push x) (q, batches) = (nq_push x q, batches)"
| "nq_step (Process f) (q, batches) = nq_process (recorder f) (q, batches @ [[]])"

text \<open>What is promised: a set of pending items, and each pass takes all of them, in order.\<close>

fun nq_spec :: "'a::linorder nq_call \<Rightarrow> 'a set \<times> 'a list list \<Rightarrow> 'a set \<times> 'a list list" where
  "nq_spec (Push x) (S, batches) = (insert x S, batches)"
| "nq_spec (Process f) (S, batches) = (\<Union>x \<in> S. set (f x), batches @ [sorted_list_of_set S])"

lemma recorder_step: "recorder f x (q, bs @ [b]) = (nq_pushes (f x) q, bs @ [b @ [x]])"
  by (simp add: recorder_def)

lemma process_items_recorder:
  "\<exists>q'. process_items (recorder f) items (q, bs @ [b]) = (q', bs @ [b @ items]) \<and> m_cache q' = m_cache q \<and>
     set (m_data q') = (\<Union>x \<in> set items. set (f x)) \<union> set (m_data q) \<and>
     (sorted_wrt (<) (m_data q) \<longrightarrow> sorted_wrt (<) (m_data q'))"
proof (induction items arbitrary: q b)
  case (Cons x items)
  from Cons [of "nq_pushes (f x) q" "b @ [x]"] obtain q' where
    "process_items (recorder f) items (nq_pushes (f x) q, bs @ [b @ [x]]) = (q', bs @ [(b @ [x]) @ items])"
    "m_cache q' = m_cache q" "set (m_data q') = (\<Union>x \<in> set items. set (f x)) \<union> (set (f x) \<union> set (m_data q))"
    "sorted_wrt (<) (m_data (nq_pushes (f x) q)) \<longrightarrow> sorted_wrt (<) (m_data q')"
    unfolding nq_pushes_effect by blast
  then show ?case using nq_pushes_effect(3) [of q "f x"] by (intro exI [of _ q']) (auto simp: recorder_step)
qed simp

definition nq_rel :: "'a::linorder notify_queue \<times> 'a list list \<Rightarrow> 'a set \<times> 'a list list \<Rightarrow> bool" where
  "nq_rel s t \<longleftrightarrow> m_cache (fst s) = [] \<and> sorted_wrt (<) (m_data (fst s)) \<and> fst t = set (m_data (fst s)) \<and> snd t = snd s"

lemma nq_step_spec: "nq_rel s t \<Longrightarrow> nq_rel (nq_step x s) (nq_spec x t)"
proof (cases x)
  case (Push y)
  moreover assume "nq_rel s t"
  ultimately show ?thesis by (cases s; cases t) (auto simp: nq_rel_def nq_push_def sorted_emplace)
next
  case (Process f)
  assume r: "nq_rel s t"
  obtain q bs where s: "s = (q, bs)" by fastforce
  have t: "t = (set (m_data q), bs)" and q: "m_cache q = []" "sorted_wrt (<) (m_data q)"
    using r by (cases t; simp add: nq_rel_def s)+
  let ?q = "\<lparr>m_data = [], m_cache = m_data q\<rparr>"
  from process_items_recorder [of f "m_data q" ?q bs "[]"] obtain q' where
    "process_items (recorder f) (m_data q) (?q, bs @ [[]]) = (q', bs @ [m_data q])"
    "set (m_data q') = (\<Union>x \<in> set (m_data q). set (f x))" "sorted_wrt (<) (m_data q')" by auto
  with q sorted_list_unique [OF q(2)] show ?thesis by (simp add: Process s t nq_process_def nq_rel_def)
qed

text \<open>
  (C11) A queue of notifications is a set that is emptied pass by pass: whatever is pushed, also while a pass is running, each pass
  hands over exactly the items pushed since the last one, each of them once and in ascending order.
\<close>

theorem notify_queue_batches:
  "snd (fold nq_step xs (NotifyQueue, [])) = snd (fold nq_spec xs ({}, [])) \<and>
   set (m_data (fst (fold nq_step xs (NotifyQueue, [])))) = fst (fold nq_spec xs ({}, [])) \<and>
   (nq_empty (fst (fold nq_step xs (NotifyQueue, []))) \<longleftrightarrow> fst (fold nq_spec xs ({}, [])) = {})"
proof -
  have "nq_rel s t \<Longrightarrow> nq_rel (fold nq_step xs s) (fold nq_spec xs t)" for s :: "'a notify_queue \<times> 'a list list" and t
    by (induction xs arbitrary: s t) (simp_all add: nq_step_spec)
  moreover have "nq_rel (NotifyQueue, []) ({} :: 'a set, [])" by (simp add: nq_rel_def NotifyQueue_def)
  ultimately have "nq_rel (fold nq_step xs (NotifyQueue, [])) (fold nq_spec xs ({}, []))" by blast
  then show ?thesis by (auto simp: nq_rel_def nq_empty_def)
qed

section \<open>Logging\<close>

datatype SNetLogLevel = LOG_LEVEL_OFF | LOG_LEVEL_TRACE | LOG_LEVEL_DEBUG | LOG_LEVEL_INFO | LOG_LEVEL_WARN
  | LOG_LEVEL_ERROR | LOG_LEVEL_FATAL

definition level_num :: "SNetLogLevel \<Rightarrow> u32" where
  "level_num l = (case l of LOG_LEVEL_OFF \<Rightarrow> 0 | LOG_LEVEL_TRACE \<Rightarrow> 1 | LOG_LEVEL_DEBUG \<Rightarrow> 2 | LOG_LEVEL_INFO \<Rightarrow> 3
     | LOG_LEVEL_WARN \<Rightarrow> 4 | LOG_LEVEL_ERROR \<Rightarrow> 5 | LOG_LEVEL_FATAL \<Rightarrow> 6)"

definition log_level_str :: "bytes list" where
  "log_level_str = [''off'', ''trace'', ''debug'', ''info'', ''warn'', ''error'', ''fatal'']"

text \<open>\<open>std::tolower\<close> in the default locale.\<close>

definition tolower :: "char \<Rightarrow> char" where
  "tolower c = (if c \<in> set ''ABCDEFGHIJKLMNOPQRSTUVWXYZ'' then char_of (of_char c + 32 :: nat) else c)"

definition from_string_level :: "bytes \<Rightarrow> SNetLogLevel" where
  "from_string_level lv =
     (let str = map tolower lv in
      if str = ''off'' \<or> lv = [] then LOG_LEVEL_OFF
      else if str = ''trace'' then LOG_LEVEL_TRACE
      else if str = ''debug'' then LOG_LEVEL_DEBUG
      else if str = ''info'' then LOG_LEVEL_INFO
      else if str = ''warn'' then LOG_LEVEL_WARN
      else if str = ''error'' then LOG_LEVEL_ERROR
      else if str = ''fatal'' then LOG_LEVEL_FATAL
      else LOG_LEVEL_OFF)"

record 'w snet_log =
  snet_log_level :: u32
  snet_logger :: "(u32 \<Rightarrow> bytes \<Rightarrow> 'w \<Rightarrow> 'w) option"

definition register_logger :: "(u32 \<Rightarrow> bytes \<Rightarrow> 'w \<Rightarrow> 'w) option \<Rightarrow> 'w snet_log \<Rightarrow> 'w snet_log" where
  "register_logger logger l = l\<lparr>snet_logger := logger\<rparr>"

definition set_log_level :: "u32 \<Rightarrow> 'w snet_log \<Rightarrow> 'w snet_log" where
  "set_log_level level l = l\<lparr>snet_log_level := level\<rparr>"

text \<open>\<open>snet_tlog\<close>, \<open>snet_dlog\<close>, \<open>snet_ilog\<close>, \<open>snet_wlog\<close>, \<open>snet_elog\<close> and \<open>snet_clog\<close>, by their level.\<close>

definition snet_log_at :: "SNetLogLevel \<Rightarrow> 'w snet_log \<Rightarrow> bytes \<Rightarrow> 'w \<Rightarrow> 'w" where
  "snet_log_at lv l msg w =
     (case snet_logger l of
        Some f \<Rightarrow> if snet_log_level l \<le> level_num lv then f (level_num lv) msg w else w
      | None \<Rightarrow> w)"

definition snet_init_logger :: "u32 \<Rightarrow> (u32 \<Rightarrow> bytes \<Rightarrow> 'w \<Rightarrow> 'w) option \<Rightarrow> 'w snet_log \<Rightarrow> 'w snet_log" where
  "snet_init_logger level logWriter l =
     (let l = (if logWriter \<noteq> None then register_logger logWriter l else l)
      in set_log_level (0x1F AND level) l)"

text \<open>The sink for the console; \<open>print\<close> is \<open>printf\<close> with the text of its arguments.\<close>

definition console_sink :: "(bytes \<Rightarrow> 'w \<Rightarrow> 'w) \<Rightarrow> u32 \<Rightarrow> bytes \<Rightarrow> 'w \<Rightarrow> 'w" where
  "console_sink print level log = print (''[snet]['' @ log_level_str ! unat level @ ''] '' @ log @ [CHR 10])"

definition snet_add_console_sink :: "(bytes \<Rightarrow> 'w \<Rightarrow> 'w) \<Rightarrow> u32 \<Rightarrow> 'w snet_log \<Rightarrow> 'w snet_log" where
  "snet_add_console_sink print level l = snet_init_logger level (Some (console_sink print)) l"

text \<open>
  The level \<open>off\<close> does not switch logging off: with a logger, the level that the name \<open>off\<close> (or any name that is not known)
  stands for lets every message through, like \<open>trace\<close>; and no level of the table silences fatal errors.
\<close>

theorem log_off_logs_all:
  assumes "from_string_level name = LOG_LEVEL_OFF"
  shows "snet_log_at lv (snet_init_logger (level_num (from_string_level name)) (Some f) l) msg w = f (level_num lv) msg w"
  using assms by (simp add: snet_init_logger_def register_logger_def set_log_level_def snet_log_at_def level_num_def)

theorem log_off_logs_all_witness:
  "snet_log_at LOG_LEVEL_TRACE (snet_init_logger (level_num (from_string_level ''OFF''))
     (Some (\<lambda>lv msg w. w @ [msg])) \<lparr>snet_log_level = 0, snet_logger = None\<rparr>) ''m'' [] = [''m'']"
proof -
  have "from_string_level ''OFF'' = LOG_LEVEL_OFF" by code_simp
  from log_off_logs_all [OF this, of LOG_LEVEL_TRACE "\<lambda>lv msg w. w @ [msg]" "\<lparr>snet_log_level = 0, snet_logger = None\<rparr>" "''m''" "[]"]
  show ?thesis by simp
qed

section \<open>The messages of the events\<close>

definition event_num :: "NetEvent \<Rightarrow> nat" where
  "event_num e = (case e of
     EVT_THREAD_INIT \<Rightarrow> 0 | EVT_THREAD_EXIT \<Rightarrow> 1 | EVT_LISTEN_START \<Rightarrow> 2 | EVT_LISTEN_FAIL \<Rightarrow> 3 | EVT_LISTEN_STOP \<Rightarrow> 4
   | EVT_CREATE \<Rightarrow> 5 | EVT_RELEASE \<Rightarrow> 6 | EVT_CONNECT \<Rightarrow> 7 | EVT_CONNECT_FAIL \<Rightarrow> 8 | EVT_RECV \<Rightarrow> 9 | EVT_SEND \<Rightarrow> 10
   | EVT_DISCONNECT \<Rightarrow> 11 | EVT_RECYLE_TIMER \<Rightarrow> 12 | EVT_USER1 \<Rightarrow> 13 | EVT_USER2 \<Rightarrow> 14 | EVT_END \<Rightarrow> 15
   | EVT_ACTIVE_OPEN \<Rightarrow> 16 | EVT_ACTIVE_CLOSE \<Rightarrow> 17)"

definition kEventMessage :: "bytes list" where
  "kEventMessage = map (\<lambda>s. ''Net Event: '' @ s)
     [''thread init'', ''thread exit'', ''listen start'', ''listen failed'', ''listen stop'', ''connection create'',
      ''connection release'', ''connect'', ''connect failed'', ''data received'', ''data sent'', ''disconnect'',
      ''recyle timer timeout'', ''user1 event'', ''user2 event'', ''none event'', ''active open'', ''active close'']"

definition event_string :: "NetEvent \<Rightarrow> bytes" where
  "event_string evt = kEventMessage ! event_num evt"

text \<open>Every event has its own message within the table.\<close>

lemma event_string_distinct: "event_num e < length kEventMessage \<and> (event_string e = event_string e' \<longleftrightarrow> e = e')"
proof -
  have "distinct kEventMessage" by code_simp
  moreover have "event_num e < 18" for e by (cases e) (simp_all add: event_num_def)
  moreover have "length kEventMessage = 18" by (simp add: kEventMessage_def)
  moreover have "event_num e = event_num e' \<longleftrightarrow> e = e'" by (cases e; cases e') (simp_all add: event_num_def)
  ultimately show ?thesis by (simp add: event_string_def nth_eq_iff_index_eq)
qed

end
