(* ===== verification/Http_Parser_Props.thy ===== *)
theory Http_Parser_Props
  imports Http_Parser_Inv
begin

text \<open>
  Functional properties of \<open>http_parser_execute\<close>: which requests methods it recognises, the numbers it
  reads from Content-Length headers and chunk sizes, and the tables of names.
\<close>

section \<open>Request methods\<close>

definition method_name :: "http_method \<Rightarrow> string" where
  "method_name m = method_strings ! http_method_num m"

text \<open>The part of a method's name that has been matched.\<close>

definition method_prefix :: "'a http_parser \<Rightarrow> string" where
  "method_prefix ps = take (unat (hp_index ps)) (method_name (hp_method ps))"

lemma method_switch_prefix:
  "method_switch m i ch = Some m' \<Longrightarrow>
   take (Suc i) (method_name m') = take i (method_name m) @ [ch] \<and> i < length (method_name m')"
  by (auto simp: method_switch_def method_name_def method_strings_def http_method_num_def split: if_splits)

lemma method_len_name: "method_len m = length (method_name m)"
  by (simp add: method_len_def method_name_def)

lemma invalid_method:
  "\<exists>x'. fail_with HPE_INVALID_METHOD x = Goto_error x' \<and> hp_errno (x_parser x') = HPE_INVALID_METHOD"
  by (simp add: fail_with_def SET_ERRNO_def set_errno_def)

lemma method_name_no_NUL: "i < length (method_name m) \<Longrightarrow> method_name m ! i \<noteq> NUL"
proof -
  have "NUL \<notin> set (method_name m)"
    by (cases m) (simp_all add: method_name_def method_strings_def http_method_num_def)
  then show "i < length (method_name m) \<Longrightarrow> method_name m ! i \<noteq> NUL" by (metis nth_mem)
qed

text \<open>A byte within the name of the candidate.\<close>

lemma exec_req_method_letter:
  assumes ch: "x_ch x \<noteq> NUL" and i: "unat (hp_index (x_parser x)) < length (method_name (hp_method (x_parser x)))"
    and st: "x_state x = s_req_method"
  shows "(\<exists>x'. exec_req_method x = Break x' \<and> x_state x' = s_req_method \<and>
       unat (hp_index (x_parser x')) \<le> method_len (hp_method (x_parser x')) \<and>
       method_prefix (x_parser x') = method_prefix (x_parser x) @ [x_ch x]) \<or>
    (\<exists>x'. exec_req_method x = Goto_error x' \<and> hp_errno (x_parser x') = HPE_INVALID_METHOD)"
proof -
  let ?i = "unat (hp_index (x_parser x))" and ?m = "hp_method (x_parser x)"
  have inc: "unat (hp_index (x_parser x) + 1) = Suc ?i"
    using i method_len_le [of ?m] by (intro index_inc) (simp add: method_len_name)
  have eq: "cstr_at (method_strings ! http_method_num ?m) ?i = Some (method_name ?m ! ?i)"
    using i by (simp add: cstr_at_def method_name_def)
  note nz = method_name_no_NUL [OF i] and bad = invalid_method [of x]
  consider "x_ch x = method_name ?m ! ?i"
    | m' where "x_ch x \<noteq> method_name ?m ! ?i" "method_switch ?m ?i (x_ch x) = Some m'"
        "char_in CHR ''A'' CHR ''Z'' (x_ch x) \<or> x_ch x = CHR ''-''"
    | "x_ch x \<noteq> method_name ?m ! ?i" "method_switch ?m ?i (x_ch x) = None \<or>
        \<not> (char_in CHR ''A'' CHR ''Z'' (x_ch x) \<or> x_ch x = CHR ''-'')"
    by (cases "method_switch ?m ?i (x_ch x)") auto
  then show ?thesis
  proof cases
    case 1
    with i ch eq nz inc st show ?thesis
      by (auto simp: exec_req_method_def Let_def method_prefix_def take_Suc_conv_app_nth method_len_name)
  next
    case 2
    with ch eq nz inc st method_switch_prefix [OF 2(2)] show ?thesis
      by (auto simp: exec_req_method_def Let_def method_prefix_def method_len_name)
  next
    case 3
    with ch eq nz bad show ?thesis by (auto simp: exec_req_method_def Let_def)
  qed
qed

text \<open>
  While a request's method is read, what has been matched is always what was received: a
  letter that does not fit the current candidate switches to a method with the same prefix or is
  rejected as an invalid method, and the method is complete exactly when the whole name has been
  followed by a space. No byte outside the table's strings is read.
\<close>

theorem req_method_sound:
  assumes "unat (hp_index (x_parser x)) \<le> method_len (hp_method (x_parser x))" "x_state x = s_req_method"
  shows "(\<exists>x'. exec_req_method x = Break x' \<and> x_state x' = s_req_method \<and>
       unat (hp_index (x_parser x')) \<le> method_len (hp_method (x_parser x')) \<and>
       method_prefix (x_parser x') = method_prefix (x_parser x) @ [x_ch x]) \<or>
    (\<exists>x'. exec_req_method x = Break x' \<and> x_state x' = s_req_spaces_before_url \<and> x_ch x = CHR '' '' \<and>
       method_prefix (x_parser x) = method_name (hp_method (x_parser x'))) \<or>
    (\<exists>x'. exec_req_method x = Goto_error x' \<and> hp_errno (x_parser x') = HPE_INVALID_METHOD)"
proof -
  let ?i = "unat (hp_index (x_parser x))" and ?m = "hp_method (x_parser x)"
  consider "x_ch x = NUL" | "x_ch x \<noteq> NUL" "?i = length (method_name ?m)"
    | "x_ch x \<noteq> NUL" "?i < length (method_name ?m)"
    using assms(1) by (fastforce simp: method_len_name)
  then show ?thesis
  proof cases
    case 1
    with invalid_method [of x] show ?thesis by (simp add: exec_req_method_def Let_def)
  next
    case 2
    have "method_switch ?m (length (method_name ?m)) c = None" for c
      by (cases ?m) (simp_all add: method_switch_def method_name_def method_strings_def http_method_num_def)
    with 2 invalid_method [of x] show ?thesis
      by (auto simp: exec_req_method_def Let_def cstr_at_def method_name_def [symmetric] method_prefix_def)
  next
    case 3
    with exec_req_method_letter [OF 3 assms(2)] show ?thesis by blast
  qed
qed

theorem req_method_sound_witness:
  "\<exists>x'. exec_req_method
       \<lparr>x_parser = (zero_parser ())\<lparr>hp_method := HTTP_POST, hp_index := 1\<rparr>, x_p = 1, x_ch = CHR ''U'',
        x_state = s_req_method, x_nread = 2, x_mark = (\<lambda>d. None)\<rparr> = Break x' \<and>
     method_prefix (x_parser x') = ''PU''"
proof -
  let ?x = "\<lparr>x_parser = (zero_parser ())\<lparr>hp_method := HTTP_POST, hp_index := 1\<rparr>, x_p = 1, x_ch = CHR ''U'',
    x_state = s_req_method, x_nread = 2, x_mark = (\<lambda>d. None)\<rparr>"
  have pre: "method_prefix (x_parser ?x) = ''P''"
    by (simp add: method_prefix_def method_name_def method_strings_def http_method_num_def)
  have ok: "\<exists>x'. exec_req_method ?x = Break x'"
    by (simp add: exec_req_method_def Let_def cstr_at_def method_strings_def http_method_num_def
        method_switch_def char_in_def)
  have "unat (hp_index (x_parser ?x)) \<le> method_len (hp_method (x_parser ?x))" "x_state ?x = s_req_method"
    by simp_all
  from req_method_sound [OF this] ok pre show ?thesis by auto
qed

text \<open>
  Every method of the table is recognised: its name followed by a space takes an initialised
  request parser to the start of the URL with that method set.
\<close>

theorem req_method_complete:
  "\<exists>ps. http_parser_execute HTTP_MAX_HEADER_SIZE http_parser_settings_init
       (http_parser_init (zero_parser ()) HTTP_REQUEST) (method_name m @ '' '') =
       Some (Returned (length (method_name m) + 1) ps) \<and>
     hp_errno ps = HPE_OK \<and> hp_state ps = s_req_spaces_before_url \<and> hp_method ps = m"
proof -
  let ?r = "\<lambda>m. http_parser_execute HTTP_MAX_HEADER_SIZE http_parser_settings_init
    (http_parser_init (zero_parser ()) HTTP_REQUEST) (method_name m @ '' '')"
  let ?f = "\<lambda>r. case r of Returned n ps \<Rightarrow> Some (n, hp_errno ps, hp_state ps, hp_method ps) | Aborted \<Rightarrow> None"
  have "map_option ?f (?r m) = Some (Some (length (method_name m) + 1, HPE_OK, s_req_spaces_before_url, m))"
    by (induction m; code_simp)
  then obtain r where r: "?r m = Some r" and f: "?f r = Some (length (method_name m) + 1, HPE_OK, s_req_spaces_before_url, m)"
    unfolding map_option_eq_Some by blast
  from f show ?thesis unfolding r by (cases r) simp_all
qed

section \<open>Numbers\<close>

lemma digit_unat: "IS_NUMBER c \<Longrightarrow> digit_val c \<le> 9"
  using digit_bounds by blast

lemma content_length_step:
  assumes "\<not> (ULLONG_MAX - 10) div 10 < (cl :: u64)" "IS_NUMBER c"
  shows "unat (cl * 10 + of_nat (digit_val c)) = unat cl * 10 + digit_val c"
proof -
  have "unat cl \<le> 1844674407370955160"
    using assms(1) by (simp add: ULLONG_MAX_def word_less_nat_alt)
  moreover have "unat (of_nat (digit_val c) :: u64) = digit_val c"
    using digit_unat [OF assms(2)] by (simp add: unat_of_nat take_bit_nat_eq_self)
  ultimately show ?thesis using digit_unat [OF assms(2)] by (simp add: unat_word_ariths mod_simps)
qed

text \<open>A value in the state \<open>h_content_length_ws\<close> never becomes a number again.\<close>

definition hvx_state :: "'a hv_exit \<Rightarrow> header_states option" where
  "hvx_state r = (case r of HVX_end p ps hs \<Rightarrow> Some hs | HVX_CR p ps hs \<Rightarrow> Some hs | HVX_LF p ps hs \<Rightarrow> Some hs
     | _ \<Rightarrow> None)"

lemma content_length_ws_stays:
  "hvx_state (header_value_loop env p ps h_content_length_ws) \<noteq> Some h_content_length_num"
proof (induction "length (e_data env) - p" arbitrary: p rule: less_induct)
  case less
  show ?case
    by (subst header_value_loop.simps)
      (use less in \<open>auto simp: hvx_state_def Let_def header_value_char_def split: if_splits\<close>)
qed

definition hvx_value :: "'a hv_exit \<Rightarrow> (nat \<times> u64) option" where
  "hvx_value r = (case r of HVX_end p ps hs \<Rightarrow> Some (p, hp_content_length ps)
     | HVX_CR p ps hs \<Rightarrow> Some (p, hp_content_length ps)
     | HVX_LF p ps hs \<Rightarrow> Some (p, hp_content_length ps) | _ \<Rightarrow> None)"

lemma slice_split:
  "p < q \<Longrightarrow> p < length xs \<Longrightarrow> slice xs p (q - p) = xs ! p # slice xs (Suc p) (q - Suc p)"
  by (simp add: slice_def Cons_nth_drop_Suc [symmetric] take_Cons' split: nat.split)

lemma content_length_loop:
  assumes "hvx_state (header_value_loop env p ps h_content_length_num) = Some h_content_length_num"
    and "p \<le> length (e_data env)" "hvx_value (header_value_loop env p ps h_content_length_num) = Some (q, cl)"
  shows "p \<le> q \<and> q \<le> length (e_data env) \<and> (\<forall>c \<in> set (slice (e_data env) p (q - p)). IS_NUMBER c) \<and>
    unat cl = foldl (\<lambda>v c. v * 10 + digit_val c) (unat (hp_content_length ps)) (slice (e_data env) p (q - p))"
  using assms
proof (induction "length (e_data env) - p" arbitrary: p ps rule: less_induct)
  case less
  let ?ch = "e_data env ! p"
  show ?case
  proof (cases "length (e_data env) \<le> p \<or> ?ch = CR \<or> ?ch = LF")
    case True
    then have "header_value_loop env p ps h_content_length_num \<in>
        {HVX_end p ps h_content_length_num, HVX_CR p ps h_content_length_num, HVX_LF p ps h_content_length_num}"
      by (subst header_value_loop.simps) (auto simp: Let_def)
    with less.prems(3) have "q = p" "cl = hp_content_length ps" by (auto simp: hvx_value_def)
    with less.prems(2) show ?thesis by (simp add: slice_def)
  next
    case False
    then have p: "p < length (e_data env)" by simp
    have u: "header_value_loop env p ps h_content_length_num =
      (if bad_header_char env ?ch then HVX_error HPE_INVALID_HEADER_TOKEN p ps
       else case hv_content_length_num p ?ch ps of
          HV_next p' ps' hs' \<Rightarrow> header_value_loop env (p' + 1) ps' hs'
        | HV_error e p' ps' \<Rightarrow> HVX_error e p' ps' | HV_abort \<Rightarrow> HVX_abort)"
      using False by (subst header_value_loop.simps) (simp add: Let_def header_value_char_def)
    let ?ps = "ps\<lparr>hp_content_length := hp_content_length ps * 10 + of_nat (digit_val ?ch)\<rparr>"
    have d: "IS_NUMBER ?ch" "\<not> (ULLONG_MAX - 10) div 10 < hp_content_length ps"
      and l: "header_value_loop env p ps h_content_length_num = header_value_loop env (Suc p) ?ps h_content_length_num"
      using u less.prems(1) content_length_ws_stays [of env "Suc p" ps]
      by (auto simp: hv_content_length_num_def Let_def hvx_state_def split: if_splits)
    from less.hyps [of "Suc p" ?ps] less.prems l p
    have IH: "Suc p \<le> q" "q \<le> length (e_data env)" "\<forall>c \<in> set (slice (e_data env) (Suc p) (q - Suc p)). IS_NUMBER c"
      "unat cl = foldl (\<lambda>v c. v * 10 + digit_val c) (unat (hp_content_length ?ps)) (slice (e_data env) (Suc p) (q - Suc p))"
      by auto
    with slice_split [of p q "e_data env"] p d content_length_step [OF d(2,1)] show ?thesis by simp
  qed
qed



text \<open>The value of a hexadecimal digit.\<close>

definition hex_value :: "char \<Rightarrow> nat" where
  "hex_value c = (if IS_NUMBER c then digit_val c else of_char (LOWER c) - 87)"

lemma unhex_hex: "IS_HEX c \<Longrightarrow> unhex ! of_char c = int (hex_value c) \<and> hex_value c \<le> 15"
proof -
  have "\<forall>c :: char. IS_HEX c \<longrightarrow> unhex ! of_char c = int (hex_value c) \<and> hex_value c \<le> 15" by code_simp
  then show "IS_HEX c \<Longrightarrow> unhex ! of_char c = int (hex_value c) \<and> hex_value c \<le> 15" by blast
qed

text \<open>
  A hexadecimal digit of a chunk size either extends the size exactly, without wrapping, or, when
  the size has passed the limit, is rejected.
\<close>

theorem chunk_size_exact:
  assumes "is_chunked x" "IS_HEX (x_ch x)"
  shows "if unat (hp_content_length (x_parser x)) \<le> (2 ^ 64 - 17) div 16
    then \<exists>x'. exec_chunk_size x = Break x' \<and> x_state x' = x_state x \<and>
      unat (hp_content_length (x_parser x')) =
        unat (hp_content_length (x_parser x)) * 16 + hex_value (x_ch x)
    else \<exists>x'. exec_chunk_size x = Goto_error x' \<and> hp_errno (x_parser x') = HPE_INVALID_CONTENT_LENGTH"
proof -
  let ?cl = "hp_content_length (x_parser x)"
  note h = unhex_hex [OF assms(2)]
  have ne: "unhex ! of_char (x_ch x) \<noteq> -1" "x_ch x \<noteq> CR"
    using h assms(2) by (auto simp: IS_HEX_def IS_NUMBER_def char_in_def LOWER_def)
  have lim: "((ULLONG_MAX - 16) div 16 < ?cl) = (\<not> unat ?cl \<le> (2 ^ 64 - 17) div 16)"
    by (simp add: ULLONG_MAX_def word_less_nat_alt not_le)
  show ?thesis
  proof (cases "unat ?cl \<le> (2 ^ 64 - 17) div 16")
    case True
    with chunk_size_value(1) [of ?cl "unhex ! of_char (x_ch x)"] h lim
    have "unat (?cl * 16 + of_int (unhex ! of_char (x_ch x))) = unat ?cl * 16 + hex_value (x_ch x)" by simp
    with True lim ne assms(1) show ?thesis by (auto simp: exec_chunk_size_def ASSERT_def Let_def)
  next
    case False
    with lim ne assms(1) show ?thesis
      by (auto simp: exec_chunk_size_def ASSERT_def Let_def fail_with_def SET_ERRNO_def set_errno_def)
  qed
qed

theorem chunk_size_exact_witness:
  "\<exists>x'. exec_chunk_size \<lparr>x_parser = (zero_parser ())\<lparr>hp_flags := F_CHUNKED, hp_content_length := 10\<rparr>, x_p = 1,
       x_ch = CHR ''f'', x_state = s_chunk_size, x_nread = 2, x_mark = (\<lambda>d. None)\<rparr> = Break x' \<and>
     unat (hp_content_length (x_parser x')) = 175"
proof -
  let ?x = "\<lparr>x_parser = (zero_parser ())\<lparr>hp_flags := F_CHUNKED, hp_content_length := 10\<rparr>, x_p = 1,
       x_ch = CHR ''f'', x_state = s_chunk_size, x_nread = 2, x_mark = (\<lambda>d. None)\<rparr>"
  have c: "is_chunked ?x" by (simp add: is_chunked_def has_flag_def flag_defs)
  have h: "IS_HEX (x_ch ?x)" by (simp add: IS_HEX_def char_in_def LOWER_def)
  have "hex_value (x_ch ?x) = 15" by (simp add: hex_value_def IS_NUMBER_def char_in_def LOWER_def)
  with chunk_size_exact [OF c h] show ?thesis by auto
qed

text \<open>
  The table \<open>unhex\<close> lists 128 entries, so that every byte from 0x80 on counts as the digit 0: a
  chunk whose size line starts with such a byte is accepted, with size 0, although the parser
  has an error code for an invalid character in a chunk size.
\<close>

theorem chunk_size_high_byte:
  assumes "is_chunked x" "x_nread x = 1" "128 \<le> (of_char (x_ch x) :: nat)"
  shows "\<exists>x'. exec_chunk_size_start x = Break x' \<and> x_state x' = s_chunk_size \<and>
    hp_content_length (x_parser x') = 0"
proof -
  have "\<forall>c :: char. 128 \<le> (of_char c :: nat) \<longrightarrow> unhex ! of_char c = 0" by code_simp
  with assms(3) have "unhex ! of_char (x_ch x) = 0" by blast
  with assms(1,2) show ?thesis by (simp add: exec_chunk_size_start_def ASSERT_def)
qed

theorem chunk_size_high_byte_witness:
  "\<exists>x'. exec_chunk_size_start \<lparr>x_parser = (zero_parser ())\<lparr>hp_flags := F_CHUNKED\<rparr>, x_p = 0,
       x_ch = CHR 0xFF, x_state = s_chunk_size_start, x_nread = 1, x_mark = (\<lambda>d. None)\<rparr> = Break x' \<and>
     hp_content_length (x_parser x') = 0"
proof -
  let ?x = "\<lparr>x_parser = (zero_parser ())\<lparr>hp_flags := F_CHUNKED\<rparr>, x_p = 0,
       x_ch = CHR 0xFF, x_state = s_chunk_size_start, x_nread = 1, x_mark = (\<lambda>d. None)\<rparr>"
  have "is_chunked ?x" by (simp add: is_chunked_def has_flag_def flag_defs)
  from chunk_size_high_byte [OF this] show ?thesis by auto
qed

section \<open>Names\<close>

text \<open>
  The tables of names are total and unambiguous: the number of every method and of every error
  code is an index into its table (so that the assertions of \<open>http_errno_name\<close> and
  \<open>http_errno_description\<close> cannot fail), and different methods and different error codes have
  different names.
\<close>

theorem names_total_distinct:
  "http_method_num m < length method_strings \<and> http_errno_num e < length http_strerror_tab \<and>
   (http_method_str (http_method_num m) = http_method_str (http_method_num m') \<longleftrightarrow> m = m') \<and>
   (http_errno_name e = http_errno_name e' \<longleftrightarrow> e = e')"
proof -
  have m: "http_method_num n < 34" for n by (cases n) (simp_all add: http_method_num_def)
  have e: "http_errno_num n < 33" for n by (cases n) (simp_all add: http_errno_num_def)
  have l: "length method_strings = 34" "length http_strerror_tab = 33"
    by (simp_all add: method_strings_def http_strerror_tab_def)
  have d: "distinct method_strings" "distinct (map fst http_strerror_tab)"
    by (simp_all add: method_strings_def http_strerror_tab_def)
  have im: "http_method_num n = http_method_num n' \<Longrightarrow> n = n'" for n n'
    by (cases n) (cases n'; simp add: http_method_num_def)+
  have ie: "http_errno_num n = http_errno_num n' \<Longrightarrow> n = n'" for n n'
    by (cases n) (cases n'; simp add: http_errno_num_def)+
  have "http_method_str (http_method_num n) = method_strings ! http_method_num n" for n
    using m l by (simp add: http_method_str_def)
  then have "http_method_str (http_method_num m) = http_method_str (http_method_num m') \<longleftrightarrow> m = m'"
    using d(1) m l(1) im by (metis nth_eq_iff_index_eq)
  moreover have "http_errno_name e = http_errno_name e' \<longleftrightarrow> e = e'"
    using d(2) e l(2) ie nth_eq_iff_index_eq [OF d(2), of "http_errno_num e" "http_errno_num e'"]
    by (auto simp: http_errno_name_def)
  ultimately show ?thesis using m e l by simp
qed

end
